(* ===== verification/Cash_Prelude.thy ===== *)
theory Cash_Prelude
  imports Main "HOL-Library.Word"
begin

text \<open>
  Shared vocabulary of the development: the byte and machine-word types of the node, the
  result type of fallible code, the collections of simplification rules the component
  theories fill, and the generic facts on lists, bits and division that more than one
  component uses.
\<close>

section \<open>Types\<close>

type_synonym byte = "8 word"
type_synonym bytes = "byte list"
type_synonym u16 = "16 word"
type_synonym u32 = "32 word"
type_synonym u64 = "64 word"
type_synonym uint160 = "160 word"
type_synonym uint256 = "256 word"

text \<open>
  \<open>invar_intros\<close> collects the facts that an operation keeps an invariant,
  \<open>refine_simps\<close> the equations between an operation and its reference definition.
\<close>

named_theorems invar_intros
named_theorems refine_simps

section \<open>Fallible code\<close>

text \<open>
  A computation that may throw or return early is a value of a sum type, the error on the
  left.  \<open>ebind\<close> runs the rest of the computation on the value of a successful one.
\<close>

definition ebind :: "'e + 'a \<Rightarrow> ('a \<Rightarrow> 'e + 'b) \<Rightarrow> 'e + 'b" where
  "ebind m f = (case m of Inl e \<Rightarrow> Inl e | Inr x \<Rightarrow> f x)"

lemma ebind_simps [simp]:
  "ebind (Inl e) f = Inl e"
  "ebind (Inr x) f = f x"
  by (simp_all add: ebind_def)

lemma ebind_eq_Inr: "ebind m f = Inr y \<longleftrightarrow> (\<exists>x. m = Inr x \<and> f x = Inr y)"
  by (cases m) auto

lemma ebind_eq_Inl: "ebind m f = Inl e \<longleftrightarrow> m = Inl e \<or> (\<exists>x. m = Inr x \<and> f x = Inl e)"
  by (cases m) auto

lemma ebind_assoc: "ebind (ebind m f) g = ebind m (\<lambda>x. ebind (f x) g)"
  by (cases m) auto

lemma ebind_cong [fundef_cong]:
  "m = m' \<Longrightarrow> (\<And>x. m' = Inr x \<Longrightarrow> f x = g x) \<Longrightarrow> ebind m f = ebind m' g"
  by (cases m') auto

section \<open>Division by powers of two\<close>

lemma div_pow2_Suc: "(n::nat) div 2 ^ Suc k = n div 2 ^ k div 2"
  by (simp add: div_mult2_eq power_Suc2 del: power_Suc)

lemma bit_nat_iff_odd_div: "bit (n::nat) k \<longleftrightarrow> odd (n div 2 ^ k)"
  by (simp add: bit_iff_odd)

text \<open>Adding one to a number whose lower \<open>k\<close> bits are all set carries into bit \<open>k\<close>.\<close>

lemma Suc_div_pow2:
  assumes "2 ^ k dvd Suc c"
  shows "Suc c div 2 ^ k = Suc (c div 2 ^ k)"
  using assms by (metis div_Suc mod_Suc dvd_imp_mod_0 nat.distinct(2))

lemma dvd_Suc_pow2:
  assumes "2 ^ k dvd (n::nat)" and "even (n div 2 ^ k)"
  shows "2 ^ Suc k dvd n"
proof -
  from assms(1) obtain m where m: "n = 2 ^ k * m" ..
  with assms(2) have "even m" by simp
  with m show ?thesis by (auto elim!: evenE)
qed

lemma even_ge_2: "even (m::nat) \<Longrightarrow> 2 \<le> m \<Longrightarrow> \<exists>j. m = 2 * j + 2"
  by presburger

lemma less_half_pair: "i < m div 2 \<Longrightarrow> 2 * i + 2 \<le> (m::nat)"
  by presburger

lemma even_if_half_pair: "Suc (2 * (m div 2)) < (m::nat) \<Longrightarrow> even m"
  by presburger

lemma odd_half_eq: "Suc (2 * (m div 2)) < Suc (m::nat) \<Longrightarrow> Suc (2 * (m div 2)) = m"
  by presburger

lemma ex_nat_split: "(\<exists>k. Q k) \<longleftrightarrow> Q 0 \<or> (\<exists>k. Q (Suc k))"
  by (metis not0_implies_Suc)

end
