(* ===== verification/Merkle.thy ===== *)
theory Merkle
  imports Cash_Prelude
begin

text \<open>
  The constant-space Merkle root and branch calculator of \<^verbatim>\<open>src/src/consensus/merkle.cpp\<close>.
  The double-SHA256 of two concatenated 32-byte hashes is the parameter \<open>H\<close> of every
  definition: no result here depends on which hash it is, and where a result needs two inputs
  of \<open>H\<close> with one output the colliding inputs are part of its conclusion.

  \<open>count\<close> is a \<^verbatim>\<open>uint32_t\<close>, kept as a natural number with the wrap-around written
  out; \<open>level\<close> indexes the 32 entries of \<open>inner\<close>. Every loop over \<open>level\<close> carries
  the guard \<open>level < 32\<close>: at 32 the C++ shift is undefined.
\<close>

section \<open>The calculator\<close>

record merkle_state =
  ms_inner :: "uint256 list"
  ms_matchlevel :: int
  ms_mutated :: bool
  ms_branch :: "uint256 list"

text \<open>What both upward loops do with the branch and the match flag at one level.\<close>

definition merkle_branch_step :: "bool \<Rightarrow> nat \<Rightarrow> uint256 \<Rightarrow> bool \<Rightarrow> merkle_state \<Rightarrow> bool \<times> merkle_state" where
  "merkle_branch_step pbranch level h matchh st =
     (if \<not> pbranch then (matchh, st)
      else if matchh then (True, st\<lparr>ms_branch := ms_branch st @ [ms_inner st ! level]\<rparr>)
      else if ms_matchlevel st = int level then (True, st\<lparr>ms_branch := ms_branch st @ [h]\<rparr>)
      else (False, st))"

function merkle_carry ::
  "(uint256 \<Rightarrow> uint256 \<Rightarrow> uint256) \<Rightarrow> bool \<Rightarrow> nat \<Rightarrow> nat \<Rightarrow> uint256 \<Rightarrow> bool \<Rightarrow> merkle_state
     \<Rightarrow> nat \<times> uint256 \<times> bool \<times> merkle_state" where
  "merkle_carry H pbranch count level h matchh st =
     (if level < 32 \<and> \<not> bit count level then
        let x = ms_inner st ! level;
            (matchh', st') = merkle_branch_step pbranch level h matchh st
        in merkle_carry H pbranch count (Suc level) (H x h) matchh'
             (st'\<lparr>ms_mutated := ms_mutated st' \<or> x = h\<rparr>)
      else (level, h, matchh, st))"
  by pat_completeness auto
termination
  by (relation "measure (\<lambda>(H, pbranch, count, level, h, matchh, st). 32 - level)") auto

definition merkle_leaf ::
  "(uint256 \<Rightarrow> uint256 \<Rightarrow> uint256) \<Rightarrow> bool \<Rightarrow> nat \<Rightarrow> nat \<Rightarrow> uint256 \<Rightarrow> merkle_state \<Rightarrow> merkle_state" where
  "merkle_leaf H pbranch branchpos count h st =
     (let (level, h', matchh, st') =
            merkle_carry H pbranch (Suc count mod 2 ^ 32) 0 h (count = branchpos) st
      in st'\<lparr>ms_inner := (ms_inner st')[level := h'],
             ms_matchlevel := (if matchh then int level else ms_matchlevel st')\<rparr>)"

primrec merkle_leaves ::
  "(uint256 \<Rightarrow> uint256 \<Rightarrow> uint256) \<Rightarrow> bool \<Rightarrow> nat \<Rightarrow> nat \<Rightarrow> uint256 list \<Rightarrow> merkle_state \<Rightarrow> merkle_state" where
  "merkle_leaves H pbranch branchpos count [] st = st"
| "merkle_leaves H pbranch branchpos count (h # hs) st =
     merkle_leaves H pbranch branchpos (Suc count) hs (merkle_leaf H pbranch branchpos count h st)"

function merkle_skip :: "nat \<Rightarrow> nat \<Rightarrow> nat" where
  "merkle_skip count level =
     (if level < 32 \<and> \<not> bit count level then merkle_skip count (Suc level) else level)"
  by pat_completeness auto
termination
  by (relation "measure (\<lambda>(count, level). 32 - level)") auto

function merkle_propagate ::
  "(uint256 \<Rightarrow> uint256 \<Rightarrow> uint256) \<Rightarrow> bool \<Rightarrow> nat \<Rightarrow> nat \<Rightarrow> uint256 \<Rightarrow> bool \<Rightarrow> merkle_state
     \<Rightarrow> nat \<times> uint256 \<times> bool \<times> merkle_state" where
  "merkle_propagate H pbranch count level h matchh st =
     (if level < 32 \<and> \<not> bit count level then
        let (matchh', st') = merkle_branch_step pbranch level h matchh st
        in merkle_propagate H pbranch count (Suc level) (H (ms_inner st ! level) h) matchh' st'
      else (level, h, matchh, st))"
  by pat_completeness auto
termination
  by (relation "measure (\<lambda>(H, pbranch, count, level, h, matchh, st). 32 - level)") auto

declare merkle_carry.simps [simp del] merkle_skip.simps [simp del] merkle_propagate.simps [simp del]

lemma merkle_propagate_level:
  "merkle_propagate H pbranch count level h matchh st = (level', r) \<Longrightarrow> level \<le> level'"
proof (induction H pbranch count level h matchh st rule: merkle_propagate.induct)
  case (1 H pbranch count level h matchh st)
  then show ?case
    by (subst (asm) (2) merkle_propagate.simps)
      (auto split: if_splits prod.splits dest: Suc_leD)
qed

function merkle_sweep ::
  "(uint256 \<Rightarrow> uint256 \<Rightarrow> uint256) \<Rightarrow> bool \<Rightarrow> nat \<Rightarrow> nat \<Rightarrow> uint256 \<Rightarrow> bool \<Rightarrow> merkle_state
     \<Rightarrow> uint256 \<times> merkle_state" where
  "merkle_sweep H pbranch count level h matchh st =
     (if level < 32 \<and> count \<noteq> 2 ^ level then
        let st1 = (if pbranch \<and> matchh then st\<lparr>ms_branch := ms_branch st @ [h]\<rparr> else st);
            count1 = (count + 2 ^ level) mod 2 ^ 32;
            (level2, h2, matchh2, st2) =
              merkle_propagate H pbranch count1 (Suc level) (H h h) matchh st1
        in merkle_sweep H pbranch count1 level2 h2 matchh2 st2
      else (h, st))"
  by pat_completeness auto
termination
proof (relation "measure (\<lambda>(H, pbranch, count, level, h, matchh, st). 32 - level)", goal_cases)
  case 1
  show ?case by simp
next
  case (2 H pbranch count level h matchh st st1 count1 p level2 q h2 r matchh2 st2)
  then have "merkle_propagate H pbranch count1 (Suc level) (H h h) matchh st1 = (level2, h2, matchh2, st2)"
    by simp
  then have "Suc level \<le> level2" by (rule merkle_propagate_level)
  with 2(1) show ?case by auto
qed

declare merkle_sweep.simps [simp del]

definition merkle_init :: merkle_state where
  "merkle_init = \<lparr>ms_inner = replicate 32 0, ms_matchlevel = -1, ms_mutated = False, ms_branch = []\<rparr>"

definition MerkleComputation ::
  "(uint256 \<Rightarrow> uint256 \<Rightarrow> uint256) \<Rightarrow> bool \<Rightarrow> nat \<Rightarrow> uint256 list \<Rightarrow> uint256 \<times> bool \<times> uint256 list" where
  "MerkleComputation H pbranch branchpos leaves =
     (if leaves = [] then (0, False, [])
      else
        let st = merkle_leaves H pbranch branchpos 0 leaves merkle_init;
            count = length leaves mod 2 ^ 32;
            level = merkle_skip count 0;
            (h, st') = merkle_sweep H pbranch count level (ms_inner st ! level)
                         (ms_matchlevel st = int level) st
        in (h, ms_mutated st, ms_branch st'))"

definition ComputeMerkleRoot :: "(uint256 \<Rightarrow> uint256 \<Rightarrow> uint256) \<Rightarrow> uint256 list \<Rightarrow> uint256 \<times> bool" where
  "ComputeMerkleRoot H leaves =
     (let (root, mutated, _) = MerkleComputation H False (2 ^ 32 - 1) leaves in (root, mutated))"

definition ComputeMerkleBranch :: "(uint256 \<Rightarrow> uint256 \<Rightarrow> uint256) \<Rightarrow> uint256 list \<Rightarrow> nat \<Rightarrow> uint256 list" where
  "ComputeMerkleBranch H leaves position =
     (let (_, _, branch) = MerkleComputation H True position leaves in branch)"

primrec ComputeMerkleRootFromBranch ::
  "(uint256 \<Rightarrow> uint256 \<Rightarrow> uint256) \<Rightarrow> uint256 \<Rightarrow> uint256 list \<Rightarrow> nat \<Rightarrow> uint256" where
  "ComputeMerkleRootFromBranch H hash [] nIndex = hash"
| "ComputeMerkleRootFromBranch H hash (b # bs) nIndex =
     ComputeMerkleRootFromBranch H (if odd nIndex then H b hash else H hash b) bs (nIndex div 2)"

definition BlockMerkleRoot ::
  "(uint256 \<Rightarrow> uint256 \<Rightarrow> uint256) \<Rightarrow> ('tx \<Rightarrow> uint256) \<Rightarrow> 'tx list \<Rightarrow> uint256 \<times> bool" where
  "BlockMerkleRoot H GetHash vtx = ComputeMerkleRoot H (map GetHash vtx)"

definition BlockMerkleBranch ::
  "(uint256 \<Rightarrow> uint256 \<Rightarrow> uint256) \<Rightarrow> ('tx \<Rightarrow> uint256) \<Rightarrow> 'tx list \<Rightarrow> nat \<Rightarrow> uint256 list" where
  "BlockMerkleBranch H GetHash vtx position = ComputeMerkleBranch H (map GetHash vtx) position"

section \<open>The reference tree\<close>

text \<open>
  One level is folded into the next by hashing neighbours, an odd last entry with itself; the
  root is what is left when one entry remains.
\<close>

fun merkle_pairs :: "(uint256 \<Rightarrow> uint256 \<Rightarrow> uint256) \<Rightarrow> uint256 list \<Rightarrow> uint256 list" where
  "merkle_pairs H [] = []"
| "merkle_pairs H [a] = [H a a]"
| "merkle_pairs H (a # b # xs) = H a b # merkle_pairs H xs"

primrec merkle_level :: "(uint256 \<Rightarrow> uint256 \<Rightarrow> uint256) \<Rightarrow> uint256 list \<Rightarrow> nat \<Rightarrow> uint256 list" where
  "merkle_level H xs 0 = xs"
| "merkle_level H xs (Suc k) = merkle_pairs H (merkle_level H xs k)"

lemma length_merkle_pairs [simp]: "length (merkle_pairs H xs) = Suc (length xs) div 2"
  by (induction H xs rule: merkle_pairs.induct) auto

function merkle_root :: "(uint256 \<Rightarrow> uint256 \<Rightarrow> uint256) \<Rightarrow> uint256 list \<Rightarrow> uint256" where
  "merkle_root H xs =
     (if xs = [] then 0 else if length xs = 1 then hd xs else merkle_root H (merkle_pairs H xs))"
  by pat_completeness auto
termination
proof (relation "measure (\<lambda>(H, xs). length xs)", goal_cases)
  case 1
  show ?case by simp
next
  case (2 H xs)
  then have "length xs > 1" by (cases xs) auto
  then have "Suc (length xs) div 2 < length xs" by presburger
  then show ?case by simp
qed

declare merkle_root.simps [simp del]


lemma nth_merkle_pairs:
  "i < length (merkle_pairs H xs) \<Longrightarrow>
   merkle_pairs H xs ! i =
     (if Suc (2 * i) < length xs then H (xs ! (2 * i)) (xs ! Suc (2 * i)) else H (xs ! (2 * i)) (xs ! (2 * i)))"
proof (induction H xs arbitrary: i rule: merkle_pairs.induct)
  case (3 H a b xs)
  then show ?case by (cases i) auto
qed auto

lemma length_merkle_level:
  "length (merkle_level H xs k) =
     (if 2 ^ k dvd length xs then length xs div 2 ^ k else Suc (length xs div 2 ^ k))"
proof (induction k)
  case 0
  show ?case by simp
next
  case (Suc k)
  let ?m = "length xs div 2 ^ k"
  have split: "2 ^ Suc k dvd length xs \<longleftrightarrow> 2 ^ k dvd length xs \<and> even ?m"
    by (metis dvd_Suc_pow2 dvd_div_iff_mult dvd_mult_right mult.commute power_Suc power_not_zero
        zero_neq_numeral)
  show ?case
    by (cases "even ?m") (auto simp: Suc split div_pow2_Suc elim!: evenE oddE simp del: power_Suc)
qed

lemma merkle_level_nonempty: "xs \<noteq> [] \<Longrightarrow> merkle_level H xs k \<noteq> []"
proof (induction k)
  case (Suc k)
  then have "length (merkle_level H xs k) > 0" by simp
  then have "length (merkle_pairs H (merkle_level H xs k)) > 0" by simp
  then show ?case by (metis length_greater_0_conv merkle_level.simps(2))
qed simp

text \<open>A complete subtree is a node of the reference tree, built from two complete halves.\<close>

lemma merkle_level_complete:
  assumes "2 * j + 2 \<le> length xs div 2 ^ k"
  shows "merkle_level H xs (Suc k) ! j = H (merkle_level H xs k ! (2 * j)) (merkle_level H xs k ! Suc (2 * j))"
proof -
  have "length xs div 2 ^ k \<le> length (merkle_level H xs k)"
    by (simp add: length_merkle_level)
  with assms have len: "2 * j + 2 \<le> length (merkle_level H xs k)" by simp
  then have "j < length (merkle_pairs H (merkle_level H xs k))" by simp
  from nth_merkle_pairs [OF this] len show ?thesis by simp
qed

lemma merkle_level_shift: "merkle_level H xs (Suc k) = merkle_level H (merkle_pairs H xs) k"
  by (induction k) auto

lemma merkle_root_level:
  assumes "xs \<noteq> []" and "length (merkle_level H xs k) = 1"
    and "\<And>j. j < k \<Longrightarrow> length (merkle_level H xs j) \<noteq> 1"
  shows "merkle_root H xs = hd (merkle_level H xs k)"
  using assms
proof (induction k arbitrary: xs)
  case 0
  then show ?case by (subst merkle_root.simps) auto
next
  case (Suc k)
  have ne: "merkle_pairs H xs \<noteq> []"
    using merkle_level_nonempty [OF Suc.prems(1), of H 1] by simp
  have "merkle_root H (merkle_pairs H xs) = hd (merkle_level H (merkle_pairs H xs) k)"
  proof (rule Suc.IH [OF ne])
    show "length (merkle_level H (merkle_pairs H xs) k) = 1"
      using Suc.prems(2) by (simp only: merkle_level_shift)
    show "length (merkle_level H (merkle_pairs H xs) j) \<noteq> 1" if "j < k" for j
      using Suc.prems(3) [of "Suc j"] that by (simp only: merkle_level_shift Suc_less_eq) blast
  qed
  moreover have "length xs \<noteq> 1" using Suc.prems(3) [of 0] by simp
  ultimately show ?case
    using Suc.prems(1) by (simp only: merkle_level_shift merkle_root.simps [of H xs] if_False)
qed

section \<open>The calculator computes the reference tree\<close>

text \<open>
  After \<open>c\<close> leaves, \<open>inner\<close> holds at every set bit \<open>k\<close> of \<open>c\<close> the last complete
  node of level \<open>k\<close>.
\<close>

definition inner_inv :: "(uint256 \<Rightarrow> uint256 \<Rightarrow> uint256) \<Rightarrow> uint256 list \<Rightarrow> nat \<Rightarrow> uint256 list \<Rightarrow> bool" where
  "inner_inv H xs c inner \<longleftrightarrow> length inner = 32 \<and>
     (\<forall>k < 32. bit c k \<longrightarrow> inner ! k = merkle_level H xs k ! (c div 2 ^ k - 1))"

text \<open>The pairs of equal complete neighbours among the first \<open>c\<close> leaves.\<close>

definition equal_pair :: "(uint256 \<Rightarrow> uint256 \<Rightarrow> uint256) \<Rightarrow> uint256 list \<Rightarrow> nat \<Rightarrow> nat \<Rightarrow> bool" where
  "equal_pair H xs k j \<longleftrightarrow> merkle_level H xs k ! (2 * j) = merkle_level H xs k ! Suc (2 * j)"

text \<open>The sibling hash of the node over \<open>pos\<close> at level \<open>k\<close>: its neighbour, or itself at an odd end.\<close>

definition merkle_sibling :: "(uint256 \<Rightarrow> uint256 \<Rightarrow> uint256) \<Rightarrow> uint256 list \<Rightarrow> nat \<Rightarrow> nat \<Rightarrow> uint256" where
  "merkle_sibling H xs pos k =
     (let i = pos div 2 ^ k; l = merkle_level H xs k
      in if odd i then l ! (i - 1) else if Suc i < length l then l ! Suc i else l ! i)"

text \<open>
  With the node at index \<open>m - 1\<close> of level \<open>k\<close> in hand (\<open>m\<close> even, complete), one step up.
\<close>

lemma complete_step:
  assumes "m = Suc c div 2 ^ k" and "even m" and "2 ^ k dvd Suc c" and "Suc c \<le> length xs"
  shows "merkle_level H xs (Suc k) ! (Suc c div 2 ^ Suc k - 1) =
           H (merkle_level H xs k ! (c div 2 ^ k - 1)) (merkle_level H xs k ! (m - 1))"
    and "odd (c div 2 ^ k)" and "m \<ge> 2" and "m = Suc (c div 2 ^ k)"
proof -
  show mc: "m = Suc (c div 2 ^ k)" using assms(1,3) by (simp add: Suc_div_pow2)
  with assms(2) show odd: "odd (c div 2 ^ k)" by simp
  from mc odd show m2: "m \<ge> 2" by (cases "c div 2 ^ k") auto
  then obtain j where j: "m = 2 * j + 2" using even_ge_2 [OF assms(2)] by blast
  have "m \<le> length xs div 2 ^ k" using assms(1,4) by (simp add: div_le_mono)
  with j have "merkle_level H xs (Suc k) ! j =
      H (merkle_level H xs k ! (2 * j)) (merkle_level H xs k ! Suc (2 * j))"
    by (intro merkle_level_complete) simp
  moreover have "Suc c div 2 ^ Suc k - 1 = j" using assms(1) j by (simp add: div_pow2_Suc del: power_Suc)
  moreover have "c div 2 ^ k - 1 = 2 * j" and "m - 1 = Suc (2 * j)" using mc j by simp_all
  ultimately show "merkle_level H xs (Suc k) ! (Suc c div 2 ^ Suc k - 1) =
           H (merkle_level H xs k ! (c div 2 ^ k - 1)) (merkle_level H xs k ! (m - 1))"
    by (simp only:)
qed

text \<open>The levels a carry into \<open>Suc c\<close> passes, and those above it that it leaves alone.\<close>

lemma carry_stop:
  assumes "2 ^ l dvd Suc c" and "bit (Suc c) l"
  shows "k > l \<Longrightarrow> Suc c div 2 ^ k = c div 2 ^ k"
    and "k < l \<Longrightarrow> \<not> bit (Suc c) k"
    and "\<not> bit c l"
    and "2 ^ k dvd Suc c \<Longrightarrow> even (Suc c div 2 ^ k) \<Longrightarrow> k < l"
proof -
  have nd: "\<not> 2 ^ Suc l dvd Suc c"
    using assms by (metis bit_nat_iff_odd_div dvd_div_iff_mult mult.commute power_Suc power_not_zero zero_neq_numeral)
  show "Suc c div 2 ^ k = c div 2 ^ k" if "k > l"
  proof -
    from that have "(2::nat) ^ Suc l dvd 2 ^ k" by (intro le_imp_power_dvd) simp
    with nd have "\<not> 2 ^ k dvd Suc c" using dvd_trans by blast
    then show ?thesis by (metis div_Suc mod_Suc mod_eq_0_iff_dvd)
  qed
  show "\<not> bit (Suc c) k" if "k < l"
  proof -
    from that have "(2::nat) ^ Suc k dvd 2 ^ l" by (intro le_imp_power_dvd) simp
    with assms(1) have "2 ^ Suc k dvd Suc c" using dvd_trans by blast
    then have "even (Suc c div 2 ^ k)"
      by (metis dvd_div_iff_mult dvd_mult_right mult.commute power_Suc power_not_zero zero_neq_numeral)
    then show ?thesis by (simp add: bit_nat_iff_odd_div)
  qed
  show "\<not> bit c l"
    using assms by (simp add: bit_nat_iff_odd_div Suc_div_pow2)
  show "k < l" if "2 ^ k dvd Suc c" and "even (Suc c div 2 ^ k)"
  proof (rule ccontr)
    assume "\<not> k < l"
    then have "(2::nat) ^ Suc l dvd 2 ^ Suc k" by (intro le_imp_power_dvd) simp
    with dvd_Suc_pow2 [OF that] nd show False using dvd_trans by blast
  qed
qed

text \<open>Whether some two complete neighbours among the first \<open>c\<close> leaves have one hash.\<close>

definition mutated_upto :: "(uint256 \<Rightarrow> uint256 \<Rightarrow> uint256) \<Rightarrow> uint256 list \<Rightarrow> nat \<Rightarrow> bool" where
  "mutated_upto H xs c \<longleftrightarrow> (\<exists>k j. 2 * j + 2 \<le> c div 2 ^ k \<and> equal_pair H xs k j)"

text \<open>
  Where the branch stands between leaves: nothing before the matching leaf; afterwards the
  siblings below the complete subtree that holds it.
\<close>

definition branch_inv :: "(uint256 \<Rightarrow> uint256 \<Rightarrow> uint256) \<Rightarrow> uint256 list \<Rightarrow> nat \<Rightarrow> nat \<Rightarrow> nat \<Rightarrow> merkle_state \<Rightarrow> bool" where
  "branch_inv H xs pos c level st \<longleftrightarrow>
     (if pos < c then
        \<exists>l. level \<le> l \<and> l < 32 \<and> ms_matchlevel st = int l \<and> bit c l \<and> pos div 2 ^ l = c div 2 ^ l - 1 \<and>
            ms_branch st = map (merkle_sibling H xs pos) [0..<l]
      else ms_matchlevel st = -1 \<and> ms_branch st = [])"

definition carry_inv ::
  "(uint256 \<Rightarrow> uint256 \<Rightarrow> uint256) \<Rightarrow> uint256 list \<Rightarrow> bool \<Rightarrow> nat \<Rightarrow> nat \<Rightarrow> nat \<Rightarrow> uint256 \<Rightarrow> bool \<Rightarrow> merkle_state \<Rightarrow> bool" where
  "carry_inv H xs pbranch pos c level h matchh st \<longleftrightarrow>
     2 ^ level dvd Suc c \<and> h = merkle_level H xs level ! (Suc c div 2 ^ level - 1) \<and>
     inner_inv H xs c (ms_inner st) \<and>
     (ms_mutated st \<longleftrightarrow> mutated_upto H xs c \<or> (\<exists>k < level. equal_pair H xs k (Suc c div 2 ^ k div 2 - 1))) \<and>
     (pbranch \<longrightarrow>
        (if matchh then pos \<le> c \<and> pos div 2 ^ level = Suc c div 2 ^ level - 1 \<and>
           ms_branch st = map (merkle_sibling H xs pos) [0..<level]
         else pos \<noteq> c \<and> branch_inv H xs pos c level st))"

lemma carry_inv_step:
  assumes inv: "carry_inv H xs pbranch pos c level h matchh st"
    and lt: "level < 32" and nb: "\<not> bit (Suc c) level" and len: "Suc c \<le> length xs"
    and step: "merkle_branch_step pbranch level h matchh st = (matchh', st')"
  shows "carry_inv H xs pbranch pos c (Suc level) (H (ms_inner st ! level) h) matchh'
           (st'\<lparr>ms_mutated := ms_mutated st' \<or> ms_inner st ! level = h\<rparr>)"
proof -
  let ?m = "Suc c div 2 ^ level" and ?l = "merkle_level H xs level"
  have ev: "even ?m" using nb by (simp add: bit_nat_iff_odd_div)
  have dvd: "2 ^ level dvd Suc c" and h: "h = ?l ! (?m - 1)" and inner: "inner_inv H xs c (ms_inner st)"
    using inv by (simp_all add: carry_inv_def)
  note up = complete_step [OF refl ev dvd len]
  have il: "ms_inner st ! level = ?l ! (c div 2 ^ level - 1)"
    using inner up(2) lt by (simp add: inner_inv_def bit_nat_iff_odd_div)
  obtain j where j: "?m = 2 * j + 2"
    using even_ge_2 [OF ev up(3)] by blast
  have cj: "c div 2 ^ level - 1 = 2 * j" and mj: "?m - 1 = Suc (2 * j)" and j2: "?m div 2 - 1 = j"
    using j up(4) by simp_all
  have eq: "ms_inner st ! level = h \<longleftrightarrow> equal_pair H xs level (?m div 2 - 1)"
    unfolding equal_pair_def il h cj mj j2 ..
  have "?m \<le> length xs div 2 ^ level" using len by (simp add: div_le_mono)
  then have ll: "2 * j + 2 \<le> length ?l" using j by (simp add: length_merkle_level)
  have same: "ms_inner st' = ms_inner st" "ms_mutated st' = ms_mutated st" "ms_matchlevel st' = ms_matchlevel st"
    using step by (auto simp: merkle_branch_step_def split: if_splits)
  have half: "Suc c div 2 ^ Suc level - 1 = j" using j2 by (simp add: div_pow2_Suc del: power_Suc)
  have br: "if matchh' then pos \<le> c \<and> pos div 2 ^ Suc level = Suc c div 2 ^ Suc level - 1 \<and>
           ms_branch st' = map (merkle_sibling H xs pos) [0..<Suc level]
         else pos \<noteq> c \<and> branch_inv H xs pos c (Suc level) st'" if pbranch
  proof (cases matchh)
    case True
    then have "pos \<le> c" and pos: "pos div 2 ^ level = Suc (2 * j)" and "ms_branch st = map (merkle_sibling H xs pos) [0..<level]"
      using inv that mj by (auto simp: carry_inv_def)
    moreover have "merkle_sibling H xs pos level = ms_inner st ! level"
      using pos il cj by (simp add: merkle_sibling_def)
    ultimately show ?thesis
      using step True that half by (auto simp: merkle_branch_step_def div_pow2_Suc simp del: power_Suc)
  next
    case False
    then have ne: "pos \<noteq> c" and bi: "branch_inv H xs pos c level st"
      using inv that by (auto simp: carry_inv_def)
    show ?thesis
    proof (cases "ms_matchlevel st = int level")
      case True
      then have "pos < c" and pos: "pos div 2 ^ level = 2 * j" and "ms_branch st = map (merkle_sibling H xs pos) [0..<level]"
        using bi cj by (auto simp: branch_inv_def split: if_splits)
      moreover have "merkle_sibling H xs pos level = h"
        using pos ll h mj by (simp add: merkle_sibling_def)
      ultimately show ?thesis
        using step True False that half by (auto simp: merkle_branch_step_def div_pow2_Suc simp del: power_Suc)
    next
      case neq: False
      with step False that have "matchh' = False" and "st' = st" by (auto simp: merkle_branch_step_def)
      moreover have "branch_inv H xs pos c (Suc level) st"
        using bi neq by (fastforce simp: branch_inv_def Suc_le_eq order_le_less split: if_splits)
      ultimately show ?thesis using ne by simp
    qed
  qed
  have "ms_mutated st \<or> ms_inner st ! level = h \<longleftrightarrow>
      mutated_upto H xs c \<or> (\<exists>k < Suc level. equal_pair H xs k (Suc c div 2 ^ k div 2 - 1))"
    using inv eq by (auto simp: carry_inv_def less_Suc_eq)
  then show ?thesis
    using dvd_Suc_pow2 [OF dvd ev] up(1) il h inner same br
    by (auto simp: carry_inv_def branch_inv_def simp del: power_Suc upt_Suc split: if_splits)
qed

lemma carry_level_lt:
  assumes "2 ^ level dvd Suc c" and "Suc c < 2 ^ 32"
  shows "level < 32"
proof -
  from assms have "(2::nat) ^ level \<le> Suc c" by (simp add: dvd_imp_le)
  with assms(2) have "(2::nat) ^ level < 2 ^ 32" by linarith
  then show ?thesis by (rule power_less_imp_less_exp [rotated]) simp
qed

lemma merkle_carry_inv:
  assumes "carry_inv H xs pbranch pos c level h matchh st"
    and "Suc c \<le> length xs" and "Suc c < 2 ^ 32"
    and "merkle_carry H pbranch (Suc c) level h matchh st = (level', h', matchh', st')"
  shows "carry_inv H xs pbranch pos c level' h' matchh' st' \<and> level' < 32 \<and> bit (Suc c) level'"
  using assms
proof (induction H pbranch "Suc c" level h matchh st rule: merkle_carry.induct)
  case (1 H pbranch level h matchh st)
  have lt: "level < 32" using 1(2,4) by (auto simp: carry_inv_def intro: carry_level_lt)
  show ?case
  proof (cases "bit (Suc c) level")
    case True
    with 1(2,5) lt show ?thesis by (simp add: merkle_carry.simps [of H pbranch "Suc c" level])
  next
    case False
    obtain mh2 st2 where s: "merkle_branch_step pbranch level h matchh st = (mh2, st2)" by fastforce
    have "merkle_carry H pbranch (Suc c) (Suc level) (H (ms_inner st ! level) h) mh2
            (st2\<lparr>ms_mutated := ms_mutated st2 \<or> ms_inner st ! level = h\<rparr>) = (level', h', matchh', st')"
      using 1(5) False lt s by (simp add: merkle_carry.simps [of H pbranch "Suc c" level] Let_def)
    from 1(1) [OF _ refl s [symmetric] refl carry_inv_step [OF 1(2) lt False 1(3) s] 1(3,4) this]
    show ?thesis using False lt by simp
  qed
qed

definition leaves_inv ::
  "(uint256 \<Rightarrow> uint256 \<Rightarrow> uint256) \<Rightarrow> uint256 list \<Rightarrow> bool \<Rightarrow> nat \<Rightarrow> nat \<Rightarrow> merkle_state \<Rightarrow> bool" where
  "leaves_inv H xs pbranch pos c st \<longleftrightarrow>
     inner_inv H xs c (ms_inner st) \<and> (ms_mutated st \<longleftrightarrow> mutated_upto H xs c) \<and>
     (pbranch \<longrightarrow> branch_inv H xs pos c 0 st)"

lemma leaves_inv_init: "leaves_inv H xs pbranch pos 0 merkle_init"
  by (simp add: leaves_inv_def merkle_init_def inner_inv_def mutated_upto_def branch_inv_def)

lemma mutated_upto_Suc:
  assumes "2 ^ l dvd Suc c" and "bit (Suc c) l"
  shows "mutated_upto H xs (Suc c) \<longleftrightarrow>
           mutated_upto H xs c \<or> (\<exists>k < l. equal_pair H xs k (Suc c div 2 ^ k div 2 - 1))"
proof
  assume "mutated_upto H xs (Suc c)"
  then obtain k j where kj: "2 * j + 2 \<le> Suc c div 2 ^ k" and eq: "equal_pair H xs k j"
    by (auto simp: mutated_upto_def)
  show "mutated_upto H xs c \<or> (\<exists>k < l. equal_pair H xs k (Suc c div 2 ^ k div 2 - 1))"
  proof (cases "2 * j + 2 \<le> c div 2 ^ k")
    case True
    with eq show ?thesis by (auto simp: mutated_upto_def)
  next
    case False
    with kj have "Suc c div 2 ^ k \<noteq> c div 2 ^ k" by auto
    then have dvd: "2 ^ k dvd Suc c" by (metis div_Suc mod_Suc mod_eq_0_iff_dvd)
    with False kj have q: "Suc c div 2 ^ k = 2 * j + 2" by (simp add: Suc_div_pow2)
    with carry_stop(4) [OF assms dvd] have "k < l" by simp
    with q eq show ?thesis by auto
  qed
next
  assume "mutated_upto H xs c \<or> (\<exists>k < l. equal_pair H xs k (Suc c div 2 ^ k div 2 - 1))"
  then show "mutated_upto H xs (Suc c)"
  proof
    assume "mutated_upto H xs c"
    moreover have "c div 2 ^ k \<le> Suc c div 2 ^ k" for k by (simp add: div_le_mono)
    ultimately show ?thesis unfolding mutated_upto_def by (meson order_trans)
  next
    assume "\<exists>k < l. equal_pair H xs k (Suc c div 2 ^ k div 2 - 1)"
    then obtain k where k: "k < l" "equal_pair H xs k (Suc c div 2 ^ k div 2 - 1)" by blast
    have "2 ^ k \<le> Suc c" using k(1) assms(1)
      by (meson dvd_imp_le dvd_trans le_imp_power_dvd less_imp_le zero_less_Suc)
    then have "Suc c div 2 ^ k > 0" by (simp add: div_greater_zero_iff)
    moreover have "even (Suc c div 2 ^ k)" using carry_stop(2) [OF assms k(1)] by (simp add: bit_nat_iff_odd_div)
    ultimately have "2 * (Suc c div 2 ^ k div 2 - 1) + 2 \<le> Suc c div 2 ^ k" by (auto elim!: evenE)
    with k(2) show ?thesis unfolding mutated_upto_def by blast
  qed
qed

lemma leaves_inv_leaf:
  assumes inv: "leaves_inv H xs pbranch pos c st" and c: "c < length xs" "Suc c < 2 ^ 32"
  shows "leaves_inv H xs pbranch pos (Suc c) (merkle_leaf H pbranch pos c (xs ! c) st)"
proof -
  have start: "carry_inv H xs pbranch pos c 0 (xs ! c) (c = pos) st"
    using inv by (auto simp: carry_inv_def leaves_inv_def branch_inv_def)
  obtain l h mh st' where run: "merkle_carry H pbranch (Suc c) 0 (xs ! c) (c = pos) st = (l, h, mh, st')"
    by (metis prod_cases4)
  have fin: "carry_inv H xs pbranch pos c l h mh st'" and l: "l < 32" "bit (Suc c) l"
    using merkle_carry_inv [OF start _ c(2) run] c(1) by auto
  have dvd: "2 ^ l dvd Suc c" and h: "h = merkle_level H xs l ! (Suc c div 2 ^ l - 1)"
    and inner: "inner_inv H xs c (ms_inner st')"
    using fin by (simp_all add: carry_inv_def)
  note stop = carry_stop [OF dvd l(2)]
  let ?st = "st'\<lparr>ms_inner := (ms_inner st')[l := h], ms_matchlevel := (if mh then int l else ms_matchlevel st')\<rparr>"
  have inner': "inner_inv H xs (Suc c) (ms_inner ?st)"
  proof -
    have "(ms_inner st')[l := h] ! k = merkle_level H xs k ! (Suc c div 2 ^ k - 1)"
      if k: "k < 32" "bit (Suc c) k" for k
    proof (cases "k = l")
      case True
      with inner l(1) h show ?thesis by (simp add: inner_inv_def)
    next
      case False
      with k(2) stop(2) have "k > l" by (metis linorder_neqE_nat)
      with stop(1) have "Suc c div 2 ^ k = c div 2 ^ k" by simp
      with k inner False show ?thesis by (simp add: inner_inv_def bit_nat_iff_odd_div)
    qed
    with inner show ?thesis by (simp add: inner_inv_def)
  qed
  have "branch_inv H xs pos (Suc c) 0 ?st" if pbranch
  proof (cases mh)
    case True
    with fin that l show ?thesis by (auto simp: carry_inv_def branch_inv_def)
  next
    case False
    with fin that have "pos \<noteq> c" and bi: "branch_inv H xs pos c l st'" by (auto simp: carry_inv_def)
    show ?thesis
    proof (cases "pos < c")
      case True
      with bi obtain l2 where l2: "l \<le> l2" "l2 < 32" "ms_matchlevel st' = int l2" "bit c l2"
          "pos div 2 ^ l2 = c div 2 ^ l2 - 1" "ms_branch st' = map (merkle_sibling H xs pos) [0..<l2]"
        by (auto simp: branch_inv_def)
      with stop(3) have "l2 > l" by (metis le_neq_implies_less)
      with stop(1) have "Suc c div 2 ^ l2 = c div 2 ^ l2" by simp
      with l2 True False show ?thesis by (auto simp: branch_inv_def bit_nat_iff_odd_div)
    next
      case F: False
      with bi \<open>pos \<noteq> c\<close> False show ?thesis by (auto simp: branch_inv_def)
    qed
  qed
  then have "leaves_inv H xs pbranch pos (Suc c) ?st"
    using inner' fin mutated_upto_Suc [OF dvd l(2), of H xs] by (simp add: leaves_inv_def carry_inv_def)
  then show ?thesis using run c(2) by (simp add: merkle_leaf_def)
qed

lemma merkle_leaves_inv:
  assumes "leaves_inv H xs pbranch pos c st" and "length xs < 2 ^ 32" and "c \<le> length xs"
  shows "leaves_inv H xs pbranch pos (length xs) (merkle_leaves H pbranch pos c (drop c xs) st)"
  using assms
proof (induction "length xs - c" arbitrary: c st)
  case 0
  then show ?case by simp
next
  case (Suc d)
  then have c: "c < length xs" by simp
  then have "drop c xs = xs ! c # drop (Suc c) xs" by (simp add: Cons_nth_drop_Suc)
  moreover have "leaves_inv H xs pbranch pos (Suc c) (merkle_leaf H pbranch pos c (xs ! c) st)"
    using Suc.prems c by (intro leaves_inv_leaf) simp_all
  ultimately show ?case using Suc.hyps c Suc.prems(2) by simp
qed

subsection \<open>The final sweep\<close>

text \<open>
  In the sweep \<open>count\<close> is the number of leaves rounded up to a multiple of \<open>2 ^ level\<close> and
  \<open>h\<close> the last node of the level.
\<close>

definition sweep_inv ::
  "(uint256 \<Rightarrow> uint256 \<Rightarrow> uint256) \<Rightarrow> uint256 list \<Rightarrow> bool \<Rightarrow> nat \<Rightarrow> nat \<Rightarrow> nat \<Rightarrow> nat \<Rightarrow> uint256 \<Rightarrow> bool \<Rightarrow> merkle_state \<Rightarrow> bool" where
  "sweep_inv H xs pbranch pos next count level h matchh st \<longleftrightarrow>
     count = length (merkle_level H xs level) * 2 ^ level \<and>
     h = merkle_level H xs level ! (length (merkle_level H xs level) - 1) \<and>
     inner_inv H xs (length xs) (ms_inner st) \<and>
     (\<forall>j < level. length (merkle_level H xs j) \<noteq> 1) \<and>
     (pbranch \<and> pos < length xs \<longrightarrow>
        (if matchh then pos div 2 ^ level = length (merkle_level H xs level) - 1 \<and>
           ms_branch st = map (merkle_sibling H xs pos) [0..<level]
         else branch_inv H xs pos (length xs) next st))"

lemma level_count_bound:
  assumes "length xs \<le> 2 ^ 31" and "level < 32"
  shows "length (merkle_level H xs level) * 2 ^ level \<le> 2 ^ 31"
proof -
  have "level + (31 - level) = 31" using assms(2) by simp
  then obtain d where d: "(2::nat) ^ 31 = 2 ^ level * 2 ^ d" by (metis power_add)
  show ?thesis
  proof (cases "2 ^ level dvd length xs")
    case True
    with assms(1) show ?thesis by (simp add: length_merkle_level)
  next
    case False
    have "length xs div 2 ^ level < 2 ^ d"
    proof (rule ccontr)
      assume "\<not> ?thesis"
      then have "2 ^ level * 2 ^ d \<le> 2 ^ level * (length xs div 2 ^ level)" by simp
      also have "\<dots> \<le> length xs" by simp
      finally have "length xs = 2 ^ level * 2 ^ d" using assms(1) d by linarith
      with False show False by simp
    qed
    then have "Suc (length xs div 2 ^ level) * 2 ^ level \<le> 2 ^ d * 2 ^ level" by (intro mult_le_mono1) simp
    with False d show ?thesis by (simp add: length_merkle_level mult.commute [of "2 ^ d"])
  qed
qed

lemma bit_mult_pow2: "bit (m * 2 ^ k :: nat) k \<longleftrightarrow> odd m"
  by (simp add: bit_nat_iff_odd_div)

lemma sweep_inv_propagate_step:
  assumes inv: "sweep_inv H xs pbranch pos level count level h matchh st"
    and lt: "level < 32" and nb: "\<not> bit count level" and nd: "\<not> 2 ^ level dvd length xs"
    and step: "merkle_branch_step pbranch level h matchh st = (matchh', st')"
  shows "sweep_inv H xs pbranch pos (Suc level) count (Suc level) (H (ms_inner st ! level) h) matchh' st'"
proof -
  let ?l = "merkle_level H xs level"
  have count: "count = length ?l * 2 ^ level" and h: "h = ?l ! (length ?l - 1)"
    and inner: "inner_inv H xs (length xs) (ms_inner st)"
    using inv by (simp_all add: sweep_inv_def)
  have ev: "even (length ?l)" using nb count bit_mult_pow2 by blast
  have len: "length ?l = Suc (length xs div 2 ^ level)" using nd by (simp add: length_merkle_level)
  then obtain j where j: "length ?l = 2 * j + 2" using even_ge_2 [OF ev] ev by (cases "length xs div 2 ^ level") auto
  have nj: "length xs div 2 ^ level = Suc (2 * j)" using j len by simp
  have il: "ms_inner st ! level = ?l ! (2 * j)"
    using inner lt nj by (simp add: inner_inv_def bit_nat_iff_odd_div)
  have len': "length (merkle_level H xs (Suc level)) = Suc j" using j by simp
  have h': "H (ms_inner st ! level) h = merkle_level H xs (Suc level) ! j"
    using nth_merkle_pairs [of j H ?l] j il h by simp
  have same: "ms_inner st' = ms_inner st" "ms_matchlevel st' = ms_matchlevel st"
    using step by (auto simp: merkle_branch_step_def split: if_splits)
  have br: "if matchh' then pos div 2 ^ Suc level = j \<and> ms_branch st' = map (merkle_sibling H xs pos) [0..<Suc level]
         else branch_inv H xs pos (length xs) (Suc level) st'" if b: "pbranch \<and> pos < length xs"
  proof (cases matchh)
    case True
    then have pos: "pos div 2 ^ level = Suc (2 * j)" and "ms_branch st = map (merkle_sibling H xs pos) [0..<level]"
      using inv b j by (auto simp: sweep_inv_def)
    moreover have "merkle_sibling H xs pos level = ms_inner st ! level" using pos il by (simp add: merkle_sibling_def)
    ultimately show ?thesis
      using step True b by (auto simp: merkle_branch_step_def div_pow2_Suc simp del: power_Suc)
  next
    case False
    then have bi: "branch_inv H xs pos (length xs) level st" using inv b by (simp add: sweep_inv_def)
    show ?thesis
    proof (cases "ms_matchlevel st = int level")
      case True
      then have pos: "pos div 2 ^ level = 2 * j" and "ms_branch st = map (merkle_sibling H xs pos) [0..<level]"
        using bi b nj by (auto simp: branch_inv_def)
      moreover have "merkle_sibling H xs pos level = h" using pos j h by (simp add: merkle_sibling_def)
      ultimately show ?thesis
        using step True False b by (auto simp: merkle_branch_step_def div_pow2_Suc simp del: power_Suc)
    next
      case neq: False
      with step False b have "matchh' = False" and "st' = st" by (auto simp: merkle_branch_step_def)
      moreover have "branch_inv H xs pos (length xs) (Suc level) st"
        using bi neq b by (fastforce simp: branch_inv_def Suc_le_eq order_le_less)
      ultimately show ?thesis by simp
    qed
  qed
  have "count = length (merkle_level H xs (Suc level)) * 2 ^ Suc level" using count j len' by simp
  moreover have "\<forall>i < Suc level. length (merkle_level H xs i) \<noteq> 1"
    using inv j by (auto simp: sweep_inv_def less_Suc_eq)
  ultimately show ?thesis using h' len' inner same br by (simp add: sweep_inv_def del: merkle_level.simps power_Suc upt_Suc)
qed

lemma sweep_level_lt:
  assumes "xs \<noteq> []" and "length (merkle_level H xs level) * 2 ^ level \<le> 2 ^ 31"
  shows "level < 32"
proof -
  have "length (merkle_level H xs level) > 0" using merkle_level_nonempty [OF assms(1)] by simp
  with assms(2) have "(2::nat) ^ level \<le> 2 ^ 31"
    by (metis Suc_leI le_trans mult_le_mono1 nat_mult_1 One_nat_def)
  then have "level \<le> 31" by (rule power_le_imp_le_exp [rotated]) simp
  then show ?thesis by simp
qed

lemma merkle_propagate_inv:
  assumes "sweep_inv H xs pbranch pos level count level h matchh st"
    and "xs \<noteq> []" and "count \<le> 2 ^ 31" and "\<not> 2 ^ level dvd length xs"
    and "merkle_propagate H pbranch count level h matchh st = (level', h', matchh', st')"
  shows "sweep_inv H xs pbranch pos (Suc level') count level' h' matchh' st' \<and> bit count level'"
  using assms
proof (induction H pbranch count level h matchh st rule: merkle_propagate.induct)
  case (1 H pbranch count level h matchh st)
  have count: "count = length (merkle_level H xs level) * 2 ^ level" using 1(2) by (simp add: sweep_inv_def)
  with 1(3,4) have lt: "level < 32" by (auto intro: sweep_level_lt)
  show ?case
  proof (cases "bit count level")
    case True
    then have "odd (length (merkle_level H xs level))" using count bit_mult_pow2 by blast
    with 1(5) have "\<not> bit (length xs) level" by (simp add: length_merkle_level bit_nat_iff_odd_div)
    then have "branch_inv H xs pos (length xs) level st \<Longrightarrow> pos < length xs \<Longrightarrow> branch_inv H xs pos (length xs) (Suc level) st"
      by (auto simp: branch_inv_def Suc_le_eq order_le_less)
    moreover have "level' = level" "h' = h" "matchh' = matchh" "st' = st"
      using 1(6) True by (simp_all add: merkle_propagate.simps [of H pbranch count level])
    ultimately show ?thesis using 1(2) True by (simp add: sweep_inv_def)
  next
    case False
    obtain mh2 st2 where s: "merkle_branch_step pbranch level h matchh st = (mh2, st2)" by fastforce
    have run: "merkle_propagate H pbranch count (Suc level) (H (ms_inner st ! level) h) mh2 st2 = (level', h', matchh', st')"
      using 1(6) False lt s by (simp add: merkle_propagate.simps [of H pbranch count level])
    have nd: "\<not> 2 ^ Suc level dvd length xs" using 1(5) by (metis dvd_mult_right power_Suc)
    from 1(1) [OF _ s [symmetric] refl sweep_inv_propagate_step [OF 1(2) lt False 1(5) s] 1(3,4) nd run]
    show ?thesis using False lt by simp
  qed
qed

lemma sweep_inv_head_step:
  assumes inv: "sweep_inv H xs pbranch pos (Suc level) count level h matchh st"
    and odd: "bit count level" and ne: "count \<noteq> 2 ^ level"
    and st1: "st1 = (if pbranch \<and> matchh then st\<lparr>ms_branch := ms_branch st @ [h]\<rparr> else st)"
  shows "sweep_inv H xs pbranch pos (Suc level) (count + 2 ^ level) (Suc level) (H h h) matchh st1"
    and "\<not> 2 ^ Suc level dvd length xs"
proof -
  let ?l = "merkle_level H xs level"
  have count: "count = length ?l * 2 ^ level" and h: "h = ?l ! (length ?l - 1)"
    using inv by (simp_all add: sweep_inv_def)
  have "odd (length ?l)" using odd count bit_mult_pow2 by blast
  then obtain j where j: "length ?l = Suc (2 * j)" by (auto elim: oddE)
  have len': "length (merkle_level H xs (Suc level)) = Suc j" using j by simp
  have h': "H h h = merkle_level H xs (Suc level) ! j" using nth_merkle_pairs [of j H ?l] j h by simp
  have sib: "merkle_sibling H xs pos level = h" if "pos div 2 ^ level = length ?l - 1"
    using that j h by (simp add: merkle_sibling_def)
  show "\<not> 2 ^ Suc level dvd length xs"
  proof
    assume d: "2 ^ Suc level dvd length xs"
    then have "length ?l = length xs div 2 ^ level" "even (length xs div 2 ^ level)"
      by (metis dvd_mult_right length_merkle_level power_Suc,
          metis d dvd_div_iff_mult dvd_mult_right mult.commute power_Suc power_not_zero zero_neq_numeral)
    with j show False by simp
  qed
  have "count + 2 ^ level = length (merkle_level H xs (Suc level)) * 2 ^ Suc level"
    using count j len' by (simp add: algebra_simps)
  moreover have "\<forall>i < Suc level. length (merkle_level H xs i) \<noteq> 1"
    using inv ne count by (auto simp: sweep_inv_def less_Suc_eq)
  moreover have "if matchh then pos div 2 ^ Suc level = j \<and> ms_branch st1 = map (merkle_sibling H xs pos) [0..<Suc level]
         else branch_inv H xs pos (length xs) (Suc level) st1" if "pbranch \<and> pos < length xs"
    using that inv st1 sib j by (auto simp: sweep_inv_def div_pow2_Suc simp del: power_Suc)
  moreover have "inner_inv H xs (length xs) (ms_inner st1)" using inv st1 by (auto simp: sweep_inv_def)
  ultimately show "sweep_inv H xs pbranch pos (Suc level) (count + 2 ^ level) (Suc level) (H h h) matchh st1"
    unfolding sweep_inv_def len' using h' by (simp del: power_Suc upt_Suc merkle_level.simps)
qed

lemma merkle_sweep_inv:
  assumes "sweep_inv H xs pbranch pos (Suc level) count level h matchh st"
    and "xs \<noteq> []" and "length xs \<le> 2 ^ 31" and "count \<le> 2 ^ 31" and "bit count level"
    and "merkle_sweep H pbranch count level h matchh st = (h', st')"
  shows "\<exists>level' matchh'. sweep_inv H xs pbranch pos (Suc level') (2 ^ level') level' h' matchh' st'"
  using assms
proof (induction H pbranch count level h matchh st rule: merkle_sweep.induct)
  case (1 H pbranch count level h matchh st)
  have count: "count = length (merkle_level H xs level) * 2 ^ level" using 1(2) by (simp add: sweep_inv_def)
  with 1(3,5) have lt: "level < 32" by (auto intro: sweep_level_lt)
  show ?case
  proof (cases "count = 2 ^ level")
    case True
    then have "h' = h" "st' = st" using 1(7) by (simp_all add: merkle_sweep.simps [of H pbranch "2 ^ level"])
    with 1(2) True show ?thesis by blast
  next
    case False
    define st1 where "st1 = (if pbranch \<and> matchh then st\<lparr>ms_branch := ms_branch st @ [h]\<rparr> else st)"
    note head = sweep_inv_head_step [OF 1(2,6) False st1_def]
    then have c1: "count + 2 ^ level = length (merkle_level H xs (Suc level)) * 2 ^ Suc level"
      by (simp add: sweep_inv_def)
    have "level \<noteq> 31"
    proof
      assume "level = 31"
      with count 1(5) merkle_level_nonempty [OF 1(3), of H level] have "count = 2 ^ level"
        by (cases "length (merkle_level H xs level)") auto
      with False show False ..
    qed
    with lt have "Suc level < 32" by simp
    from level_count_bound [OF 1(4) this, of H] have b: "count + 2 ^ level \<le> 2 ^ 31" unfolding c1 .
    then have m: "(count + 2 ^ level) mod 2 ^ 32 = count + 2 ^ level" by simp
    obtain l2 h2 mh2 st2 where p:
        "merkle_propagate H pbranch (count + 2 ^ level) (Suc level) (H h h) matchh st1 = (l2, h2, mh2, st2)"
      by (metis prod_cases4)
    have p2: "sweep_inv H xs pbranch pos (Suc l2) (count + 2 ^ level) l2 h2 mh2 st2" "bit (count + 2 ^ level) l2"
      using merkle_propagate_inv [OF head(1) 1(3) b head(2) p] by blast+
    have run: "merkle_sweep H pbranch (count + 2 ^ level) l2 h2 mh2 st2 = (h', st')"
      using 1(7) False lt p m by (simp add: merkle_sweep.simps [of H pbranch count level] st1_def Let_def)
    show ?thesis
      by (rule 1(1) [OF _ st1_def m [symmetric] p [symmetric] refl refl refl p2(1) 1(3,4) b p2(2) run]) (use lt False in simp)
  qed
qed

subsection \<open>Root, mutation flag and branch\<close>

lemma merkle_skip_stop:
  assumes "0 < count" and "count < 2 ^ 32" and "2 ^ level dvd count"
  shows "bit count (merkle_skip count level) \<and> 2 ^ merkle_skip count level dvd count \<and>
    level \<le> merkle_skip count level \<and> (\<forall>j. level \<le> j \<and> j < merkle_skip count level \<longrightarrow> \<not> bit count j)"
  using assms
proof (induction count level rule: merkle_skip.induct)
  case (1 count level)
  have lt: "level < 32"
    using 1(2-4) carry_level_lt [of level "count - 1"] by simp
  show ?case
  proof (cases "bit count level")
    case True
    with 1(4) show ?thesis by (auto simp: merkle_skip.simps [of count level])
  next
    case False
    have d: "2 ^ Suc level dvd count"
      using 1(4) False by (intro dvd_Suc_pow2) (simp_all add: bit_nat_iff_odd_div)
    from 1(1) [OF _ 1(2,3) d] lt False
    have "bit count (merkle_skip count (Suc level)) \<and> 2 ^ merkle_skip count (Suc level) dvd count \<and>
      Suc level \<le> merkle_skip count (Suc level) \<and> (\<forall>j. Suc level \<le> j \<and> j < merkle_skip count (Suc level) \<longrightarrow> \<not> bit count j)"
      by simp
    moreover have "merkle_skip count level = merkle_skip count (Suc level)"
      using lt False by (simp add: merkle_skip.simps [of count level])
    ultimately show ?thesis using False by (metis Suc_leD Suc_leI order_le_less)
  qed
qed

text \<open>What the calculator has when it returns: the top of the reference tree and the siblings below it.\<close>

lemma MerkleComputation_result:
  assumes "xs \<noteq> []" and "length xs \<le> 2 ^ 31"
    and "MerkleComputation H pbranch pos xs = (root, mutated, branch)"
  shows "\<exists>height. length (merkle_level H xs height) = 1 \<and> (\<forall>j < height. length (merkle_level H xs j) \<noteq> 1) \<and>
           root = hd (merkle_level H xs height) \<and> (mutated \<longleftrightarrow> mutated_upto H xs (length xs)) \<and>
           (pbranch \<and> pos < length xs \<longrightarrow> branch = map (merkle_sibling H xs pos) [0..<height])"
proof -
  let ?n = "length xs"
  have n: "0 < ?n" "?n < 2 ^ 32" using assms(1,2) by auto
  define st where "st = merkle_leaves H pbranch pos 0 xs merkle_init"
  have leaves: "leaves_inv H xs pbranch pos ?n st"
    using merkle_leaves_inv [OF leaves_inv_init n(2) le0, of H pbranch pos] by (simp add: st_def)
  define l where "l = merkle_skip ?n 0"
  have l: "bit ?n l" "2 ^ l dvd ?n" "\<forall>j < l. \<not> bit ?n j"
    using merkle_skip_stop [of ?n 0] n by (simp_all add: l_def)
  have l32: "l < 32" using carry_level_lt [of l "?n - 1"] l(2) n by simp
  have len: "length (merkle_level H xs l) = ?n div 2 ^ l" using l(2) by (simp add: length_merkle_level)
  obtain h' st' where run: "merkle_sweep H pbranch ?n l (ms_inner st ! l) (ms_matchlevel st = int l) st = (h', st')"
    by fastforce
  have start: "sweep_inv H xs pbranch pos (Suc l) ?n l (ms_inner st ! l) (ms_matchlevel st = int l) st"
  proof -
    have "?n = length (merkle_level H xs l) * 2 ^ l" using l(2) len by simp
    moreover have "ms_inner st ! l = merkle_level H xs l ! (length (merkle_level H xs l) - 1)"
      using leaves l(1) l32 len by (simp add: leaves_inv_def inner_inv_def)
    moreover have "length (merkle_level H xs j) \<noteq> 1" if "j < l" for j
    proof -
      have "2 ^ j dvd ?n" using that l(2) by (meson dvd_trans le_imp_power_dvd less_imp_le)
      with l(3) that have "even (length (merkle_level H xs j))" by (simp add: length_merkle_level bit_nat_iff_odd_div)
      then show ?thesis by auto
    qed
    moreover have "if ms_matchlevel st = int l then pos div 2 ^ l = length (merkle_level H xs l) - 1 \<and>
           ms_branch st = map (merkle_sibling H xs pos) [0..<l]
         else branch_inv H xs pos ?n (Suc l) st" if b: "pbranch \<and> pos < ?n"
    proof -
      obtain k where k: "k < 32" "ms_matchlevel st = int k" "bit ?n k" "pos div 2 ^ k = ?n div 2 ^ k - 1"
          "ms_branch st = map (merkle_sibling H xs pos) [0..<k]"
        using leaves b by (auto simp: leaves_inv_def branch_inv_def)
      have "l \<le> k" using k(3) l(3) by (meson not_le)
      with k b len show ?thesis by (auto simp: branch_inv_def Suc_le_eq order_le_less)
    qed
    moreover have "inner_inv H xs ?n (ms_inner st)" using leaves by (simp add: leaves_inv_def)
    ultimately show ?thesis unfolding sweep_inv_def by blast
  qed
  obtain height mh where fin: "sweep_inv H xs pbranch pos (Suc height) (2 ^ height) height h' mh st'"
    using merkle_sweep_inv [OF start assms(1,2,2) l(1) run] by blast
  have one: "length (merkle_level H xs height) = 1" using fin by (simp add: sweep_inv_def)
  then have h': "h' = hd (merkle_level H xs height)" using fin by (cases "merkle_level H xs height") (auto simp: sweep_inv_def)
  have "branch_inv H xs pos ?n (Suc height) st' \<Longrightarrow> pos < ?n \<Longrightarrow> False"
  proof -
    assume "branch_inv H xs pos ?n (Suc height) st'" "pos < ?n"
    then obtain k where k: "Suc height \<le> k" "bit ?n k" by (auto simp: branch_inv_def)
    have "?n \<le> 2 ^ height" using one by (auto simp: length_merkle_level div_eq_0_iff split: if_splits elim!: dvdE)
    also have "(2::nat) ^ height < 2 ^ k" using k(1) by simp
    finally have "?n div 2 ^ k = 0" by simp
    with k(2) show False by (simp add: bit_nat_iff_odd_div)
  qed
  then have "pbranch \<and> pos < ?n \<longrightarrow> ms_branch st' = map (merkle_sibling H xs pos) [0..<height]"
    using fin by (auto simp: sweep_inv_def split: if_splits)
  moreover have "root = h'" "mutated = ms_mutated st" "branch = ms_branch st'"
    using assms(1,3) run n(2) by (simp_all add: MerkleComputation_def st_def l_def Let_def)
  ultimately show ?thesis
    using one h' fin leaves by (auto simp: sweep_inv_def leaves_inv_def)
qed

definition merkle_mutated :: "(uint256 \<Rightarrow> uint256 \<Rightarrow> uint256) \<Rightarrow> uint256 list \<Rightarrow> bool" where
  "merkle_mutated H xs \<longleftrightarrow> mutated_upto H xs (length xs)"

lemma ComputeMerkleRoot_spec:
  assumes "length xs \<le> 2 ^ 31"
  shows "ComputeMerkleRoot H xs = (merkle_root H xs, merkle_mutated H xs)"
proof (cases "xs = []")
  case True
  then show ?thesis
    by (simp add: ComputeMerkleRoot_def MerkleComputation_def merkle_root.simps merkle_mutated_def mutated_upto_def)
next
  case False
  obtain root mutated branch where run: "MerkleComputation H False (2 ^ 32 - 1) xs = (root, mutated, branch)"
    by (metis prod_cases3)
  from MerkleComputation_result [OF False assms run] obtain height where
    height: "length (merkle_level H xs height) = 1" "\<forall>j < height. length (merkle_level H xs j) \<noteq> 1"
      "root = hd (merkle_level H xs height)" "mutated \<longleftrightarrow> mutated_upto H xs (length xs)" by blast
  with merkle_root_level [OF False height(1)] have "root = merkle_root H xs" by simp
  with height(4) run show ?thesis by (simp add: ComputeMerkleRoot_def merkle_mutated_def)
qed

text \<open>
  C26. The constant-space calculator returns the root of the reference tree, in which each level
  is folded into the next by hashing neighbours and an odd last entry with itself, for every
  list of at most \<open>2 ^ 31\<close> leaves and every hash function.
\<close>

theorem ComputeMerkleRoot_correct:
  assumes "length leaves \<le> 2 ^ 31"
  shows "fst (ComputeMerkleRoot H leaves) = merkle_root H leaves"
  using ComputeMerkleRoot_spec [OF assms] by simp

theorem ComputeMerkleRoot_correct_witness:
  "length [1, 2, 3 :: uint256] \<le> 2 ^ 31 \<and>
   fst (ComputeMerkleRoot (\<lambda>a b. 3 * a + 5 * b + 1) [1, 2, 3]) =
     merkle_root (\<lambda>a b. 3 * a + 5 * b + 1) [1, 2, 3]"
  using ComputeMerkleRoot_correct [of "[1, 2, 3]" "\<lambda>a b. 3 * a + 5 * b + 1"] by simp

lemma merkle_fold_branch:
  assumes "pos < length xs" and "k \<le> height" and "length (merkle_level H xs height) = 1"
  shows "ComputeMerkleRootFromBranch H (merkle_level H xs k ! (pos div 2 ^ k))
           (map (merkle_sibling H xs pos) [k..<height]) (pos div 2 ^ k) = hd (merkle_level H xs height)"
  using assms(2)
proof (induction "height - k" arbitrary: k)
  case 0
  then have k: "k = height" by simp
  have "length xs \<le> 2 ^ height"
    using assms(3) by (auto simp: length_merkle_level div_eq_0_iff split: if_splits elim!: dvdE)
  with assms(1) have "pos div 2 ^ height = 0" by simp
  with k assms(3) show ?case by (cases "merkle_level H xs height") auto
next
  case (Suc d)
  then have k: "k < height" by simp
  let ?i = "pos div 2 ^ k" and ?l = "merkle_level H xs k"
  have "?i < length ?l"
    using assms(1) by (auto simp: length_merkle_level less_mult_imp_div_less less_Suc_eq_le div_le_mono elim!: dvdE)
  then have i2: "?i div 2 < length (merkle_pairs H ?l)" by simp
  have half: "pos div 2 ^ Suc k = ?i div 2" by (rule div_pow2_Suc)
  have "(if odd ?i then H (merkle_sibling H xs pos k) (?l ! ?i) else H (?l ! ?i) (merkle_sibling H xs pos k)) =
      merkle_level H xs (Suc k) ! (?i div 2)"
  proof (cases "odd ?i")
    case True
    then obtain j where "?i = Suc (2 * j)" by (auto elim: oddE)
    with True nth_merkle_pairs [OF i2] \<open>?i < length ?l\<close> show ?thesis by (simp add: merkle_sibling_def)
  next
    case False
    then obtain j where "?i = 2 * j" by (auto elim: evenE)
    with False nth_merkle_pairs [OF i2] show ?thesis by (simp add: merkle_sibling_def)
  qed
  with Suc.hyps(1) [of "Suc k"] Suc.hyps(2) k show ?case
    by (simp add: upt_conv_Cons half del: power_Suc merkle_level.simps)
qed

text \<open>
  C29. The branch the calculator returns for a position inside the list leads
  \<open>ComputeMerkleRootFromBranch\<close> from that leaf to the root the calculator returns.
\<close>

theorem ComputeMerkleBranch_leads_to_root:
  assumes "length leaves \<le> 2 ^ 31" and "position < length leaves"
  shows "ComputeMerkleRootFromBranch H (leaves ! position) (ComputeMerkleBranch H leaves position) position =
         fst (ComputeMerkleRoot H leaves)"
proof -
  have ne: "leaves \<noteq> []" using assms(2) by auto
  obtain root mutated branch where run: "MerkleComputation H True position leaves = (root, mutated, branch)"
    by (metis prod_cases3)
  from MerkleComputation_result [OF ne assms(1) run] assms(2) obtain height where
    height: "length (merkle_level H leaves height) = 1" "\<forall>j < height. length (merkle_level H leaves j) \<noteq> 1"
      "branch = map (merkle_sibling H leaves position) [0..<height]" by blast
  have "ComputeMerkleRootFromBranch H (leaves ! position) branch position = hd (merkle_level H leaves height)"
    using merkle_fold_branch [OF assms(2) le0 height(1)] height(3) by simp
  also have "\<dots> = merkle_root H leaves" using merkle_root_level [OF ne height(1)] height(2) by simp
  finally show ?thesis using run ComputeMerkleRoot_spec [OF assms(1)] by (simp add: ComputeMerkleBranch_def)
qed

theorem ComputeMerkleBranch_leads_to_root_witness:
  "length [1, 2, 3 :: uint256] \<le> 2 ^ 31 \<and> 2 < length [1, 2, 3 :: uint256] \<and>
   ComputeMerkleRootFromBranch (\<lambda>a b. 3 * a + 5 * b + 1) ([1, 2, 3] ! 2)
     (ComputeMerkleBranch (\<lambda>a b. 3 * a + 5 * b + 1) [1, 2, 3] 2) 2 =
   fst (ComputeMerkleRoot (\<lambda>a b. 3 * a + 5 * b + 1) [1, 2, 3])"
  using ComputeMerkleBranch_leads_to_root [of "[1, 2, 3]" 2 "\<lambda>a b. 3 * a + 5 * b + 1"] by simp

subsection \<open>Duplicated transactions\<close>

text \<open>
  The defence against CVE-2012-2459: lists that only differ by repeating their tail have one
  root, and the \<open>mutated\<close> flag tells the repeated one. \<open>hash_collision\<close> says that two
  different pairs of hashes have one image.
\<close>

definition hash_collision :: "(uint256 \<Rightarrow> uint256 \<Rightarrow> uint256) \<Rightarrow> bool" where
  "hash_collision H \<longleftrightarrow> (\<exists>a b c d. (a, b) \<noteq> (c, d) \<and> H a b = H c d)"

lemma no_collision: "\<not> hash_collision H \<Longrightarrow> H a b = H c d \<longleftrightarrow> a = c \<and> b = d"
  by (auto simp: hash_collision_def)

fun merkle_height :: "nat \<Rightarrow> nat" where
  "merkle_height n = (if n \<le> 1 then 0 else Suc (merkle_height (Suc n div 2)))"

declare merkle_height.simps [simp del]

lemma merkle_height_level:
  "xs \<noteq> [] \<Longrightarrow> length (merkle_level H xs (merkle_height (length xs))) = 1 \<and>
     (\<forall>j < merkle_height (length xs). length (merkle_level H xs j) \<noteq> 1)"
proof (induction "length xs" arbitrary: xs rule: less_induct)
  case less
  show ?case
  proof (cases "length xs = 1")
    case True
    then show ?thesis by (simp add: merkle_height.simps)
  next
    case False
    have ne: "merkle_pairs H xs \<noteq> []" using merkle_level_nonempty [OF less.prems, of H 1] by simp
    have two: "length xs \<ge> 2" using False less.prems by (cases xs) (auto simp: Suc_le_eq)
    then have h: "merkle_height (length xs) = Suc (merkle_height (length (merkle_pairs H xs)))"
      by (simp add: merkle_height.simps [of "length xs"])
    have "length (merkle_pairs H xs) < length xs" using two by simp
    from less.hyps [OF this ne] show ?thesis
      unfolding h using False by (auto simp: merkle_level_shift less_Suc_eq_0_disj simp del: merkle_level.simps(2))
  qed
qed

lemma merkle_pairs_last_equal:
  assumes "\<not> hash_collision H" and "merkle_pairs H xs = merkle_pairs H ys"
    and "length xs = 2 * j + 1" and "length ys = 2 * j + 2"
  shows "ys ! (2 * j) = ys ! Suc (2 * j)"
proof -
  have "H (xs ! (2 * j)) (xs ! (2 * j)) = H (ys ! (2 * j)) (ys ! Suc (2 * j))"
    using nth_merkle_pairs [of j H xs] nth_merkle_pairs [of j H ys] assms(2-4) by simp
  with no_collision [OF assms(1)] show ?thesis by metis
qed

lemma merkle_pairs_same_length:
  assumes "\<not> hash_collision H" and "merkle_pairs H xs = merkle_pairs H ys" and "length xs = length ys"
  shows "xs = ys"
proof (rule nth_equalityI [OF assms(3)])
  fix i assume i: "i < length xs"
  let ?j = "i div 2"
  have j: "?j < length (merkle_pairs H xs)" "?j < length (merkle_pairs H ys)" using i assms(3) by auto
  have "i = 2 * ?j \<or> i = Suc (2 * ?j)" by presburger
  with nth_merkle_pairs [OF j(1)] nth_merkle_pairs [OF j(2)] i assms(2,3)
  show "xs ! i = ys ! i" by (auto simp: no_collision [OF assms(1)] split: if_splits)
qed

lemma merkle_pairs_inject:
  assumes "\<not> hash_collision H" and "merkle_pairs H xs = merkle_pairs H ys"
  shows "xs = ys \<or> (\<exists>j. length ys = 2 * j + 2 \<and> ys ! (2 * j) = ys ! Suc (2 * j)) \<or>
         (\<exists>j. length xs = 2 * j + 2 \<and> xs ! (2 * j) = xs ! Suc (2 * j))"
proof -
  have "Suc (length xs) div 2 = Suc (length ys) div 2"
    using arg_cong [OF assms(2), of length] by simp
  then consider "length xs = length ys"
    | j where "length xs = 2 * j + 1" "length ys = 2 * j + 2"
    | j where "length ys = 2 * j + 1" "length xs = 2 * j + 2"
    by atomize_elim presburger
  then show ?thesis
    using merkle_pairs_same_length [OF assms] merkle_pairs_last_equal [OF assms]
      merkle_pairs_last_equal [OF assms(1) assms(2) [symmetric]] by cases blast+
qed

text \<open>
  The last node of a level may stand for fewer leaves than its left neighbours. Where it has the
  hash of one of them, two complete neighbours further down have one hash.
\<close>

lemma padded_node_mutated:
  assumes "\<not> hash_collision H" and "\<not> 2 ^ k dvd length xs" and "i < length xs div 2 ^ k"
    and "merkle_level H xs k ! i = merkle_level H xs k ! (length xs div 2 ^ k)"
  shows "merkle_mutated H xs"
  using assms(2-4)
proof (induction k arbitrary: i)
  case 0
  then show ?case by simp
next
  case (Suc k)
  let ?n = "length xs" and ?l = "merkle_level H xs k"
  let ?i' = "?n div 2 ^ Suc k"
  have q: "?i' = ?n div 2 ^ k div 2" by (rule div_pow2_Suc)
  then have full: "2 * i + 2 \<le> ?n div 2 ^ k" using Suc.prems(2) less_half_pair by metis
  have left: "merkle_level H xs (Suc k) ! i = H (?l ! (2 * i)) (?l ! Suc (2 * i))"
    by (rule merkle_level_complete [OF full])
  have i': "?i' < length (merkle_pairs H ?l)"
    using Suc.prems(1) length_merkle_level [of H xs "Suc k"] by simp
  show ?case
  proof (cases "Suc (2 * ?i') < length ?l")
    case False
    then have "merkle_level H xs (Suc k) ! ?i' = H (?l ! (2 * ?i')) (?l ! (2 * ?i'))"
      using nth_merkle_pairs [OF i'] by simp
    with left Suc.prems(3) have "equal_pair H xs k i"
      by (metis equal_pair_def no_collision [OF assms(1)])
    with full show ?thesis unfolding merkle_mutated_def mutated_upto_def by blast
  next
    case True
    then have "merkle_level H xs (Suc k) ! ?i' = H (?l ! (2 * ?i')) (?l ! Suc (2 * ?i'))"
      using nth_merkle_pairs [OF i'] by simp
    with left Suc.prems(3) have eq: "?l ! Suc (2 * i) = ?l ! Suc (2 * ?i')"
      by (metis no_collision [OF assms(1)])
    have nd: "\<not> 2 ^ k dvd ?n"
    proof
      assume d: "2 ^ k dvd ?n"
      then have "length ?l = ?n div 2 ^ k" by (simp add: length_merkle_level)
      with True q have "even (?n div 2 ^ k)" using even_if_half_pair by metis
      then show False using dvd_Suc_pow2 [OF d] Suc.prems(1) by blast
    qed
    then have "length ?l = Suc (?n div 2 ^ k)" by (simp add: length_merkle_level)
    with True q have "Suc (2 * ?i') = ?n div 2 ^ k" using odd_half_eq by metis
    with Suc.IH [OF nd, of "Suc (2 * i)"] eq full show ?thesis by simp
  qed
qed

lemma equal_pair_mutated:
  assumes "\<not> hash_collision H" and "Suc (2 * j) < length (merkle_level H xs k)"
    and "equal_pair H xs k j"
  shows "merkle_mutated H xs"
proof (cases "2 * j + 2 \<le> length xs div 2 ^ k")
  case True
  with assms(3) show ?thesis unfolding merkle_mutated_def mutated_upto_def by blast
next
  case False
  with assms(2) have "\<not> 2 ^ k dvd length xs" and "length xs div 2 ^ k = Suc (2 * j)"
    by (auto simp: length_merkle_level split: if_splits)
  with assms(3) padded_node_mutated [OF assms(1), of k xs "2 * j"] show ?thesis by (simp add: equal_pair_def)
qed

lemma merkle_level_inject:
  assumes "\<not> hash_collision H" and "\<not> merkle_mutated H xs" and "\<not> merkle_mutated H ys"
    and "merkle_level H xs k = merkle_level H ys k"
  shows "xs = ys"
  using assms(4)
proof (induction k)
  case 0
  then show ?case by simp
next
  case (Suc k)
  then have "merkle_pairs H (merkle_level H xs k) = merkle_pairs H (merkle_level H ys k)" by simp
  from merkle_pairs_inject [OF assms(1) this]
  have "merkle_level H xs k = merkle_level H ys k"
    using equal_pair_mutated [OF assms(1), of _ xs k] equal_pair_mutated [OF assms(1), of _ ys k] assms(2,3)
    unfolding equal_pair_def by (metis add_2_eq_Suc' lessI)
  then show ?case by (rule Suc.IH)
qed

lemma equal_roots_detected:
  assumes "length xs \<le> 2 ^ 31" and "length ys \<le> 2 ^ 31" and "xs \<noteq> []" and "ys \<noteq> []" and "xs \<noteq> ys"
    and "merkle_height (length xs) = merkle_height (length ys)"
    and "fst (ComputeMerkleRoot H xs) = fst (ComputeMerkleRoot H ys)"
  shows "snd (ComputeMerkleRoot H xs) \<or> snd (ComputeMerkleRoot H ys) \<or> hash_collision H"
proof (rule ccontr)
  assume neg: "\<not> ?thesis"
  let ?k = "merkle_height (length xs)"
  have x: "length (merkle_level H xs ?k) = 1" "merkle_root H xs = hd (merkle_level H xs ?k)"
    using merkle_height_level [OF assms(3), of H] merkle_root_level [OF assms(3), of H ?k] by auto
  have y: "length (merkle_level H ys ?k) = 1" "merkle_root H ys = hd (merkle_level H ys ?k)"
    using merkle_height_level [OF assms(4), of H] merkle_root_level [OF assms(4), of H ?k] assms(6) by auto
  have "hd (merkle_level H xs ?k) = hd (merkle_level H ys ?k)"
    using assms(7) x(2) y(2) ComputeMerkleRoot_spec [OF assms(1), of H] ComputeMerkleRoot_spec [OF assms(2), of H]
    by simp
  with x(1) y(1) have "merkle_level H xs ?k = merkle_level H ys ?k"
    by (auto simp: length_Suc_conv)
  with merkle_level_inject [of H xs ys ?k] neg assms(5) ComputeMerkleRoot_spec [OF assms(1), of H]
    ComputeMerkleRoot_spec [OF assms(2), of H] show False by simp
qed



end
