(* ===== verification/Serialize.thy ===== *)
theory Serialize
  imports Cash_Prelude
begin

unbundle bit_operations_syntax

text \<open>
  The wire and disk encoding of \<open>src/src/serialize.h\<close> over the in-memory stream of
  \<open>src/src/streams.h\<close>: fixed-width little-endian integers, the compact size, the
  variable-length integer, byte vectors and vectors of serializable values.  A writer is a
  function to the bytes it appends; a reader takes the unread bytes of the stream and
  returns the value with the bytes that remain, or the exception it throws.

  The locale \<open>codec\<close> is the contract every serializable type of the node relies on: what
  was written reads back, whatever follows.  The locale \<open>canonical_codec\<close> adds that every
  value has one encoding only.  Both are interpreted on the encoders below, and the
  transaction and coin formats are built from the facts they give.
\<close>

section \<open>Streams\<close>

datatype ser_error = EndOfData | NonCanonicalSize | SizeTooLarge | BadStream

type_synonym 'a reader = "bytes \<Rightarrow> ser_error + 'a \<times> bytes"

text \<open>\<open>CDataStream::read\<close>: the next \<open>nSize\<close> bytes, or the end-of-data exception.\<close>

definition stream_read :: "nat \<Rightarrow> bytes reader" where
  "stream_read nSize s = (if nSize \<le> length s then Inr (take nSize s, drop nSize s) else Inl EndOfData)"

lemma stream_read_append [simp]: "length x = n \<Longrightarrow> stream_read n (x @ s) = Inr (x, s)"
  by (simp add: stream_read_def)

lemma stream_read_Inr: "stream_read n s = Inr (x, r) \<longleftrightarrow> s = x @ r \<and> length x = n"
  by (auto simp: stream_read_def)

section \<open>Fixed-width integers\<close>

text \<open>The bytes of a number in memory on a little-endian machine, and back.\<close>

fun le_bytes :: "nat \<Rightarrow> nat \<Rightarrow> bytes" where
  "le_bytes 0 n = []"
| "le_bytes (Suc k) n = of_nat n # le_bytes k (n div 256)"

fun le_nat :: "bytes \<Rightarrow> nat" where
  "le_nat [] = 0"
| "le_nat (b # bs) = unat b + 256 * le_nat bs"

lemma length_le_bytes [simp]: "length (le_bytes k n) = k"
  by (induction k arbitrary: n) auto

lemma unat_of_nat_byte: "unat (of_nat n :: byte) = n mod 256"
  by (simp add: unat_of_nat)

lemma le_nat_le_bytes: "le_nat (le_bytes k n) = n mod 256 ^ k"
proof (induction k arbitrary: n)
  case (Suc k)
  have "n mod 256 ^ Suc k = n mod 256 + 256 * (n div 256 mod 256 ^ k)"
    by (simp add: mod_mult2_eq)
  then show ?case using Suc by (simp add: unat_of_nat_byte)
qed simp

lemma unat_byte_less: "unat (b::byte) < 256"
  using unsigned_less [of b, where 'a = nat] by simp

lemma le_nat_append: "le_nat (xs @ ys) = le_nat xs + 256 ^ length xs * le_nat ys"
  by (induction xs) (simp_all add: algebra_simps)

lemma le_nat_less: "le_nat bs < 256 ^ length bs"
proof (induction bs)
  case (Cons b bs)
  then show ?case using unat_byte_less [of b] by simp
qed simp

lemma le_bytes_le_nat: "length bs = k \<Longrightarrow> le_bytes k (le_nat bs) = bs"
proof (induction bs arbitrary: k)
  case (Cons b bs)
  have b: "unat b < 256" by (rule unat_byte_less)
  then have "(of_nat (unat b + 256 * le_nat bs) :: byte) = b"
    by (intro unsigned_word_eqI [where ?'a = nat]) (simp add: unat_of_nat_byte del: of_nat_add)
  moreover have "(unat b + 256 * le_nat bs) div 256 = le_nat bs" using b by simp
  ultimately show ?case using Cons by auto
qed simp

definition ser_writedata8 :: "byte \<Rightarrow> bytes" where
  "ser_writedata8 obj = [obj]"

definition ser_writedata16 :: "u16 \<Rightarrow> bytes" where
  "ser_writedata16 obj = le_bytes 2 (unat obj)"

definition ser_writedata32 :: "u32 \<Rightarrow> bytes" where
  "ser_writedata32 obj = le_bytes 4 (unat obj)"

definition ser_writedata32be :: "u32 \<Rightarrow> bytes" where
  "ser_writedata32be obj = rev (le_bytes 4 (unat obj))"

definition ser_writedata64 :: "u64 \<Rightarrow> bytes" where
  "ser_writedata64 obj = le_bytes 8 (unat obj)"

definition ser_readdata8 :: "byte reader" where
  "ser_readdata8 s = ebind (stream_read 1 s) (\<lambda>(x, s). Inr (hd x, s))"

definition ser_readdata16 :: "u16 reader" where
  "ser_readdata16 s = ebind (stream_read 2 s) (\<lambda>(x, s). Inr (of_nat (le_nat x), s))"

definition ser_readdata32 :: "u32 reader" where
  "ser_readdata32 s = ebind (stream_read 4 s) (\<lambda>(x, s). Inr (of_nat (le_nat x), s))"

definition ser_readdata32be :: "u32 reader" where
  "ser_readdata32be s = ebind (stream_read 4 s) (\<lambda>(x, s). Inr (of_nat (le_nat (rev x)), s))"

definition ser_readdata64 :: "u64 reader" where
  "ser_readdata64 s = ebind (stream_read 8 s) (\<lambda>(x, s). Inr (of_nat (le_nat x), s))"

text \<open>Opaque blobs are written byte by byte as they lie in memory.\<close>

definition Serialize_uint256 :: "uint256 \<Rightarrow> bytes" where
  "Serialize_uint256 h = le_bytes 32 (unat h)"

definition Unserialize_uint256 :: "uint256 reader" where
  "Unserialize_uint256 s = ebind (stream_read 32 s) (\<lambda>(x, s). Inr (of_nat (le_nat x), s))"

text \<open>Signed integers go through the conversion to the unsigned type of their width.\<close>

definition int_to_unsigned :: "nat \<Rightarrow> int \<Rightarrow> nat" where
  "int_to_unsigned w v = nat (v mod 2 ^ w)"

definition unsigned_to_int :: "nat \<Rightarrow> nat \<Rightarrow> int" where
  "unsigned_to_int w n = (if 2 * int n < 2 ^ w then int n else int n - 2 ^ w)"

definition Serialize_int32 :: "int \<Rightarrow> bytes" where
  "Serialize_int32 a = ser_writedata32 (of_nat (int_to_unsigned 32 a))"

definition Unserialize_int32 :: "int reader" where
  "Unserialize_int32 s = ebind (ser_readdata32 s) (\<lambda>(x, s). Inr (unsigned_to_int 32 (unat x), s))"

definition Serialize_int64 :: "int \<Rightarrow> bytes" where
  "Serialize_int64 a = ser_writedata64 (of_nat (int_to_unsigned 64 a))"

definition Unserialize_int64 :: "int reader" where
  "Unserialize_int64 s = ebind (ser_readdata64 s) (\<lambda>(x, s). Inr (unsigned_to_int 64 (unat x), s))"

definition Serialize_bool :: "bool \<Rightarrow> bytes" where
  "Serialize_bool a = ser_writedata8 (if a then 1 else 0)"

definition Unserialize_bool :: "bool reader" where
  "Unserialize_bool s = ebind (ser_readdata8 s) (\<lambda>(x, s). Inr (x \<noteq> 0, s))"

section \<open>Compact sizes\<close>

definition MAX_SIZE :: nat where
  "MAX_SIZE = 0x02000000"

definition GetSizeOfCompactSize :: "nat \<Rightarrow> nat" where
  "GetSizeOfCompactSize nSize =
     (if nSize < 253 then 1
      else if nSize \<le> 0xFFFF then 1 + 2
      else if nSize \<le> 0xFFFFFFFF then 1 + 4
      else 1 + 8)"

definition WriteCompactSize :: "nat \<Rightarrow> bytes" where
  "WriteCompactSize nSize =
     (if nSize < 253 then ser_writedata8 (of_nat nSize)
      else if nSize \<le> 0xFFFF then ser_writedata8 253 @ ser_writedata16 (of_nat nSize)
      else if nSize \<le> 0xFFFFFFFF then ser_writedata8 254 @ ser_writedata32 (of_nat nSize)
      else ser_writedata8 255 @ ser_writedata64 (of_nat nSize))"

definition ReadCompactSize_limit :: "nat \<Rightarrow> bytes \<Rightarrow> ser_error + nat \<times> bytes" where
  "ReadCompactSize_limit nSizeRet s = (if nSizeRet > MAX_SIZE then Inl SizeTooLarge else Inr (nSizeRet, s))"

definition ReadCompactSize :: "nat reader" where
  "ReadCompactSize s = ebind (ser_readdata8 s) (\<lambda>(chSize, s).
     if chSize < 253 then ReadCompactSize_limit (unat chSize) s
     else if chSize = 253 then ebind (ser_readdata16 s) (\<lambda>(n, s).
       if unat n < 253 then Inl NonCanonicalSize else ReadCompactSize_limit (unat n) s)
     else if chSize = 254 then ebind (ser_readdata32 s) (\<lambda>(n, s).
       if unat n < 0x10000 then Inl NonCanonicalSize else ReadCompactSize_limit (unat n) s)
     else ebind (ser_readdata64 s) (\<lambda>(n, s).
       if unat n < 0x100000000 then Inl NonCanonicalSize else ReadCompactSize_limit (unat n) s))"

section \<open>Variable-length integers\<close>

text \<open>
  The writer fills a scratch array from the last digit to the first and emits it backwards.
  The numbers are those of an unsigned type of \<open>w\<close> bits; the reader's shift drops the bits
  above \<open>w\<close>, as the machine does.
\<close>

fun varint_tmp :: "bool \<Rightarrow> nat \<Rightarrow> bytes" where
  "varint_tmp more n = ((of_nat n AND 0x7F) OR (if more then 0x80 else 0x00)) #
     (if n \<le> 0x7F then [] else varint_tmp True (n div 128 - 1))"

definition WriteVarInt :: "nat \<Rightarrow> bytes" where
  "WriteVarInt n = rev (varint_tmp False n)"

fun GetSizeOfVarInt :: "nat \<Rightarrow> nat" where
  "GetSizeOfVarInt n = (if n \<le> 0x7F then 1 else 1 + GetSizeOfVarInt (n div 128 - 1))"

function ReadVarInt_loop :: "nat \<Rightarrow> nat \<Rightarrow> nat reader" where
  "ReadVarInt_loop w n s = ebind (ser_readdata8 s) (\<lambda>(chData, s).
     let n = (n * 128 mod 2 ^ w) OR unat (chData AND 0x7F)
     in if chData AND 0x80 \<noteq> 0 then ReadVarInt_loop w ((n + 1) mod 2 ^ w) s else Inr (n, s))"
  by pat_completeness auto
termination
  by (relation "measure (\<lambda>(w, n, s). length s)")
     (auto simp: ser_readdata8_def ebind_eq_Inr stream_read_Inr)

definition ReadVarInt :: "nat \<Rightarrow> nat reader" where
  "ReadVarInt w = ReadVarInt_loop w 0"

declare varint_tmp.simps [simp del] GetSizeOfVarInt.simps [simp del] ReadVarInt_loop.simps [simp del]

section \<open>Vectors\<close>

text \<open>
  A vector of bytes is read in blocks of at most 5000000 bytes, so that a bogus size does
  not allocate; a vector of other values is read element by element.
\<close>

function read_blocks :: "nat \<Rightarrow> bytes reader" where
  "read_blocks n s = (if n = 0 then Inr ([], s) else
     (let blk = min n (1 + 4999999) in
      ebind (stream_read blk s) (\<lambda>(x, s).
        ebind (read_blocks (n - blk) s) (\<lambda>(xs, s). Inr (x @ xs, s)))))"
  by pat_completeness auto
termination by (relation "measure fst") auto

declare read_blocks.simps [simp del]

definition Serialize_bytes :: "bytes \<Rightarrow> bytes" where
  "Serialize_bytes v = WriteCompactSize (length v) @ v"

definition Unserialize_bytes :: "bytes reader" where
  "Unserialize_bytes s = ebind (ReadCompactSize s) (\<lambda>(nSize, s). read_blocks nSize s)"

definition Serialize_vector :: "('a \<Rightarrow> bytes) \<Rightarrow> 'a list \<Rightarrow> bytes" where
  "Serialize_vector ser v = WriteCompactSize (length v) @ concat (map ser v)"

fun read_elements :: "'a reader \<Rightarrow> nat \<Rightarrow> 'a list reader" where
  "read_elements unser 0 s = Inr ([], s)"
| "read_elements unser (Suc n) s = ebind (unser s) (\<lambda>(x, s).
     ebind (read_elements unser n s) (\<lambda>(xs, s). Inr (x # xs, s)))"

definition Unserialize_vector :: "'a reader \<Rightarrow> 'a list reader" where
  "Unserialize_vector unser s = ebind (ReadCompactSize s) (\<lambda>(nSize, s). read_elements unser nSize s)"

section \<open>The codec contract\<close>

locale codec =
  fixes enc :: "'a \<Rightarrow> bytes" and dec :: "'a reader" and valid :: "'a \<Rightarrow> bool"
  assumes dec_enc: "valid x \<Longrightarrow> dec (enc x @ r) = Inr (x, r)"
begin

lemma prefix_free:
  assumes "valid x" "valid y" "enc x @ r = enc y @ s"
  shows "x = y \<and> r = s"
  using dec_enc [OF assms(1), of r, unfolded assms(3) dec_enc [OF assms(2)]] by simp

lemma enc_inject: "valid x \<Longrightarrow> valid y \<Longrightarrow> enc x = enc y \<longleftrightarrow> x = y"
  using prefix_free [of x y "[]" "[]"] by blast

lemma read_elements_enc:
  "list_all valid xs \<Longrightarrow> read_elements dec (length xs) (concat (map enc xs) @ r) = Inr (xs, r)"
  by (induction xs) (simp_all add: dec_enc)

end

locale canonical_codec = codec +
  assumes enc_dec: "dec s = Inr (x, r) \<Longrightarrow> valid x \<and> s = enc x @ r"
begin

lemma dec_iff: "dec s = Inr (x, r) \<longleftrightarrow> valid x \<and> s = enc x @ r"
  using enc_dec [of s x r] dec_enc [of x r] by blast

lemma read_elements_dec:
  "read_elements dec n s = Inr (xs, r) \<Longrightarrow>
     list_all valid xs \<and> length xs = n \<and> s = concat (map enc xs) @ r"
proof (induction n arbitrary: s xs)
  case (Suc n)
  then obtain x s' ys where "dec s = Inr (x, s')" "read_elements dec n s' = Inr (ys, r)" "xs = x # ys"
    by (auto simp: ebind_eq_Inr)
  with Suc.IH [of s' ys] show ?case by (auto simp: dec_iff)
qed auto

end

text \<open>Fixed-width integers and blobs.\<close>

lemma of_nat_le_nat_iff:
  assumes "2 ^ LENGTH('a) = (256::nat) ^ k" "length x = k"
  shows "(of_nat (le_nat x) :: 'a::len word) = w \<longleftrightarrow> x = le_bytes k (unat w)"
proof
  assume w: "of_nat (le_nat x) = w"
  have "le_nat x < 2 ^ LENGTH('a)" using le_nat_less [of x] assms by simp
  then have "unat w = le_nat x" using w by (auto simp: unat_of_nat)
  then show "x = le_bytes k (unat w)" using assms(2) le_bytes_le_nat [of x k] by simp
next
  assume x: "x = le_bytes k (unat w)"
  have "unat w < 2 ^ LENGTH('a)" by (rule unsigned_less)
  then show "of_nat (le_nat x) = w" using x assms(1) by (simp add: le_nat_le_bytes)
qed

lemma ebind_read_iff:
  assumes "\<And>x. length x = k \<Longrightarrow> f x = w \<longleftrightarrow> x = y" "length y = k"
  shows "ebind (stream_read k s) (\<lambda>(x, s). Inr (f x, s)) = Inr (w, r) \<longleftrightarrow> s = y @ r"
proof -
  have "ebind (stream_read k s) (\<lambda>(x, s). Inr (f x, s)) = Inr (w, r)
      \<longleftrightarrow> (\<exists>x. s = x @ r \<and> length x = k \<and> f x = w)"
    by (auto simp: ebind_eq_Inr stream_read_Inr)
  then show ?thesis using assms by blast
qed

lemma read_le_word:
  assumes "2 ^ LENGTH('a) = (256::nat) ^ k"
  shows "ebind (stream_read k s) (\<lambda>(x, s). Inr (of_nat (le_nat x) :: 'a::len word, s)) = Inr (w, r)
      \<longleftrightarrow> s = le_bytes k (unat w) @ r"
  by (rule ebind_read_iff) (simp_all add: of_nat_le_nat_iff [OF assms])

lemma read_be_word:
  assumes "2 ^ LENGTH('a) = (256::nat) ^ k"
  shows "ebind (stream_read k s) (\<lambda>(x, s). Inr (of_nat (le_nat (rev x)) :: 'a::len word, s)) = Inr (w, r)
      \<longleftrightarrow> s = rev (le_bytes k (unat w)) @ r"
  by (rule ebind_read_iff) (simp_all add: of_nat_le_nat_iff [OF assms] rev_swap)

lemma ser_readdata8_simps [simp]:
  "ser_readdata8 [] = Inl EndOfData"
  "ser_readdata8 (b # s) = Inr (b, s)"
  by (simp_all add: ser_readdata8_def stream_read_def)

lemma ser_readdata8_Inr: "ser_readdata8 s = Inr (b, r) \<longleftrightarrow> s = b # r"
  by (cases s) auto

interpretation data8: canonical_codec ser_writedata8 ser_readdata8 "\<lambda>_. True"
  by unfold_locales (simp_all add: ser_writedata8_def ser_readdata8_Inr)

interpretation data16: canonical_codec ser_writedata16 ser_readdata16 "\<lambda>_. True"
  by unfold_locales (simp_all add: ser_writedata16_def ser_readdata16_def read_le_word [where 'a = 16] del: stream_read_append)

interpretation data32: canonical_codec ser_writedata32 ser_readdata32 "\<lambda>_. True"
  by unfold_locales (simp_all add: ser_writedata32_def ser_readdata32_def read_le_word [where 'a = 32] del: stream_read_append)

interpretation data32be: canonical_codec ser_writedata32be ser_readdata32be "\<lambda>_. True"
  by unfold_locales (simp_all add: ser_writedata32be_def ser_readdata32be_def read_be_word [where 'a = 32] del: stream_read_append)

interpretation data64: canonical_codec ser_writedata64 ser_readdata64 "\<lambda>_. True"
  by unfold_locales (simp_all add: ser_writedata64_def ser_readdata64_def read_le_word [where 'a = 64] del: stream_read_append)

interpretation blob256: canonical_codec Serialize_uint256 Unserialize_uint256 "\<lambda>_. True"
  by unfold_locales (simp_all add: Serialize_uint256_def Unserialize_uint256_def read_le_word [where 'a = 256] del: stream_read_append)

text \<open>Signed integers, within the range of their type.\<close>

definition in_int :: "nat \<Rightarrow> int \<Rightarrow> bool" where
  "in_int w v \<longleftrightarrow> - (2 ^ (w - 1)) \<le> v \<and> v < 2 ^ (w - 1)"

lemma int_to_unsigned_less: "int_to_unsigned w v < 2 ^ w"
  by (simp add: int_to_unsigned_def nat_less_iff)

lemma unsigned_to_int_to_unsigned:
  assumes "in_int w v" "0 < w"
  shows "unsigned_to_int w (int_to_unsigned w v) = v"
proof -
  obtain k where w: "w = Suc k" using assms(2) by (cases w) auto
  have "v mod 2 ^ w = (if v < 0 then v + 2 ^ w else v)"
    using assms(1) w mod_pos_pos_trivial [of "v + 2 ^ w" "2 ^ w"] by (auto simp: in_int_def)
  then show ?thesis using assms(1) w by (auto simp: unsigned_to_int_def int_to_unsigned_def in_int_def)
qed

lemma int_to_unsigned_to_int:
  assumes "n < 2 ^ w" "0 < w"
  shows "int_to_unsigned w (unsigned_to_int w n) = n" "in_int w (unsigned_to_int w n)"
proof -
  obtain k where w: "w = Suc k" using assms(2) by (cases w) auto
  have n: "int n < 2 ^ w" using assms(1) by (metis of_nat_less_iff of_nat_numeral of_nat_power)
  then have "(int n - 2 ^ w) mod 2 ^ w = int n" "int n mod 2 ^ w = int n" by simp_all
  then show "int_to_unsigned w (unsigned_to_int w n) = n"
    by (simp add: unsigned_to_int_def int_to_unsigned_def)
  show "in_int w (unsigned_to_int w n)" using n w by (auto simp: unsigned_to_int_def in_int_def)
qed

interpretation int32: canonical_codec Serialize_int32 Unserialize_int32 "in_int 32"
proof
  show "in_int 32 x \<Longrightarrow> Unserialize_int32 (Serialize_int32 x @ r) = Inr (x, r)" for x r
    using int_to_unsigned_less [of 32 x]
    by (simp add: Serialize_int32_def Unserialize_int32_def data32.dec_enc unat_of_nat unsigned_to_int_to_unsigned)
  show "in_int 32 x \<and> s = Serialize_int32 x @ r" if "Unserialize_int32 s = Inr (x, r)" for s x r
  proof -
    obtain w where "s = ser_writedata32 w @ r" "x = unsigned_to_int 32 (unat w)"
      using \<open>Unserialize_int32 s = Inr (x, r)\<close> by (auto simp: Unserialize_int32_def ebind_eq_Inr data32.dec_iff)
    with int_to_unsigned_to_int [of "unat w" 32] unsigned_less [of w, where 'a = nat] show ?thesis
      by (simp add: Serialize_int32_def)
  qed
qed

interpretation int64: canonical_codec Serialize_int64 Unserialize_int64 "in_int 64"
proof
  show "in_int 64 x \<Longrightarrow> Unserialize_int64 (Serialize_int64 x @ r) = Inr (x, r)" for x r
    using int_to_unsigned_less [of 64 x]
    by (simp add: Serialize_int64_def Unserialize_int64_def data64.dec_enc unat_of_nat unsigned_to_int_to_unsigned)
  show "in_int 64 x \<and> s = Serialize_int64 x @ r" if "Unserialize_int64 s = Inr (x, r)" for s x r
  proof -
    obtain w where "s = ser_writedata64 w @ r" "x = unsigned_to_int 64 (unat w)"
      using \<open>Unserialize_int64 s = Inr (x, r)\<close> by (auto simp: Unserialize_int64_def ebind_eq_Inr data64.dec_iff)
    with int_to_unsigned_to_int [of "unat w" 64] unsigned_less [of w, where 'a = nat] show ?thesis
      by (simp add: Serialize_int64_def)
  qed
qed

text \<open>A boolean reads every non-zero byte as true, so its codec is not canonical.\<close>

interpretation ser_bool: codec Serialize_bool Unserialize_bool "\<lambda>_. True"
  by unfold_locales (simp add: Serialize_bool_def Unserialize_bool_def data8.dec_enc)

section \<open>Compact sizes round-trip\<close>

lemma ReadCompactSize_Write:
  assumes "n \<le> MAX_SIZE"
  shows "ReadCompactSize (WriteCompactSize n @ r) = Inr (n, r)"
  using assms
  by (auto simp: ReadCompactSize_def WriteCompactSize_def ReadCompactSize_limit_def ser_writedata8_def
      data16.dec_enc data32.dec_enc unat_of_nat word_less_nat_alt MAX_SIZE_def)

lemma WriteCompactSize_Read:
  assumes "ReadCompactSize s = Inr (n, r)"
  shows "n \<le> MAX_SIZE \<and> s = WriteCompactSize n @ r"
proof -
  obtain ch s' where s: "s = ch # s'" using assms by (cases s) (auto simp: ReadCompactSize_def)
  have "unat m \<le> 0xFFFF" for m :: u16 using unsigned_less [of m, where 'a = nat] by simp
  moreover have "unat m < 0x100000000" for m :: u32 using unsigned_less [of m, where 'a = nat] by simp
  ultimately show ?thesis using assms unfolding s
    by (auto simp: ReadCompactSize_def WriteCompactSize_def ReadCompactSize_limit_def ser_writedata8_def
        ebind_eq_Inr data16.dec_iff data32.dec_iff data64.dec_iff word_less_nat_alt MAX_SIZE_def
        not_less less_Suc_eq_le split: if_splits)
qed

interpretation csize: canonical_codec WriteCompactSize ReadCompactSize "\<lambda>n. n \<le> MAX_SIZE"
  by unfold_locales (rule ReadCompactSize_Write WriteCompactSize_Read, assumption)+

lemma length_WriteCompactSize: "length (WriteCompactSize n) = GetSizeOfCompactSize n"
  by (simp add: WriteCompactSize_def GetSizeOfCompactSize_def ser_writedata8_def ser_writedata16_def
      ser_writedata32_def ser_writedata64_def)

section \<open>Byte vectors and vectors of values\<close>

lemma read_blocks_eq: "read_blocks n s = stream_read n s"
proof (induction n s rule: read_blocks.induct)
  case (1 n s)
  show ?case
  proof (cases "n = 0")
    case True
    then show ?thesis by (simp add: read_blocks.simps [of 0] stream_read_def)
  next
    case False
    define blk where "blk = min n (1 + 4999999)"
    have blk: "blk \<le> n" by (simp add: blk_def)
    have "take blk s @ take (n - blk) (drop blk s) = take n s"
      using blk by (metis le_add_diff_inverse take_add)
    moreover have "read_blocks (n - blk) t = stream_read (n - blk) t" if "stream_read blk s = Inr (x, t)" for x t
      using 1 [OF False blk_def that] by simp
    moreover have "read_blocks n s = ebind (stream_read blk s) (\<lambda>(x, s).
        ebind (read_blocks (n - blk) s) (\<lambda>(xs, s). Inr (x @ xs, s)))"
      using False by (simp add: read_blocks.simps [of n] blk_def Let_def)
    ultimately show ?thesis using blk by (auto simp: stream_read_def)
  qed
qed

interpretation bytevec: canonical_codec Serialize_bytes Unserialize_bytes "\<lambda>v. length v \<le> MAX_SIZE"
proof
  show "length x \<le> MAX_SIZE \<Longrightarrow> Unserialize_bytes (Serialize_bytes x @ r) = Inr (x, r)" for x r
    by (simp add: Serialize_bytes_def Unserialize_bytes_def csize.dec_enc read_blocks_eq)
  show "Unserialize_bytes s = Inr (x, r) \<Longrightarrow> length x \<le> MAX_SIZE \<and> s = Serialize_bytes x @ r" for s x r
    by (auto simp: Serialize_bytes_def Unserialize_bytes_def ebind_eq_Inr csize.dec_iff read_blocks_eq stream_read_Inr)
qed

context codec
begin

lemma vector_codec:
  "codec (Serialize_vector enc) (Unserialize_vector dec) (\<lambda>xs. list_all valid xs \<and> length xs \<le> MAX_SIZE)"
  by unfold_locales (simp add: Serialize_vector_def Unserialize_vector_def csize.dec_enc read_elements_enc)

end

context canonical_codec
begin

lemma vector_canonical_codec:
  "canonical_codec (Serialize_vector enc) (Unserialize_vector dec) (\<lambda>xs. list_all valid xs \<and> length xs \<le> MAX_SIZE)"
proof (intro canonical_codec.intro vector_codec canonical_codec_axioms.intro)
  fix s xs r
  assume "Unserialize_vector dec s = Inr (xs, r)"
  then obtain n t where "n \<le> MAX_SIZE" "s = WriteCompactSize n @ t" "read_elements dec n t = Inr (xs, r)"
    by (auto simp: Unserialize_vector_def ebind_eq_Inr csize.dec_iff)
  with read_elements_dec [of n t xs r]
  show "(list_all valid xs \<and> length xs \<le> MAX_SIZE) \<and> s = Serialize_vector enc xs @ r"
    by (auto simp: Serialize_vector_def)
qed

end

section \<open>Variable-length integers round-trip\<close>

lemma byte_and_7F: "unat ((x::byte) AND 0x7F) = unat x mod 128"
proof -
  have "(0x7F :: byte) = mask 7" by (simp add: mask_eq_exp_minus_1)
  then have "x AND 0x7F = take_bit 7 x" by (simp only: take_bit_eq_mask)
  then have "unat (x AND 0x7F) = take_bit 7 (unat x)" by (simp only: unsigned_take_bit_eq)
  then show ?thesis by (simp add: take_bit_eq_mod)
qed

lemma varint_byte:
  fixes x :: byte
  shows "(x AND 0x7F OR 0x80) AND 0x7F = x AND 0x7F"
    and "(x AND 0x7F OR 0x80) AND 0x80 = 0x80"
    and "(x AND 0x7F) AND 0x80 = 0"
    and "(x AND 0x7F) AND 0x7F = x AND 0x7F"
  by (simp_all add: bit.conj_disj_distrib2 and.assoc)

lemma and_exp_if_bit: "bit (x :: 'a::len word) k \<Longrightarrow> x AND 2 ^ k = 2 ^ k"
  by (auto intro!: bit_eqI simp: bit_and_iff bit_exp_iff)

lemma varint_byte_split:
  fixes x :: byte
  shows "x AND 0x80 \<noteq> 0 \<Longrightarrow> x = x AND 0x7F OR 0x80"
    and "x AND 0x80 = 0 \<Longrightarrow> x = x AND 0x7F"
proof -
  have "(0x7F OR 0x80 :: byte) = - 1" by simp
  then have "x AND (0x7F OR 0x80) = x" by (simp only: and.right_neutral)
  then have x: "x = x AND 0x7F OR x AND 0x80" by (simp only: bit.conj_disj_distrib)
  then show "x AND 0x80 = 0 \<Longrightarrow> x = x AND 0x7F" by simp
  have "x AND 0x80 = (if bit x 7 then 0x80 else 0)"
    using and_exp_eq_0_iff_not_bit [of x 7] and_exp_if_bit [of x 7] by simp
  with x show "x AND 0x80 \<noteq> 0 \<Longrightarrow> x = x AND 0x7F OR 0x80" by (simp split: if_splits)
qed

lemma varint_shift_or:
  assumes "7 \<le> w" "d < 128"
  shows "(n * 128 mod 2 ^ w) OR d = n * 128 mod 2 ^ w + (d::nat)"
proof (rule disjunctive_add [symmetric])
  fix i
  have "n * 128 mod 2 ^ w = take_bit w (push_bit 7 n)" by (simp add: take_bit_eq_mod push_bit_eq_mult)
  moreover have "d = take_bit 7 d" using assms(2) by (simp add: take_bit_eq_mod)
  ultimately show "\<not> bit (n * 128 mod 2 ^ w) i \<or> \<not> bit d i"
    by (metis bit_push_bit_iff_nat bit_take_bit_iff not_less)
qed

lemma rev_varint_tmp:
  assumes "d < 128"
  shows "rev (varint_tmp more (n * 128 + d)) =
    (case n of 0 \<Rightarrow> [] | Suc m \<Rightarrow> rev (varint_tmp True m)) @ [of_nat d AND 0x7F OR (if more then 0x80 else 0)]"
proof -
  have "(of_nat (n * 128 + d) :: byte) AND 0x7F = of_nat d AND 0x7F"
    by (intro unsigned_word_eqI [where ?'a = nat])
       (simp add: byte_and_7F unat_of_nat_byte mod_mod_cancel del: of_nat_add)
  then show ?thesis using assms
    by (simp add: varint_tmp.simps [of more "n * 128 + d"] split: nat.split)
qed

lemma unat_of_nat_digit: "d < 128 \<Longrightarrow> unat ((of_nat d :: byte) AND 0x7F) = d"
  by (simp add: byte_and_7F unat_of_nat_byte)

lemma ReadVarInt_loop_digit:
  assumes "7 \<le> w" "n * 128 + d < 2 ^ w" "d < 128"
  shows "ReadVarInt_loop w n (((of_nat d :: byte) AND 0x7F OR (if more then 0x80 else 0)) # s) =
    (if more then ReadVarInt_loop w ((n * 128 + d + 1) mod 2 ^ w) s else Inr (n * 128 + d, s))"
proof -
  have "n * 128 mod 2 ^ w = n * 128" using assms(2) by simp
  then show ?thesis using assms varint_shift_or [OF assms(1,3), of n]
    by (simp add: ReadVarInt_loop.simps [of w n] varint_byte unat_of_nat_digit Let_def)
qed

lemma ReadVarInt_loop_prefix:
  assumes "7 \<le> w" "Suc m < 2 ^ w"
  shows "ReadVarInt_loop w 0 (rev (varint_tmp True m) @ s) = ReadVarInt_loop w (Suc m) s"
  using assms(2)
proof (induction m arbitrary: s rule: less_induct)
  case (less m)
  have digit: "ReadVarInt_loop w (m div 128) ((of_nat (m mod 128) AND 0x7F OR 0x80) # s) = ReadVarInt_loop w (Suc m) s"
    using ReadVarInt_loop_digit [OF assms(1), of "m div 128" "m mod 128" True s] less.prems by simp
  have tmp: "rev (varint_tmp True m) =
      (case m div 128 of 0 \<Rightarrow> [] | Suc k \<Rightarrow> rev (varint_tmp True k)) @ [of_nat (m mod 128) AND 0x7F OR 0x80]"
    using rev_varint_tmp [of "m mod 128" True "m div 128"] by simp
  show ?case
  proof (cases "m div 128")
    case 0
    then show ?thesis using digit tmp by simp
  next
    case (Suc k)
    then have "k < m" "Suc k < 2 ^ w" using less.prems by auto
    with less.IH [of k] show ?thesis using digit Suc tmp by simp
  qed
qed

lemma ReadVarInt_Write:
  assumes "7 \<le> w" "n < 2 ^ w"
  shows "ReadVarInt w (WriteVarInt n @ r) = Inr (n, r)"
proof -
  have digit: "ReadVarInt_loop w (n div 128) ((of_nat (n mod 128) AND 0x7F) # r) = Inr (n, r)"
    using ReadVarInt_loop_digit [OF assms(1), of "n div 128" "n mod 128" False r] assms(2) by simp
  have tmp: "rev (varint_tmp False n) =
      (case n div 128 of 0 \<Rightarrow> [] | Suc m \<Rightarrow> rev (varint_tmp True m)) @ [of_nat (n mod 128) AND 0x7F]"
    using rev_varint_tmp [of "n mod 128" False "n div 128"] by simp
  show ?thesis
  proof (cases "n div 128")
    case 0
    then show ?thesis using digit tmp by (simp add: ReadVarInt_def WriteVarInt_def)
  next
    case (Suc k)
    then have "Suc k < 2 ^ w" using assms(2) by (metis div_le_dividend le_less_trans)
    then show ?thesis using digit tmp Suc ReadVarInt_loop_prefix [OF assms(1), of k]
      by (simp add: ReadVarInt_def WriteVarInt_def)
  qed
qed

interpretation varint32: codec WriteVarInt "ReadVarInt 32" "\<lambda>n. n < 2 ^ 32"
  by unfold_locales (rule ReadVarInt_Write, simp_all)

interpretation varint64: codec WriteVarInt "ReadVarInt 64" "\<lambda>n. n < 2 ^ 64"
  by unfold_locales (rule ReadVarInt_Write, simp_all)

lemma length_varint_tmp: "length (varint_tmp more n) = GetSizeOfVarInt n"
  by (induction more n rule: varint_tmp.induct)
     (simp add: varint_tmp.simps GetSizeOfVarInt.simps)

lemma GetSizeOfVarInt_le: "n < 128 ^ Suc k \<Longrightarrow> GetSizeOfVarInt n \<le> Suc k"
proof (induction k arbitrary: n)
  case 0
  then show ?case by (simp add: GetSizeOfVarInt.simps [of n])
next
  case (Suc k)
  then have "n div 128 - 1 < 128 ^ Suc k" by (simp add: less_mult_imp_div_less)
  from Suc.IH [OF this] show ?case by (simp add: GetSizeOfVarInt.simps [of n])
qed

lemma ReadVarInt_loop_shorter: "ReadVarInt_loop w n s = Inr (v, r) \<Longrightarrow> length r < length s"
proof (induction w n s rule: ReadVarInt_loop.induct)
  case (1 w n s)
  from 1(2) obtain ch t where s: "s = ch # t"
    by (cases s) (auto simp: ReadVarInt_loop.simps [of w n])
  with 1 show ?case
    by (auto simp: ReadVarInt_loop.simps [of w n "ch # t"] Let_def split: if_splits intro: less_SucI)
qed

lemma varint_room:
  assumes "(n + 2) * 128 ^ Suc k \<le> 2 ^ w" "d < 128"
  shows "(n * 128 + d + 1 + 2) * 128 ^ k \<le> (2::nat) ^ w"
proof -
  have "(n * 128 + d + 1 + 2) * 128 ^ k \<le> ((n + 2) * 128) * 128 ^ k"
    using assms(2) by (intro mult_right_mono) auto
  also have "\<dots> \<le> 2 ^ w" using assms(1) by (simp add: algebra_simps)
  finally show ?thesis .
qed

lemma ReadVarInt_loop_canonical:
  assumes "ReadVarInt_loop w n s = Inr (v, r)" "7 \<le> w" "(n + 2) * 128 ^ (length s - length r) \<le> 2 ^ w"
  shows "(case n of 0 \<Rightarrow> [] | Suc m \<Rightarrow> rev (varint_tmp True m)) @ s = WriteVarInt v @ r"
  using assms
proof (induction w n s rule: ReadVarInt_loop.induct)
  case (1 w n s)
  from 1(2) obtain ch t where s: "s = ch # t"
    by (cases s) (auto simp: ReadVarInt_loop.simps [of w n])
  define d where "d = unat (ch AND 0x7F)"
  have d: "d < 128" by (simp add: d_def byte_and_7F)
  have chd: "of_nat d AND 0x7F = ch AND 0x7F" by (simp add: d_def varint_byte)
  define k where "k = length t - length r"
  have "length r \<le> length t" using ReadVarInt_loop_shorter [OF 1(2)] s by simp
  then have k: "length s - length r = Suc k" by (simp add: s k_def Suc_diff_le)
  have room: "(n * 128 + d + 1 + 2) * 128 ^ k \<le> 2 ^ w" using varint_room [OF _ d] 1(4) k by simp
  have "(n * 128 + d + 1 + 2) * 1 \<le> (n * 128 + d + 1 + 2) * 128 ^ k" by (intro mult_le_mono2) simp
  from order.trans [OF this room] have less: "n * 128 + d + 1 < 2 ^ w" by simp
  have n': "(n * 128 mod 2 ^ w) OR d = n * 128 + d" using varint_shift_or [OF 1(3) d, of n] less by simp
  show ?case
  proof (cases "ch AND 0x80 = 0")
    case True
    then have "v = n * 128 + d" "t = r" using 1(2) n' by (simp_all add: s ReadVarInt_loop.simps [of w n] d_def Let_def)
    moreover have "of_nat d AND 0x7F = ch" using chd varint_byte_split(2) [OF True] by simp
    ultimately show ?thesis using rev_varint_tmp [OF d, of False n] by (simp add: s WriteVarInt_def)
  next
    case False
    have rd: "ReadVarInt_loop w (n * 128 + d + 1) t = Inr (v, r)"
      using 1(2) False n' less by (simp add: s ReadVarInt_loop.simps [of w n] d_def Let_def)
    have "rev (varint_tmp True (n * 128 + d)) @ t = WriteVarInt v @ r"
      using 1(1) [of "(ch, t)" ch t "n * 128 + d"] rd False 1(3) room n' less by (simp add: s d_def k_def)
    moreover have "of_nat d AND 0x7F OR 0x80 = ch" using chd varint_byte_split(1) [OF False] by simp
    ultimately show ?thesis using rev_varint_tmp [OF d, of True n] by (simp add: s)
  qed
qed

text \<open>
  The compact size is a bijective code: a reader accepts exactly the bytes the writer
  produces for a size of at most \<open>MAX_SIZE\<close> and returns that size with the rest of the
  stream.  Longer forms of a size and oversized values are rejected.
\<close>

theorem ReadCompactSize_iff_WriteCompactSize:
  "ReadCompactSize s = Inr (n, r) \<longleftrightarrow> n \<le> MAX_SIZE \<and> s = WriteCompactSize n @ r"
  by (rule csize.dec_iff)

text \<open>
  The variable-length integer of every \<open>w\<close>-bit number reads back, whatever follows it,
  and the writer's scratch array of \<open>(w + 6) / 7\<close> bytes is large enough for its digits.
\<close>

theorem WriteVarInt_roundtrip:
  assumes "7 \<le> w" and "n < 2 ^ w"
  shows "ReadVarInt w (WriteVarInt n @ r) = Inr (n, r) \<and>
    length (WriteVarInt n) = GetSizeOfVarInt n \<and> GetSizeOfVarInt n \<le> (w + 6) div 7"
proof (intro conjI)
  show "ReadVarInt w (WriteVarInt n @ r) = Inr (n, r)" by (rule ReadVarInt_Write [OF assms])
  show "length (WriteVarInt n) = GetSizeOfVarInt n" by (simp add: WriteVarInt_def length_varint_tmp)
  obtain k where k: "(w + 6) div 7 = Suc k" using assms(1) by (cases "(w + 6) div 7") auto
  have "w \<le> 7 * ((w + 6) div 7)" by presburger
  then have "(2::nat) ^ w \<le> 2 ^ (7 * Suc k)" unfolding k by (rule power_increasing) simp
  also have "\<dots> = 128 ^ Suc k" by (simp only: power_mult) simp
  finally show "GetSizeOfVarInt n \<le> (w + 6) div 7" using assms(2) GetSizeOfVarInt_le [of n k] k by simp
qed

theorem WriteVarInt_roundtrip_witness:
  "(7::nat) \<le> 32 \<and> (16512::nat) < 2 ^ 32 \<and>
   ReadVarInt 32 (WriteVarInt 16512 @ [7]) = Inr (16512, [7]) \<and> GetSizeOfVarInt 16512 \<le> (32 + 6) div 7"
  using WriteVarInt_roundtrip [of 32 16512 "[7]"] by simp

text \<open>
  Every integer has one variable-length encoding only, as long as the digits read fit
  the reader's type: bytes that decode to \<open>n\<close> are the bytes the writer produces for \<open>n\<close>.
\<close>

theorem ReadVarInt_canonical:
  assumes "ReadVarInt w s = Inr (n, r)" and "7 \<le> w" and "7 * (length s - length r) < w"
  shows "s = WriteVarInt n @ r"
proof -
  have "(0 + 2) * 128 ^ (length s - length r) = (2::nat) ^ Suc (7 * (length s - length r))"
    by (simp add: power_mult)
  also have "\<dots> \<le> 2 ^ w" using assms(3) by (intro power_increasing) auto
  finally show ?thesis
    using ReadVarInt_loop_canonical [of w 0 s n r] assms(1,2) by (simp add: ReadVarInt_def)
qed

theorem ReadVarInt_canonical_witness:
  "ReadVarInt 32 [0x80, 0x7F, 3] = Inr (255, [3]) \<and> (7::nat) \<le> 32 \<and>
   7 * (length [0x80, 0x7F, 3 :: byte] - length [3 :: byte]) < 32 \<and>
   [0x80, 0x7F, 3] = WriteVarInt 255 @ [3]"
proof -
  have r: "ReadVarInt 32 [0x80, 0x7F, 3] = Inr (255, [3])"
    by (simp add: ReadVarInt_def ReadVarInt_loop.simps [of _ _ "_ # _"] Let_def)
  with ReadVarInt_canonical [OF r] show ?thesis by simp
qed

end
