(* ===== verification/Script.thy ===== *)
theory Script
  imports Serialize
begin

unbundle bit_operations_syntax

text \<open>
  Scripts: \<open>src/src/script/script.h\<close> and \<open>src/src/script/script.cpp\<close>.  A script is its list
  of bytes; an iterator into it is the list of the bytes from the iterator to the end.  The
  theory holds the opcode table, script numbers, the push operators and the instruction
  reader, and the functions that walk a script: signature-operation counts, the push-only
  test, find-and-delete, the output templates, and the BDAP (directory) prefix.

  Shown: the instruction reader inverts the push operators, script numbers are a bijective
  code, the walkers terminate and stay inside the script, find-and-delete removes exactly
  what it counts, and which BDAP prefixes are stripped correctly.
\<close>

section \<open>Opcodes\<close>

abbreviation (input) OP_0 :: nat where "OP_0 \<equiv> 0x00"
abbreviation (input) OP_FALSE :: nat where "OP_FALSE \<equiv> OP_0"
abbreviation (input) OP_PUSHDATA1 :: nat where "OP_PUSHDATA1 \<equiv> 0x4c"
abbreviation (input) OP_PUSHDATA2 :: nat where "OP_PUSHDATA2 \<equiv> 0x4d"
abbreviation (input) OP_PUSHDATA4 :: nat where "OP_PUSHDATA4 \<equiv> 0x4e"
abbreviation (input) OP_1NEGATE :: nat where "OP_1NEGATE \<equiv> 0x4f"
abbreviation (input) OP_RESERVED :: nat where "OP_RESERVED \<equiv> 0x50"
abbreviation (input) OP_1 :: nat where "OP_1 \<equiv> 0x51"
abbreviation (input) OP_TRUE :: nat where "OP_TRUE \<equiv> OP_1"
abbreviation (input) OP_2 :: nat where "OP_2 \<equiv> 0x52"
abbreviation (input) OP_3 :: nat where "OP_3 \<equiv> 0x53"
abbreviation (input) OP_4 :: nat where "OP_4 \<equiv> 0x54"
abbreviation (input) OP_5 :: nat where "OP_5 \<equiv> 0x55"
abbreviation (input) OP_6 :: nat where "OP_6 \<equiv> 0x56"
abbreviation (input) OP_7 :: nat where "OP_7 \<equiv> 0x57"
abbreviation (input) OP_8 :: nat where "OP_8 \<equiv> 0x58"
abbreviation (input) OP_9 :: nat where "OP_9 \<equiv> 0x59"
abbreviation (input) OP_10 :: nat where "OP_10 \<equiv> 0x5a"
abbreviation (input) OP_11 :: nat where "OP_11 \<equiv> 0x5b"
abbreviation (input) OP_12 :: nat where "OP_12 \<equiv> 0x5c"
abbreviation (input) OP_13 :: nat where "OP_13 \<equiv> 0x5d"
abbreviation (input) OP_14 :: nat where "OP_14 \<equiv> 0x5e"
abbreviation (input) OP_15 :: nat where "OP_15 \<equiv> 0x5f"
abbreviation (input) OP_16 :: nat where "OP_16 \<equiv> 0x60"
abbreviation (input) OP_NOP :: nat where "OP_NOP \<equiv> 0x61"
abbreviation (input) OP_VER :: nat where "OP_VER \<equiv> 0x62"
abbreviation (input) OP_IF :: nat where "OP_IF \<equiv> 0x63"
abbreviation (input) OP_NOTIF :: nat where "OP_NOTIF \<equiv> 0x64"
abbreviation (input) OP_VERIF :: nat where "OP_VERIF \<equiv> 0x65"
abbreviation (input) OP_VERNOTIF :: nat where "OP_VERNOTIF \<equiv> 0x66"
abbreviation (input) OP_ELSE :: nat where "OP_ELSE \<equiv> 0x67"
abbreviation (input) OP_ENDIF :: nat where "OP_ENDIF \<equiv> 0x68"
abbreviation (input) OP_VERIFY :: nat where "OP_VERIFY \<equiv> 0x69"
abbreviation (input) OP_RETURN :: nat where "OP_RETURN \<equiv> 0x6a"
abbreviation (input) OP_TOALTSTACK :: nat where "OP_TOALTSTACK \<equiv> 0x6b"
abbreviation (input) OP_FROMALTSTACK :: nat where "OP_FROMALTSTACK \<equiv> 0x6c"
abbreviation (input) OP_2DROP :: nat where "OP_2DROP \<equiv> 0x6d"
abbreviation (input) OP_2DUP :: nat where "OP_2DUP \<equiv> 0x6e"
abbreviation (input) OP_3DUP :: nat where "OP_3DUP \<equiv> 0x6f"
abbreviation (input) OP_2OVER :: nat where "OP_2OVER \<equiv> 0x70"
abbreviation (input) OP_2ROT :: nat where "OP_2ROT \<equiv> 0x71"
abbreviation (input) OP_2SWAP :: nat where "OP_2SWAP \<equiv> 0x72"
abbreviation (input) OP_IFDUP :: nat where "OP_IFDUP \<equiv> 0x73"
abbreviation (input) OP_DEPTH :: nat where "OP_DEPTH \<equiv> 0x74"
abbreviation (input) OP_DROP :: nat where "OP_DROP \<equiv> 0x75"
abbreviation (input) OP_DUP :: nat where "OP_DUP \<equiv> 0x76"
abbreviation (input) OP_NIP :: nat where "OP_NIP \<equiv> 0x77"
abbreviation (input) OP_OVER :: nat where "OP_OVER \<equiv> 0x78"
abbreviation (input) OP_PICK :: nat where "OP_PICK \<equiv> 0x79"
abbreviation (input) OP_ROLL :: nat where "OP_ROLL \<equiv> 0x7a"
abbreviation (input) OP_ROT :: nat where "OP_ROT \<equiv> 0x7b"
abbreviation (input) OP_SWAP :: nat where "OP_SWAP \<equiv> 0x7c"
abbreviation (input) OP_TUCK :: nat where "OP_TUCK \<equiv> 0x7d"
abbreviation (input) OP_CAT :: nat where "OP_CAT \<equiv> 0x7e"
abbreviation (input) OP_SUBSTR :: nat where "OP_SUBSTR \<equiv> 0x7f"
abbreviation (input) OP_LEFT :: nat where "OP_LEFT \<equiv> 0x80"
abbreviation (input) OP_RIGHT :: nat where "OP_RIGHT \<equiv> 0x81"
abbreviation (input) OP_SIZE :: nat where "OP_SIZE \<equiv> 0x82"
abbreviation (input) OP_INVERT :: nat where "OP_INVERT \<equiv> 0x83"
abbreviation (input) OP_AND :: nat where "OP_AND \<equiv> 0x84"
abbreviation (input) OP_OR :: nat where "OP_OR \<equiv> 0x85"
abbreviation (input) OP_XOR :: nat where "OP_XOR \<equiv> 0x86"
abbreviation (input) OP_EQUAL :: nat where "OP_EQUAL \<equiv> 0x87"
abbreviation (input) OP_EQUALVERIFY :: nat where "OP_EQUALVERIFY \<equiv> 0x88"
abbreviation (input) OP_RESERVED1 :: nat where "OP_RESERVED1 \<equiv> 0x89"
abbreviation (input) OP_RESERVED2 :: nat where "OP_RESERVED2 \<equiv> 0x8a"
abbreviation (input) OP_1ADD :: nat where "OP_1ADD \<equiv> 0x8b"
abbreviation (input) OP_1SUB :: nat where "OP_1SUB \<equiv> 0x8c"
abbreviation (input) OP_2MUL :: nat where "OP_2MUL \<equiv> 0x8d"
abbreviation (input) OP_2DIV :: nat where "OP_2DIV \<equiv> 0x8e"
abbreviation (input) OP_NEGATE :: nat where "OP_NEGATE \<equiv> 0x8f"
abbreviation (input) OP_ABS :: nat where "OP_ABS \<equiv> 0x90"
abbreviation (input) OP_NOT :: nat where "OP_NOT \<equiv> 0x91"
abbreviation (input) OP_0NOTEQUAL :: nat where "OP_0NOTEQUAL \<equiv> 0x92"
abbreviation (input) OP_ADD :: nat where "OP_ADD \<equiv> 0x93"
abbreviation (input) OP_SUB :: nat where "OP_SUB \<equiv> 0x94"
abbreviation (input) OP_MUL :: nat where "OP_MUL \<equiv> 0x95"
abbreviation (input) OP_DIV :: nat where "OP_DIV \<equiv> 0x96"
abbreviation (input) OP_MOD :: nat where "OP_MOD \<equiv> 0x97"
abbreviation (input) OP_LSHIFT :: nat where "OP_LSHIFT \<equiv> 0x98"
abbreviation (input) OP_RSHIFT :: nat where "OP_RSHIFT \<equiv> 0x99"
abbreviation (input) OP_BOOLAND :: nat where "OP_BOOLAND \<equiv> 0x9a"
abbreviation (input) OP_BOOLOR :: nat where "OP_BOOLOR \<equiv> 0x9b"
abbreviation (input) OP_NUMEQUAL :: nat where "OP_NUMEQUAL \<equiv> 0x9c"
abbreviation (input) OP_NUMEQUALVERIFY :: nat where "OP_NUMEQUALVERIFY \<equiv> 0x9d"
abbreviation (input) OP_NUMNOTEQUAL :: nat where "OP_NUMNOTEQUAL \<equiv> 0x9e"
abbreviation (input) OP_LESSTHAN :: nat where "OP_LESSTHAN \<equiv> 0x9f"
abbreviation (input) OP_GREATERTHAN :: nat where "OP_GREATERTHAN \<equiv> 0xa0"
abbreviation (input) OP_LESSTHANOREQUAL :: nat where "OP_LESSTHANOREQUAL \<equiv> 0xa1"
abbreviation (input) OP_GREATERTHANOREQUAL :: nat where "OP_GREATERTHANOREQUAL \<equiv> 0xa2"
abbreviation (input) OP_MIN :: nat where "OP_MIN \<equiv> 0xa3"
abbreviation (input) OP_MAX :: nat where "OP_MAX \<equiv> 0xa4"
abbreviation (input) OP_WITHIN :: nat where "OP_WITHIN \<equiv> 0xa5"
abbreviation (input) OP_RIPEMD160 :: nat where "OP_RIPEMD160 \<equiv> 0xa6"
abbreviation (input) OP_SHA1 :: nat where "OP_SHA1 \<equiv> 0xa7"
abbreviation (input) OP_SHA256 :: nat where "OP_SHA256 \<equiv> 0xa8"
abbreviation (input) OP_HASH160 :: nat where "OP_HASH160 \<equiv> 0xa9"
abbreviation (input) OP_HASH256 :: nat where "OP_HASH256 \<equiv> 0xaa"
abbreviation (input) OP_CODESEPARATOR :: nat where "OP_CODESEPARATOR \<equiv> 0xab"
abbreviation (input) OP_CHECKSIG :: nat where "OP_CHECKSIG \<equiv> 0xac"
abbreviation (input) OP_CHECKSIGVERIFY :: nat where "OP_CHECKSIGVERIFY \<equiv> 0xad"
abbreviation (input) OP_CHECKMULTISIG :: nat where "OP_CHECKMULTISIG \<equiv> 0xae"
abbreviation (input) OP_CHECKMULTISIGVERIFY :: nat where "OP_CHECKMULTISIGVERIFY \<equiv> 0xaf"
abbreviation (input) OP_NOP1 :: nat where "OP_NOP1 \<equiv> 0xb0"
abbreviation (input) OP_CHECKLOCKTIMEVERIFY :: nat where "OP_CHECKLOCKTIMEVERIFY \<equiv> 0xb1"
abbreviation (input) OP_NOP2 :: nat where "OP_NOP2 \<equiv> OP_CHECKLOCKTIMEVERIFY"
abbreviation (input) OP_CHECKSEQUENCEVERIFY :: nat where "OP_CHECKSEQUENCEVERIFY \<equiv> 0xb2"
abbreviation (input) OP_NOP3 :: nat where "OP_NOP3 \<equiv> OP_CHECKSEQUENCEVERIFY"
abbreviation (input) OP_NOP4 :: nat where "OP_NOP4 \<equiv> 0xb3"
abbreviation (input) OP_NOP5 :: nat where "OP_NOP5 \<equiv> 0xb4"
abbreviation (input) OP_NOP6 :: nat where "OP_NOP6 \<equiv> 0xb5"
abbreviation (input) OP_NOP7 :: nat where "OP_NOP7 \<equiv> 0xb6"
abbreviation (input) OP_NOP8 :: nat where "OP_NOP8 \<equiv> 0xb7"
abbreviation (input) OP_NOP9 :: nat where "OP_NOP9 \<equiv> 0xb8"
abbreviation (input) OP_NOP10 :: nat where "OP_NOP10 \<equiv> 0xb9"
abbreviation (input) OP_SMALLINTEGER :: nat where "OP_SMALLINTEGER \<equiv> 0xfa"
abbreviation (input) OP_PUBKEYS :: nat where "OP_PUBKEYS \<equiv> 0xfb"
abbreviation (input) OP_PUBKEYHASH :: nat where "OP_PUBKEYHASH \<equiv> 0xfd"
abbreviation (input) OP_PUBKEY :: nat where "OP_PUBKEY \<equiv> 0xfe"
abbreviation (input) OP_MINT :: nat where "OP_MINT \<equiv> 0xc0"
abbreviation (input) OP_REWARD_MASTERNODE :: nat where "OP_REWARD_MASTERNODE \<equiv> 0xc3"
abbreviation (input) OP_REWARD_MINING :: nat where "OP_REWARD_MINING \<equiv> 0xc4"
abbreviation (input) OP_SWAP_SOVEREIGN_ADDRESS :: nat where "OP_SWAP_SOVEREIGN_ADDRESS \<equiv> 0xc5"
abbreviation (input) OP_UPDATE_FEES :: nat where "OP_UPDATE_FEES \<equiv> 0xc6"
abbreviation (input) OP_FREEZE_ADDRESS :: nat where "OP_FREEZE_ADDRESS \<equiv> 0xc7"
abbreviation (input) OP_RELEASE_ADDRESS :: nat where "OP_RELEASE_ADDRESS \<equiv> 0xc8"
abbreviation (input) OP_BDAP_REVOKE :: nat where "OP_BDAP_REVOKE \<equiv> 0xc9"
abbreviation (input) OP_BDAP_NEW :: nat where "OP_BDAP_NEW \<equiv> 0x01"
abbreviation (input) OP_BDAP_DELETE :: nat where "OP_BDAP_DELETE \<equiv> 0x02"
abbreviation (input) OP_BDAP_EXPIRE :: nat where "OP_BDAP_EXPIRE \<equiv> 0x03"
abbreviation (input) OP_BDAP_MODIFY :: nat where "OP_BDAP_MODIFY \<equiv> 0x04"
abbreviation (input) OP_BDAP_MOVE :: nat where "OP_BDAP_MOVE \<equiv> 0x05"
abbreviation (input) OP_BDAP_ACCOUNT_ENTRY :: nat where "OP_BDAP_ACCOUNT_ENTRY \<equiv> 0x06"
abbreviation (input) OP_BDAP_LINK_REQUEST :: nat where "OP_BDAP_LINK_REQUEST \<equiv> 0x07"
abbreviation (input) OP_BDAP_LINK_ACCEPT :: nat where "OP_BDAP_LINK_ACCEPT \<equiv> 0x08"
abbreviation (input) OP_BDAP_AUDIT :: nat where "OP_BDAP_AUDIT \<equiv> 0x09"
abbreviation (input) OP_BDAP_CERTIFICATE :: nat where "OP_BDAP_CERTIFICATE \<equiv> 0x0a"
abbreviation (input) OP_BDAP_IDENTITY :: nat where "OP_BDAP_IDENTITY \<equiv> 0x0b"
abbreviation (input) OP_BDAP_ID_VERIFICATION :: nat where "OP_BDAP_ID_VERIFICATION \<equiv> 0x0c"
abbreviation (input) OP_BDAP_SIDECHAIN :: nat where "OP_BDAP_SIDECHAIN \<equiv> 0x0d"
abbreviation (input) OP_BDAP_SIDECHAIN_CHECKPOINT :: nat where "OP_BDAP_SIDECHAIN_CHECKPOINT \<equiv> 0x0e"
abbreviation (input) OP_BDAP_ASSET :: nat where "OP_BDAP_ASSET \<equiv> 0x0f"
abbreviation (input) OP_CASH_EXTENDED :: nat where "OP_CASH_EXTENDED \<equiv> 0x10"
abbreviation (input) OP_INVALIDOPCODE :: nat where "OP_INVALIDOPCODE \<equiv> 0xff"

text \<open>The names the disassembler prints.\<close>

definition op_names :: "(nat \<times> string) list" where
  "op_names = [
    (OP_0, ''0''),
    (OP_PUSHDATA1, ''OP_PUSHDATA1''),
    (OP_PUSHDATA2, ''OP_PUSHDATA2''),
    (OP_PUSHDATA4, ''OP_PUSHDATA4''),
    (OP_1NEGATE, ''-1''),
    (OP_RESERVED, ''OP_RESERVED''),
    (OP_1, ''1''),
    (OP_2, ''2''),
    (OP_3, ''3''),
    (OP_4, ''4''),
    (OP_5, ''5''),
    (OP_6, ''6''),
    (OP_7, ''7''),
    (OP_8, ''8''),
    (OP_9, ''9''),
    (OP_10, ''10''),
    (OP_11, ''11''),
    (OP_12, ''12''),
    (OP_13, ''13''),
    (OP_14, ''14''),
    (OP_15, ''15''),
    (OP_16, ''16''),
    (OP_NOP, ''OP_NOP''),
    (OP_VER, ''OP_VER''),
    (OP_IF, ''OP_IF''),
    (OP_NOTIF, ''OP_NOTIF''),
    (OP_VERIF, ''OP_VERIF''),
    (OP_VERNOTIF, ''OP_VERNOTIF''),
    (OP_ELSE, ''OP_ELSE''),
    (OP_ENDIF, ''OP_ENDIF''),
    (OP_VERIFY, ''OP_VERIFY''),
    (OP_RETURN, ''OP_RETURN''),
    (OP_TOALTSTACK, ''OP_TOALTSTACK''),
    (OP_FROMALTSTACK, ''OP_FROMALTSTACK''),
    (OP_2DROP, ''OP_2DROP''),
    (OP_2DUP, ''OP_2DUP''),
    (OP_3DUP, ''OP_3DUP''),
    (OP_2OVER, ''OP_2OVER''),
    (OP_2ROT, ''OP_2ROT''),
    (OP_2SWAP, ''OP_2SWAP''),
    (OP_IFDUP, ''OP_IFDUP''),
    (OP_DEPTH, ''OP_DEPTH''),
    (OP_DROP, ''OP_DROP''),
    (OP_DUP, ''OP_DUP''),
    (OP_NIP, ''OP_NIP''),
    (OP_OVER, ''OP_OVER''),
    (OP_PICK, ''OP_PICK''),
    (OP_ROLL, ''OP_ROLL''),
    (OP_ROT, ''OP_ROT''),
    (OP_SWAP, ''OP_SWAP''),
    (OP_TUCK, ''OP_TUCK''),
    (OP_CAT, ''OP_CAT''),
    (OP_SUBSTR, ''OP_SUBSTR''),
    (OP_LEFT, ''OP_LEFT''),
    (OP_RIGHT, ''OP_RIGHT''),
    (OP_SIZE, ''OP_SIZE''),
    (OP_INVERT, ''OP_INVERT''),
    (OP_AND, ''OP_AND''),
    (OP_OR, ''OP_OR''),
    (OP_XOR, ''OP_XOR''),
    (OP_EQUAL, ''OP_EQUAL''),
    (OP_EQUALVERIFY, ''OP_EQUALVERIFY''),
    (OP_RESERVED1, ''OP_RESERVED1''),
    (OP_RESERVED2, ''OP_RESERVED2''),
    (OP_1ADD, ''OP_1ADD''),
    (OP_1SUB, ''OP_1SUB''),
    (OP_2MUL, ''OP_2MUL''),
    (OP_2DIV, ''OP_2DIV''),
    (OP_NEGATE, ''OP_NEGATE''),
    (OP_ABS, ''OP_ABS''),
    (OP_NOT, ''OP_NOT''),
    (OP_0NOTEQUAL, ''OP_0NOTEQUAL''),
    (OP_ADD, ''OP_ADD''),
    (OP_SUB, ''OP_SUB''),
    (OP_MUL, ''OP_MUL''),
    (OP_DIV, ''OP_DIV''),
    (OP_MOD, ''OP_MOD''),
    (OP_LSHIFT, ''OP_LSHIFT''),
    (OP_RSHIFT, ''OP_RSHIFT''),
    (OP_BOOLAND, ''OP_BOOLAND''),
    (OP_BOOLOR, ''OP_BOOLOR''),
    (OP_NUMEQUAL, ''OP_NUMEQUAL''),
    (OP_NUMEQUALVERIFY, ''OP_NUMEQUALVERIFY''),
    (OP_NUMNOTEQUAL, ''OP_NUMNOTEQUAL''),
    (OP_LESSTHAN, ''OP_LESSTHAN''),
    (OP_GREATERTHAN, ''OP_GREATERTHAN''),
    (OP_LESSTHANOREQUAL, ''OP_LESSTHANOREQUAL''),
    (OP_GREATERTHANOREQUAL, ''OP_GREATERTHANOREQUAL''),
    (OP_MIN, ''OP_MIN''),
    (OP_MAX, ''OP_MAX''),
    (OP_WITHIN, ''OP_WITHIN''),
    (OP_RIPEMD160, ''OP_RIPEMD160''),
    (OP_SHA1, ''OP_SHA1''),
    (OP_SHA256, ''OP_SHA256''),
    (OP_HASH160, ''OP_HASH160''),
    (OP_HASH256, ''OP_HASH256''),
    (OP_CODESEPARATOR, ''OP_CODESEPARATOR''),
    (OP_CHECKSIG, ''OP_CHECKSIG''),
    (OP_CHECKSIGVERIFY, ''OP_CHECKSIGVERIFY''),
    (OP_CHECKMULTISIG, ''OP_CHECKMULTISIG''),
    (OP_CHECKMULTISIGVERIFY, ''OP_CHECKMULTISIGVERIFY''),
    (OP_NOP1, ''OP_NOP1''),
    (OP_CHECKLOCKTIMEVERIFY, ''OP_CHECKLOCKTIMEVERIFY''),
    (OP_CHECKSEQUENCEVERIFY, ''OP_CHECKSEQUENCEVERIFY''),
    (OP_NOP4, ''OP_NOP4''),
    (OP_NOP5, ''OP_NOP5''),
    (OP_NOP6, ''OP_NOP6''),
    (OP_NOP7, ''OP_NOP7''),
    (OP_NOP8, ''OP_NOP8''),
    (OP_NOP9, ''OP_NOP9''),
    (OP_NOP10, ''OP_NOP10''),
    (OP_MINT, ''OP_MINT''),
    (OP_REWARD_MASTERNODE, ''OP_REWARD_MASTERNODE''),
    (OP_REWARD_MINING, ''OP_REWARD_MINING''),
    (OP_SWAP_SOVEREIGN_ADDRESS, ''OP_SWAP_SOVEREIGN_ADDRESS''),
    (OP_UPDATE_FEES, ''OP_UPDATE_FEES''),
    (OP_FREEZE_ADDRESS, ''OP_FREEZE_ADDRESS''),
    (OP_RELEASE_ADDRESS, ''OP_RELEASE_ADDRESS''),
    (OP_BDAP_NEW, ''OP_BDAP_NEW''),
    (OP_BDAP_DELETE, ''OP_BDAP_DELETE''),
    (OP_BDAP_REVOKE, ''OP_BDAP_REVOKE''),
    (OP_BDAP_MODIFY, ''OP_BDAP_MODIFY''),
    (OP_BDAP_MOVE, ''OP_BDAP_MOVE''),
    (OP_BDAP_ACCOUNT_ENTRY, ''OP_BDAP_ACCOUNT_ENTRY''),
    (OP_BDAP_LINK_REQUEST, ''OP_BDAP_LINK_REQUEST''),
    (OP_BDAP_LINK_ACCEPT, ''OP_BDAP_LINK_ACCEPT''),
    (OP_BDAP_AUDIT, ''OP_BDAP_AUDIT''),
    (OP_BDAP_CERTIFICATE, ''OP_BDAP_CERTIFICATE''),
    (OP_BDAP_IDENTITY, ''OP_BDAP_IDENTITY''),
    (OP_BDAP_ID_VERIFICATION, ''OP_BDAP_ID_VERIFICATION''),
    (OP_BDAP_SIDECHAIN, ''OP_BDAP_SIDECHAIN''),
    (OP_BDAP_SIDECHAIN_CHECKPOINT, ''OP_BDAP_SIDECHAIN_CHECKPOINT''),
    (OP_BDAP_ASSET, ''OP_BDAP_ASSET''),
    (OP_INVALIDOPCODE, ''OP_INVALIDOPCODE'')]"

definition GetOpName :: "nat \<Rightarrow> string" where
  "GetOpName opcode = (case map_of op_names opcode of Some s \<Rightarrow> s | None \<Rightarrow> ''OP_UNKNOWN'')"

section \<open>Limits\<close>

definition MAX_SCRIPT_ELEMENT_SIZE :: nat where "MAX_SCRIPT_ELEMENT_SIZE = 520"

definition MAX_OPS_PER_SCRIPT :: nat where "MAX_OPS_PER_SCRIPT = 201"

definition MAX_PUBKEYS_PER_MULTISIG :: nat where "MAX_PUBKEYS_PER_MULTISIG = 20"

definition MAX_SCRIPT_SIZE :: nat where "MAX_SCRIPT_SIZE = 10000"

definition LOCKTIME_THRESHOLD :: nat where "LOCKTIME_THRESHOLD = 500000000"

section \<open>Script numbers\<close>

text \<open>
  The constructor from bytes throws on operands that are too long or not minimally encoded.
  No caller allows more than five bytes, so the 64-bit accumulator of \<open>set_vch\<close> holds
  every operand.
\<close>

datatype scriptnum_error = NumOverflow | NumNonMinimal

definition set_vch :: "bytes \<Rightarrow> int" where
  "set_vch vch =
     (if vch = [] then 0
      else let result = le_nat vch in
        if last vch AND 0x80 \<noteq> 0 then - unset_bit (8 * (length vch - 1) + 7) (int result)
        else int result)"

definition CScriptNum :: "bytes \<Rightarrow> bool \<Rightarrow> nat \<Rightarrow> scriptnum_error + int" where
  "CScriptNum vch fRequireMinimal nMaxNumSize =
     (if length vch > nMaxNumSize then Inl NumOverflow
      else if fRequireMinimal \<and> length vch > 0 \<and> last vch AND 0x7F = 0 \<and>
         (length vch \<le> 1 \<or> vch ! (length vch - 2) AND 0x80 = 0) then Inl NumNonMinimal
      else Inr (set_vch vch))"

definition nDefaultMaxNumSize :: nat where "nDefaultMaxNumSize = 4"

definition getint :: "int \<Rightarrow> int" where
  "getint m_value = (if m_value > 2 ^ 31 - 1 then 2 ^ 31 - 1 else if m_value < - (2 ^ 31) then - (2 ^ 31) else m_value)"

fun le_digits :: "nat \<Rightarrow> bytes" where
  "le_digits absvalue = (if absvalue = 0 then [] else of_nat (absvalue AND 0xFF) # le_digits (absvalue div 256))"

declare le_digits.simps [simp del]

definition scriptnum_serialize :: "int \<Rightarrow> bytes" where
  "scriptnum_serialize value =
     (if value = 0 then []
      else let neg = value < 0; result = le_digits (nat \<bar>value\<bar>) in
        if last result AND 0x80 \<noteq> 0 then result @ [if neg then 0x80 else 0]
        else if neg then butlast result @ [last result OR 0x80]
        else result)"

section \<open>Push operators\<close>

definition push_opcode :: "bytes \<Rightarrow> nat \<Rightarrow> bytes option" where
  "push_opcode script opcode = (if opcode > 0xFF then None else Some (script @ [of_nat opcode]))"

definition push_vch :: "bytes \<Rightarrow> bytes \<Rightarrow> bytes" where
  "push_vch script b =
     (if length b < OP_PUSHDATA1 then script @ [of_nat (length b)]
      else if length b \<le> 0xFF then script @ [of_nat OP_PUSHDATA1, of_nat (length b)]
      else if length b \<le> 0xFFFF then script @ [of_nat OP_PUSHDATA2] @ le_bytes 2 (length b)
      else script @ [of_nat OP_PUSHDATA4] @ le_bytes 4 (length b)) @ b"

definition push_scriptnum :: "bytes \<Rightarrow> int \<Rightarrow> bytes" where
  "push_scriptnum script m_value = push_vch script (scriptnum_serialize m_value)"

definition push_int64 :: "bytes \<Rightarrow> int \<Rightarrow> bytes" where
  "push_int64 script n =
     (if n = - 1 \<or> (n \<ge> 1 \<and> n \<le> 16) then script @ [of_int (n + (int OP_1 - 1))]
      else if n = 0 then script @ [of_nat OP_0]
      else push_vch script (scriptnum_serialize n))"

section \<open>The instruction reader\<close>

text \<open>
  The result is the return value, the opcode, the pushed data, and the iterator, which a
  failing call may have moved as well.
\<close>

type_synonym getop_result = "bool \<times> nat \<times> bytes \<times> bytes"

definition push_size :: "nat \<Rightarrow> bytes \<Rightarrow> (nat \<times> bytes) option" where
  "push_size opcode pc =
     (if opcode < OP_PUSHDATA1 then Some (opcode, pc)
      else if opcode = OP_PUSHDATA1 then
        (if length pc < 1 then None else Some (unat (hd pc), tl pc))
      else if opcode = OP_PUSHDATA2 then
        (if length pc < 2 then None else Some (le_nat (take 2 pc), drop 2 pc))
      else (if length pc < 4 then None else Some (le_nat (take 4 pc), drop 4 pc)))"

definition GetOp2 :: "bytes \<Rightarrow> getop_result" where
  "GetOp2 pc = (case pc of
       [] \<Rightarrow> (False, OP_INVALIDOPCODE, [], [])
     | b # pc \<Rightarrow>
        let opcode = unat b in
        if opcode \<le> OP_PUSHDATA4 then
          (case push_size opcode pc of
             None \<Rightarrow> (False, OP_INVALIDOPCODE, [], pc)
           | Some (nSize, pc) \<Rightarrow>
              if length pc < nSize then (False, OP_INVALIDOPCODE, [], pc)
              else (True, opcode, take nSize pc, drop nSize pc))
        else (True, opcode, [], pc))"

text \<open>A successful read; callers that stop at a failing one need no more.\<close>

definition GetOp :: "bytes \<Rightarrow> (nat \<times> bytes \<times> bytes) option" where
  "GetOp pc = (case GetOp2 pc of (ok, opcode, vch, pc') \<Rightarrow> if ok then Some (opcode, vch, pc') else None)"

lemma push_size_shorter: "push_size opcode pc = Some (n, pc') \<Longrightarrow> length pc' \<le> length pc"
  by (auto simp: push_size_def split: if_splits)

lemma GetOp_shorter: "GetOp pc = Some (opcode, vch, pc') \<Longrightarrow> length pc' < length pc"
  by (auto simp: GetOp_def GetOp2_def Let_def less_Suc_eq_le dest!: push_size_shorter
      split: list.splits if_splits option.splits prod.splits)

lemma GetOp_Nil [simp]: "GetOp [] = None"
  by (simp add: GetOp_def GetOp2_def)

section \<open>Walking a script\<close>

definition DecodeOP_N :: "nat \<Rightarrow> nat" where
  "DecodeOP_N opcode = (if opcode = OP_0 then 0 else opcode - (OP_1 - 1))"

definition EncodeOP_N :: "nat \<Rightarrow> nat" where
  "EncodeOP_N n = (if n = 0 then OP_0 else OP_1 + n - 1)"

function skip_matches :: "bytes \<Rightarrow> bytes \<Rightarrow> nat \<Rightarrow> bytes \<times> nat" where
  "skip_matches b pc nFound =
     (if b \<noteq> [] \<and> length pc \<ge> length b \<and> take (length b) pc = b
      then skip_matches b (drop (length b) pc) (nFound + 1) else (pc, nFound))"
  by pat_completeness auto
termination by (relation "measure (\<lambda>(b, pc, n). length pc)") (auto simp flip: length_greater_0_conv)

declare skip_matches.simps [simp del]

lemma skip_matches_shorter: "skip_matches b pc n = (pc', n') \<Longrightarrow> length pc' \<le> length pc"
proof (induction b pc n arbitrary: pc' n' rule: skip_matches.induct)
  case (1 b pc n)
  then show ?case using skip_matches.simps [of b pc n] by (fastforce split: if_splits)
qed

text \<open>Two iterators are kept, \<open>pc2\<close> where the pending piece starts and \<open>pc\<close> behind it.\<close>

function FindAndDelete_loop :: "bytes \<Rightarrow> bytes \<Rightarrow> bytes \<Rightarrow> bytes \<Rightarrow> nat \<Rightarrow> bytes \<times> bytes \<times> nat" where
  "FindAndDelete_loop b result pc2 pc nFound =
     (let result = result @ take (length pc2 - length pc) pc2 in
      case skip_matches b pc nFound of (pc, nFound) \<Rightarrow>
        (case GetOp pc of
           None \<Rightarrow> (result, pc, nFound)
         | Some (opcode, vch, pc') \<Rightarrow> FindAndDelete_loop b result pc pc' nFound))"
  by pat_completeness auto
termination
  by (relation "measure (\<lambda>(b, r, pc2, pc, n). length pc)")
     (auto dest!: GetOp_shorter skip_matches_shorter [OF sym])

declare FindAndDelete_loop.simps [simp del]

definition FindAndDelete :: "bytes \<Rightarrow> bytes \<Rightarrow> nat \<times> bytes" where
  "FindAndDelete script b =
     (if b = [] then (0, script)
      else case FindAndDelete_loop b [] script script 0 of (result, pc2, nFound) \<Rightarrow>
        if nFound > 0 then (nFound, result @ pc2) else (nFound, script))"

function Find_loop :: "nat \<Rightarrow> bytes \<Rightarrow> nat \<Rightarrow> nat" where
  "Find_loop op pc nFound =
     (case GetOp pc of
        None \<Rightarrow> nFound
      | Some (opcode, vch, pc') \<Rightarrow> Find_loop op pc' (if opcode = op then nFound + 1 else nFound))"
  by pat_completeness auto
termination by (relation "measure (\<lambda>(op, pc, n). length pc)") (auto dest: GetOp_shorter)

declare Find_loop.simps [simp del]

definition Find :: "bytes \<Rightarrow> nat \<Rightarrow> nat" where
  "Find script op = Find_loop op script 0"

function GetSigOpCount_loop :: "bool \<Rightarrow> bytes \<Rightarrow> nat \<Rightarrow> nat \<Rightarrow> nat" where
  "GetSigOpCount_loop fAccurate pc lastOpcode n =
     (case GetOp pc of
        None \<Rightarrow> n
      | Some (opcode, vch, pc') \<Rightarrow>
          GetSigOpCount_loop fAccurate pc' opcode
            (if opcode = OP_CHECKSIG \<or> opcode = OP_CHECKSIGVERIFY then n + 1
             else if opcode = OP_CHECKMULTISIG \<or> opcode = OP_CHECKMULTISIGVERIFY then
               (if fAccurate \<and> lastOpcode \<ge> OP_1 \<and> lastOpcode \<le> OP_16 then n + DecodeOP_N lastOpcode
                else n + MAX_PUBKEYS_PER_MULTISIG)
             else n))"
  by pat_completeness auto
termination by (relation "measure (\<lambda>(a, pc, l, n). length pc)") (auto dest: GetOp_shorter)

declare GetSigOpCount_loop.simps [simp del]

definition GetSigOpCount :: "bytes \<Rightarrow> bool \<Rightarrow> nat" where
  "GetSigOpCount script fAccurate = GetSigOpCount_loop fAccurate script OP_INVALIDOPCODE 0"

function IsPushOnly :: "bytes \<Rightarrow> bool" where
  "IsPushOnly pc =
     (if pc = [] then True
      else case GetOp pc of
        None \<Rightarrow> False
      | Some (opcode, vch, pc') \<Rightarrow> if opcode > OP_16 then False else IsPushOnly pc')"
  by pat_completeness auto
termination by (relation "measure length") (auto dest: GetOp_shorter)

declare IsPushOnly.simps [simp del]

section \<open>BDAP prefixes\<close>

definition IsBDAPOp :: "nat \<Rightarrow> bool" where
  "IsBDAPOp op \<longleftrightarrow> op = OP_BDAP_NEW \<or> op = OP_BDAP_DELETE \<or> op = OP_BDAP_EXPIRE \<or> op = OP_BDAP_REVOKE \<or>
     op = OP_BDAP_MODIFY \<or> op = OP_BDAP_MOVE \<or> op = OP_BDAP_ACCOUNT_ENTRY \<or> op = OP_BDAP_LINK_REQUEST \<or>
     op = OP_BDAP_LINK_ACCEPT \<or> op = OP_BDAP_AUDIT \<or> op = OP_BDAP_CERTIFICATE \<or> op = OP_BDAP_IDENTITY \<or>
     op = OP_BDAP_ID_VERIFICATION \<or> op = OP_BDAP_SIDECHAIN \<or> op = OP_BDAP_SIDECHAIN_CHECKPOINT \<or>
     op = OP_BDAP_ASSET"

text \<open>The operands, up to the first drop; then the drops.\<close>

function bdap_args :: "bytes \<Rightarrow> bytes list \<Rightarrow> (nat \<times> bytes list \<times> bytes) option" where
  "bdap_args pc vvch =
     (case GetOp pc of
        None \<Rightarrow> None
      | Some (opcode, vch, pc') \<Rightarrow>
         if opcode = OP_DROP \<or> opcode = OP_2DROP then Some (opcode, vvch, pc')
         else if opcode > OP_PUSHDATA4 then None
         else bdap_args pc' (vvch @ [vch]))"
  by pat_completeness auto
termination by (relation "measure (\<lambda>(pc, v). length pc)") (auto dest: GetOp_shorter)

lemma GetOp2_shorter: "GetOp2 pc = (True, opcode, vch, pc') \<Longrightarrow> length pc' < length pc"
  using GetOp_shorter [of pc opcode vch pc'] by (simp add: GetOp_def)

function bdap_drops :: "nat \<Rightarrow> bytes \<Rightarrow> bytes" where
  "bdap_drops opcode pc =
     (if opcode = OP_DROP \<or> opcode = OP_2DROP then
        (case GetOp2 pc of (ok, opcode, vch, pc') \<Rightarrow> if ok then bdap_drops opcode pc' else pc')
      else pc)"
  by pat_completeness auto
termination by (relation "measure (\<lambda>(op, pc). length pc)") (auto dest!: GetOp2_shorter [OF sym])

declare bdap_args.simps [simp del] bdap_drops.simps [simp del]

definition iter_prev :: "bytes \<Rightarrow> bytes \<Rightarrow> bytes" where
  "iter_prev script pc = drop (length script - length pc - 1) script"

definition DecodeBDAPScript :: "bytes \<Rightarrow> (nat \<times> nat \<times> bytes list \<times> bytes) option" where
  "DecodeBDAPScript script =
     (case GetOp script of None \<Rightarrow> None | Some (opcode, vch, pc) \<Rightarrow>
       if opcode < OP_1 \<or> opcode > OP_16 then None
       else let op1 = DecodeOP_N opcode in
         if op1 \<noteq> OP_BDAP_NEW \<and> op1 \<noteq> OP_BDAP_DELETE \<and> op1 \<noteq> OP_BDAP_EXPIRE \<and> op1 \<noteq> OP_BDAP_REVOKE \<and>
            op1 \<noteq> OP_BDAP_MODIFY \<and> op1 \<noteq> OP_BDAP_MOVE then None
         else case GetOp pc of None \<Rightarrow> None | Some (opcode, vch, pc) \<Rightarrow>
           if opcode < OP_1 \<or> opcode > OP_16 then None
           else let op2 = DecodeOP_N opcode in
             if \<not> IsBDAPOp op2 then None
             else case bdap_args pc [] of None \<Rightarrow> None | Some (opcode, vvch, pc) \<Rightarrow>
               Some (op1, op2, vvch, iter_prev script (bdap_drops opcode pc)))"

definition RemoveBDAPScript :: "bytes \<Rightarrow> bytes option" where
  "RemoveBDAPScript scriptIn = map_option (\<lambda>(op1, op2, vvch, pc). pc) (DecodeBDAPScript scriptIn)"

section \<open>Output templates\<close>

definition IsPayToPublicKeyHash :: "bytes \<Rightarrow> bool" where
  "IsPayToPublicKeyHash script =
     (let scriptPubKey = (case RemoveBDAPScript script of Some scriptPubKeyOut \<Rightarrow> scriptPubKeyOut | None \<Rightarrow> script)
      in length script = 25 \<and> script ! 0 = of_nat OP_DUP \<and> script ! 1 = of_nat OP_HASH160 \<and> script ! 2 = 0x14 \<and>
         script ! 23 = of_nat OP_EQUALVERIFY \<and> script ! 24 = of_nat OP_CHECKSIG)"

definition IsPayToScriptHash :: "bytes \<Rightarrow> bool" where
  "IsPayToScriptHash script =
     (let scriptPubKey = (case RemoveBDAPScript script of Some scriptPubKeyOut \<Rightarrow> scriptPubKeyOut | None \<Rightarrow> script)
      in length script = 23 \<and> script ! 0 = of_nat OP_HASH160 \<and> script ! 1 = 0x14 \<and> script ! 22 = of_nat OP_EQUAL)"

definition IsPayToPublicKey :: "bytes \<Rightarrow> bool" where
  "IsPayToPublicKey script =
     (let scriptPubKey = (case RemoveBDAPScript script of Some scriptPubKeyOut \<Rightarrow> scriptPubKeyOut | None \<Rightarrow> script)
      in if length script = 35 then (script ! 1 = 0x02 \<or> script ! 1 = 0x03) \<and> script ! 34 = of_nat OP_CHECKSIG
         else if length script = 67 then script ! 1 = 0x04 \<and> script ! 66 = of_nat OP_CHECKSIG
         else False)"

definition IsUnspendable :: "bytes \<Rightarrow> bool" where
  "IsUnspendable script \<longleftrightarrow>
     (length script > 0 \<and> hd script = of_nat OP_RETURN) \<or> length script > MAX_SCRIPT_SIZE"

text \<open>
  The accurate count of a pay-to-script-hash output looks at the last item the input script
  pushes; a script that is not push-only counts as zero.
\<close>

function last_push :: "bytes \<Rightarrow> bytes \<Rightarrow> bytes option" where
  "last_push pc data =
     (if pc = [] then Some data
      else case GetOp pc of
        None \<Rightarrow> None
      | Some (opcode, vch, pc') \<Rightarrow> if opcode > OP_16 then None else last_push pc' vch)"
  by pat_completeness auto
termination by (relation "measure (\<lambda>(pc, d). length pc)") (auto dest: GetOp_shorter)

declare last_push.simps [simp del]

definition GetSigOpCount_p2sh :: "bytes \<Rightarrow> bytes \<Rightarrow> nat" where
  "GetSigOpCount_p2sh script scriptSig =
     (if \<not> IsPayToScriptHash script then GetSigOpCount script True
      else case last_push scriptSig [] of
        None \<Rightarrow> 0
      | Some data \<Rightarrow> GetSigOpCount data True)"

section \<open>Protocol codes\<close>

datatype ProtocolCodes =
    MINT_TX
  | MASTERNODE_MODFIY_TX
  | MINING_MODIFY_TX
  | BDAP_NEW_TX
  | BDAP_DELETE_TX
  | BDAP_REVOKE_TX
  | BDAP_MODIFY_TX
  | BDAP_MOVE_TX
  | BDAP_ACCOUNT_ENTRY
  | BDAP_LINK_REQUEST
  | BDAP_LINK_ACCEPT
  | BDAP_AUDIT_TX
  | BDAP_CERTIFICATE_TX
  | BDAP_IDENTITY_TX
  | BDAP_ID_VERIFICATION_TX
  | BDAP_SIDECHAIN_TX
  | BDAP_SIDECHAIN_CHECKPOINT
  | BDAP_EXPIRE_TX
  | NO_TX

datatype protocol_error = InvalidProtocolCode | InvalidBDAPCode

fun IsProtocolInstruction :: "bytes \<Rightarrow> ProtocolCodes \<Rightarrow> protocol_error + bool" where
  "IsProtocolInstruction script MINT_TX = Inr (length script > 0 \<and> hd script = of_nat OP_MINT)"
| "IsProtocolInstruction script MASTERNODE_MODFIY_TX = Inr (length script > 0 \<and> hd script = of_nat OP_REWARD_MASTERNODE)"
| "IsProtocolInstruction script MINING_MODIFY_TX = Inr (length script > 0 \<and> hd script = of_nat OP_REWARD_MINING)"
| "IsProtocolInstruction script BDAP_REVOKE_TX = Inr (length script > 0 \<and> hd script = of_nat OP_BDAP_REVOKE)"
| "IsProtocolInstruction script _ = Inl InvalidProtocolCode"

fun IsBDAPScript :: "bytes \<Rightarrow> ProtocolCodes \<Rightarrow> protocol_error + bool" where
  "IsBDAPScript script BDAP_NEW_TX = Inr (length script > 0 \<and> hd script = of_nat OP_BDAP_NEW)"
| "IsBDAPScript script BDAP_DELETE_TX = Inr (length script > 0 \<and> hd script = of_nat OP_BDAP_DELETE)"
| "IsBDAPScript script BDAP_REVOKE_TX = Inr (length script > 0 \<and> hd script = of_nat OP_BDAP_REVOKE)"
| "IsBDAPScript script BDAP_EXPIRE_TX = Inr (length script > 0 \<and> hd script = of_nat OP_BDAP_EXPIRE)"
| "IsBDAPScript script BDAP_MODIFY_TX = Inr (length script > 0 \<and> hd script = of_nat OP_BDAP_MODIFY)"
| "IsBDAPScript script BDAP_MOVE_TX = Inr (length script > 0 \<and> hd script = of_nat OP_BDAP_MOVE)"
| "IsBDAPScript script BDAP_ACCOUNT_ENTRY = Inr (length script > 0 \<and> hd script = of_nat OP_BDAP_ACCOUNT_ENTRY)"
| "IsBDAPScript script BDAP_LINK_REQUEST = Inr (length script > 0 \<and> hd script = of_nat OP_BDAP_LINK_REQUEST)"
| "IsBDAPScript script BDAP_LINK_ACCEPT = Inr (length script > 0 \<and> hd script = of_nat OP_BDAP_LINK_ACCEPT)"
| "IsBDAPScript script BDAP_AUDIT_TX = Inr (length script > 0 \<and> hd script = of_nat OP_BDAP_AUDIT)"
| "IsBDAPScript script BDAP_CERTIFICATE_TX = Inr (length script > 0 \<and> hd script = of_nat OP_BDAP_CERTIFICATE)"
| "IsBDAPScript script BDAP_IDENTITY_TX = Inr (length script > 0 \<and> hd script = of_nat OP_BDAP_IDENTITY)"
| "IsBDAPScript script BDAP_ID_VERIFICATION_TX = Inr (length script > 0 \<and> hd script = of_nat OP_BDAP_ID_VERIFICATION)"
| "IsBDAPScript script BDAP_SIDECHAIN_TX = Inr (length script > 0 \<and> hd script = of_nat OP_BDAP_SIDECHAIN)"
| "IsBDAPScript script BDAP_SIDECHAIN_CHECKPOINT = Inr (length script > 0 \<and> hd script = of_nat OP_BDAP_SIDECHAIN_CHECKPOINT)"
| "IsBDAPScript script _ = Inl InvalidBDAPCode"

section \<open>Script numbers are a bijective code\<close>

lemma nat_and_FF: "(n::nat) AND 0xFF = n mod 256"
proof -
  have "(0xFF :: nat) = mask 8" by (simp add: mask_eq_exp_minus_1)
  then have "n AND 0xFF = take_bit 8 n" by (simp only: take_bit_eq_mask)
  then show ?thesis by (simp add: take_bit_eq_mod)
qed

lemma le_digits_0 [simp]: "le_digits 0 = []"
  by (simp add: le_digits.simps)

lemma le_nat_le_digits: "le_nat (le_digits n) = n"
proof (induction n rule: le_digits.induct)
  case (1 n)
  then show ?case by (cases "n = 0") (simp_all add: le_digits.simps [of n] nat_and_FF unat_of_nat_byte)
qed

lemma le_digits_le_nat: "bs \<noteq> [] \<longrightarrow> last bs \<noteq> 0 \<Longrightarrow> le_digits (le_nat bs) = bs"
proof (induction bs)
  case (Cons b bs)
  have b: "unat b < 256" by (rule unat_byte_less)
  have "(of_nat ((unat b + 256 * le_nat bs) AND 0xFF) :: byte) = b" using b by (simp add: nat_and_FF)
  moreover have "(unat b + 256 * le_nat bs) div 256 = le_nat bs" using b by simp
  moreover have "unat b + 256 * le_nat bs \<noteq> 0"
  proof
    assume "unat b + 256 * le_nat bs = 0"
    then have "le_nat bs = 0" "b = 0" by (auto simp: unat_eq_0)
    with Cons show False by (cases bs) auto
  qed
  moreover have "le_digits (le_nat bs) = bs" using Cons by (cases "bs = []") auto
  ultimately show ?case by (simp only: le_nat.simps le_digits.simps [of "unat b + _"] if_False)
qed simp

lemma last_le_digits: "0 < n \<Longrightarrow> le_digits n \<noteq> [] \<and> last (le_digits n) \<noteq> 0"
proof (induction n rule: le_digits.induct)
  case (1 n)
  then have n: "le_digits n = of_nat (n mod 256) # le_digits (n div 256)"
    by (simp add: le_digits.simps [of n] nat_and_FF)
  show ?case
  proof (cases "n div 256 = 0")
    case True
    then have "n < 256" by simp
    then have "unat (of_nat n :: byte) \<noteq> 0" using 1(2) by (simp add: unat_of_nat_byte)
    then show ?thesis using n True by auto
  next
    case False
    with 1 n show ?thesis by simp
  qed
qed

lemma unset_bit_top: "a < 2 ^ m \<Longrightarrow> unset_bit m (int (a + 2 ^ m)) = int a"
proof -
  assume "a < 2 ^ m"
  then have "(a + 2 ^ m) div 2 ^ m = 1" by (simp add: div_add_self2)
  then have "bit (a + 2 ^ m) m" by (simp add: bit_iff_odd)
  then have "bit (int (a + 2 ^ m)) m" by (simp only: bit_of_nat_iff_bit)
  then show ?thesis by (simp add: unset_bit_eq)
qed

lemma pow_256: "(256::nat) ^ k = 2 ^ (8 * k)"
  by (simp add: power_mult)

lemma odd_div_128: "(n::nat) < 256 \<Longrightarrow> odd (n div 128) \<Longrightarrow> n = n mod 128 + 128"
  by (cases "n < 128") (auto simp: mod_if)

lemma unat_high_byte: "(b::byte) AND 0x80 \<noteq> 0 \<Longrightarrow> unat b = unat (b AND 0x7F) + 128"
proof -
  assume "b AND 0x80 \<noteq> 0"
  then have "bit b 7" using and_exp_eq_0_iff_not_bit [of b 7] by simp
  then have "bit (unat b) 7" by (simp add: bit_unsigned_iff)
  then have "odd (unat b div 128)" by (simp add: bit_iff_odd)
  then show ?thesis using unat_byte_less [of b] odd_div_128 by (simp add: byte_and_7F)
qed

text \<open>The sign is the top bit of the last byte, the magnitude the little-endian rest.\<close>

lemma set_vch_snoc:
  "set_vch (xs @ [b]) = (if b AND 0x80 \<noteq> 0 then - 1 else 1) * int (le_nat (xs @ [b AND 0x7F]))"
proof (cases "b AND 0x80 = 0")
  case True
  then show ?thesis using varint_byte_split(2) [of b] by (simp add: set_vch_def)
next
  case False
  define a where "a = le_nat (xs @ [b AND 0x7F])"
  define m where "m = 8 * length xs + 7"
  have m: "256 ^ length xs * 128 = (2::nat) ^ m" by (simp add: m_def pow_256 power_add)
  have a: "le_nat (xs @ [b]) = a + 2 ^ m"
    using unat_high_byte [OF False] by (simp add: a_def le_nat_append algebra_simps flip: m)
  have "unat (b AND 0x7F) \<le> 127" by (simp add: byte_and_7F)
  then have "256 ^ length xs * unat (b AND 0x7F) \<le> 256 ^ length xs * 127" by simp
  with le_nat_less [of xs] have "a < 256 ^ length xs * 128"
    by (simp only: a_def le_nat_append le_nat.simps mult_0_right add_0_right)
  then have "unset_bit m (int (le_nat (xs @ [b]))) = int a" unfolding a m by (rule unset_bit_top)
  then show ?thesis using False by (simp add: set_vch_def a_def m_def Let_def del: of_nat_add)
qed

lemma le_nat_pos: "b \<noteq> 0 \<Longrightarrow> 0 < le_nat (xs @ [b])"
  by (simp add: le_nat_append unsigned_eq_0_iff flip: neq0_conv)

text \<open>The shape of a serialized number: the digits of its magnitude with the sign in the top bit.\<close>

lemma scriptnum_serialize_neq:
  assumes "v \<noteq> 0"
  obtains xs b where "le_digits (nat \<bar>v\<bar>) = xs @ [b]" "b \<noteq> 0" "nat \<bar>v\<bar> = le_nat (xs @ [b])"
    "scriptnum_serialize v =
      (if b AND 0x80 \<noteq> 0 then xs @ [b, if v < 0 then 0x80 else 0]
       else xs @ [if v < 0 then b OR 0x80 else b])"
proof -
  have ne: "le_digits (nat \<bar>v\<bar>) \<noteq> []" "last (le_digits (nat \<bar>v\<bar>)) \<noteq> 0"
    using last_le_digits [of "nat \<bar>v\<bar>"] assms by auto
  then obtain xs b where d: "le_digits (nat \<bar>v\<bar>) = xs @ [b]" by (metis append_butlast_last_id)
  show thesis
  proof (rule that [OF d])
    show "b \<noteq> 0" using ne d by simp
    show "nat \<bar>v\<bar> = le_nat (xs @ [b])" using le_nat_le_digits [of "nat \<bar>v\<bar>"] d by simp
    show "scriptnum_serialize v =
      (if b AND 0x80 \<noteq> 0 then xs @ [b, if v < 0 then 0x80 else 0]
       else xs @ [if v < 0 then b OR 0x80 else b])"
      using assms d by (auto simp: scriptnum_serialize_def Let_def)
  qed
qed

lemma set_vch_serialize: "set_vch (scriptnum_serialize v) = v"
proof (cases "v = 0")
  case False
  then obtain xs b where b: "nat \<bar>v\<bar> = le_nat (xs @ [b])"
    "scriptnum_serialize v =
      (if b AND 0x80 \<noteq> 0 then xs @ [b, if v < 0 then 0x80 else 0] else xs @ [if v < 0 then b OR 0x80 else b])"
    by (rule scriptnum_serialize_neq)
  have v: "v = (if v < 0 then - 1 else 1) * int (le_nat (xs @ [b]))" using b(1) by auto
  show ?thesis
  proof (cases "b AND 0x80 = 0")
    case True
    then have "b AND 0x7F = b" using varint_byte_split(2) by metis
    then have "set_vch (xs @ [if v < 0 then b OR 0x80 else b]) = (if v < 0 then - 1 else 1) * int (le_nat (xs @ [b]))"
      using True varint_byte(1,2) [of b] by (simp add: set_vch_snoc del: le_nat.simps)
    then show ?thesis using b(2) True v by simp
  next
    case False
    have "set_vch ((xs @ [b]) @ [if v < 0 then 0x80 else 0]) = (if v < 0 then - 1 else 1) * int (le_nat (xs @ [b]))"
      unfolding set_vch_snoc by (simp add: le_nat_append)
    then show ?thesis using b(2) False v by simp
  qed
qed (simp add: scriptnum_serialize_def set_vch_def)

definition minimal_vch :: "bytes \<Rightarrow> bool" where
  "minimal_vch vch \<longleftrightarrow> vch \<noteq> [] \<longrightarrow> last vch AND 0x7F \<noteq> 0 \<or> 1 < length vch \<and> vch ! (length vch - 2) AND 0x80 \<noteq> 0"

lemma CScriptNum_minimal_Inr:
  "CScriptNum vch True k = Inr v \<longleftrightarrow> length vch \<le> k \<and> minimal_vch vch \<and> v = set_vch vch"
  by (auto simp: CScriptNum_def minimal_vch_def)

lemma byte_low_nonzero: "(b::byte) \<noteq> 0 \<Longrightarrow> b AND 0x80 = 0 \<Longrightarrow> b AND 0x7F \<noteq> 0"
  using varint_byte_split(2) [of b] by metis

lemma minimal_serialize: "minimal_vch (scriptnum_serialize v)"
proof (cases "v = 0")
  case False
  then obtain xs b where b: "b \<noteq> 0" "scriptnum_serialize v =
      (if b AND 0x80 \<noteq> 0 then xs @ [b, if v < 0 then 0x80 else 0] else xs @ [if v < 0 then b OR 0x80 else b])"
    by (rule scriptnum_serialize_neq)
  then show ?thesis using byte_low_nonzero [of b] varint_byte(1) [of b] varint_byte_split(2) [of b]
    by (auto simp: minimal_vch_def nth_append)
qed (simp add: minimal_vch_def scriptnum_serialize_def)

lemma serialize_set_vch:
  assumes "minimal_vch vch"
  shows "scriptnum_serialize (set_vch vch) = vch"
proof (cases vch rule: rev_cases)
  case (snoc xs b)
  define m where "m = le_nat (xs @ [b AND 0x7F])"
  have v: "set_vch vch = (if b AND 0x80 \<noteq> 0 then - 1 else 1) * int m" using set_vch_snoc snoc m_def by simp
  have b: "b = (if b AND 0x80 \<noteq> 0 then b AND 0x7F OR 0x80 else b AND 0x7F)" using varint_byte_split [of b] by auto
  show ?thesis
  proof (cases "b AND 0x7F = 0")
    case False
    then have "le_digits m = xs @ [b AND 0x7F]" using le_digits_le_nat [of "xs @ [b AND 0x7F]"] m_def by simp
    moreover have "0 < m" using le_nat_pos [OF False] m_def by simp
    ultimately show ?thesis using v b snoc varint_byte(3) [of b]
      by (auto simp: scriptnum_serialize_def Let_def)
  next
    case True
    then have xs: "xs \<noteq> []" "last xs AND 0x80 \<noteq> 0"
      using assms snoc by (auto simp: minimal_vch_def nth_append last_conv_nth)
    have m: "m = le_nat xs" using True by (simp add: m_def le_nat_append)
    have "last xs \<noteq> 0" using xs(2) by auto
    then have d: "le_digits m = xs" using le_digits_le_nat [of xs] m by simp
    then have "0 < m" using xs(1) by (cases "m = 0") auto
    then show ?thesis using v b snoc True d xs by (auto simp: scriptnum_serialize_def Let_def)
  qed
qed (simp add: set_vch_def scriptnum_serialize_def)

lemma length_le_digits: "n < 256 ^ k \<Longrightarrow> length (le_digits n) \<le> k"
proof (induction k arbitrary: n)
  case (Suc k)
  then have "n div 256 < 256 ^ k" by (simp add: less_mult_imp_div_less mult.commute)
  from Suc.IH [OF this] show ?case by (simp add: le_digits.simps [of n])
qed simp

lemma length_scriptnum_serialize: "nat \<bar>v\<bar> < 256 ^ k \<Longrightarrow> length (scriptnum_serialize v) \<le> Suc k"
  using length_le_digits [of "nat \<bar>v\<bar>" k] by (auto simp: scriptnum_serialize_def Let_def)

section \<open>Reading back what was pushed\<close>

lemma push_vch_append: "push_vch script b = script @ push_vch [] b"
  by (simp add: push_vch_def)

definition push_op :: "bytes \<Rightarrow> nat" where
  "push_op b = (if length b < OP_PUSHDATA1 then length b else if length b \<le> 0xFF then OP_PUSHDATA1
     else if length b \<le> 0xFFFF then OP_PUSHDATA2 else OP_PUSHDATA4)"

lemma push_op_le: "push_op b \<le> OP_PUSHDATA4"
  by (simp add: push_op_def)

lemma GetOp_push_op:
  assumes "length b < 2 ^ 32"
  shows "GetOp (push_vch [] b @ r) = Some (push_op b, b, r)"
proof -
  have 2: "le_nat (le_bytes 2 n) = n" if "n \<le> 0xFFFF" for n using that by (simp add: le_nat_le_bytes)
  have 4: "le_nat (le_bytes 4 (length b)) = length b" using assms by (simp add: le_nat_le_bytes)
  show ?thesis using 2 4
    by (auto simp: push_vch_def push_op_def GetOp_def GetOp2_def push_size_def unat_of_nat Let_def)
qed

lemma GetOp_push_vch:
  "length b < 2 ^ 32 \<Longrightarrow> \<exists>opcode \<le> OP_PUSHDATA4. GetOp (push_vch [] b @ r) = Some (opcode, b, r)"
  using GetOp_push_op push_op_le by blast

lemma GetOp_opcode: "unat c > OP_PUSHDATA4 \<Longrightarrow> GetOp (c # r) = Some (unat c, [], r)"
  by (simp add: GetOp_def GetOp2_def Let_def)

lemma GetOp2_opcode: "unat c > OP_PUSHDATA4 \<Longrightarrow> GetOp2 (c # r) = (True, unat c, [], r)"
  by (simp add: GetOp2_def Let_def)

lemma IsPushOnly_Nil [simp]: "IsPushOnly []"
  by (simp add: IsPushOnly.simps)

lemma IsPushOnly_push_vch:
  assumes "length b < 2 ^ 32"
  shows "IsPushOnly (push_vch [] b @ r) = IsPushOnly r"
proof -
  obtain opcode where "opcode \<le> OP_PUSHDATA4" "GetOp (push_vch [] b @ r) = Some (opcode, b, r)"
    using GetOp_push_vch [OF assms] by blast
  moreover have "push_vch [] b @ r \<noteq> []" by (simp add: push_vch_def)
  ultimately show ?thesis by (simp add: IsPushOnly.simps [of "push_vch [] b @ r"])
qed

text \<open>
  Script numbers are a bijective code: with the minimality check on, the constructor
  accepts a byte vector and returns \<open>v\<close> exactly when the vector is the serialization of
  \<open>v\<close> and is not longer than the limit.
\<close>

theorem CScriptNum_iff_serialize:
  "CScriptNum vch True nMaxNumSize = Inr v \<longleftrightarrow> vch = scriptnum_serialize v \<and> length vch \<le> nMaxNumSize"
  using set_vch_serialize [of v] minimal_serialize [of v] serialize_set_vch [of vch]
  by (auto simp: CScriptNum_minimal_Inr)

text \<open>
  The instruction reader inverts the push operator: from a script that continues with
  the push of \<open>b\<close> it reads a push opcode with exactly \<open>b\<close> and stops behind it, for data of
  less than 2 to the 32 bytes, in all four length forms.
\<close>

theorem GetOp_of_pushed_data:
  assumes "length b < 2 ^ 32"
  shows "\<exists>opcode \<le> OP_PUSHDATA4. GetOp2 (drop (length script) (push_vch script b @ r)) = (True, opcode, b, r)"
proof -
  obtain opcode where "opcode \<le> OP_PUSHDATA4" "GetOp (push_vch [] b @ r) = Some (opcode, b, r)"
    using GetOp_push_vch [OF assms] by blast
  then show ?thesis
    by (auto simp: push_vch_append [of script] GetOp_def split: prod.splits if_splits)
qed

theorem GetOp_of_pushed_data_witness:
  "length (replicate 300 7 :: bytes) < 2 ^ 32 \<and>
   (\<exists>opcode \<le> OP_PUSHDATA4. GetOp2 (drop (length [1, 2 :: byte]) (push_vch [1, 2] (replicate 300 7) @ [9]))
      = (True, opcode, replicate 300 7, [9]))"
  using GetOp_of_pushed_data [of "replicate 300 7" "[1, 2]" "[9]"] by simp

section \<open>Find and delete\<close>

lemma skip_matches_spec:
  "skip_matches b pc n = (pc', n') \<Longrightarrow> \<exists>k. n' = n + k \<and> pc = concat (replicate k b) @ pc'"
proof (induction b pc n arbitrary: pc' n' rule: skip_matches.induct)
  case (1 b pc n)
  show ?case
  proof (cases "b \<noteq> [] \<and> length b \<le> length pc \<and> take (length b) pc = b")
    case True
    then have "skip_matches b (drop (length b) pc) (n + 1) = (pc', n')"
      using 1(2) by (simp add: skip_matches.simps [of b pc])
    from 1(1) [OF True this] obtain k
      where "n' = n + 1 + k" "drop (length b) pc = concat (replicate k b) @ pc'" by auto
    then have "n' = n + Suc k" "pc = concat (replicate (Suc k) b) @ pc'"
      using True by (auto, metis append_take_drop_id)
    then show ?thesis by blast
  next
    case False
    then show ?thesis using 1(2) by (auto simp: skip_matches.simps [of b pc])
  qed
qed

text \<open>
  The loop keeps the script as pieces that were kept, each followed by one deleted match,
  a pending piece and the unread rest.
\<close>

definition split_at :: "bytes \<Rightarrow> bytes \<Rightarrow> nat \<Rightarrow> bytes \<Rightarrow> bytes \<Rightarrow> bool" where
  "split_at b script n kept rest \<longleftrightarrow>
     (\<exists>ps q. length ps = n \<and> script = concat (map (\<lambda>p. p @ b) ps) @ q @ rest \<and> kept = concat ps @ q)"

lemma split_at_keep: "split_at b script n kept (x @ rest) \<Longrightarrow> split_at b script n (kept @ x) rest"
  unfolding split_at_def by (metis append.assoc)

lemma split_at_delete: "split_at b script n kept (b @ rest) \<Longrightarrow> split_at b script (Suc n) kept rest"
proof -
  assume "split_at b script n kept (b @ rest)"
  then obtain ps q where "length ps = n" "script = concat (map (\<lambda>p. p @ b) ps) @ q @ b @ rest" "kept = concat ps @ q"
    by (auto simp: split_at_def)
  then show ?thesis unfolding split_at_def by (intro exI [of _ "ps @ [q]"] exI [of _ "[]"]) simp
qed

lemma split_at_delete_many:
  "split_at b script n kept (concat (replicate k b) @ rest) \<Longrightarrow> split_at b script (n + k) kept rest"
proof (induction k arbitrary: n)
  case (Suc k)
  then have "split_at b script (Suc n) kept (concat (replicate k b) @ rest)"
    by (intro split_at_delete) simp
  from Suc.IH [OF this] show ?case by simp
qed simp

lemma push_size_drop: "push_size opcode pc = Some (n, pc') \<Longrightarrow> \<exists>k. pc' = drop k pc"
  by (auto simp: push_size_def split: if_splits) (metis drop_0, metis drop_0 drop_Suc)

lemma GetOp_drop: "GetOp pc = Some (opcode, vch, pc') \<Longrightarrow> \<exists>k. pc' = drop k pc"
proof (cases pc)
  case (Cons b t)
  assume "GetOp pc = Some (opcode, vch, pc')"
  then have "(\<exists>n t'. push_size (unat b) t = Some (n, t') \<and> pc' = drop n t') \<or> pc' = t"
    using Cons by (auto simp: GetOp_def GetOp2_def Let_def split: if_splits option.splits)
  then obtain k where "pc' = drop k t" by (metis push_size_drop drop_drop drop_0)
  then have "pc' = drop (Suc k) pc" using Cons by simp
  then show ?thesis ..
qed simp

lemma GetOp_suffix:
  assumes "GetOp pc = Some (opcode, vch, pc')"
  shows "pc = take (length pc - length pc') pc @ pc'"
proof -
  obtain k where "pc' = drop k pc" using GetOp_drop [OF assms] by blast
  then show ?thesis by (cases "k \<le> length pc") auto
qed

lemma FindAndDelete_loop_spec:
  assumes "FindAndDelete_loop b result pc2 pc n = (result', pc2', n')"
    and "split_at b script n result pc2" and "pc2 = take (length pc2 - length pc) pc2 @ pc"
  shows "split_at b script n' result' pc2'"
  using assms
proof (induction b result pc2 pc n rule: FindAndDelete_loop.induct)
  case (1 b result pc2 pc n)
  define res where "res = result @ take (length pc2 - length pc) pc2"
  obtain pc1 m where sk: "skip_matches b pc n = (pc1, m)" by fastforce
  obtain k where k: "m = n + k" "pc = concat (replicate k b) @ pc1" using skip_matches_spec [OF sk] by blast
  have "split_at b script n res pc"
    unfolding res_def using 1(3) 1(4) by (intro split_at_keep) simp
  then have inv: "split_at b script m res pc1" using k split_at_delete_many by metis
  show ?case
  proof (cases "GetOp pc1")
    case None
    then show ?thesis using 1(2) inv sk by (simp add: FindAndDelete_loop.simps [of b] res_def)
  next
    case (Some a)
    obtain opcode vch pc' where a: "a = (opcode, vch, pc')" by (cases a)
    have rec: "FindAndDelete_loop b res pc1 pc' m = (result', pc2', n')"
      using 1(2) sk Some a by (simp add: FindAndDelete_loop.simps [of b result] res_def)
    show ?thesis
      by (rule 1(1) [OF res_def sk [symmetric] Some a [symmetric] refl rec inv])
         (use Some a GetOp_suffix in simp)
  qed
qed

lemma FindAndDelete_spec:
  "\<exists>ps q. length ps = fst (FindAndDelete script b) \<and>
     script = concat (map (\<lambda>p. p @ b) ps) @ q \<and> snd (FindAndDelete script b) = concat ps @ q"
proof (cases "b = [] \<or> fst (FindAndDelete script b) = 0")
  case True
  then have "FindAndDelete script b = (0, script)"
    by (cases "b = []") (auto simp: FindAndDelete_def split: prod.splits if_splits)
  then show ?thesis by simp
next
  case False
  obtain result pc2 n where l: "FindAndDelete_loop b [] script script 0 = (result, pc2, n)" by (rule prod_cases3)
  then have f: "FindAndDelete script b = (n, result @ pc2)" using False by (auto simp: FindAndDelete_def)
  have "split_at b script 0 [] script" by (simp add: split_at_def)
  then have "split_at b script n result pc2" using FindAndDelete_loop_spec [OF l] by simp
  then obtain ps q where "length ps = n" "script = concat (map (\<lambda>p. p @ b) ps) @ q @ pc2" "result = concat ps @ q"
    by (auto simp: split_at_def)
  then show ?thesis using f by (intro exI [of _ ps] exI [of _ "q @ pc2"]) simp
qed

text \<open>
  Find-and-delete removes exactly the matches it counts: the script splits into kept
  pieces, the first \<open>nFound\<close> of them followed by one copy of \<open>b\<close>, and what remains is the
  concatenation of the pieces.
\<close>

theorem FindAndDelete_removes_what_it_counts:
  "\<exists>ps q. length ps = fst (FindAndDelete script b) \<and>
     script = concat (map (\<lambda>p. p @ b) ps) @ q \<and> snd (FindAndDelete script b) = concat ps @ q"
  by (rule FindAndDelete_spec)

section \<open>Signature-operation counts\<close>

lemma GetSigOpCount_loop_bound:
  "GetSigOpCount_loop acc pc l n \<le> n + MAX_PUBKEYS_PER_MULTISIG * length pc"
proof (induction acc pc l n rule: GetSigOpCount_loop.induct)
  case (1 acc pc l n)
  show ?case
  proof (cases "GetOp pc")
    case None
    then show ?thesis by (simp add: GetSigOpCount_loop.simps [of acc pc])
  next
    case (Some a)
    obtain opcode vch pc' where a: "a = (opcode, vch, pc')" by (cases a)
    have len: "Suc (length pc') \<le> length pc" using GetOp_shorter [of pc opcode vch pc'] Some a by simp
    have "MAX_PUBKEYS_PER_MULTISIG * length pc' + MAX_PUBKEYS_PER_MULTISIG \<le> MAX_PUBKEYS_PER_MULTISIG * length pc"
      using mult_le_mono2 [OF len, of MAX_PUBKEYS_PER_MULTISIG] by simp
    with 1 [OF Some a [symmetric] refl] show ?thesis using Some a
      by (auto simp: GetSigOpCount_loop.simps [of acc pc] DecodeOP_N_def MAX_PUBKEYS_PER_MULTISIG_def split: if_splits)
  qed
qed

section \<open>Stripping a BDAP prefix\<close>

lemma bdap_args_pushes:
  assumes "list_all (\<lambda>v. length v < 2 ^ 32) vs" "c = of_nat OP_DROP \<or> c = of_nat OP_2DROP"
  shows "bdap_args (concat (map (push_vch []) vs) @ c # r) vvch = Some (unat c, vvch @ vs, r)"
  using assms(1)
proof (induction vs arbitrary: vvch)
  case Nil
  then show ?case using assms(2) by (auto simp: bdap_args.simps [of "c # r"] GetOp_opcode)
next
  case (Cons v vs)
  obtain opcode where "opcode \<le> OP_PUSHDATA4"
    "GetOp (push_vch [] v @ concat (map (push_vch []) vs) @ c # r) = Some (opcode, v, concat (map (push_vch []) vs) @ c # r)"
    using GetOp_push_vch [of v] Cons.prems by auto
  then show ?case using Cons
    by (simp add: bdap_args.simps [of "push_vch [] v @ concat (map (push_vch []) vs) @ c # r"])
qed

lemma bdap_drops_run:
  assumes "list_all (\<lambda>d. d = of_nat OP_DROP \<or> d = of_nat OP_2DROP) ds"
    and "unat c > OP_PUSHDATA4" "c \<noteq> of_nat OP_DROP" "c \<noteq> of_nat OP_2DROP"
    and "opcode = OP_DROP \<or> opcode = OP_2DROP"
  shows "bdap_drops opcode (ds @ c # r) = r"
  using assms(1,5)
proof (induction ds arbitrary: opcode)
  case Nil
  have "unat c \<noteq> OP_DROP" "unat c \<noteq> OP_2DROP"
    using assms(3,4) by (metis of_nat_numeral of_nat_unat ucast_id)+
  then show ?case using Nil assms(2) by (simp add: bdap_drops.simps [of opcode] bdap_drops.simps [of "unat c"] GetOp2_opcode)
next
  case (Cons d ds)
  then have "unat d > OP_PUSHDATA4" "unat d = OP_DROP \<or> unat d = OP_2DROP" by auto
  then show ?case using Cons by (simp add: bdap_drops.simps [of opcode] GetOp2_opcode)
qed

lemma iter_prev_append: "iter_prev (p @ c # rest) rest = c # rest"
  by (simp add: iter_prev_def)

lemma IsBDAPOp_range: "op \<in> {1..15} \<Longrightarrow> IsBDAPOp op"
  unfolding IsBDAPOp_def atLeastAtMost_iff by presburger

lemma unat_EncodeOP_N:
  assumes "n \<in> {1..15}"
  shows "unat (of_nat (EncodeOP_N n) :: byte) = 80 + n"
proof -
  have "EncodeOP_N n = 80 + n" using assms by (simp add: EncodeOP_N_def)
  then show ?thesis using assms by (simp add: unat_of_nat_byte del: of_nat_add)
qed

lemma RemoveBDAPScript_prefix:
  assumes "op1 \<in> {OP_BDAP_NEW, OP_BDAP_DELETE, OP_BDAP_EXPIRE, OP_BDAP_MODIFY, OP_BDAP_MOVE}"
    and "op2 \<in> {1..15}" and "list_all (\<lambda>v. length v < 2 ^ 32) vs"
    and "d = of_nat OP_DROP \<or> d = of_nat OP_2DROP"
    and "list_all (\<lambda>d. d = of_nat OP_DROP \<or> d = of_nat OP_2DROP) ds"
    and "payment = c # rest" "unat c > OP_PUSHDATA4" "c \<noteq> of_nat OP_DROP" "c \<noteq> of_nat OP_2DROP"
    and "script = [of_nat (EncodeOP_N op1), of_nat (EncodeOP_N op2)] @ concat (map (push_vch []) vs) @ d # ds @ payment"
  shows "DecodeBDAPScript script = Some (op1, op2, vs, payment) \<and> RemoveBDAPScript script = Some payment"
proof -
  note enc = unat_EncodeOP_N
  have op1: "op1 \<in> {1..15}" using assms(1) by auto
  have op2: "IsBDAPOp op2" using assms(2) by (rule IsBDAPOp_range)
  have args: "bdap_args (concat (map (push_vch []) vs) @ d # ds @ payment) [] = Some (unat d, vs, ds @ payment)"
    using bdap_args_pushes [OF assms(3,4)] by simp
  have drops: "bdap_drops (unat d) (ds @ payment) = rest"
    unfolding assms(6) by (rule bdap_drops_run) (use assms in auto)
  have "\<exists>p. script = p @ c # rest" using assms(6,10) by (metis append_Cons append_assoc)
  then have step: "iter_prev script rest = payment" using assms(6) iter_prev_append by blast
  have "DecodeBDAPScript script = Some (op1, op2, vs, payment)"
    using enc [OF op1] enc [OF assms(2)] op1 assms(1,2) op2 args drops step unfolding assms(10)
    by (simp add: DecodeBDAPScript_def GetOp_opcode DecodeOP_N_def)
  then show ?thesis by (simp add: RemoveBDAPScript_def)
qed

text \<open>
  A BDAP output is an action, an object type, the pushed operands, one or more drops and
  the payment script.  When the payment script starts with an opcode that is neither a push
  nor a drop, as in a pay-to-public-key-hash or pay-to-script-hash script, decoding returns
  the action, the type and the operands, and stripping the prefix returns exactly the
  payment script.
\<close>

theorem RemoveBDAPScript_correct:
  assumes "op1 \<in> {OP_BDAP_NEW, OP_BDAP_DELETE, OP_BDAP_EXPIRE, OP_BDAP_MODIFY, OP_BDAP_MOVE}"
    and "op2 \<in> {1..15}" and "list_all (\<lambda>v. length v < 2 ^ 32) vs"
    and "d = of_nat OP_DROP \<or> d = of_nat OP_2DROP"
    and "list_all (\<lambda>d. d = of_nat OP_DROP \<or> d = of_nat OP_2DROP) ds"
    and "payment = c # rest" "unat c > OP_PUSHDATA4" "c \<noteq> of_nat OP_DROP" "c \<noteq> of_nat OP_2DROP"
    and "script = [of_nat (EncodeOP_N op1), of_nat (EncodeOP_N op2)] @ concat (map (push_vch []) vs) @ d # ds @ payment"
  shows "DecodeBDAPScript script = Some (op1, op2, vs, payment) \<and> RemoveBDAPScript script = Some payment"
  using assms by (rule RemoveBDAPScript_prefix)

theorem RemoveBDAPScript_correct_witness:
  "RemoveBDAPScript ([0x51, 0x56] @ push_vch [] [1, 2, 3] @ [0x75, 0x6d, 0xa9, 0x14, 0x87]) = Some [0xa9, 0x14, 0x87]"
  using RemoveBDAPScript_correct [of OP_BDAP_NEW OP_BDAP_ACCOUNT_ENTRY "[[1, 2, 3]]" "0x75" "[0x6d]"
      "[0xa9, 0x14, 0x87]" "0xa9" "[0x14, 0x87]"]
  by (simp add: EncodeOP_N_def)

text \<open>
  The decoder steps back one byte after it has read one instruction past the drops.
  When the payment script starts with a push, as in a pay-to-public-key script, what it
  returns starts at the last byte of the pushed data instead of at the push.
\<close>

theorem RemoveBDAPScript_push_payment:
  assumes "op1 \<in> {OP_BDAP_NEW, OP_BDAP_DELETE, OP_BDAP_EXPIRE, OP_BDAP_MODIFY, OP_BDAP_MOVE}"
    and "op2 \<in> {1..15}" and "list_all (\<lambda>v. length v < 2 ^ 32) vs"
    and "key \<noteq> []" "length key < 2 ^ 32"
    and "script = [of_nat (EncodeOP_N op1), of_nat (EncodeOP_N op2)] @ concat (map (push_vch []) vs) @
           [of_nat OP_DROP] @ push_vch [] key @ rest"
  shows "RemoveBDAPScript script = Some (last key # rest)"
proof -
  have op1: "op1 \<in> {1..15}" using assms(1) by auto
  have op2: "IsBDAPOp op2" using assms(2) by (rule IsBDAPOp_range)
  have args: "bdap_args (concat (map (push_vch []) vs) @ of_nat OP_DROP # push_vch [] key @ rest) [] =
      Some (OP_DROP, vs, push_vch [] key @ rest)"
    using bdap_args_pushes [OF assms(3), of "of_nat OP_DROP"] by simp
  obtain opcode where "opcode \<le> OP_PUSHDATA4" "GetOp (push_vch [] key @ rest) = Some (opcode, key, rest)"
    using GetOp_push_vch [OF assms(5)] by blast
  then have drops: "bdap_drops OP_DROP (push_vch [] key @ rest) = rest"
    by (auto simp: bdap_drops.simps [of OP_DROP] bdap_drops.simps [of opcode] GetOp_def split: prod.splits if_splits)
  obtain ks k where key: "key = ks @ [k]" using assms(4) by (metis append_butlast_last_id)
  have "\<exists>p. script = p @ k # rest" using assms(6) key by (auto simp: push_vch_def)
  then have "iter_prev script rest = k # rest" using iter_prev_append by blast
  then show ?thesis using unat_EncodeOP_N [OF op1] unat_EncodeOP_N [OF assms(2)] op1 assms(1,2) op2 args drops key
    unfolding assms(6) by (simp add: RemoveBDAPScript_def DecodeBDAPScript_def GetOp_opcode DecodeOP_N_def)
qed

theorem RemoveBDAPScript_push_payment_witness:
  "RemoveBDAPScript ([0x51, 0x56] @ push_vch [] [9] @ [0x75] @ push_vch [] (2 # replicate 32 7) @ [0xac]) = Some [7, 0xac]"
  using RemoveBDAPScript_push_payment [of OP_BDAP_NEW OP_BDAP_ACCOUNT_ENTRY "[[9]]" "2 # replicate 32 7" _ "[0xac]"]
  by (simp add: EncodeOP_N_def)

text \<open>
  A script that decodes as a BDAP output starts with a small-integer opcode, while
  \<open>IsBDAPScript\<close> compares the first byte with the bare action codes: on no decodable BDAP
  output does it answer true, for any code.
\<close>

theorem IsBDAPScript_misses_BDAP_outputs:
  assumes "DecodeBDAPScript script = Some (op1, op2, vvch, pc)"
  shows "IsBDAPScript script code \<noteq> Inr True"
proof -
  obtain opcode vch pc1 where "GetOp script = Some (opcode, vch, pc1)" "OP_1 \<le> opcode" "opcode \<le> OP_16"
    using assms by (auto simp: DecodeBDAPScript_def split: option.splits if_splits)
  then obtain b t where b: "script = b # t" "OP_1 \<le> unat b" "unat b \<le> OP_16"
    by (cases script) (auto simp: GetOp_def GetOp2_def Let_def split: if_splits option.splits)
  then have "b \<noteq> of_nat n" if "n < OP_1 \<or> OP_16 < n" "n < 256" for n
    using that by (auto simp: unat_of_nat)
  from this [of 1] this [of 2] this [of 3] this [of 4] this [of 5] this [of 6] this [of 7] this [of 8]
    this [of 9] this [of 10] this [of 11] this [of 12] this [of 13] this [of 14] this [of OP_BDAP_REVOKE]
  show ?thesis by (cases code) (simp_all add: b(1))
qed

theorem IsBDAPScript_misses_BDAP_outputs_witness:
  "\<exists>pc. DecodeBDAPScript ([0x51, 0x56] @ push_vch [] [9] @ [0x75, 0x6a]) = Some (1, 6, [[9]], pc) \<and>
   IsBDAPScript ([0x51, 0x56] @ push_vch [] [9] @ [0x75, 0x6a]) BDAP_NEW_TX \<noteq> Inr True"
proof -
  have "DecodeBDAPScript ([0x51, 0x56] @ push_vch [] [9] @ [0x75, 0x6a]) = Some (1, 6, [[9]], [0x6a])"
    by code_simp
  with IsBDAPScript_misses_BDAP_outputs [OF this] show ?thesis by blast
qed

end
