(* ===== verification/Transaction.thy ===== *)
theory Transaction
  imports Script Amount
begin

text \<open>
  Transactions: \<open>src/src/primitives/transaction.h\<close> and \<open>transaction.cpp\<close>.  The records
  carry the fields of the C++ classes; the cached hash of a transaction is a function of the
  serialized bytes, with the double hash as a parameter.

  Shown: the transaction format is a bijective code between well-formed transactions and the
  byte strings the reader accepts, equal hashes of different transactions are collisions of
  the hash function, and the value of the outputs is the exact sum whenever it is returned.
\<close>

section \<open>Data\<close>

record COutPoint =
  prevout_hash :: uint256
  prevout_n :: u32

record CTxIn =
  prevout :: COutPoint
  scriptSig :: bytes
  nSequence :: u32

record CTxOut =
  nValue :: int
  scriptPubKey :: bytes
  nRounds :: int

record CTransaction =
  nVersion :: int
  vin :: "CTxIn list"
  vout :: "CTxOut list"
  nLockTime :: u32

definition SEQUENCE_FINAL :: u32 where "SEQUENCE_FINAL = 0xFFFFFFFF"

definition SEQUENCE_LOCKTIME_DISABLE_FLAG :: u32 where "SEQUENCE_LOCKTIME_DISABLE_FLAG = 0x80000000"

definition SEQUENCE_LOCKTIME_TYPE_FLAG :: u32 where "SEQUENCE_LOCKTIME_TYPE_FLAG = 0x00400000"

definition SEQUENCE_LOCKTIME_MASK :: u32 where "SEQUENCE_LOCKTIME_MASK = 0x0000FFFF"

definition COutPoint_SetNull :: COutPoint where
  "COutPoint_SetNull = \<lparr>prevout_hash = 0, prevout_n = 0xFFFFFFFF\<rparr>"

definition COutPoint_IsNull :: "COutPoint \<Rightarrow> bool" where
  "COutPoint_IsNull p \<longleftrightarrow> prevout_hash p = 0 \<and> prevout_n p = 0xFFFFFFFF"

definition CTxOut_SetNull :: CTxOut where
  "CTxOut_SetNull = \<lparr>nValue = - 1, scriptPubKey = [], nRounds = - 10\<rparr>"

definition CTxOut_IsNull :: "CTxOut \<Rightarrow> bool" where
  "CTxOut_IsNull out \<longleftrightarrow> nValue out = - 1"

definition CTransaction_IsNull :: "CTransaction \<Rightarrow> bool" where
  "CTransaction_IsNull tx \<longleftrightarrow> vin tx = [] \<and> vout tx = []"

definition IsCoinBase :: "CTransaction \<Rightarrow> bool" where
  "IsCoinBase tx \<longleftrightarrow> length (vin tx) = 1 \<and> COutPoint_IsNull (prevout (vin tx ! 0))"

section \<open>Serialization\<close>

definition Serialize_COutPoint :: "COutPoint \<Rightarrow> bytes" where
  "Serialize_COutPoint p = Serialize_uint256 (prevout_hash p) @ ser_writedata32 (prevout_n p)"

definition Unserialize_COutPoint :: "COutPoint reader" where
  "Unserialize_COutPoint s = ebind (Unserialize_uint256 s) (\<lambda>(h, s).
     ebind (ser_readdata32 s) (\<lambda>(n, s). Inr (\<lparr>prevout_hash = h, prevout_n = n\<rparr>, s)))"

definition Serialize_CTxIn :: "CTxIn \<Rightarrow> bytes" where
  "Serialize_CTxIn txin = Serialize_COutPoint (prevout txin) @ Serialize_bytes (scriptSig txin) @
     ser_writedata32 (nSequence txin)"

definition Unserialize_CTxIn :: "CTxIn reader" where
  "Unserialize_CTxIn s = ebind (Unserialize_COutPoint s) (\<lambda>(p, s).
     ebind (Unserialize_bytes s) (\<lambda>(sig, s).
     ebind (ser_readdata32 s) (\<lambda>(q, s). Inr (\<lparr>prevout = p, scriptSig = sig, nSequence = q\<rparr>, s))))"

definition Serialize_CTxOut :: "CTxOut \<Rightarrow> bytes" where
  "Serialize_CTxOut out = Serialize_int64 (nValue out) @ Serialize_bytes (scriptPubKey out)"

text \<open>The number of mixing rounds is not serialized: a fresh output keeps the initial value.\<close>

definition Unserialize_CTxOut :: "CTxOut reader" where
  "Unserialize_CTxOut s = ebind (Unserialize_int64 s) (\<lambda>(v, s).
     ebind (Unserialize_bytes s) (\<lambda>(spk, s). Inr (CTxOut_SetNull\<lparr>nValue := v, scriptPubKey := spk\<rparr>, s)))"

definition Serialize_CTransaction :: "CTransaction \<Rightarrow> bytes" where
  "Serialize_CTransaction tx = Serialize_int32 (nVersion tx) @ Serialize_vector Serialize_CTxIn (vin tx) @
     Serialize_vector Serialize_CTxOut (vout tx) @ ser_writedata32 (nLockTime tx)"

definition Unserialize_CTransaction :: "CTransaction reader" where
  "Unserialize_CTransaction s = ebind (Unserialize_int32 s) (\<lambda>(ver, s).
     ebind (Unserialize_vector Unserialize_CTxIn s) (\<lambda>(i, s).
     ebind (Unserialize_vector Unserialize_CTxOut s) (\<lambda>(out, s).
     ebind (ser_readdata32 s) (\<lambda>(lt, s).
       Inr (\<lparr>nVersion = ver, vin = i, vout = out, nLockTime = lt\<rparr>, s)))))"

definition GetTotalSize :: "CTransaction \<Rightarrow> nat" where
  "GetTotalSize tx = length (Serialize_CTransaction tx)"

definition GetHash :: "(bytes \<Rightarrow> uint256) \<Rightarrow> CTransaction \<Rightarrow> uint256" where
  "GetHash Hash tx = Hash (Serialize_CTransaction tx)"

section \<open>Values and sizes\<close>

fun GetValueOut_loop :: "CTxOut list \<Rightarrow> int \<Rightarrow> amount_error + int" where
  "GetValueOut_loop [] nValueOut = Inr nValueOut"
| "GetValueOut_loop (out # outs) nValueOut =
     ebind (int64 (nValueOut + nValue out)) (\<lambda>nValueOut.
       if \<not> MoneyRange (nValue out) \<or> \<not> MoneyRange nValueOut then Inl ValueOutOfRange
       else GetValueOut_loop outs nValueOut)"

definition GetValueOut :: "CTransaction \<Rightarrow> amount_error + int" where
  "GetValueOut tx = GetValueOut_loop (vout tx) 0"

fun modified_size_loop :: "CTxIn list \<Rightarrow> nat \<Rightarrow> nat" where
  "modified_size_loop [] nTxSize = nTxSize"
| "modified_size_loop (txin # ins) nTxSize =
     (let offset = 41 + min 110 (length (scriptSig txin)) in
      modified_size_loop ins (if nTxSize > offset then nTxSize - offset else nTxSize))"

definition CalculateModifiedSize :: "CTransaction \<Rightarrow> nat \<Rightarrow> nat" where
  "CalculateModifiedSize tx nTxSize =
     modified_size_loop (vin tx) (if nTxSize = 0 then GetTotalSize tx else nTxSize)"

definition IsBDAP :: "CTxOut \<Rightarrow> bool" where
  "IsBDAP out =
     (if length (scriptPubKey out) < 2 then False
      else case GetOp (scriptPubKey out) of None \<Rightarrow> False | Some (opcode, vch, pc) \<Rightarrow>
        if opcode < OP_1 \<or> opcode > OP_16 then False
        else let op = DecodeOP_N opcode in
          op = OP_BDAP_NEW \<or> op = OP_BDAP_DELETE \<or> op = OP_BDAP_EXPIRE \<or> op = OP_BDAP_MODIFY \<or> op = OP_BDAP_MOVE)"

definition GetBDAPOpCodes :: "CTxOut \<Rightarrow> (nat \<times> nat \<times> bytes list) option" where
  "GetBDAPOpCodes out = map_option (\<lambda>(op1, op2, vvch, pc). (op1, op2, vvch)) (DecodeBDAPScript (scriptPubKey out))"

definition IsData :: "CTxOut \<Rightarrow> bool" where
  "IsData out = (case GetOp (scriptPubKey out) of None \<Rightarrow> False | Some (opcode, vch, pc) \<Rightarrow> opcode = OP_RETURN)"

definition GetDustThreshold :: "CTxOut \<Rightarrow> CFeeRate \<Rightarrow> amount_error + int" where
  "GetDustThreshold out minRelayTxFee =
     (if IsUnspendable (scriptPubKey out) then Inr 0
      else let nSize = length (Serialize_CTxOut out) + 148 in
        ebind (GetFee minRelayTxFee nSize) (\<lambda>fee. int64 (3 * fee)))"

definition IsDust :: "CTxOut \<Rightarrow> CFeeRate \<Rightarrow> amount_error + bool" where
  "IsDust out minRelayTxFee = ebind (GetDustThreshold out minRelayTxFee) (\<lambda>t. Inr (nValue out < t))"

section \<open>The format is a bijective code\<close>

interpretation outpoint: canonical_codec Serialize_COutPoint Unserialize_COutPoint "\<lambda>_. True"
  by unfold_locales
     (auto simp: Serialize_COutPoint_def Unserialize_COutPoint_def ebind_eq_Inr blob256.dec_iff data32.dec_iff
        blob256.dec_enc data32.dec_enc)

definition wf_txin :: "CTxIn \<Rightarrow> bool" where
  "wf_txin i \<longleftrightarrow> length (scriptSig i) \<le> MAX_SIZE"

definition wf_txout :: "CTxOut \<Rightarrow> bool" where
  "wf_txout out \<longleftrightarrow> in_int 64 (nValue out) \<and> length (scriptPubKey out) \<le> MAX_SIZE \<and> nRounds out = - 10"

definition wf_tx :: "CTransaction \<Rightarrow> bool" where
  "wf_tx tx \<longleftrightarrow> in_int 32 (nVersion tx) \<and> list_all wf_txin (vin tx) \<and> length (vin tx) \<le> MAX_SIZE \<and>
     list_all wf_txout (vout tx) \<and> length (vout tx) \<le> MAX_SIZE"

interpretation txin: canonical_codec Serialize_CTxIn Unserialize_CTxIn wf_txin
  by unfold_locales
     (auto simp: Serialize_CTxIn_def Unserialize_CTxIn_def wf_txin_def ebind_eq_Inr outpoint.dec_iff bytevec.dec_iff
        data32.dec_iff outpoint.dec_enc bytevec.dec_enc data32.dec_enc)

interpretation txout: canonical_codec Serialize_CTxOut Unserialize_CTxOut wf_txout
  by unfold_locales
     (auto simp: Serialize_CTxOut_def Unserialize_CTxOut_def CTxOut_SetNull_def wf_txout_def ebind_eq_Inr
        int64.dec_iff bytevec.dec_iff int64.dec_enc bytevec.dec_enc)

interpretation vins: canonical_codec "Serialize_vector Serialize_CTxIn" "Unserialize_vector Unserialize_CTxIn"
    "\<lambda>xs. list_all wf_txin xs \<and> length xs \<le> MAX_SIZE"
  by (rule txin.vector_canonical_codec)

interpretation vouts: canonical_codec "Serialize_vector Serialize_CTxOut" "Unserialize_vector Unserialize_CTxOut"
    "\<lambda>xs. list_all wf_txout xs \<and> length xs \<le> MAX_SIZE"
  by (rule txout.vector_canonical_codec)

interpretation tx_codec: canonical_codec Serialize_CTransaction Unserialize_CTransaction wf_tx
  by unfold_locales
     (auto simp: Serialize_CTransaction_def Unserialize_CTransaction_def wf_tx_def ebind_eq_Inr int32.dec_iff
        vins.dec_iff vouts.dec_iff data32.dec_iff int32.dec_enc vins.dec_enc vouts.dec_enc data32.dec_enc)

text \<open>
  C38. The transaction reader accepts exactly the serializations of well-formed
  transactions: what it returns is well-formed and the bytes it consumed are the
  serialization of that transaction, so no transaction has a second encoding.
\<close>

theorem Unserialize_CTransaction_iff:
  "Unserialize_CTransaction s = Inr (tx, r) \<longleftrightarrow> wf_tx tx \<and> s = Serialize_CTransaction tx @ r"
  by (rule tx_codec.dec_iff)

text \<open>
  Two different well-formed transactions with the same hash are a collision of the
  hash function: their serializations differ.
\<close>

theorem GetHash_equal_is_collision:
  assumes "wf_tx tx" "wf_tx tx'" "tx \<noteq> tx'" "GetHash Hash tx = GetHash Hash tx'"
  shows "Serialize_CTransaction tx \<noteq> Serialize_CTransaction tx' \<and>
    Hash (Serialize_CTransaction tx) = Hash (Serialize_CTransaction tx')"
  using assms tx_codec.enc_inject by (simp add: GetHash_def)

definition sample_tx :: "u32 \<Rightarrow> CTransaction" where
  "sample_tx lt = \<lparr>nVersion = 1, vin = [\<lparr>prevout = \<lparr>prevout_hash = 5, prevout_n = 1\<rparr>, scriptSig = [0x51], nSequence = 7\<rparr>],
     vout = [\<lparr>nValue = 3, scriptPubKey = [0x6a], nRounds = - 10\<rparr>, \<lparr>nValue = 4, scriptPubKey = [], nRounds = - 10\<rparr>], nLockTime = lt\<rparr>"

lemma wf_sample_tx: "wf_tx (sample_tx lt)"
  by (simp add: sample_tx_def wf_tx_def wf_txin_def wf_txout_def in_int_def MAX_SIZE_def)

theorem GetHash_equal_is_collision_witness:
  "Serialize_CTransaction (sample_tx 1) \<noteq> Serialize_CTransaction (sample_tx 2)"
proof -
  have "sample_tx 1 \<noteq> sample_tx 2" by (simp add: sample_tx_def)
  with GetHash_equal_is_collision [of "sample_tx 1" "sample_tx 2" "\<lambda>_. 0"] wf_sample_tx
  show ?thesis by (simp add: GetHash_def)
qed

section \<open>The value of the outputs\<close>

lemma sum_outputs_nonneg:
  "list_all (\<lambda>out. MoneyRange (nValue out)) outs \<Longrightarrow> 0 \<le> sum_list (map nValue outs)"
  by (induction outs) (auto simp: MoneyRange_def)

lemma GetValueOut_loop_Inr:
  "MoneyRange acc \<Longrightarrow> GetValueOut_loop outs acc = Inr v \<longleftrightarrow>
     list_all (\<lambda>out. MoneyRange (nValue out)) outs \<and> v = acc + sum_list (map nValue outs) \<and> MoneyRange v"
proof (induction outs arbitrary: acc)
  case (Cons out outs)
  show ?case
  proof (cases "MoneyRange (nValue out) \<and> MoneyRange (acc + nValue out)")
    case True
    then have "in_int 64 (acc + nValue out)" by (simp add: in_int_def MoneyRange_def MAX_MONEY_def)
    then show ?thesis using Cons.IH [of "acc + nValue out"] True by (auto simp: int64_def algebra_simps)
  next
    case False
    have "\<not> MoneyRange (acc + nValue out + sum_list (map nValue outs))"
      if "MoneyRange (nValue out)" "list_all (\<lambda>out. MoneyRange (nValue out)) outs"
      using False that sum_outputs_nonneg [OF that(2)] Cons.prems by (auto simp: MoneyRange_def)
    then show ?thesis using False by (auto simp: int64_def algebra_simps)
  qed
qed auto

text \<open>
  \<open>GetValueOut\<close> returns a value exactly when every output and the total are in the money
  range, and the value is then the exact sum of the outputs: no partial sum wraps unnoticed.
\<close>

theorem GetValueOut_iff_sum:
  "GetValueOut tx = Inr v \<longleftrightarrow>
     list_all (\<lambda>out. MoneyRange (nValue out)) (vout tx) \<and> v = sum_list (map nValue (vout tx)) \<and> MoneyRange v"
  by (simp add: GetValueOut_def GetValueOut_loop_Inr MoneyRange_def MAX_MONEY_def)

lemma GetValueOut_loop_ValueOutOfRange:
  "list_all (\<lambda>out. in_int 64 (nValue out)) outs \<Longrightarrow> MoneyRange acc \<Longrightarrow>
     GetValueOut_loop outs acc = Inl ValueOutOfRange \<Longrightarrow> list_ex (\<lambda>out. nValue out < 0) outs"
proof (induction outs arbitrary: acc)
  case (Cons out outs)
  show ?case
  proof (cases "nValue out < 0")
    case False
    then have "MoneyRange (acc + nValue out) \<and> GetValueOut_loop outs (acc + nValue out) = Inl ValueOutOfRange"
      using Cons.prems by (auto simp: int64_def in_int_def MoneyRange_def MAX_MONEY_def split: if_splits)
    then show ?thesis using Cons.IH [of "acc + nValue out"] Cons.prems(1) by simp
  qed simp
qed simp

text \<open>
  The range check on the running total is dead: the limit is the largest 64-bit value,
  so a total above it has overflowed the signed addition before it is compared.  The
  exception of \<open>GetValueOut\<close> is thrown only for a negative output.
\<close>

theorem GetValueOut_total_check_is_dead:
  assumes "list_all (\<lambda>out. in_int 64 (nValue out)) (vout tx)" "GetValueOut tx = Inl ValueOutOfRange"
  shows "list_ex (\<lambda>out. nValue out < 0) (vout tx)"
  using GetValueOut_loop_ValueOutOfRange [OF assms(1), of 0] assms(2)
  by (simp add: GetValueOut_def MoneyRange_def MAX_MONEY_def)

theorem GetValueOut_total_check_is_dead_witness:
  "GetValueOut (sample_tx 0\<lparr>vout := [\<lparr>nValue = 5, scriptPubKey = [], nRounds = - 10\<rparr>, \<lparr>nValue = - 1, scriptPubKey = [], nRounds = - 10\<rparr>]\<rparr>)
     = Inl ValueOutOfRange \<and>
   list_ex (\<lambda>out. nValue out < 0) [\<lparr>nValue = 5, scriptPubKey = [], nRounds = - 10\<rparr>, \<lparr>nValue = - 1, scriptPubKey = [], nRounds = - 10\<rparr>]"
  (is "GetValueOut ?tx = _ \<and> _")
proof -
  have "GetValueOut ?tx = Inl ValueOutOfRange"
    by (simp add: GetValueOut_def int64_def in_int_def MoneyRange_def MAX_MONEY_def)
  with GetValueOut_total_check_is_dead [of ?tx] show ?thesis by (simp add: in_int_def)
qed

section \<open>Sizes\<close>

lemma modified_size_loop_le: "modified_size_loop ins k \<le> k"
proof (induction ins arbitrary: k)
  case (Cons i ins)
  then show ?case using le_trans [OF Cons [of "k - _"] diff_le_self] by (simp add: Let_def)
qed simp

lemma CalculateModifiedSize_le: "0 < k \<Longrightarrow> CalculateModifiedSize tx k \<le> k"
  by (simp add: CalculateModifiedSize_def modified_size_loop_le)

end
