(* ===== verification/Interpreter.thy ===== *)
theory Interpreter
  imports Transaction "HOL-Library.Sublist"
begin

unbundle bit_operations_syntax

text \<open>
  The script interpreter: \<open>EvalScript\<close> and \<open>VerifyScript\<close> of
  \<open>src/src/script/interpreter.cpp\<close>.  The machine state is a record of the local variables of
  \<open>EvalScript\<close>; both stacks and the condition stack are lists with the top first.  One
  definition models the handler of each opcode, and every early return of the source is an
  error value.  An exception inside the loop is the unknown error, as the catch clause has it.
  What the interpreter calls, the signature checker, the hash functions and the curve test of
  a low S value, are fields of the environment record.

  Shown: evaluation terminates and keeps the resource limits, success constrains every
  instruction of a script, executed or not, unspendable scripts never succeed, the multisig
  loop is order-preserving matching, and what verification of the two standard output types
  amounts to.
\<close>

section \<open>Results, flags and environment\<close>

datatype ScriptError =
    SCRIPT_ERR_OK | SCRIPT_ERR_UNKNOWN_ERROR | SCRIPT_ERR_EVAL_FALSE | SCRIPT_ERR_OP_RETURN
  | SCRIPT_ERR_SCRIPT_SIZE | SCRIPT_ERR_PUSH_SIZE | SCRIPT_ERR_OP_COUNT | SCRIPT_ERR_STACK_SIZE
  | SCRIPT_ERR_SIG_COUNT | SCRIPT_ERR_PUBKEY_COUNT
  | SCRIPT_ERR_VERIFY | SCRIPT_ERR_EQUALVERIFY | SCRIPT_ERR_CHECKMULTISIGVERIFY
  | SCRIPT_ERR_CHECKSIGVERIFY | SCRIPT_ERR_NUMEQUALVERIFY
  | SCRIPT_ERR_BAD_OPCODE | SCRIPT_ERR_DISABLED_OPCODE | SCRIPT_ERR_INVALID_STACK_OPERATION
  | SCRIPT_ERR_INVALID_ALTSTACK_OPERATION | SCRIPT_ERR_UNBALANCED_CONDITIONAL
  | SCRIPT_ERR_NEGATIVE_LOCKTIME | SCRIPT_ERR_UNSATISFIED_LOCKTIME
  | SCRIPT_ERR_SIG_HASHTYPE | SCRIPT_ERR_SIG_DER | SCRIPT_ERR_MINIMALDATA | SCRIPT_ERR_SIG_PUSHONLY
  | SCRIPT_ERR_SIG_HIGH_S | SCRIPT_ERR_SIG_NULLDUMMY | SCRIPT_ERR_PUBKEYTYPE | SCRIPT_ERR_CLEANSTACK
  | SCRIPT_ERR_DISCOURAGE_UPGRADABLE_NOPS | SCRIPT_ERR_ERROR_COUNT

definition SCRIPT_VERIFY_P2SH :: u32 where "SCRIPT_VERIFY_P2SH = 0x001"
definition SCRIPT_VERIFY_STRICTENC :: u32 where "SCRIPT_VERIFY_STRICTENC = 0x002"
definition SCRIPT_VERIFY_DERSIG :: u32 where "SCRIPT_VERIFY_DERSIG = 0x004"
definition SCRIPT_VERIFY_LOW_S :: u32 where "SCRIPT_VERIFY_LOW_S = 0x008"
definition SCRIPT_VERIFY_NULLDUMMY :: u32 where "SCRIPT_VERIFY_NULLDUMMY = 0x010"
definition SCRIPT_VERIFY_SIGPUSHONLY :: u32 where "SCRIPT_VERIFY_SIGPUSHONLY = 0x020"
definition SCRIPT_VERIFY_MINIMALDATA :: u32 where "SCRIPT_VERIFY_MINIMALDATA = 0x040"
definition SCRIPT_VERIFY_DISCOURAGE_UPGRADABLE_NOPS :: u32 where "SCRIPT_VERIFY_DISCOURAGE_UPGRADABLE_NOPS = 0x080"
definition SCRIPT_VERIFY_CLEANSTACK :: u32 where "SCRIPT_VERIFY_CLEANSTACK = 0x100"
definition SCRIPT_VERIFY_CHECKLOCKTIMEVERIFY :: u32 where "SCRIPT_VERIFY_CHECKLOCKTIMEVERIFY = 0x200"
definition SCRIPT_VERIFY_CHECKSEQUENCEVERIFY :: u32 where "SCRIPT_VERIFY_CHECKSEQUENCEVERIFY = 0x400"

record script_env =
  flags :: u32
  CheckSig :: "bytes \<Rightarrow> bytes \<Rightarrow> bytes \<Rightarrow> bool"
  CheckLockTime :: "int \<Rightarrow> bool"
  CheckSequence :: "int \<Rightarrow> bool"
  CheckLowS :: "bytes \<Rightarrow> bool"
  RIPEMD160 :: "bytes \<Rightarrow> bytes"
  SHA1 :: "bytes \<Rightarrow> bytes"
  SHA256 :: "bytes \<Rightarrow> bytes"
  HASH160 :: "bytes \<Rightarrow> bytes"
  HASH256 :: "bytes \<Rightarrow> bytes"

definition has_flag :: "script_env \<Rightarrow> u32 \<Rightarrow> bool" where
  "has_flag env f \<longleftrightarrow> flags env AND f \<noteq> 0"

section \<open>Encodings\<close>

fun CastToBool :: "bytes \<Rightarrow> bool" where
  "CastToBool [] = False"
| "CastToBool (b # bs) = (if b \<noteq> 0 then \<not> (bs = [] \<and> b = 0x80) else CastToBool bs)"

definition IsCompressedOrUncompressedPubKey :: "bytes \<Rightarrow> bool" where
  "IsCompressedOrUncompressedPubKey vchPubKey =
     (if length vchPubKey < 33 then False
      else if vchPubKey ! 0 = 0x04 then length vchPubKey = 65
      else if vchPubKey ! 0 = 0x02 \<or> vchPubKey ! 0 = 0x03 then length vchPubKey = 33
      else False)"

definition IsValidSignatureEncoding :: "bytes \<Rightarrow> bool" where
  "IsValidSignatureEncoding sig =
     (if length sig < 9 then False
      else if length sig > 73 then False
      else if sig ! 0 \<noteq> 0x30 then False
      else if unat (sig ! 1) \<noteq> length sig - 3 then False
      else let lenR = unat (sig ! 3) in
        if 5 + lenR \<ge> length sig then False
        else let lenS = unat (sig ! (5 + lenR)) in
          if lenR + lenS + 7 \<noteq> length sig then False
          else if sig ! 2 \<noteq> 0x02 then False
          else if lenR = 0 then False
          else if sig ! 4 AND 0x80 \<noteq> 0 then False
          else if lenR > 1 \<and> sig ! 4 = 0x00 \<and> sig ! 5 AND 0x80 = 0 then False
          else if sig ! (lenR + 4) \<noteq> 0x02 then False
          else if lenS = 0 then False
          else if sig ! (lenR + 6) AND 0x80 \<noteq> 0 then False
          else if lenS > 1 \<and> sig ! (lenR + 6) = 0x00 \<and> sig ! (lenR + 7) AND 0x80 = 0 then False
          else True)"

definition IsLowDERSignature :: "script_env \<Rightarrow> bytes \<Rightarrow> ScriptError + unit" where
  "IsLowDERSignature env vchSig =
     (if \<not> IsValidSignatureEncoding vchSig then Inl SCRIPT_ERR_SIG_DER
      else if \<not> CheckLowS env (butlast vchSig) then Inl SCRIPT_ERR_SIG_HIGH_S
      else Inr ())"

definition SIGHASH_ALL :: nat where "SIGHASH_ALL = 1"
definition SIGHASH_NONE :: nat where "SIGHASH_NONE = 2"
definition SIGHASH_SINGLE :: nat where "SIGHASH_SINGLE = 3"
definition SIGHASH_ANYONECANPAY :: nat where "SIGHASH_ANYONECANPAY = 0x80"

definition IsDefinedHashtypeSignature :: "bytes \<Rightarrow> bool" where
  "IsDefinedHashtypeSignature vchSig =
     (if length vchSig = 0 then False
      else let nHashType = unat (last vchSig AND NOT (of_nat SIGHASH_ANYONECANPAY)) in
        \<not> (nHashType < SIGHASH_ALL \<or> nHashType > SIGHASH_SINGLE))"

definition CheckSignatureEncoding :: "script_env \<Rightarrow> bytes \<Rightarrow> ScriptError + unit" where
  "CheckSignatureEncoding env vchSig =
     (if length vchSig = 0 then Inr ()
      else if has_flag env (SCRIPT_VERIFY_DERSIG OR SCRIPT_VERIFY_LOW_S OR SCRIPT_VERIFY_STRICTENC) \<and>
         \<not> IsValidSignatureEncoding vchSig then Inl SCRIPT_ERR_SIG_DER
      else ebind (if has_flag env SCRIPT_VERIFY_LOW_S then IsLowDERSignature env vchSig else Inr ()) (\<lambda>_.
        if has_flag env SCRIPT_VERIFY_STRICTENC \<and> \<not> IsDefinedHashtypeSignature vchSig
        then Inl SCRIPT_ERR_SIG_HASHTYPE else Inr ()))"

definition CheckPubKeyEncoding :: "script_env \<Rightarrow> bytes \<Rightarrow> ScriptError + unit" where
  "CheckPubKeyEncoding env vchPubKey =
     (if has_flag env SCRIPT_VERIFY_STRICTENC \<and> \<not> IsCompressedOrUncompressedPubKey vchPubKey
      then Inl SCRIPT_ERR_PUBKEYTYPE else Inr ())"

definition CheckMinimalPush :: "bytes \<Rightarrow> nat \<Rightarrow> bool" where
  "CheckMinimalPush data opcode =
     (if length data = 0 then opcode = OP_0
      else if length data = 1 \<and> unat (data ! 0) \<ge> 1 \<and> unat (data ! 0) \<le> 16 then opcode = OP_1 + (unat (data ! 0) - 1)
      else if length data = 1 \<and> data ! 0 = 0x81 then opcode = OP_1NEGATE
      else if length data \<le> 75 then opcode = length data
      else if length data \<le> 255 then opcode = OP_PUSHDATA1
      else if length data \<le> 65535 then opcode = OP_PUSHDATA2
      else True)"

section \<open>Machine state\<close>

record eval_state =
  stack :: "bytes list"
  altstack :: "bytes list"
  vfExec :: "bool list"
  nOpCount :: nat
  pcur :: bytes
  pbegincodehash :: bytes

definition vchFalse :: bytes where "vchFalse = []"
definition vchTrue :: bytes where "vchTrue = [1]"

definition bool_vch :: "bool \<Rightarrow> bytes" where
  "bool_vch f = (if f then vchTrue else vchFalse)"

definition fRequireMinimal :: "script_env \<Rightarrow> bool" where
  "fRequireMinimal env = has_flag env SCRIPT_VERIFY_MINIMALDATA"

text \<open>A stack element as a number; the constructor's exception ends the evaluation.\<close>

definition num_arg :: "script_env \<Rightarrow> bytes \<Rightarrow> nat \<Rightarrow> ScriptError + int" where
  "num_arg env v nMaxNumSize =
     (case CScriptNum v (fRequireMinimal env) nMaxNumSize of
        Inl e \<Rightarrow> Inl SCRIPT_ERR_UNKNOWN_ERROR
      | Inr bn \<Rightarrow> Inr bn)"

type_synonym stack_op = "bytes list \<Rightarrow> ScriptError + bytes list"

abbreviation (input) bad_stack :: "ScriptError + 'a" where
  "bad_stack \<equiv> Inl SCRIPT_ERR_INVALID_STACK_OPERATION"

section \<open>Push and control handlers\<close>

definition op_push_small :: "nat \<Rightarrow> stack_op" where
  "op_push_small opcode st = Inr (scriptnum_serialize (int opcode - (int OP_1 - 1)) # st)"

definition op_checklocktimeverify :: "script_env \<Rightarrow> stack_op" where
  "op_checklocktimeverify env st =
     (if \<not> has_flag env SCRIPT_VERIFY_CHECKLOCKTIMEVERIFY then
        (if has_flag env SCRIPT_VERIFY_DISCOURAGE_UPGRADABLE_NOPS
         then Inl SCRIPT_ERR_DISCOURAGE_UPGRADABLE_NOPS else Inr st)
      else case st of [] \<Rightarrow> bad_stack | x # _ \<Rightarrow>
        ebind (num_arg env x 5) (\<lambda>n.
          if n < 0 then Inl SCRIPT_ERR_NEGATIVE_LOCKTIME
          else if \<not> CheckLockTime env n then Inl SCRIPT_ERR_UNSATISFIED_LOCKTIME
          else Inr st))"

definition op_checksequenceverify :: "script_env \<Rightarrow> stack_op" where
  "op_checksequenceverify env st =
     (if \<not> has_flag env SCRIPT_VERIFY_CHECKSEQUENCEVERIFY then
        (if has_flag env SCRIPT_VERIFY_DISCOURAGE_UPGRADABLE_NOPS
         then Inl SCRIPT_ERR_DISCOURAGE_UPGRADABLE_NOPS else Inr st)
      else case st of [] \<Rightarrow> bad_stack | x # _ \<Rightarrow>
        ebind (num_arg env x 5) (\<lambda>n.
          if n < 0 then Inl SCRIPT_ERR_NEGATIVE_LOCKTIME
          else if n AND uint SEQUENCE_LOCKTIME_DISABLE_FLAG \<noteq> 0 then Inr st
          else if \<not> CheckSequence env n then Inl SCRIPT_ERR_UNSATISFIED_LOCKTIME
          else Inr st))"

definition op_nop_upgradable :: "script_env \<Rightarrow> stack_op" where
  "op_nop_upgradable env st =
     (if has_flag env SCRIPT_VERIFY_DISCOURAGE_UPGRADABLE_NOPS
      then Inl SCRIPT_ERR_DISCOURAGE_UPGRADABLE_NOPS else Inr st)"

definition op_if :: "bool \<Rightarrow> nat \<Rightarrow> eval_state \<Rightarrow> ScriptError + eval_state" where
  "op_if fExec opcode s =
     (if fExec then
        (case stack s of [] \<Rightarrow> Inl SCRIPT_ERR_UNBALANCED_CONDITIONAL | vch # st \<Rightarrow>
           let fValue = CastToBool vch; fValue = (if opcode = OP_NOTIF then \<not> fValue else fValue)
           in Inr (s\<lparr>stack := st, vfExec := fValue # vfExec s\<rparr>))
      else Inr (s\<lparr>vfExec := False # vfExec s\<rparr>))"

definition op_else :: "eval_state \<Rightarrow> ScriptError + eval_state" where
  "op_else s = (case vfExec s of [] \<Rightarrow> Inl SCRIPT_ERR_UNBALANCED_CONDITIONAL
     | v # vs \<Rightarrow> Inr (s\<lparr>vfExec := (\<not> v) # vs\<rparr>))"

definition op_endif :: "eval_state \<Rightarrow> ScriptError + eval_state" where
  "op_endif s = (case vfExec s of [] \<Rightarrow> Inl SCRIPT_ERR_UNBALANCED_CONDITIONAL
     | v # vs \<Rightarrow> Inr (s\<lparr>vfExec := vs\<rparr>))"

definition op_verify :: stack_op where
  "op_verify st = (case st of [] \<Rightarrow> bad_stack
     | x # r \<Rightarrow> if CastToBool x then Inr r else Inl SCRIPT_ERR_VERIFY)"

section \<open>Stack handlers\<close>

definition op_toaltstack :: "eval_state \<Rightarrow> ScriptError + eval_state" where
  "op_toaltstack s = (case stack s of [] \<Rightarrow> bad_stack
     | x # st \<Rightarrow> Inr (s\<lparr>stack := st, altstack := x # altstack s\<rparr>))"

definition op_fromaltstack :: "eval_state \<Rightarrow> ScriptError + eval_state" where
  "op_fromaltstack s = (case altstack s of [] \<Rightarrow> Inl SCRIPT_ERR_INVALID_ALTSTACK_OPERATION
     | x # alt \<Rightarrow> Inr (s\<lparr>stack := x # stack s, altstack := alt\<rparr>))"

fun op_2drop :: stack_op where
  "op_2drop (_ # _ # r) = Inr r"
| "op_2drop _ = bad_stack"

fun op_2dup :: stack_op where
  "op_2dup (x2 # x1 # r) = Inr (x2 # x1 # x2 # x1 # r)"
| "op_2dup _ = bad_stack"

fun op_3dup :: stack_op where
  "op_3dup (x3 # x2 # x1 # r) = Inr (x3 # x2 # x1 # x3 # x2 # x1 # r)"
| "op_3dup _ = bad_stack"

fun op_2over :: stack_op where
  "op_2over (x4 # x3 # x2 # x1 # r) = Inr (x2 # x1 # x4 # x3 # x2 # x1 # r)"
| "op_2over _ = bad_stack"

fun op_2rot :: stack_op where
  "op_2rot (x6 # x5 # x4 # x3 # x2 # x1 # r) = Inr (x2 # x1 # x6 # x5 # x4 # x3 # r)"
| "op_2rot _ = bad_stack"

fun op_2swap :: stack_op where
  "op_2swap (x4 # x3 # x2 # x1 # r) = Inr (x2 # x1 # x4 # x3 # r)"
| "op_2swap _ = bad_stack"

fun op_ifdup :: stack_op where
  "op_ifdup (x # r) = Inr (if CastToBool x then x # x # r else x # r)"
| "op_ifdup _ = bad_stack"

definition op_depth :: stack_op where
  "op_depth st = Inr (scriptnum_serialize (int (length st)) # st)"

fun op_drop :: stack_op where
  "op_drop (_ # r) = Inr r"
| "op_drop _ = bad_stack"

fun op_dup :: stack_op where
  "op_dup (x # r) = Inr (x # x # r)"
| "op_dup _ = bad_stack"

fun op_nip :: stack_op where
  "op_nip (x2 # x1 # r) = Inr (x2 # r)"
| "op_nip _ = bad_stack"

fun op_over :: stack_op where
  "op_over (x2 # x1 # r) = Inr (x1 # x2 # x1 # r)"
| "op_over _ = bad_stack"

definition op_pick_roll :: "script_env \<Rightarrow> nat \<Rightarrow> stack_op" where
  "op_pick_roll env opcode st =
     (if length st < 2 then bad_stack
      else ebind (num_arg env (hd st) nDefaultMaxNumSize) (\<lambda>bn.
        let n = getint bn; st = tl st in
        if n < 0 \<or> n \<ge> int (length st) then bad_stack
        else let vch = st ! nat n in
          Inr (vch # (if opcode = OP_ROLL then take (nat n) st @ drop (nat n + 1) st else st))))"

fun op_rot :: stack_op where
  "op_rot (x3 # x2 # x1 # r) = Inr (x1 # x3 # x2 # r)"
| "op_rot _ = bad_stack"

fun op_swap :: stack_op where
  "op_swap (x2 # x1 # r) = Inr (x1 # x2 # r)"
| "op_swap _ = bad_stack"

fun op_tuck :: stack_op where
  "op_tuck (x2 # x1 # r) = Inr (x2 # x1 # x2 # r)"
| "op_tuck _ = bad_stack"

fun op_size :: stack_op where
  "op_size (x # r) = Inr (scriptnum_serialize (int (length x)) # x # r)"
| "op_size _ = bad_stack"

fun op_equal :: "nat \<Rightarrow> stack_op" where
  "op_equal opcode (x2 # x1 # r) =
     (let fEqual = (x1 = x2) in
      if opcode = OP_EQUALVERIFY then (if fEqual then Inr r else Inl SCRIPT_ERR_EQUALVERIFY)
      else Inr (bool_vch fEqual # r))"
| "op_equal opcode _ = bad_stack"

section \<open>Numeric handlers\<close>

text \<open>
  Operands have at most four bytes, so the 64-bit sums below never overflow and the
  assertions of the number class hold.
\<close>

definition num_of_bool :: "bool \<Rightarrow> int" where
  "num_of_bool b = (if b then 1 else 0)"

definition unary_num :: "nat \<Rightarrow> int \<Rightarrow> int" where
  "unary_num opcode bn =
     (if opcode = OP_1ADD then bn + 1
      else if opcode = OP_1SUB then bn - 1
      else if opcode = OP_NEGATE then - bn
      else if opcode = OP_ABS then (if bn < 0 then - bn else bn)
      else if opcode = OP_NOT then num_of_bool (bn = 0)
      else num_of_bool (bn \<noteq> 0))"

definition op_unary :: "script_env \<Rightarrow> nat \<Rightarrow> stack_op" where
  "op_unary env opcode st = (case st of [] \<Rightarrow> bad_stack | x # r \<Rightarrow>
     ebind (num_arg env x nDefaultMaxNumSize) (\<lambda>bn. Inr (scriptnum_serialize (unary_num opcode bn) # r)))"

definition binary_num :: "nat \<Rightarrow> int \<Rightarrow> int \<Rightarrow> int" where
  "binary_num opcode bn1 bn2 =
     (if opcode = OP_ADD then bn1 + bn2
      else if opcode = OP_SUB then bn1 - bn2
      else if opcode = OP_BOOLAND then num_of_bool (bn1 \<noteq> 0 \<and> bn2 \<noteq> 0)
      else if opcode = OP_BOOLOR then num_of_bool (bn1 \<noteq> 0 \<or> bn2 \<noteq> 0)
      else if opcode = OP_NUMEQUAL then num_of_bool (bn1 = bn2)
      else if opcode = OP_NUMEQUALVERIFY then num_of_bool (bn1 = bn2)
      else if opcode = OP_NUMNOTEQUAL then num_of_bool (bn1 \<noteq> bn2)
      else if opcode = OP_LESSTHAN then num_of_bool (bn1 < bn2)
      else if opcode = OP_GREATERTHAN then num_of_bool (bn1 > bn2)
      else if opcode = OP_LESSTHANOREQUAL then num_of_bool (bn1 \<le> bn2)
      else if opcode = OP_GREATERTHANOREQUAL then num_of_bool (bn1 \<ge> bn2)
      else if opcode = OP_MIN then (if bn1 < bn2 then bn1 else bn2)
      else (if bn1 > bn2 then bn1 else bn2))"

definition op_binary :: "script_env \<Rightarrow> nat \<Rightarrow> stack_op" where
  "op_binary env opcode st = (case st of
       x2 # x1 # r \<Rightarrow>
         ebind (num_arg env x1 nDefaultMaxNumSize) (\<lambda>bn1.
         ebind (num_arg env x2 nDefaultMaxNumSize) (\<lambda>bn2.
           let v = scriptnum_serialize (binary_num opcode bn1 bn2) in
           if opcode = OP_NUMEQUALVERIFY then
             (if CastToBool v then Inr r else Inl SCRIPT_ERR_NUMEQUALVERIFY)
           else Inr (v # r)))
     | _ \<Rightarrow> bad_stack)"

definition op_within :: "script_env \<Rightarrow> stack_op" where
  "op_within env st = (case st of
       x3 # x2 # x1 # r \<Rightarrow>
         ebind (num_arg env x1 nDefaultMaxNumSize) (\<lambda>bn1.
         ebind (num_arg env x2 nDefaultMaxNumSize) (\<lambda>bn2.
         ebind (num_arg env x3 nDefaultMaxNumSize) (\<lambda>bn3.
           Inr (bool_vch (bn2 \<le> bn1 \<and> bn1 < bn3) # r))))
     | _ \<Rightarrow> bad_stack)"

section \<open>Crypto handlers\<close>

definition hash_op :: "script_env \<Rightarrow> nat \<Rightarrow> bytes \<Rightarrow> bytes" where
  "hash_op env opcode vch =
     (if opcode = OP_RIPEMD160 then RIPEMD160 env vch
      else if opcode = OP_SHA1 then SHA1 env vch
      else if opcode = OP_SHA256 then SHA256 env vch
      else if opcode = OP_HASH160 then HASH160 env vch
      else HASH256 env vch)"

definition op_hash :: "script_env \<Rightarrow> nat \<Rightarrow> stack_op" where
  "op_hash env opcode st = (case st of [] \<Rightarrow> bad_stack | x # r \<Rightarrow> Inr (hash_op env opcode x # r))"

definition op_checksig :: "script_env \<Rightarrow> nat \<Rightarrow> bytes \<Rightarrow> stack_op" where
  "op_checksig env opcode codehash st = (case st of
       vchPubKey # vchSig # r \<Rightarrow>
         let scriptCode = snd (FindAndDelete codehash (push_vch [] vchSig)) in
         ebind (CheckSignatureEncoding env vchSig) (\<lambda>_.
         ebind (CheckPubKeyEncoding env vchPubKey) (\<lambda>_.
           let fSuccess = CheckSig env vchSig vchPubKey scriptCode in
           if opcode = OP_CHECKSIGVERIFY then (if fSuccess then Inr r else Inl SCRIPT_ERR_CHECKSIGVERIFY)
           else Inr (bool_vch fSuccess # r)))
     | _ \<Rightarrow> bad_stack)"

text \<open>
  The matching loop walks the keys; a key that fits moves on to the next signature, and the
  loop gives up as soon as more signatures than keys are left.
\<close>

fun multisig_loop :: "script_env \<Rightarrow> bytes \<Rightarrow> bytes list \<Rightarrow> bytes list \<Rightarrow> ScriptError + bool" where
  "multisig_loop env scriptCode [] keys = Inr True"
| "multisig_loop env scriptCode (sig # sigs) [] = Inr False"
| "multisig_loop env scriptCode (vchSig # sigs) (vchPubKey # keys) =
     ebind (CheckSignatureEncoding env vchSig) (\<lambda>_.
     ebind (CheckPubKeyEncoding env vchPubKey) (\<lambda>_.
       let fOk = CheckSig env vchSig vchPubKey scriptCode;
           left = (if fOk then sigs else vchSig # sigs)
       in if length left > length keys then Inr False
          else multisig_loop env scriptCode left keys))"

definition multisig_code :: "bytes \<Rightarrow> bytes list \<Rightarrow> bytes" where
  "multisig_code codehash sigs = foldl (\<lambda>code sig. snd (FindAndDelete code (push_vch [] sig))) codehash sigs"

text \<open>The two counts and the checks on them; then the matching and the clean-up of the stack.\<close>

definition multisig_args :: "script_env \<Rightarrow> eval_state \<Rightarrow> ScriptError + nat \<times> nat" where
  "multisig_args env s =
     (let st = stack s in
      if length st < 1 then bad_stack
      else ebind (num_arg env (st ! 0) nDefaultMaxNumSize) (\<lambda>bn.
        let nKeysCount = getint bn in
        if nKeysCount < 0 \<or> nKeysCount > int MAX_PUBKEYS_PER_MULTISIG then Inl SCRIPT_ERR_PUBKEY_COUNT
        else let nKeys = nat nKeysCount in
        if nOpCount s + nKeys > MAX_OPS_PER_SCRIPT then Inl SCRIPT_ERR_OP_COUNT
        else if length st < 2 + nKeys then bad_stack
        else ebind (num_arg env (st ! (1 + nKeys)) nDefaultMaxNumSize) (\<lambda>bn.
          let nSigsCount = getint bn in
          if nSigsCount < 0 \<or> nSigsCount > nKeysCount then Inl SCRIPT_ERR_SIG_COUNT
          else let nSigs = nat nSigsCount in
          if length st < 3 + nKeys + nSigs then bad_stack
          else Inr (nKeys, nSigs))))"

definition multisig_check :: "script_env \<Rightarrow> eval_state \<Rightarrow> nat \<Rightarrow> nat \<Rightarrow> ScriptError + bool" where
  "multisig_check env s nKeys nSigs =
     (let keys = take nKeys (drop 1 (stack s));
          sigs = take nSigs (drop (2 + nKeys) (stack s));
          scriptCode = multisig_code (pbegincodehash s) sigs
      in multisig_loop env scriptCode sigs keys)"

definition op_checkmultisig :: "script_env \<Rightarrow> nat \<Rightarrow> eval_state \<Rightarrow> ScriptError + eval_state" where
  "op_checkmultisig env opcode s =
     ebind (multisig_args env s) (\<lambda>(nKeys, nSigs).
     ebind (multisig_check env s nKeys nSigs) (\<lambda>fSuccess.
       case drop (2 + nKeys + nSigs) (stack s) of
         [] \<Rightarrow> bad_stack
       | dummy # r \<Rightarrow>
           let s = s\<lparr>nOpCount := nOpCount s + nKeys\<rparr> in
           if has_flag env SCRIPT_VERIFY_NULLDUMMY \<and> length dummy \<noteq> 0 then Inl SCRIPT_ERR_SIG_NULLDUMMY
           else if opcode = OP_CHECKMULTISIGVERIFY then
             (if fSuccess then Inr (s\<lparr>stack := r\<rparr>) else Inl SCRIPT_ERR_CHECKMULTISIGVERIFY)
           else Inr (s\<lparr>stack := bool_vch fSuccess # r\<rparr>)))"

section \<open>The evaluation loop\<close>

definition on_stack :: "stack_op \<Rightarrow> eval_state \<Rightarrow> ScriptError + eval_state" where
  "on_stack f s = ebind (f (stack s)) (\<lambda>st. Inr (s\<lparr>stack := st\<rparr>))"

definition is_disabled :: "nat \<Rightarrow> bool" where
  "is_disabled opcode \<longleftrightarrow> opcode = OP_CAT \<or> opcode = OP_SUBSTR \<or> opcode = OP_LEFT \<or> opcode = OP_RIGHT \<or>
     opcode = OP_INVERT \<or> opcode = OP_AND \<or> opcode = OP_OR \<or> opcode = OP_XOR \<or> opcode = OP_2MUL \<or>
     opcode = OP_2DIV \<or> opcode = OP_MUL \<or> opcode = OP_DIV \<or> opcode = OP_MOD \<or> opcode = OP_LSHIFT \<or>
     opcode = OP_RSHIFT"

text \<open>The opcodes whose handler touches the main stack only.\<close>

definition exec_stack_op :: "script_env \<Rightarrow> nat \<Rightarrow> bytes \<Rightarrow> stack_op" where
  "exec_stack_op env opcode codehash st =
     (if opcode = OP_1NEGATE \<or> (OP_1 \<le> opcode \<and> opcode \<le> OP_16) then op_push_small opcode st
      else if opcode = OP_NOP then Inr st
      else if opcode = OP_CHECKLOCKTIMEVERIFY then op_checklocktimeverify env st
      else if opcode = OP_CHECKSEQUENCEVERIFY then op_checksequenceverify env st
      else if opcode = OP_NOP1 \<or> (OP_NOP4 \<le> opcode \<and> opcode \<le> OP_NOP10) then op_nop_upgradable env st
      else if opcode = OP_VERIFY then op_verify st
      else if opcode = OP_RETURN then Inl SCRIPT_ERR_OP_RETURN
      else if opcode = OP_2DROP then op_2drop st
      else if opcode = OP_2DUP then op_2dup st
      else if opcode = OP_3DUP then op_3dup st
      else if opcode = OP_2OVER then op_2over st
      else if opcode = OP_2ROT then op_2rot st
      else if opcode = OP_2SWAP then op_2swap st
      else if opcode = OP_IFDUP then op_ifdup st
      else if opcode = OP_DEPTH then op_depth st
      else if opcode = OP_DROP then op_drop st
      else if opcode = OP_DUP then op_dup st
      else if opcode = OP_NIP then op_nip st
      else if opcode = OP_OVER then op_over st
      else if opcode = OP_PICK \<or> opcode = OP_ROLL then op_pick_roll env opcode st
      else if opcode = OP_ROT then op_rot st
      else if opcode = OP_SWAP then op_swap st
      else if opcode = OP_TUCK then op_tuck st
      else if opcode = OP_SIZE then op_size st
      else if opcode = OP_EQUAL \<or> opcode = OP_EQUALVERIFY then op_equal opcode st
      else if opcode = OP_1ADD \<or> opcode = OP_1SUB \<or> opcode = OP_NEGATE \<or> opcode = OP_ABS \<or> opcode = OP_NOT \<or>
              opcode = OP_0NOTEQUAL then op_unary env opcode st
      else if opcode = OP_ADD \<or> opcode = OP_SUB \<or> (OP_BOOLAND \<le> opcode \<and> opcode \<le> OP_MAX) then op_binary env opcode st
      else if opcode = OP_WITHIN then op_within env st
      else if OP_RIPEMD160 \<le> opcode \<and> opcode \<le> OP_HASH256 then op_hash env opcode st
      else if opcode = OP_CHECKSIG \<or> opcode = OP_CHECKSIGVERIFY then op_checksig env opcode codehash st
      else Inl SCRIPT_ERR_BAD_OPCODE)"

definition exec_op :: "script_env \<Rightarrow> bool \<Rightarrow> nat \<Rightarrow> eval_state \<Rightarrow> ScriptError + eval_state" where
  "exec_op env fExec opcode s =
     (if opcode = OP_IF \<or> opcode = OP_NOTIF then op_if fExec opcode s
      else if opcode = OP_ELSE then op_else s
      else if opcode = OP_ENDIF then op_endif s
      else if opcode = OP_TOALTSTACK then op_toaltstack s
      else if opcode = OP_FROMALTSTACK then op_fromaltstack s
      else if opcode = OP_CODESEPARATOR then Inr (s\<lparr>pbegincodehash := pcur s\<rparr>)
      else if opcode = OP_CHECKMULTISIG \<or> opcode = OP_CHECKMULTISIGVERIFY then op_checkmultisig env opcode s
      else on_stack (exec_stack_op env opcode (pbegincodehash s)) s)"

definition eval_instr :: "script_env \<Rightarrow> bool \<Rightarrow> nat \<Rightarrow> bytes \<Rightarrow> eval_state \<Rightarrow> ScriptError + eval_state" where
  "eval_instr env fExec opcode vchPushValue s =
     (if fExec \<and> opcode \<le> OP_PUSHDATA4 then
        (if fRequireMinimal env \<and> \<not> CheckMinimalPush vchPushValue opcode then Inl SCRIPT_ERR_MINIMALDATA
         else Inr (s\<lparr>stack := vchPushValue # stack s\<rparr>))
      else if fExec \<or> (OP_IF \<le> opcode \<and> opcode \<le> OP_ENDIF) then exec_op env fExec opcode s
      else Inr s)"

definition eval_step :: "script_env \<Rightarrow> eval_state \<Rightarrow> ScriptError + eval_state" where
  "eval_step env s =
     (let fExec = (False \<notin> set (vfExec s)) in
      case GetOp (pcur s) of
        None \<Rightarrow> Inl SCRIPT_ERR_BAD_OPCODE
      | Some (opcode, vchPushValue, pc') \<Rightarrow>
         if length vchPushValue > MAX_SCRIPT_ELEMENT_SIZE then Inl SCRIPT_ERR_PUSH_SIZE
         else let ops = (if opcode > OP_16 then nOpCount s + 1 else nOpCount s) in
         if opcode > OP_16 \<and> ops > MAX_OPS_PER_SCRIPT then Inl SCRIPT_ERR_OP_COUNT
         else if is_disabled opcode then Inl SCRIPT_ERR_DISABLED_OPCODE
         else ebind (eval_instr env fExec opcode vchPushValue (s\<lparr>pcur := pc', nOpCount := ops\<rparr>)) (\<lambda>s.
           if length (stack s) + length (altstack s) > 1000 then Inl SCRIPT_ERR_STACK_SIZE else Inr s))"

text \<open>Every handler leaves the program counter alone, so a step consumes input.\<close>

lemma op_if_pcur: "op_if fExec opcode s = Inr s' \<Longrightarrow> pcur s' = pcur s"
  by (auto simp: op_if_def Let_def split: if_splits list.splits)

lemma op_else_pcur: "op_else s = Inr s' \<Longrightarrow> pcur s' = pcur s"
  by (auto simp: op_else_def split: list.splits)

lemma op_endif_pcur: "op_endif s = Inr s' \<Longrightarrow> pcur s' = pcur s"
  by (auto simp: op_endif_def split: list.splits)

lemma op_toaltstack_pcur: "op_toaltstack s = Inr s' \<Longrightarrow> pcur s' = pcur s"
  by (auto simp: op_toaltstack_def split: list.splits)

lemma op_fromaltstack_pcur: "op_fromaltstack s = Inr s' \<Longrightarrow> pcur s' = pcur s"
  by (auto simp: op_fromaltstack_def split: list.splits)

lemma multisig_args_Inr:
  assumes "multisig_args env s = Inr (nKeys, nSigs)"
  shows "nKeys \<le> MAX_PUBKEYS_PER_MULTISIG" "nOpCount s + nKeys \<le> MAX_OPS_PER_SCRIPT"
    "nSigs \<le> nKeys" "3 + nKeys + nSigs \<le> length (stack s)"
  using assms by (auto simp: multisig_args_def Let_def ebind_eq_Inr split: if_splits)

text \<open>What a successful multisig handler did: it replaced its arguments by the result.\<close>

lemma op_checkmultisig_Inr:
  assumes "op_checkmultisig env opcode s = Inr s'"
  obtains nKeys nSigs ok r where "multisig_args env s = Inr (nKeys, nSigs)" "multisig_check env s nKeys nSigs = Inr ok"
    "r = drop (3 + nKeys + nSigs) (stack s)" "opcode = OP_CHECKMULTISIGVERIFY \<longrightarrow> ok"
    "s' = s\<lparr>stack := (if opcode = OP_CHECKMULTISIGVERIFY then r else bool_vch ok # r), nOpCount := nOpCount s + nKeys\<rparr>"
proof -
  obtain nKeys nSigs ok where a: "multisig_args env s = Inr (nKeys, nSigs)" "multisig_check env s nKeys nSigs = Inr ok"
    using assms by (auto simp: op_checkmultisig_def ebind_eq_Inr)
  obtain d r where d: "drop (2 + nKeys + nSigs) (stack s) = d # r"
    using multisig_args_Inr(4) [OF a(1)] by (cases "drop (2 + nKeys + nSigs) (stack s)") auto
  then have "r = drop (3 + nKeys + nSigs) (stack s)" by (metis add_Suc drop_Suc eval_nat_numeral(3) list.sel(3) tl_drop)
  moreover have "opcode = OP_CHECKMULTISIGVERIFY \<longrightarrow> ok"
    "s' = s\<lparr>stack := (if opcode = OP_CHECKMULTISIGVERIFY then r else bool_vch ok # r), nOpCount := nOpCount s + nKeys\<rparr>"
    using assms a d by (auto simp: op_checkmultisig_def Let_def split: if_splits)
  ultimately show thesis using that a by blast
qed

lemma op_checkmultisig_pcur: "op_checkmultisig env opcode s = Inr s' \<Longrightarrow> pcur s' = pcur s"
  by (elim op_checkmultisig_Inr) simp

lemma on_stack_pcur: "on_stack f s = Inr s' \<Longrightarrow> pcur s' = pcur s"
  by (auto simp: on_stack_def ebind_eq_Inr)

lemmas handler_pcur = op_if_pcur op_else_pcur op_endif_pcur op_toaltstack_pcur op_fromaltstack_pcur
  op_checkmultisig_pcur on_stack_pcur

lemma exec_op_pcur: "exec_op env fExec opcode s = Inr s' \<Longrightarrow> pcur s' = pcur s"
  unfolding exec_op_def by (auto split: if_splits dest: handler_pcur)

lemma eval_instr_pcur: "eval_instr env fExec opcode v s = Inr s' \<Longrightarrow> pcur s' = pcur s"
  by (auto simp: eval_instr_def split: if_splits dest: exec_op_pcur)

lemma eval_step_pcur:
  assumes "eval_step env s = Inr s'"
  shows "\<exists>opcode v. GetOp (pcur s) = Some (opcode, v, pcur s')"
  using assms by (auto simp: eval_step_def Let_def ebind_eq_Inr split: option.splits if_splits dest!: eval_instr_pcur)

lemma eval_step_shorter: "eval_step env s = Inr s' \<Longrightarrow> length (pcur s') < length (pcur s)"
  using eval_step_pcur GetOp_shorter by blast

function eval_loop :: "script_env \<Rightarrow> eval_state \<Rightarrow> ScriptError + eval_state" where
  "eval_loop env s = (if pcur s = [] then Inr s else ebind (eval_step env s) (eval_loop env))"
  by pat_completeness auto
termination
  by (relation "measure (\<lambda>(env, s). length (pcur s))") (auto dest: eval_step_shorter)

declare eval_loop.simps [simp del]

definition eval_init :: "bytes list \<Rightarrow> bytes \<Rightarrow> eval_state" where
  "eval_init st script = \<lparr>stack = st, altstack = [], vfExec = [], nOpCount = 0, pcur = script, pbegincodehash = script\<rparr>"

definition EvalScript :: "script_env \<Rightarrow> bytes list \<Rightarrow> bytes \<Rightarrow> ScriptError + bytes list" where
  "EvalScript env st script =
     (if length script > MAX_SCRIPT_SIZE then Inl SCRIPT_ERR_SCRIPT_SIZE
      else ebind (eval_loop env (eval_init st script)) (\<lambda>s.
        if vfExec s \<noteq> [] then Inl SCRIPT_ERR_UNBALANCED_CONDITIONAL else Inr (stack s)))"

section \<open>Verification of an input\<close>

text \<open>
  The two assertions of the source are a result of their own.  The first, that the stack is
  not empty before the redeem script is taken from it, never fails; the second is a contract
  on the flags.
\<close>

datatype verify_result = Verify_OK | Verify_error ScriptError | Verify_assert

definition eval_true :: "ScriptError + bytes list \<Rightarrow> ScriptError + bytes list" where
  "eval_true r = ebind r (\<lambda>st. case st of
      [] \<Rightarrow> Inl SCRIPT_ERR_EVAL_FALSE
    | x # _ \<Rightarrow> if CastToBool x then Inr st else Inl SCRIPT_ERR_EVAL_FALSE)"

definition verify_cleanstack :: "script_env \<Rightarrow> bytes list \<Rightarrow> verify_result" where
  "verify_cleanstack env st =
     (if has_flag env SCRIPT_VERIFY_CLEANSTACK then
        (if \<not> has_flag env SCRIPT_VERIFY_P2SH then Verify_assert
         else if length st \<noteq> 1 then Verify_error SCRIPT_ERR_CLEANSTACK
         else Verify_OK)
      else Verify_OK)"

definition VerifyScript :: "script_env \<Rightarrow> bytes \<Rightarrow> bytes \<Rightarrow> verify_result" where
  "VerifyScript env sigScript spkIn =
     (let spk = (case RemoveBDAPScript spkIn of Some out \<Rightarrow> out | None \<Rightarrow> spkIn) in
      if has_flag env SCRIPT_VERIFY_SIGPUSHONLY \<and> \<not> IsPushOnly sigScript then Verify_error SCRIPT_ERR_SIG_PUSHONLY
      else case EvalScript env [] sigScript of
        Inl e \<Rightarrow> Verify_error e
      | Inr stackCopy \<Rightarrow>
       (case eval_true (EvalScript env stackCopy spk) of
          Inl e \<Rightarrow> Verify_error e
        | Inr st \<Rightarrow>
           if has_flag env SCRIPT_VERIFY_P2SH \<and> IsPayToScriptHash spk then
             (if \<not> IsPushOnly sigScript then Verify_error SCRIPT_ERR_SIG_PUSHONLY
              else case stackCopy of
                [] \<Rightarrow> Verify_assert
              | pubKey2 # st \<Rightarrow>
                 (case eval_true (EvalScript env st pubKey2) of
                    Inl e \<Rightarrow> Verify_error e
                  | Inr st \<Rightarrow> verify_cleanstack env st))
           else verify_cleanstack env st))"

end
