(* ===== verification/Interpreter_Limits.thy ===== *)
theory Interpreter_Limits
  imports Interpreter
begin

unbundle bit_operations_syntax

text \<open>
  Resource limits and whole-script guarantees of the interpreter: the invariant of the
  evaluation loop (stack sizes, element sizes, operation count), what a successful evaluation
  says about every instruction of the script, and scripts that can never succeed.
\<close>

section \<open>Element sizes\<close>

definition elems_ok :: "bytes list \<Rightarrow> bool" where
  "elems_ok st \<longleftrightarrow> list_all (\<lambda>v. length v \<le> MAX_SCRIPT_ELEMENT_SIZE) st"

lemma elems_ok_simps [simp]:
  "elems_ok []"
  "elems_ok (x # st) \<longleftrightarrow> length x \<le> MAX_SCRIPT_ELEMENT_SIZE \<and> elems_ok st"
  "elems_ok (xs @ ys) \<longleftrightarrow> elems_ok xs \<and> elems_ok ys"
  by (simp_all add: elems_ok_def)

lemma elems_ok_take [intro]: "elems_ok st \<Longrightarrow> elems_ok (take k st)"
  by (auto simp: elems_ok_def list_all_iff dest: in_set_takeD)

lemma elems_ok_drop [intro]: "elems_ok st \<Longrightarrow> elems_ok (drop k st)"
  by (auto simp: elems_ok_def list_all_iff dest: in_set_dropD)

lemma elems_ok_nth: "elems_ok st \<Longrightarrow> k < length st \<Longrightarrow> length (st ! k) \<le> MAX_SCRIPT_ELEMENT_SIZE"
  by (simp add: elems_ok_def list_all_length)

text \<open>The documented digest lengths of the hash functions.\<close>

definition hash_lengths :: "script_env \<Rightarrow> bool" where
  "hash_lengths env \<longleftrightarrow> (\<forall>v. length (RIPEMD160 env v) = 20 \<and> length (SHA1 env v) = 20 \<and>
     length (SHA256 env v) = 32 \<and> length (HASH160 env v) = 20 \<and> length (HASH256 env v) = 32)"

lemma set_vch_bound: "nat \<bar>set_vch v\<bar> < 256 ^ length v"
proof (cases v rule: rev_cases)
  case (snoc xs b)
  then show ?thesis using le_nat_less [of "xs @ [b AND 0x7F]"] by (simp add: set_vch_snoc)
qed (simp add: set_vch_def)

lemma num_arg_bound:
  assumes "num_arg env v k = Inr bn"
  shows "\<bar>bn\<bar> < 256 ^ k"
proof -
  have v: "bn = set_vch v" "length v \<le> k"
    using assms by (auto simp: num_arg_def CScriptNum_def split: sum.splits if_splits)
  then have "nat \<bar>bn\<bar> < 256 ^ k"
    using less_le_trans [OF set_vch_bound [of v] power_increasing [of "length v" k "256::nat"]] by simp
  then show ?thesis by (simp add: nat_less_iff)
qed

lemma small_num_elem:
  assumes "\<bar>v\<bar> < 256 ^ 5"
  shows "length (scriptnum_serialize v) \<le> MAX_SCRIPT_ELEMENT_SIZE"
proof -
  have "nat \<bar>v\<bar> < 256 ^ 5" using assms by (simp add: nat_less_iff)
  from length_scriptnum_serialize [OF this] show ?thesis by (simp add: MAX_SCRIPT_ELEMENT_SIZE_def)
qed

lemma length_bool_vch [simp]: "length (bool_vch b) \<le> MAX_SCRIPT_ELEMENT_SIZE"
  by (simp add: bool_vch_def vchTrue_def vchFalse_def MAX_SCRIPT_ELEMENT_SIZE_def)

section \<open>Handlers keep the element size\<close>

named_theorems elems_intros

lemma op_fun_elems [elems_intros]:
  "op_2drop st = Inr st' \<Longrightarrow> elems_ok st \<Longrightarrow> elems_ok st'"
  "op_2dup st = Inr st' \<Longrightarrow> elems_ok st \<Longrightarrow> elems_ok st'"
  "op_3dup st = Inr st' \<Longrightarrow> elems_ok st \<Longrightarrow> elems_ok st'"
  "op_2over st = Inr st' \<Longrightarrow> elems_ok st \<Longrightarrow> elems_ok st'"
  "op_2rot st = Inr st' \<Longrightarrow> elems_ok st \<Longrightarrow> elems_ok st'"
  "op_2swap st = Inr st' \<Longrightarrow> elems_ok st \<Longrightarrow> elems_ok st'"
  "op_ifdup st = Inr st' \<Longrightarrow> elems_ok st \<Longrightarrow> elems_ok st'"
  "op_drop st = Inr st' \<Longrightarrow> elems_ok st \<Longrightarrow> elems_ok st'"
  "op_dup st = Inr st' \<Longrightarrow> elems_ok st \<Longrightarrow> elems_ok st'"
  "op_nip st = Inr st' \<Longrightarrow> elems_ok st \<Longrightarrow> elems_ok st'"
  "op_over st = Inr st' \<Longrightarrow> elems_ok st \<Longrightarrow> elems_ok st'"
  "op_rot st = Inr st' \<Longrightarrow> elems_ok st \<Longrightarrow> elems_ok st'"
  "op_swap st = Inr st' \<Longrightarrow> elems_ok st \<Longrightarrow> elems_ok st'"
  "op_tuck st = Inr st' \<Longrightarrow> elems_ok st \<Longrightarrow> elems_ok st'"
  subgoal by (cases st rule: op_2drop.cases) auto
  subgoal by (cases st rule: op_2dup.cases) auto
  subgoal by (cases st rule: op_3dup.cases) auto
  subgoal by (cases st rule: op_2over.cases) auto
  subgoal by (cases st rule: op_2rot.cases) auto
  subgoal by (cases st rule: op_2swap.cases) auto
  subgoal by (cases st rule: op_ifdup.cases) (auto split: if_splits)
  subgoal by (cases st rule: op_drop.cases) auto
  subgoal by (cases st rule: op_dup.cases) auto
  subgoal by (cases st rule: op_nip.cases) auto
  subgoal by (cases st rule: op_over.cases) auto
  subgoal by (cases st rule: op_rot.cases) auto
  subgoal by (cases st rule: op_swap.cases) auto
  subgoal by (cases st rule: op_tuck.cases) auto
  done

lemma op_push_small_elems [elems_intros]:
  "op_push_small opcode st = Inr st' \<Longrightarrow> opcode \<le> OP_16 \<Longrightarrow> elems_ok st \<Longrightarrow> elems_ok st'"
  by (auto simp: op_push_small_def intro!: small_num_elem)

lemma op_lock_elems [elems_intros]:
  "op_checklocktimeverify env st = Inr st' \<Longrightarrow> elems_ok st \<Longrightarrow> elems_ok st'"
  "op_checksequenceverify env st = Inr st' \<Longrightarrow> elems_ok st \<Longrightarrow> elems_ok st'"
  "op_nop_upgradable env st = Inr st' \<Longrightarrow> elems_ok st \<Longrightarrow> elems_ok st'"
  "op_verify st = Inr st' \<Longrightarrow> elems_ok st \<Longrightarrow> elems_ok st'"
  by (auto simp: op_checklocktimeverify_def op_checksequenceverify_def op_nop_upgradable_def op_verify_def
      ebind_eq_Inr split: if_splits list.splits)

lemma op_depth_elems [elems_intros]:
  "op_depth st = Inr st' \<Longrightarrow> length st \<le> 1000 \<Longrightarrow> elems_ok st \<Longrightarrow> elems_ok st'"
  by (auto simp: op_depth_def intro!: small_num_elem)

lemma op_size_elems [elems_intros]: "op_size st = Inr st' \<Longrightarrow> elems_ok st \<Longrightarrow> elems_ok st'"
  by (cases st rule: op_size.cases) (auto simp: MAX_SCRIPT_ELEMENT_SIZE_def intro!: small_num_elem [unfolded MAX_SCRIPT_ELEMENT_SIZE_def])

lemma op_pick_roll_elems [elems_intros]:
  "op_pick_roll env opcode st = Inr st' \<Longrightarrow> elems_ok st \<Longrightarrow> elems_ok st'"
  by (cases st) (auto simp: op_pick_roll_def ebind_eq_Inr Let_def split: if_splits intro!: elems_ok_nth)

lemma op_equal_elems [elems_intros]: "op_equal opcode st = Inr st' \<Longrightarrow> elems_ok st \<Longrightarrow> elems_ok st'"
  by (cases "(opcode, st)" rule: op_equal.cases) (auto simp: Let_def split: if_splits)

lemma abs_if_le: "\<bar>x\<bar> \<le> k \<Longrightarrow> \<bar>y\<bar> \<le> k \<Longrightarrow> \<bar>if c then x else y\<bar> \<le> (k::int)"
  by simp

lemma abs_bool_le: "0 \<le> k \<Longrightarrow> \<bar>num_of_bool c\<bar> \<le> k + 1"
  by (simp add: num_of_bool_def)

lemma unary_num_bound:
  assumes "\<bar>bn\<bar> < 256 ^ 4"
  shows "\<bar>unary_num opcode bn\<bar> < 256 ^ 5"
proof -
  have "\<bar>unary_num opcode bn\<bar> \<le> \<bar>bn\<bar> + 1"
    unfolding unary_num_def by (intro abs_if_le abs_bool_le) linarith+
  with assms show ?thesis by simp
qed

lemma binary_num_bound:
  assumes "\<bar>a\<bar> < 256 ^ 4" "\<bar>b\<bar> < 256 ^ 4"
  shows "\<bar>binary_num opcode a b\<bar> < 256 ^ 5"
proof -
  have "\<bar>binary_num opcode a b\<bar> \<le> \<bar>a\<bar> + \<bar>b\<bar> + 1"
    unfolding binary_num_def by (intro abs_if_le abs_bool_le) linarith+
  with assms show ?thesis by simp
qed

lemma op_unary_elems [elems_intros]: "op_unary env opcode st = Inr st' \<Longrightarrow> elems_ok st \<Longrightarrow> elems_ok st'"
  by (auto simp: op_unary_def ebind_eq_Inr nDefaultMaxNumSize_def split: list.splits
      intro!: small_num_elem unary_num_bound dest!: num_arg_bound)

lemma op_binary_elems [elems_intros]: "op_binary env opcode st = Inr st' \<Longrightarrow> elems_ok st \<Longrightarrow> elems_ok st'"
  by (auto simp: op_binary_def ebind_eq_Inr nDefaultMaxNumSize_def Let_def split: list.splits if_splits
      intro!: small_num_elem binary_num_bound dest!: num_arg_bound)

lemma op_within_elems [elems_intros]: "op_within env st = Inr st' \<Longrightarrow> elems_ok st \<Longrightarrow> elems_ok st'"
  by (auto simp: op_within_def ebind_eq_Inr split: list.splits)

lemma op_hash_elems [elems_intros]:
  "op_hash env opcode st = Inr st' \<Longrightarrow> hash_lengths env \<Longrightarrow> elems_ok st \<Longrightarrow> elems_ok st'"
  by (auto simp: op_hash_def hash_op_def hash_lengths_def MAX_SCRIPT_ELEMENT_SIZE_def split: list.splits if_splits)

lemma op_checksig_elems [elems_intros]: "op_checksig env opcode code st = Inr st' \<Longrightarrow> elems_ok st \<Longrightarrow> elems_ok st'"
  by (auto simp: op_checksig_def ebind_eq_Inr Let_def split: list.splits if_splits)

lemma if_InrE:
  "(if c then a else b) = Inr x \<Longrightarrow> (c \<Longrightarrow> a = Inr x \<Longrightarrow> P) \<Longrightarrow> (\<not> c \<Longrightarrow> b = Inr x \<Longrightarrow> P) \<Longrightarrow> P"
  by (cases c) auto

lemma exec_stack_op_elems:
  assumes "exec_stack_op env opcode code st = Inr st'" "elems_ok st" "length st \<le> 1000" "hash_lengths env"
  shows "elems_ok st'"
  using assms(1) unfolding exec_stack_op_def
  by (elim if_InrE) (use assms(2-4) in \<open>auto elim: elems_intros\<close>)

section \<open>The loop invariant\<close>

definition limits :: "eval_state \<Rightarrow> bool" where
  "limits s \<longleftrightarrow> length (stack s) + length (altstack s) \<le> 1000 \<and> elems_ok (stack s) \<and> elems_ok (altstack s) \<and>
     nOpCount s \<le> MAX_OPS_PER_SCRIPT"

definition elems_inv :: "eval_state \<Rightarrow> bool" where
  "elems_inv s \<longleftrightarrow> elems_ok (stack s) \<and> elems_ok (altstack s) \<and> nOpCount s \<le> MAX_OPS_PER_SCRIPT"

lemma state_op_elems:
  "op_if fExec opcode s = Inr s' \<Longrightarrow> elems_inv s \<Longrightarrow> elems_inv s'"
  "op_else s = Inr s' \<Longrightarrow> elems_inv s \<Longrightarrow> elems_inv s'"
  "op_endif s = Inr s' \<Longrightarrow> elems_inv s \<Longrightarrow> elems_inv s'"
  "op_toaltstack s = Inr s' \<Longrightarrow> elems_inv s \<Longrightarrow> elems_inv s'"
  "op_fromaltstack s = Inr s' \<Longrightarrow> elems_inv s \<Longrightarrow> elems_inv s'"
  by (auto simp: elems_inv_def op_if_def op_else_def op_endif_def op_toaltstack_def op_fromaltstack_def Let_def
      split: if_splits list.splits)

lemma op_checkmultisig_elems:
  assumes "op_checkmultisig env opcode s = Inr s'" "elems_inv s"
  shows "elems_inv s'"
  using assms(1)
proof (rule op_checkmultisig_Inr)
  fix nKeys nSigs ok r
  assume a: "multisig_args env s = Inr (nKeys, nSigs)" and r: "r = drop (3 + nKeys + nSigs) (stack s)"
    and s': "s' = s\<lparr>stack := (if opcode = OP_CHECKMULTISIGVERIFY then r else bool_vch ok # r), nOpCount := nOpCount s + nKeys\<rparr>"
  have "elems_ok r" using assms(2) r by (auto simp: elems_inv_def)
  then show ?thesis using assms(2) s' multisig_args_Inr(2) [OF a] by (auto simp: elems_inv_def)
qed

lemma exec_op_elems:
  assumes "exec_op env fExec opcode s = Inr s'" "elems_inv s" "length (stack s) \<le> 1000" "hash_lengths env"
  shows "elems_inv s'"
proof -
  have stack_case: "elems_inv s'" if "on_stack (exec_stack_op env opcode (pbegincodehash s)) s = Inr s'"
    using that assms(2-4) exec_stack_op_elems [of env opcode "pbegincodehash s" "stack s"]
    by (auto simp: on_stack_def ebind_eq_Inr elems_inv_def)
  show ?thesis using assms(1) unfolding exec_op_def
    by (elim if_InrE)
       (use assms(2) state_op_elems op_checkmultisig_elems stack_case in \<open>auto simp: elems_inv_def\<close>)
qed

lemma eval_instr_elems:
  assumes "eval_instr env fExec opcode v s = Inr s'" "elems_inv s" "length (stack s) \<le> 1000" "hash_lengths env"
    "length v \<le> MAX_SCRIPT_ELEMENT_SIZE"
  shows "elems_inv s'"
  using assms(1) unfolding eval_instr_def
  by (elim if_InrE) (use assms(2-5) exec_op_elems in \<open>auto simp: elems_inv_def\<close>)

text \<open>The anatomy of a successful step.\<close>

lemma eval_step_Inr:
  assumes "eval_step env s = Inr s'"
  obtains opcode v pc' ops where "GetOp (pcur s) = Some (opcode, v, pc')"
    "length v \<le> MAX_SCRIPT_ELEMENT_SIZE" "\<not> is_disabled opcode"
    "ops = (if opcode > OP_16 then nOpCount s + 1 else nOpCount s)" "opcode > OP_16 \<longrightarrow> ops \<le> MAX_OPS_PER_SCRIPT"
    "eval_instr env (False \<notin> set (vfExec s)) opcode v (s\<lparr>pcur := pc', nOpCount := ops\<rparr>) = Inr s'"
    "length (stack s') + length (altstack s') \<le> 1000"
proof -
  obtain opcode v pc' where g: "GetOp (pcur s) = Some (opcode, v, pc')"
    using assms by (auto simp: eval_step_def Let_def split: option.splits)
  show thesis
    by (rule that [OF g _ _ refl])
       (use assms g in \<open>auto simp: eval_step_def Let_def ebind_eq_Inr split: if_splits\<close>)
qed

lemma eval_step_limits:
  assumes "eval_step env s = Inr s'" "limits s" "hash_lengths env"
  shows "limits s'"
  using assms(1)
proof (rule eval_step_Inr)
  fix opcode v pc' ops
  assume v: "length v \<le> MAX_SCRIPT_ELEMENT_SIZE"
    and ops: "ops = (if opcode > OP_16 then nOpCount s + 1 else nOpCount s)" "opcode > OP_16 \<longrightarrow> ops \<le> MAX_OPS_PER_SCRIPT"
    and i: "eval_instr env (False \<notin> set (vfExec s)) opcode v (s\<lparr>pcur := pc', nOpCount := ops\<rparr>) = Inr s'"
    and len: "length (stack s') + length (altstack s') \<le> 1000"
  have "elems_inv (s\<lparr>pcur := pc', nOpCount := ops\<rparr>)" using assms(2) ops by (auto simp: limits_def elems_inv_def)
  from eval_instr_elems [OF i this _ assms(3) v] have "elems_inv s'" using assms(2) by (simp add: limits_def)
  then show ?thesis using len by (simp add: limits_def elems_inv_def)
qed

lemma eval_loop_limits:
  "eval_loop env s = Inr s' \<Longrightarrow> limits s \<Longrightarrow> hash_lengths env \<Longrightarrow> limits s'"
proof (induction env s rule: eval_loop.induct)
  case (1 env s)
  then show ?case
    by (cases "pcur s = []") (auto simp: eval_loop.simps [of env s] ebind_eq_Inr intro: eval_step_limits)
qed

text \<open>
  C11. Resource limits: from a stack of at most 1000 elements of at most 520 bytes each,
  a successful evaluation of any script ends with such a stack, whatever the flags, the
  checker and the script are.
\<close>

theorem EvalScript_keeps_limits:
  assumes "EvalScript env st script = Inr st'" "length st \<le> 1000" "elems_ok st" "hash_lengths env"
  shows "length st' \<le> 1000 \<and> elems_ok st'"
proof -
  obtain s' where "eval_loop env (eval_init st script) = Inr s'" "st' = stack s'"
    using assms(1) by (auto simp: EvalScript_def ebind_eq_Inr split: if_splits)
  moreover have "limits (eval_init st script)" using assms(2,3) by (simp add: limits_def eval_init_def)
  ultimately have "limits s'" using eval_loop_limits assms(4) by blast
  then show ?thesis using \<open>st' = stack s'\<close> by (simp add: limits_def)
qed

definition plain_env :: script_env where
  "plain_env = \<lparr>flags = 0, CheckSig = (\<lambda>sig key code. sig = key), CheckLockTime = (\<lambda>n. False), CheckSequence = (\<lambda>n. False),
     CheckLowS = (\<lambda>_. True), RIPEMD160 = (\<lambda>v. replicate 20 0), SHA1 = (\<lambda>v. replicate 20 0), SHA256 = (\<lambda>v. replicate 32 0),
     HASH160 = (\<lambda>v. replicate 20 0), HASH256 = (\<lambda>v. replicate 32 0)\<rparr>"

theorem EvalScript_keeps_limits_witness:
  "EvalScript plain_env [[7]] [0x76, 0xa9, 0x51, 0x63, 0x02, 5, 6, 0x68] = Inr [[5, 6], replicate 20 0, [7]] \<and>
   length [[5, 6], replicate 20 0, [7 :: byte]] \<le> 1000 \<and> elems_ok [[5, 6], replicate 20 0, [7]]"
proof -
  have e: "EvalScript plain_env [[7]] [0x76, 0xa9, 0x51, 0x63, 0x02, 5, 6, 0x68] = Inr [[5, 6], replicate 20 0, [7]]"
    by code_simp
  with EvalScript_keeps_limits [OF e] show ?thesis
    by (simp add: MAX_SCRIPT_ELEMENT_SIZE_def hash_lengths_def plain_env_def)
qed

section \<open>What success says about every instruction\<close>

text \<open>The instructions of a script, executed or not, and the bytes the reader could not parse.\<close>

function script_instrs :: "bytes \<Rightarrow> (nat \<times> bytes) list" where
  "script_instrs p = (case GetOp p of None \<Rightarrow> [] | Some (opcode, v, p') \<Rightarrow> (opcode, v) # script_instrs p')"
  by pat_completeness auto
termination by (relation "measure length") (auto dest: GetOp_shorter)

function script_rest :: "bytes \<Rightarrow> bytes" where
  "script_rest p = (case GetOp p of None \<Rightarrow> p | Some (opcode, v, p') \<Rightarrow> script_rest p')"
  by pat_completeness auto
termination by (relation "measure length") (auto dest: GetOp_shorter)

declare script_instrs.simps [simp del] script_rest.simps [simp del]

definition counted :: "nat \<times> bytes \<Rightarrow> bool" where
  "counted i \<longleftrightarrow> fst i > OP_16"

definition opens :: "nat \<times> bytes \<Rightarrow> bool" where
  "opens i \<longleftrightarrow> fst i = OP_IF \<or> fst i = OP_NOTIF"

definition closes :: "nat \<times> bytes \<Rightarrow> bool" where
  "closes i \<longleftrightarrow> fst i = OP_ENDIF"

definition instr_ok :: "nat \<times> bytes \<Rightarrow> bool" where
  "instr_ok i \<longleftrightarrow> length (snd i) \<le> MAX_SCRIPT_ELEMENT_SIZE \<and> \<not> is_disabled (fst i) \<and>
     fst i \<noteq> OP_VERIF \<and> fst i \<noteq> OP_VERNOTIF"

lemma op_checkmultisig_frame:
  assumes "op_checkmultisig env opcode s = Inr s'"
  shows "vfExec s' = vfExec s" "nOpCount s \<le> nOpCount s'"
  using assms by (auto elim!: op_checkmultisig_Inr)

lemma on_stack_frame:
  assumes "on_stack f s = Inr s'"
  shows "vfExec s' = vfExec s" "nOpCount s' = nOpCount s"
  using assms by (auto simp: on_stack_def ebind_eq_Inr)

lemma exec_op_frame:
  assumes "exec_op env fExec opcode s = Inr s'"
  shows "length (vfExec s') + (if opcode = OP_ENDIF then 1 else 0) =
      length (vfExec s) + (if opcode = OP_IF \<or> opcode = OP_NOTIF then 1 else 0)"
    and "nOpCount s \<le> nOpCount s'" and "opcode \<noteq> OP_VERIF" and "opcode \<noteq> OP_VERNOTIF"
proof -
  note s = assms [unfolded exec_op_def]
  from s show "length (vfExec s') + (if opcode = OP_ENDIF then 1 else 0) =
      length (vfExec s) + (if opcode = OP_IF \<or> opcode = OP_NOTIF then 1 else 0)"
    by (elim if_InrE)
       (auto simp: op_if_def op_else_def op_endif_def op_toaltstack_def op_fromaltstack_def Let_def
          split: if_splits list.splits dest: op_checkmultisig_frame(1) on_stack_frame(1))
  from s show "nOpCount s \<le> nOpCount s'"
    by (elim if_InrE)
       (auto simp: op_if_def op_else_def op_endif_def op_toaltstack_def op_fromaltstack_def Let_def
          split: if_splits list.splits dest: op_checkmultisig_frame(2) on_stack_frame(2))
  show "opcode \<noteq> OP_VERIF" "opcode \<noteq> OP_VERNOTIF"
    using assms by (auto simp: exec_op_def on_stack_def exec_stack_op_def)
qed

lemma eval_instr_frame:
  assumes "eval_instr env fExec opcode v s = Inr s'"
  shows "length (vfExec s') + (if closes (opcode, v) then 1 else 0) = length (vfExec s) + (if opens (opcode, v) then 1 else 0)"
    and "nOpCount s \<le> nOpCount s'" and "opcode \<noteq> OP_VERIF" and "opcode \<noteq> OP_VERNOTIF"
proof -
  have "opcode \<noteq> OP_VERIF \<and> opcode \<noteq> OP_VERNOTIF \<and> nOpCount s \<le> nOpCount s' \<and>
      length (vfExec s') + (if closes (opcode, v) then 1 else 0) = length (vfExec s) + (if opens (opcode, v) then 1 else 0)"
    using assms unfolding eval_instr_def
    by (elim if_InrE) (auto simp: closes_def opens_def dest: exec_op_frame)
  then show "length (vfExec s') + (if closes (opcode, v) then 1 else 0) = length (vfExec s) + (if opens (opcode, v) then 1 else 0)"
    and "nOpCount s \<le> nOpCount s'" and "opcode \<noteq> OP_VERIF" and "opcode \<noteq> OP_VERNOTIF" by auto
qed

lemma eval_loop_instrs:
  "eval_loop env s = Inr s' \<Longrightarrow>
     script_rest (pcur s) = [] \<and> list_all instr_ok (script_instrs (pcur s)) \<and>
     nOpCount s + length (filter counted (script_instrs (pcur s))) \<le> nOpCount s' \<and>
     length (vfExec s') + length (filter closes (script_instrs (pcur s))) =
       length (vfExec s) + length (filter opens (script_instrs (pcur s)))"
proof (induction env s rule: eval_loop.induct)
  case (1 env s)
  show ?case
  proof (cases "pcur s = []")
    case True
    then show ?thesis using 1(2) by (simp add: eval_loop.simps [of env s] script_instrs.simps script_rest.simps)
  next
    case False
    then obtain t where t: "eval_step env s = Inr t" "eval_loop env t = Inr s'"
      using 1(2) by (auto simp: eval_loop.simps [of env s] ebind_eq_Inr)
    from t(1) show ?thesis
    proof (rule eval_step_Inr)
      fix opcode v pc' ops
      assume g: "GetOp (pcur s) = Some (opcode, v, pc')" and v: "length v \<le> MAX_SCRIPT_ELEMENT_SIZE" "\<not> is_disabled opcode"
        and ops: "ops = (if opcode > OP_16 then nOpCount s + 1 else nOpCount s)"
        and i: "eval_instr env (False \<notin> set (vfExec s)) opcode v (s\<lparr>pcur := pc', nOpCount := ops\<rparr>) = Inr t"
      have p: "pcur t = pc'" using eval_instr_pcur [OF i] by simp
      have ins: "script_instrs (pcur s) = (opcode, v) # script_instrs pc'" "script_rest (pcur s) = script_rest pc'"
        using g by (simp_all add: script_instrs.simps [of "pcur s"] script_rest.simps [of "pcur s"])
      have ok: "instr_ok (opcode, v)" using v eval_instr_frame(3,4) [OF i] by (simp add: instr_ok_def)
      have cnt: "nOpCount s + (if counted (opcode, v) then 1 else 0) \<le> nOpCount t"
        using eval_instr_frame(2) [OF i] ops by (simp add: counted_def split: if_splits)
      have cond: "length (vfExec t) + (if closes (opcode, v) then 1 else 0) = length (vfExec s) + (if opens (opcode, v) then 1 else 0)"
        using eval_instr_frame(1) [OF i] by simp
      show ?thesis using 1(1) [OF False t(1) t(2)] cnt cond ok unfolding p ins by (auto split: if_splits)
    qed
  qed
qed

text \<open>
  C30. A script that evaluates successfully parses to its last byte, and every instruction of
  it, in a taken branch or not, is enabled, pushes at most 520 bytes and is not a reserved
  conditional; it has at most 201 counted operations and as many closed as opened
  conditionals.
\<close>

theorem EvalScript_success_whole_script:
  assumes "EvalScript env st script = Inr st'" "length st \<le> 1000" "elems_ok st" "hash_lengths env"
  shows "length script \<le> MAX_SCRIPT_SIZE \<and> script_rest script = [] \<and> list_all instr_ok (script_instrs script) \<and>
    length (filter counted (script_instrs script)) \<le> MAX_OPS_PER_SCRIPT \<and>
    length (filter opens (script_instrs script)) = length (filter closes (script_instrs script))"
proof -
  obtain s' where e: "eval_loop env (eval_init st script) = Inr s'" "vfExec s' = []" "length script \<le> MAX_SCRIPT_SIZE"
    using assms(1) by (auto simp: EvalScript_def ebind_eq_Inr split: if_splits)
  have "limits (eval_init st script)" using assms(2,3) by (simp add: limits_def eval_init_def)
  then have "nOpCount s' \<le> MAX_OPS_PER_SCRIPT" using eval_loop_limits [OF e(1)] assms(4) by (simp add: limits_def)
  then show ?thesis using eval_loop_instrs [OF e(1)] e(2,3) by (simp add: eval_init_def)
qed

theorem EvalScript_success_whole_script_witness:
  "EvalScript plain_env [] [0x00, 0x63, 0x76, 0x68, 0x51] = Inr [[1]] \<and>
   list_all instr_ok (script_instrs [0x00, 0x63, 0x76, 0x68, 0x51])"
proof -
  have e: "EvalScript plain_env [] [0x00, 0x63, 0x76, 0x68, 0x51] = Inr [[1]]" by code_simp
  with EvalScript_success_whole_script [OF e] show ?thesis by (simp add: hash_lengths_def plain_env_def)
qed

section \<open>Unspendable scripts\<close>

lemma eval_step_return: "vfExec s = [] \<Longrightarrow> pcur s = 0x6a # r \<Longrightarrow> \<exists>e. eval_step env s = Inl e"
  by (simp add: eval_step_def GetOp_opcode Let_def is_disabled_def eval_instr_def exec_op_def on_stack_def exec_stack_op_def)

text \<open>
  A script that is reported unspendable, because it starts with the return opcode or is
  longer than the limit, fails on every initial stack, under all flags and checkers.
\<close>

theorem IsUnspendable_never_succeeds:
  assumes "IsUnspendable script"
  shows "\<exists>e. EvalScript env st script = Inl e"
proof (cases "length script > MAX_SCRIPT_SIZE")
  case False
  then obtain r where r: "script = 0x6a # r" using assms by (cases script) (auto simp: IsUnspendable_def)
  then obtain e where "eval_step env (eval_init st script) = Inl e"
    using eval_step_return [of "eval_init st script" r env] by (auto simp: eval_init_def)
  moreover have "pcur (eval_init st script) \<noteq> []" using r by (simp add: eval_init_def)
  ultimately have "eval_loop env (eval_init st script) = Inl e"
    by (simp add: eval_loop.simps [of env "eval_init st script"])
  then show ?thesis using False by (simp add: EvalScript_def)
qed (simp add: EvalScript_def)

theorem IsUnspendable_never_succeeds_witness:
  "IsUnspendable [0x6a, 0x51] \<and> (\<exists>e. EvalScript plain_env [] [0x6a, 0x51] = Inl e)"
  using IsUnspendable_never_succeeds [of "[0x6a, 0x51]" plain_env "[]"] by (simp add: IsUnspendable_def)

end
