(* ===== verification/Interpreter_Verify.thy ===== *)
theory Interpreter_Verify
  imports Interpreter_Limits
begin

unbundle bit_operations_syntax

text \<open>
  What the interpreter decides: evaluation of push-only scripts, the matching computed by the
  multisig loop, and the exact condition under which a pay-to-public-key-hash output and a
  pay-to-script-hash output are spent, in terms of the hash and the signature checker.
\<close>

section \<open>Pushes\<close>

definition push_minimal :: "bytes \<Rightarrow> bool" where
  "push_minimal v \<longleftrightarrow> \<not> (length v = 1 \<and> (1 \<le> unat (v ! 0) \<and> unat (v ! 0) \<le> 16 \<or> v ! 0 = 0x81))"

definition pushable :: "script_env \<Rightarrow> bytes \<Rightarrow> bool" where
  "pushable env v \<longleftrightarrow> length v \<le> MAX_SCRIPT_ELEMENT_SIZE \<and> (fRequireMinimal env \<longrightarrow> push_minimal v)"

lemma length_push_vch: "pushable env v \<Longrightarrow> length (push_vch [] v) \<le> 525"
  by (simp add: push_vch_def pushable_def MAX_SCRIPT_ELEMENT_SIZE_def)

lemma plain_env_simps [simp]:
  "\<not> has_flag plain_env f" "\<not> fRequireMinimal plain_env"
  "CheckSig plain_env sig key code \<longleftrightarrow> sig = key" "HASH160 plain_env v = replicate 20 0"
  by (simp_all add: has_flag_def fRequireMinimal_def plain_env_def)

lemma CheckMinimalPush_push_op:
  "push_minimal v \<Longrightarrow> length v \<le> MAX_SCRIPT_ELEMENT_SIZE \<Longrightarrow> CheckMinimalPush v (push_op v)"
  by (auto simp: CheckMinimalPush_def push_op_def push_minimal_def MAX_SCRIPT_ELEMENT_SIZE_def)

lemma not_disabled_low: "opcode \<le> OP_16 \<Longrightarrow> \<not> is_disabled opcode"
  by (simp add: is_disabled_def)

lemma eval_step_push:
  assumes "pcur s = push_vch [] v @ r" "pushable env v" "False \<notin> set (vfExec s)"
    "length (stack s) + length (altstack s) < 1000"
  shows "eval_step env s = Inr (s\<lparr>pcur := r, stack := v # stack s\<rparr>)"
proof -
  have "length v < 2 ^ 32" using assms(2) by (simp add: pushable_def MAX_SCRIPT_ELEMENT_SIZE_def)
  then have g: "GetOp (pcur s) = Some (push_op v, v, r)" using GetOp_push_op assms(1) by simp
  have "push_op v \<le> OP_16" using push_op_le [of v] by simp
  then have "\<not> is_disabled (push_op v)" by (rule not_disabled_low)
  moreover have "\<not> (fRequireMinimal env \<and> \<not> CheckMinimalPush v (push_op v))"
    using CheckMinimalPush_push_op [of v] assms(2) by (auto simp: pushable_def)
  ultimately show ?thesis using g assms(2-4) push_op_le [of v] \<open>push_op v \<le> OP_16\<close>
    by (simp add: eval_step_def eval_instr_def pushable_def Let_def)
qed

lemma eval_loop_pushes:
  assumes "list_all (pushable env) vs" "False \<notin> set (vfExec s)" "length vs + length (stack s) + length (altstack s) \<le> 1000"
    "pcur s = concat (map (push_vch []) vs) @ r"
  shows "eval_loop env s = eval_loop env (s\<lparr>pcur := r, stack := rev vs @ stack s\<rparr>)"
  using assms
proof (induction vs arbitrary: s)
  case (Cons v vs)
  let ?t = "s\<lparr>pcur := concat (map (push_vch []) vs) @ r, stack := v # stack s\<rparr>"
  have "eval_step env s = Inr ?t"
    by (rule eval_step_push) (use Cons.prems in auto)
  moreover have "pcur s \<noteq> []" using Cons.prems(4) by (simp add: push_vch_def)
  ultimately have "eval_loop env s = eval_loop env ?t" by (simp add: eval_loop.simps [of env s])
  also have "\<dots> = eval_loop env (?t\<lparr>pcur := r, stack := rev vs @ stack ?t\<rparr>)"
    by (rule Cons.IH) (use Cons.prems in auto)
  finally show ?case by simp
next
  case Nil
  then have "s\<lparr>pcur := r\<rparr> = s" by (cases s) simp
  then show ?case by simp
qed

lemma eval_loop_Nil: "pcur s = [] \<Longrightarrow> eval_loop env s = Inr s"
  by (simp add: eval_loop.simps [of env s])

lemma EvalScript_pushes:
  assumes "list_all (pushable env) vs" "length vs + length st \<le> 1000" "length (concat (map (push_vch []) vs)) \<le> MAX_SCRIPT_SIZE"
  shows "EvalScript env st (concat (map (push_vch []) vs)) = Inr (rev vs @ st)"
proof -
  let ?s = "eval_init st (concat (map (push_vch []) vs))"
  have "eval_loop env ?s = eval_loop env (?s\<lparr>pcur := [], stack := rev vs @ stack ?s\<rparr>)"
    by (rule eval_loop_pushes) (use assms in \<open>auto simp: eval_init_def\<close>)
  then show ?thesis using assms(3) by (simp add: EvalScript_def eval_loop_Nil) (simp add: eval_init_def)
qed

lemma IsPushOnly_pushes: "list_all (pushable env) vs \<Longrightarrow> IsPushOnly (concat (map (push_vch []) vs))"
proof (induction vs)
  case (Cons v vs)
  then have "length v < 2 ^ 32" by (simp add: pushable_def MAX_SCRIPT_ELEMENT_SIZE_def)
  then show ?case using Cons by (simp add: IsPushOnly_push_vch)
qed simp

section \<open>Multisig is order-preserving matching\<close>

lemma multisig_match_step:
  "(\<exists>ks. subseq ks (key # keys) \<and> list_all2 P (sig # sigs) ks) \<longleftrightarrow>
     (if P sig key then \<exists>ks. subseq ks keys \<and> list_all2 P sigs ks
      else \<exists>ks. subseq ks keys \<and> list_all2 P (sig # sigs) ks)" (is "?l \<longleftrightarrow> ?r")
proof
  assume ?l
  then obtain k ks where k: "subseq (k # ks) (key # keys)" "P sig k" "list_all2 P sigs ks"
    by (auto simp: list_all2_Cons1)
  show ?r
  proof (cases "k = key")
    case True
    then show ?thesis using k by auto
  next
    case False
    then have s: "subseq (k # ks) keys" using k(1) by simp
    then have "subseq ks keys" by (rule subseq_Cons')
    then show ?thesis using s k by auto
  qed
next
  assume r: ?r
  show ?l
  proof (cases "P sig key")
    case True
    then obtain ks where "subseq ks keys" "list_all2 P sigs ks" using r by auto
    then show ?thesis using True by (intro exI [of _ "key # ks"]) auto
  next
    case False
    then show ?thesis using r by (auto intro: list_emb_Cons)
  qed
qed

lemma matching_length: "subseq ks keys \<Longrightarrow> list_all2 P sigs ks \<Longrightarrow> length sigs \<le> length keys"
  using list_emb_length [of "(=)" ks keys] by (simp add: list_all2_lengthD)

lemma multisig_loop_matching:
  assumes "list_all (\<lambda>sig. CheckSignatureEncoding env sig = Inr ()) sigs"
    "list_all (\<lambda>key. CheckPubKeyEncoding env key = Inr ()) keys"
  shows "multisig_loop env code sigs keys =
    Inr (\<exists>ks. subseq ks keys \<and> list_all2 (\<lambda>sig key. CheckSig env sig key code) sigs ks)"
  using assms
proof (induction env code sigs keys rule: multisig_loop.induct)
  case (3 env code sig sigs key keys)
  define P where "P = (\<lambda>sig key. CheckSig env sig key code)"
  define left where "left = (if P sig key then sigs else sig # sigs)"
  have step: "(\<exists>ks. subseq ks (key # keys) \<and> list_all2 P (sig # sigs) ks) \<longleftrightarrow> (\<exists>ks. subseq ks keys \<and> list_all2 P left ks)"
    using multisig_match_step [of key keys P sig sigs] by (simp add: left_def)
  have run: "multisig_loop env code (sig # sigs) (key # keys) =
      (if length left > length keys then Inr False else multisig_loop env code left keys)"
    using 3(2,3) by (simp add: left_def P_def Let_def)
  show ?case
  proof (cases "length left > length keys")
    case True
    then have "\<not> (\<exists>ks. subseq ks keys \<and> list_all2 P left ks)" using matching_length [of _ keys P left] by fastforce
    then show ?thesis using run step True by (simp add: P_def)
  next
    case False
    have "list_all (\<lambda>sig. CheckSignatureEncoding env sig = Inr ()) left" using 3(2) by (simp add: left_def)
    then have "multisig_loop env code left keys = Inr (\<exists>ks. subseq ks keys \<and> list_all2 P left ks)"
      using 3(1) [of "()" "()" "P sig key" left] False 3(2,3) by (simp add: P_def left_def)
    then show ?thesis using run step False by (simp add: P_def)
  qed
qed (auto simp: list_all2_Cons1 dest: list_emb_length)

text \<open>
  C14. The multisig loop decides order-preserving matching: when all encodings pass, it
  reports success exactly when the signatures match, in order, a subsequence of the keys.
  Its early exit loses no match, and a key is used for one signature only.
\<close>

theorem multisig_loop_is_matching:
  assumes "list_all (\<lambda>sig. CheckSignatureEncoding env sig = Inr ()) sigs"
    and "list_all (\<lambda>key. CheckPubKeyEncoding env key = Inr ()) keys"
  shows "multisig_loop env code sigs keys =
    Inr (\<exists>ks. subseq ks keys \<and> list_all2 (\<lambda>sig key. CheckSig env sig key code) sigs ks)"
  using assms by (rule multisig_loop_matching)

theorem multisig_loop_is_matching_witness:
  "multisig_loop plain_env [] [[1], [3]] [[1], [2], [3]] = Inr True \<and>
   (\<exists>ks. subseq ks [[1], [2], [3 :: byte]] \<and> list_all2 (\<lambda>sig key. CheckSig plain_env sig key []) [[1], [3]] ks)"
proof -
  have "multisig_loop plain_env [] [[1], [3]] [[1], [2], [3]] = Inr True" by code_simp
  with multisig_loop_is_matching [of plain_env "[[1], [3]]" "[[1], [2], [3]]" "[]"] show ?thesis
    by (simp add: CheckSignatureEncoding_def CheckPubKeyEncoding_def)
qed

section \<open>Pay to public key hash\<close>

definition p2pkh :: "bytes \<Rightarrow> bytes" where
  "p2pkh h = [0x76, 0xa9, 0x14] @ h @ [0x88, 0xac]"

lemma push_20: "length h = 20 \<Longrightarrow> 0x14 # h @ r = push_vch [] h @ r"
  by (simp add: push_vch_def)

lemma eval_loop_op:
  assumes "pcur s = c # r" "unat c > OP_PUSHDATA4"
  shows "eval_loop env s = ebind (eval_step env s) (eval_loop env)"
  using assms by (simp add: eval_loop.simps [of env s])

lemmas step_simps = eval_step_def eval_instr_def exec_op_def on_stack_def exec_stack_op_def GetOp_opcode Let_def
  is_disabled_def MAX_SCRIPT_ELEMENT_SIZE_def MAX_OPS_PER_SCRIPT_def

lemma eval_step_dup:
  "pcur s = 0x76 # r \<Longrightarrow> vfExec s = [] \<Longrightarrow> nOpCount s < 201 \<Longrightarrow> stack s = x # st \<Longrightarrow>
     length st + length (altstack s) < 999 \<Longrightarrow>
     eval_step env s = Inr (s\<lparr>pcur := r, nOpCount := nOpCount s + 1, stack := x # x # st\<rparr>)"
  by (simp add: step_simps)

lemma eval_step_hash160:
  "pcur s = 0xa9 # r \<Longrightarrow> vfExec s = [] \<Longrightarrow> nOpCount s < 201 \<Longrightarrow> stack s = x # st \<Longrightarrow>
     length st + length (altstack s) < 1000 \<Longrightarrow>
     eval_step env s = Inr (s\<lparr>pcur := r, nOpCount := nOpCount s + 1, stack := HASH160 env x # st\<rparr>)"
  by (simp add: step_simps op_hash_def hash_op_def)

lemma eval_step_equalverify:
  "pcur s = 0x88 # r \<Longrightarrow> vfExec s = [] \<Longrightarrow> nOpCount s < 201 \<Longrightarrow> stack s = y # x # st \<Longrightarrow>
     length st + length (altstack s) < 1000 \<Longrightarrow>
     eval_step env s = (if x = y then Inr (s\<lparr>pcur := r, nOpCount := nOpCount s + 1, stack := st\<rparr>)
       else Inl SCRIPT_ERR_EQUALVERIFY)"
  by (simp add: step_simps)

lemma eval_step_equal:
  "pcur s = 0x87 # r \<Longrightarrow> vfExec s = [] \<Longrightarrow> nOpCount s < 201 \<Longrightarrow> stack s = y # x # st \<Longrightarrow>
     length st + length (altstack s) < 1000 \<Longrightarrow>
     eval_step env s = Inr (s\<lparr>pcur := r, nOpCount := nOpCount s + 1, stack := bool_vch (x = y) # st\<rparr>)"
  by (simp add: step_simps)

lemma eval_step_checksig:
  "pcur s = 0xac # r \<Longrightarrow> vfExec s = [] \<Longrightarrow> nOpCount s < 201 \<Longrightarrow> stack s = key # sig # st \<Longrightarrow>
     length st + length (altstack s) < 1000 \<Longrightarrow>
     eval_step env s = ebind (CheckSignatureEncoding env sig) (\<lambda>_. ebind (CheckPubKeyEncoding env key) (\<lambda>_.
       Inr (s\<lparr>pcur := r, nOpCount := nOpCount s + 1,
         stack := bool_vch (CheckSig env sig key (snd (FindAndDelete (pbegincodehash s) (push_vch [] sig)))) # st\<rparr>)))"
  by (cases "CheckSignatureEncoding env sig"; cases "CheckPubKeyEncoding env key")
     (simp_all add: step_simps op_checksig_def)

definition p2pkh_code :: "bytes \<Rightarrow> bytes \<Rightarrow> bytes" where
  "p2pkh_code h sig = snd (FindAndDelete (p2pkh h) (push_vch [] sig))"

lemma EvalScript_p2pkh:
  assumes h: "length h = 20" and pu: "pushable env h"
  shows "EvalScript env [key, sig] (p2pkh h) =
    (if HASH160 env key = h then
       ebind (CheckSignatureEncoding env sig) (\<lambda>_. ebind (CheckPubKeyEncoding env key) (\<lambda>_.
         Inr [bool_vch (CheckSig env sig key (p2pkh_code h sig))]))
     else Inl SCRIPT_ERR_EQUALVERIFY)"
proof -
  define st where "st = (\<lambda>k (stk :: bytes list) p. (eval_init [key, sig] (p2pkh h))\<lparr>pcur := p, nOpCount := k, stack := stk\<rparr>)"
  have fields [simp]: "pcur (st k stk p) = p" "vfExec (st k stk p) = []" "nOpCount (st k stk p) = k"
    "stack (st k stk p) = stk" "altstack (st k stk p) = []" "pbegincodehash (st k stk p) = p2pkh h"
    "st k stk p\<lparr>pcur := q, nOpCount := j, stack := x\<rparr> = st j x q"
    "st k stk p\<lparr>pcur := q, stack := x\<rparr> = st k x q" for k stk p q j x
    by (simp_all add: st_def eval_init_def)
  have "eval_loop env (eval_init [key, sig] (p2pkh h)) = eval_loop env (st 0 [key, sig] (p2pkh h))"
    by (simp add: st_def eval_init_def)
  also have "\<dots> = eval_loop env (st 1 [key, key, sig] ([0xa9, 0x14] @ h @ [0x88, 0xac]))"
    by (simp add: eval_loop_op eval_step_dup p2pkh_def)
  also have "\<dots> = eval_loop env (st 2 [HASH160 env key, key, sig] (0x14 # h @ [0x88, 0xac]))"
    by (simp add: eval_loop_op eval_step_hash160 flip: numeral_2_eq_2)
  also have "\<dots> = eval_loop env (st 2 [HASH160 env key, key, sig] (push_vch [] h @ [0x88, 0xac]))"
    by (simp only: push_20 [OF h])
  also have "\<dots> = eval_loop env (st 2 [h, HASH160 env key, key, sig] [0x88, 0xac])"
    using eval_step_push [of "st 2 [HASH160 env key, key, sig] (push_vch [] h @ [0x88, 0xac])" h "[0x88, 0xac]" env] pu
    by (simp add: eval_loop.simps [of env "st 2 [HASH160 env key, key, sig] _"])
  also have "\<dots> = (if HASH160 env key = h then eval_loop env (st 3 [key, sig] [0xac]) else Inl SCRIPT_ERR_EQUALVERIFY)"
    by (simp add: eval_loop_op eval_step_equalverify)
  also have "eval_loop env (st 3 [key, sig] [0xac]) =
      ebind (CheckSignatureEncoding env sig) (\<lambda>_. ebind (CheckPubKeyEncoding env key) (\<lambda>_.
        Inr (st 4 [bool_vch (CheckSig env sig key (p2pkh_code h sig))] [])))"
    by (simp add: eval_loop_op eval_step_checksig ebind_assoc eval_loop_Nil p2pkh_code_def)
  finally have e: "eval_loop env (eval_init [key, sig] (p2pkh h)) =
      (if HASH160 env key = h then
        ebind (CheckSignatureEncoding env sig) (\<lambda>_. ebind (CheckPubKeyEncoding env key) (\<lambda>_.
          Inr (st 4 [bool_vch (CheckSig env sig key (p2pkh_code h sig))] [])))
       else Inl SCRIPT_ERR_EQUALVERIFY)" .
  have "length (p2pkh h) \<le> MAX_SCRIPT_SIZE" using h by (simp add: p2pkh_def MAX_SCRIPT_SIZE_def)
  then show ?thesis unfolding EvalScript_def e by (simp add: ebind_assoc)
qed

lemma RemoveBDAPScript_None:
  "unat c > OP_16 \<Longrightarrow> RemoveBDAPScript (c # r) = None"
  by (simp add: RemoveBDAPScript_def DecodeBDAPScript_def GetOp_opcode)

lemma CastToBool_bool_vch [simp]: "CastToBool (bool_vch b) = b"
  by (simp add: bool_vch_def vchTrue_def vchFalse_def)

definition flags_ok :: "script_env \<Rightarrow> bool" where
  "flags_ok env \<longleftrightarrow> has_flag env SCRIPT_VERIFY_CLEANSTACK \<longrightarrow> has_flag env SCRIPT_VERIFY_P2SH"

text \<open>
  C17. A pay-to-public-key-hash output is spent by an input that pushes a signature and a key
  exactly when the key hashes to the committed value, both encodings pass under the flags,
  and the signature checks against the key for the output script (without the signature).
  This holds for every set of flags that respects the clean-stack contract.
\<close>

theorem VerifyScript_p2pkh:
  assumes "length h = 20" "pushable env sig" "pushable env key" "flags_ok env"
    and "sigScript = push_vch [] sig @ push_vch [] key"
  shows "VerifyScript env sigScript (p2pkh h) = Verify_OK \<longleftrightarrow>
    HASH160 env key = h \<and> CheckSignatureEncoding env sig = Inr () \<and> CheckPubKeyEncoding env key = Inr () \<and>
    CheckSig env sig key (p2pkh_code h sig)"
proof -
  have sc: "sigScript = concat (map (push_vch []) [sig, key])" using assms(5) by simp
  have vs: "list_all (pushable env) [sig, key]" using assms(2,3) by simp
  have "length sigScript \<le> MAX_SCRIPT_SIZE"
    using length_push_vch [OF assms(2)] length_push_vch [OF assms(3)] assms(5) by (simp add: MAX_SCRIPT_SIZE_def)
  then have 1: "EvalScript env [] sigScript = Inr [key, sig]"
    using EvalScript_pushes [OF vs, of "[]"] by (simp add: assms(5))
  have 2: "IsPushOnly sigScript" unfolding sc by (rule IsPushOnly_pushes [OF vs])
  have 3: "RemoveBDAPScript (p2pkh h) = None" by (simp add: p2pkh_def RemoveBDAPScript_None)
  have 4: "\<not> IsPayToScriptHash (p2pkh h)" using assms(1) by (simp add: IsPayToScriptHash_def p2pkh_def Let_def)
  have "pushable env h" using assms(1) by (simp add: pushable_def push_minimal_def MAX_SCRIPT_ELEMENT_SIZE_def)
  note ev = EvalScript_p2pkh [OF assms(1) this, of key sig]
  show ?thesis
    by (cases "CheckSignatureEncoding env sig"; cases "CheckPubKeyEncoding env key")
       (use assms(4) in \<open>simp_all add: VerifyScript_def 1 2 3 4 ev eval_true_def verify_cleanstack_def flags_ok_def\<close>)
qed

theorem VerifyScript_p2pkh_witness:
  "VerifyScript plain_env (push_vch [] [2, 3] @ push_vch [] [2, 3]) (p2pkh (replicate 20 0)) = Verify_OK"
  using VerifyScript_p2pkh [of "replicate 20 0" plain_env "[2, 3]" "[2, 3]"]
  by (simp add: pushable_def MAX_SCRIPT_ELEMENT_SIZE_def flags_ok_def CheckSignatureEncoding_def CheckPubKeyEncoding_def)

section \<open>Pay to script hash\<close>

definition p2sh :: "bytes \<Rightarrow> bytes" where
  "p2sh h = [0xa9, 0x14] @ h @ [0x87]"

lemma EvalScript_p2sh:
  assumes h: "length h = 20" and pu: "pushable env h" and len: "length st < 999"
  shows "EvalScript env (x # st) (p2sh h) = Inr (bool_vch (HASH160 env x = h) # st)"
proof -
  define s where "s = (\<lambda>k (stk :: bytes list) p. (eval_init (x # st) (p2sh h))\<lparr>pcur := p, nOpCount := k, stack := stk\<rparr>)"
  have fields [simp]: "pcur (s k stk p) = p" "vfExec (s k stk p) = []" "nOpCount (s k stk p) = k"
    "stack (s k stk p) = stk" "altstack (s k stk p) = []"
    "s k stk p\<lparr>pcur := q, nOpCount := j, stack := y\<rparr> = s j y q"
    "s k stk p\<lparr>pcur := q, stack := y\<rparr> = s k y q" for k stk p q j y
    by (simp_all add: s_def eval_init_def)
  have "eval_loop env (eval_init (x # st) (p2sh h)) = eval_loop env (s 0 (x # st) (p2sh h))"
    by (simp add: s_def eval_init_def)
  also have "\<dots> = eval_loop env (s 1 (HASH160 env x # st) (0x14 # h @ [0x87]))"
    using len by (simp add: eval_loop_op eval_step_hash160 p2sh_def)
  also have "\<dots> = eval_loop env (s 1 (HASH160 env x # st) (push_vch [] h @ [0x87]))"
    by (simp only: push_20 [OF h])
  also have "\<dots> = eval_loop env (s 1 (h # HASH160 env x # st) [0x87])"
    using eval_step_push [of "s 1 (HASH160 env x # st) (push_vch [] h @ [0x87])" h "[0x87]" env] pu len
    by (simp add: eval_loop.simps [of env "s (Suc 0) (HASH160 env x # st) _"])
  also have "\<dots> = Inr (s 2 (bool_vch (HASH160 env x = h) # st) [])"
    using len by (simp add: eval_loop_op eval_step_equal eval_loop_Nil flip: numeral_2_eq_2)
  finally have e: "eval_loop env (eval_init (x # st) (p2sh h)) = Inr (s 2 (bool_vch (HASH160 env x = h) # st) [])" .
  have "length (p2sh h) \<le> MAX_SCRIPT_SIZE" using h by (simp add: p2sh_def MAX_SCRIPT_SIZE_def)
  then show ?thesis unfolding EvalScript_def e by simp
qed

lemma IsPayToScriptHash_p2sh: "length h = 20 \<Longrightarrow> IsPayToScriptHash (p2sh h)"
  by (simp add: IsPayToScriptHash_def p2sh_def Let_def nth_append nth_Cons')

text \<open>
  C22. With the pay-to-script-hash rule on, an output that commits to a script hash is spent
  by an input that pushes arguments and a redeem script exactly when the redeem script hashes
  to the committed value and evaluates on the arguments to a stack with a true top element,
  which is the only element if the clean-stack rule is on.
\<close>

theorem VerifyScript_p2sh:
  assumes "length h = 20" "has_flag env SCRIPT_VERIFY_P2SH"
    and "list_all (pushable env) args" "pushable env redeem" "length args < 999"
    and "sigScript = concat (map (push_vch []) args) @ push_vch [] redeem" "length sigScript \<le> MAX_SCRIPT_SIZE"
  shows "VerifyScript env sigScript (p2sh h) = Verify_OK \<longleftrightarrow>
    HASH160 env redeem = h \<and>
    (\<exists>x st. EvalScript env (rev args) redeem = Inr (x # st) \<and> CastToBool x \<and>
       (st = [] \<or> \<not> has_flag env SCRIPT_VERIFY_CLEANSTACK))"
proof -
  have vs: "list_all (pushable env) (args @ [redeem])" using assms(3,4) by simp
  have sc: "sigScript = concat (map (push_vch []) (args @ [redeem]))" using assms(6) by simp
  have 1: "EvalScript env [] sigScript = Inr (redeem # rev args)"
    using EvalScript_pushes [OF vs, of "[]"] assms(5,7) sc by simp
  have 2: "IsPushOnly sigScript" unfolding sc by (rule IsPushOnly_pushes [OF vs])
  have 3: "RemoveBDAPScript (p2sh h) = None" by (simp add: p2sh_def RemoveBDAPScript_None)
  have "pushable env h" using assms(1) by (simp add: pushable_def push_minimal_def MAX_SCRIPT_ELEMENT_SIZE_def)
  note ev = EvalScript_p2sh [OF assms(1) this, of "rev args" redeem]
  have v: "VerifyScript env sigScript (p2sh h) =
      (if HASH160 env redeem = h then
        (case eval_true (EvalScript env (rev args) redeem) of Inl e \<Rightarrow> Verify_error e | Inr st \<Rightarrow> verify_cleanstack env st)
       else Verify_error SCRIPT_ERR_EVAL_FALSE)"
    using assms(2,5) by (simp add: VerifyScript_def 1 2 3 ev IsPayToScriptHash_p2sh [OF assms(1)] eval_true_def)
  show ?thesis
  proof (cases "EvalScript env (rev args) redeem")
    case (Inl e)
    then show ?thesis unfolding v by (simp add: eval_true_def)
  next
    case (Inr stk)
    then show ?thesis unfolding v using assms(2) by (cases stk) (simp_all add: eval_true_def verify_cleanstack_def)
  qed
qed

definition p2sh_env :: script_env where
  "p2sh_env = plain_env\<lparr>flags := SCRIPT_VERIFY_P2SH OR SCRIPT_VERIFY_CLEANSTACK\<rparr>"

theorem VerifyScript_p2sh_witness:
  "VerifyScript p2sh_env (concat (map (push_vch []) [[7, 8]]) @ push_vch [] [0x75, 0x51]) (p2sh (replicate 20 0)) = Verify_OK"
proof -
  have "EvalScript p2sh_env [[7, 8]] [0x75, 0x51] = Inr [[1]]" by code_simp
  moreover have "has_flag p2sh_env SCRIPT_VERIFY_P2SH" "\<not> fRequireMinimal p2sh_env" by code_simp+
  moreover have "HASH160 p2sh_env v = replicate 20 0" for v by (simp add: p2sh_env_def plain_env_def)
  ultimately show ?thesis
    using VerifyScript_p2sh [of "replicate 20 0" p2sh_env "[[7, 8]]" "[0x75, 0x51]"]
    by (simp add: pushable_def MAX_SCRIPT_ELEMENT_SIZE_def MAX_SCRIPT_SIZE_def push_vch_def)
qed

lemma IsPayToScriptHash_form:
  assumes "IsPayToScriptHash spk"
  obtains h where "length h = 20" "spk = p2sh h"
proof -
  have a: "length spk = 23" "spk ! 0 = 0xa9" "spk ! 1 = 0x14" "spk ! 22 = 0x87"
    using assms by (auto simp: IsPayToScriptHash_def Let_def)
  then obtain x y t where t: "spk = x # y # t" "length t = 21" by (cases spk; cases "tl spk") auto
  then obtain h c where c: "t = h @ [c]" by (cases t rule: rev_cases) auto
  then have "spk = p2sh h" "length h = 20" using a t by (auto simp: p2sh_def nth_append)
  then show thesis using that by blast
qed

lemma EvalScript_p2sh_Nil: "EvalScript env [] (p2sh h) \<noteq> Inr st"
proof -
  have "eval_step env (eval_init [] (p2sh h)) = Inl SCRIPT_ERR_INVALID_STACK_OPERATION"
    by (simp add: eval_init_def p2sh_def step_simps op_hash_def)
  then have "eval_loop env (eval_init [] (p2sh h)) = Inl SCRIPT_ERR_INVALID_STACK_OPERATION"
    by (simp add: eval_loop_op [of _ "0xa9"] eval_init_def p2sh_def)
  then show ?thesis by (simp add: EvalScript_def)
qed

text \<open>
  Under the contract on the flags, verification never reaches a failing assertion,
  whatever the scripts are: in particular, the stack that the redeem script of a
  pay-to-script-hash output is taken from is never empty.
\<close>

theorem VerifyScript_asserts_hold:
  assumes "flags_ok env"
  shows "VerifyScript env sigScript spkIn \<noteq> Verify_assert"
proof -
  have clean: "verify_cleanstack env st \<noteq> Verify_assert" for st
    using assms by (simp add: verify_cleanstack_def flags_ok_def)
  define spk where "spk = (case RemoveBDAPScript spkIn of Some out \<Rightarrow> out | None \<Rightarrow> spkIn)"
  have nil: "\<exists>e. eval_true (EvalScript env [] spk) = Inl e" if p: "IsPayToScriptHash spk"
  proof -
    obtain h where "spk = p2sh h" using IsPayToScriptHash_form [OF p] by blast
    then obtain e where "EvalScript env [] spk = Inl e" using EvalScript_p2sh_Nil [of env h] by (cases "EvalScript env [] spk") auto
    then show ?thesis by (simp add: eval_true_def)
  qed
  show ?thesis unfolding VerifyScript_def spk_def [symmetric] Let_def
    using clean nil by (auto split: sum.splits list.splits)
qed

theorem VerifyScript_asserts_hold_witness:
  "flags_ok p2sh_env \<and> VerifyScript p2sh_env [] (p2sh (replicate 20 0)) \<noteq> Verify_assert"
proof -
  have "flags_ok p2sh_env" unfolding flags_ok_def by code_simp
  with VerifyScript_asserts_hold [OF this] show ?thesis by blast
qed

section \<open>Directory prefixes\<close>

text \<open>
  An output script is stripped of its BDAP prefix before it is evaluated, so it is spent under
  the conditions of the payment script behind the prefix.
\<close>

lemma VerifyScript_strips_BDAP:
  assumes "RemoveBDAPScript spk = Some payment" "RemoveBDAPScript payment = None"
  shows "VerifyScript env sigScript spk = VerifyScript env sigScript payment"
  using assms by (simp add: VerifyScript_def)

text \<open>
  An oversized output with a BDAP prefix is reported unspendable, yet verification strips
  the prefix first and accepts an input for it: the report of \<open>IsUnspendable\<close>, on which
  outputs are dropped from the coin set, is wrong for such an output.
\<close>

theorem IsUnspendable_BDAP_output_is_spendable:
  "\<exists>spk. IsUnspendable spk \<and> VerifyScript plain_env [] spk = Verify_OK"
proof -
  obtain v :: bytes where v: "length v = 10000" by (metis length_replicate)
  define spk where "spk = [of_nat (EncodeOP_N OP_BDAP_NEW), of_nat (EncodeOP_N OP_BDAP_ACCOUNT_ENTRY)] @
    concat (map (push_vch []) [v]) @ 0x75 # [] @ [0x51]"
  have "RemoveBDAPScript spk = Some [0x51]"
    by (rule RemoveBDAPScript_prefix [THEN conjunct2, OF _ _ _ _ _ refl _ _ _ spk_def]) (simp_all add: v)
  moreover have "RemoveBDAPScript [0x51] = None" by code_simp
  ultimately have "VerifyScript plain_env [] spk = VerifyScript plain_env [] [0x51]" by (rule VerifyScript_strips_BDAP)
  also have "\<dots> = Verify_OK" by code_simp
  finally have "VerifyScript plain_env [] spk = Verify_OK" .
  moreover have "IsUnspendable spk" by (simp add: spk_def IsUnspendable_def MAX_SCRIPT_SIZE_def push_vch_def v)
  ultimately show ?thesis by blast
qed

end
