(* ===== verification/Sighash.thy ===== *)
theory Sighash
  imports Interpreter_Verify
begin

unbundle bit_operations_syntax

text \<open>
  Signature hashes and the transaction signature checker of
  \<open>src/src/script/interpreter.cpp\<close>, and the original signature hash function that
  \<open>src/src/test/sighash_tests.cpp\<close> keeps as the reference for it.  The streaming serializer
  writes the modified transaction without copying it; the reference copies the transaction,
  blanks what the hash type leaves open and serializes the copy.

  Shown: both feed the same bytes to the hash function for every script code that parses, what
  a signature with the default hash type commits to, and what passing a lock-time or sequence
  check means.
\<close>

section \<open>The streaming serializer\<close>

record sig_ser =
  ser_txTo :: CTransaction
  ser_scriptCode :: bytes
  ser_nIn :: nat
  fAnyoneCanPay :: bool
  fHashSingle :: bool
  fHashNone :: bool

definition CTransactionSignatureSerializer :: "CTransaction \<Rightarrow> bytes \<Rightarrow> nat \<Rightarrow> int \<Rightarrow> sig_ser" where
  "CTransactionSignatureSerializer txTo scriptCode nIn nHashType =
     \<lparr>ser_txTo = txTo, ser_scriptCode = scriptCode, ser_nIn = nIn,
      fAnyoneCanPay = (nHashType AND int SIGHASH_ANYONECANPAY \<noteq> 0),
      fHashSingle = (nHashType AND 0x1f = int SIGHASH_SINGLE),
      fHashNone = (nHashType AND 0x1f = int SIGHASH_NONE)\<rparr>"

function count_codeseparators :: "bytes \<Rightarrow> nat \<Rightarrow> nat" where
  "count_codeseparators it n =
     (case GetOp it of
        None \<Rightarrow> n
      | Some (opcode, v, it') \<Rightarrow> count_codeseparators it' (if opcode = OP_CODESEPARATOR then n + 1 else n))"
  by pat_completeness auto
termination by (relation "measure (\<lambda>(it, n). length it)") (auto dest: GetOp_shorter)

text \<open>Two iterators: \<open>itBegin\<close> where the next piece to write starts, \<open>it\<close> the reader.\<close>

function write_scriptcode :: "bytes \<Rightarrow> bytes \<Rightarrow> bytes \<Rightarrow> bytes" where
  "write_scriptcode itBegin it s =
     (case GetOp2 it of (ok, opcode, v, it') \<Rightarrow>
        if ok then
          (if opcode = OP_CODESEPARATOR
           then write_scriptcode it' it' (s @ take (length itBegin - length it' - 1) itBegin)
           else write_scriptcode itBegin it' s)
        else if itBegin \<noteq> [] then s @ take (length itBegin - length it') itBegin else s)"
  by pat_completeness auto
termination
  by (relation "measure (\<lambda>(b, it, s). length it)") (auto dest!: GetOp2_shorter [OF sym])

declare count_codeseparators.simps [simp del] write_scriptcode.simps [simp del]

definition SerializeScriptCode :: "sig_ser \<Rightarrow> bytes" where
  "SerializeScriptCode t =
     (let code = ser_scriptCode t in
      WriteCompactSize (length code - count_codeseparators code 0) @ write_scriptcode code code [])"

definition SerializeInput :: "sig_ser \<Rightarrow> nat \<Rightarrow> bytes" where
  "SerializeInput t nInput =
     (let nInput = (if fAnyoneCanPay t then ser_nIn t else nInput);
          txin = vin (ser_txTo t) ! nInput in
      Serialize_COutPoint (prevout txin) @
      (if nInput \<noteq> ser_nIn t then Serialize_bytes [] else SerializeScriptCode t) @
      (if nInput \<noteq> ser_nIn t \<and> (fHashSingle t \<or> fHashNone t) then Serialize_int32 0
       else ser_writedata32 (nSequence txin)))"

definition SerializeOutput :: "sig_ser \<Rightarrow> nat \<Rightarrow> bytes" where
  "SerializeOutput t nOutput =
     (if fHashSingle t \<and> nOutput \<noteq> ser_nIn t then Serialize_CTxOut CTxOut_SetNull
      else Serialize_CTxOut (vout (ser_txTo t) ! nOutput))"

definition Serialize_sig :: "sig_ser \<Rightarrow> bytes" where
  "Serialize_sig t =
     (let nInputs = (if fAnyoneCanPay t then 1 else length (vin (ser_txTo t)));
          nOutputs = (if fHashNone t then 0 else if fHashSingle t then ser_nIn t + 1 else length (vout (ser_txTo t))) in
      Serialize_int32 (nVersion (ser_txTo t)) @
      WriteCompactSize nInputs @ concat (map (SerializeInput t) [0..<nInputs]) @
      WriteCompactSize nOutputs @ concat (map (SerializeOutput t) [0..<nOutputs]) @
      ser_writedata32 (nLockTime (ser_txTo t)))"

definition SignatureHash :: "(bytes \<Rightarrow> uint256) \<Rightarrow> bytes \<Rightarrow> CTransaction \<Rightarrow> nat \<Rightarrow> int \<Rightarrow> uint256" where
  "SignatureHash Hash scriptCode txTo nIn nHashType =
     (if nIn \<ge> length (vin txTo) then 1
      else if nHashType AND 0x1f = int SIGHASH_SINGLE \<and> nIn \<ge> length (vout txTo) then 1
      else Hash (Serialize_sig (CTransactionSignatureSerializer txTo scriptCode nIn nHashType) @ Serialize_int32 nHashType))"

section \<open>The reference\<close>

definition blank_inputs :: "CTransaction \<Rightarrow> nat \<Rightarrow> bytes \<Rightarrow> CTxIn list" where
  "blank_inputs tx nIn code = (map (\<lambda>i. i\<lparr>scriptSig := []\<rparr>) (vin tx))[nIn := (vin tx ! nIn)\<lparr>scriptSig := code\<rparr>]"

definition relax_sequences :: "CTxIn list \<Rightarrow> nat \<Rightarrow> CTxIn list" where
  "relax_sequences ins nIn = map (\<lambda>i. if i \<noteq> nIn then (ins ! i)\<lparr>nSequence := 0\<rparr> else ins ! i) [0..<length ins]"

definition sighash_copy :: "bytes \<Rightarrow> CTransaction \<Rightarrow> nat \<Rightarrow> int \<Rightarrow> CTransaction" where
  "sighash_copy scriptCode txTo nIn nHashType =
     (let code = snd (FindAndDelete scriptCode [of_nat OP_CODESEPARATOR]);
          txTmp = txTo\<lparr>vin := blank_inputs txTo nIn code\<rparr>;
          txTmp = (if nHashType AND 0x1f = int SIGHASH_NONE then
                     txTmp\<lparr>vout := [], vin := relax_sequences (vin txTmp) nIn\<rparr>
                   else if nHashType AND 0x1f = int SIGHASH_SINGLE then
                     txTmp\<lparr>vout := map (\<lambda>i. if i < nIn then CTxOut_SetNull else vout txTmp ! i) [0..<nIn + 1],
                       vin := relax_sequences (vin txTmp) nIn\<rparr>
                   else txTmp)
      in if nHashType AND int SIGHASH_ANYONECANPAY \<noteq> 0 then txTmp\<lparr>vin := [vin txTmp ! nIn]\<rparr> else txTmp)"

definition SignatureHashOld :: "(bytes \<Rightarrow> uint256) \<Rightarrow> bytes \<Rightarrow> CTransaction \<Rightarrow> nat \<Rightarrow> int \<Rightarrow> uint256" where
  "SignatureHashOld Hash scriptCode txTo nIn nHashType =
     (if nIn \<ge> length (vin txTo) then 1
      else if nHashType AND 0x1f = int SIGHASH_SINGLE \<and> nIn \<ge> length (vout txTo) then 1
      else Hash (Serialize_CTransaction (sighash_copy scriptCode txTo nIn nHashType) @ Serialize_int32 nHashType))"

section \<open>Dropping code separators\<close>

text \<open>What both ways of preparing the script code compute.\<close>

function drop_codesep :: "bytes \<Rightarrow> bytes" where
  "drop_codesep p = (case GetOp p of None \<Rightarrow> p
     | Some (opcode, v, p') \<Rightarrow>
        (if opcode = OP_CODESEPARATOR then [] else take (length p - length p') p) @ drop_codesep p')"
  by pat_completeness auto
termination by (relation "measure length") (auto dest: GetOp_shorter)

declare drop_codesep.simps [simp del]

lemma GetOp_codesep: "GetOp (of_nat OP_CODESEPARATOR # r) = Some (OP_CODESEPARATOR, [], r)"
  by (simp add: GetOp_opcode)

lemma GetOp_codesep_iff:
  "GetOp p = Some (OP_CODESEPARATOR, v, p') \<longleftrightarrow> p = of_nat OP_CODESEPARATOR # p' \<and> v = []"
proof
  assume g: "GetOp p = Some (OP_CODESEPARATOR, v, p')"
  then obtain b t where p: "p = b # t" by (cases p) auto
  then have b: "unat b = OP_CODESEPARATOR"
    using g by (auto simp: GetOp_def GetOp2_def Let_def split: if_splits option.splits)
  then have "b = of_nat OP_CODESEPARATOR" by (metis of_nat_unat ucast_id)
  then show "p = of_nat OP_CODESEPARATOR # p' \<and> v = []" using g p GetOp_codesep [of t] by simp
qed (simp add: GetOp_opcode)

lemma skip_codesep:
  "skip_matches [of_nat OP_CODESEPARATOR] p n = (p', n') \<Longrightarrow>
     drop_codesep p = drop_codesep p' \<and> (\<forall>v q. GetOp p' \<noteq> Some (OP_CODESEPARATOR, v, q))"
proof (induction "[of_nat OP_CODESEPARATOR] :: bytes" p n arbitrary: p' n' rule: skip_matches.induct)
  case (1 p n)
  show ?case
  proof (cases "\<exists>r. p = of_nat OP_CODESEPARATOR # r")
    case True
    then obtain r where r: "p = of_nat OP_CODESEPARATOR # r" by blast
    then have "skip_matches [of_nat OP_CODESEPARATOR] r (n + 1) = (p', n')"
      using 1(2) skip_matches.simps [of "[of_nat OP_CODESEPARATOR]" p n] by (simp add: r)
    with 1(1) r have "drop_codesep r = drop_codesep p' \<and> (\<forall>v q. GetOp p' \<noteq> Some (OP_CODESEPARATOR, v, q))" by simp
    then show ?thesis using drop_codesep.simps [of p] by (simp add: r GetOp_opcode)
  next
    case False
    then have "p' = p" using 1(2) skip_matches.simps [of "[of_nat OP_CODESEPARATOR]" p n]
      by (cases p) (auto split: if_splits)
    then show ?thesis using False by (auto simp: GetOp_codesep_iff)
  qed
qed

lemma FindAndDelete_loop_codesep:
  "FindAndDelete_loop [of_nat OP_CODESEPARATOR] result pc2 p n = (result', pc2', n') \<Longrightarrow>
     result' @ pc2' = result @ take (length pc2 - length p) pc2 @ drop_codesep p"
proof (induction "[of_nat OP_CODESEPARATOR] :: bytes" result pc2 p n rule: FindAndDelete_loop.induct)
  case (1 result pc2 p n)
  define res where "res = result @ take (length pc2 - length p) pc2"
  obtain p1 m where sk: "skip_matches [of_nat OP_CODESEPARATOR] p n = (p1, m)" by fastforce
  note dc = skip_codesep [OF sk]
  show ?case
  proof (cases "GetOp p1")
    case None
    then show ?thesis using 1(2) sk dc
      by (simp add: FindAndDelete_loop.simps [of _ result] drop_codesep.simps [of p1])
  next
    case (Some a)
    obtain opcode v p' where a: "a = (opcode, v, p')" by (cases a)
    have "FindAndDelete_loop [of_nat OP_CODESEPARATOR] res p1 p' m = (result', pc2', n')"
      using 1(2) sk Some a by (simp add: FindAndDelete_loop.simps [of _ result] res_def)
    then have "result' @ pc2' = res @ take (length p1 - length p') p1 @ drop_codesep p'"
      by (rule 1(1) [OF res_def sk [symmetric] Some a [symmetric] refl])
    then show ?thesis using dc Some a by (simp add: drop_codesep.simps [of p1] res_def)
  qed
qed

lemma FindAndDelete_codesep: "snd (FindAndDelete code [of_nat OP_CODESEPARATOR]) = drop_codesep code"
proof -
  obtain result pc2 n where l: "FindAndDelete_loop [of_nat OP_CODESEPARATOR] [] code code 0 = (result, pc2, n)"
    by (rule prod_cases3)
  have r: "result @ pc2 = drop_codesep code" using FindAndDelete_loop_codesep [OF l] by simp
  have "split_at [of_nat OP_CODESEPARATOR] code n result pc2"
    by (rule FindAndDelete_loop_spec [OF l]) (simp_all add: split_at_def)
  then have "n = 0 \<Longrightarrow> code = result @ pc2" by (auto simp: split_at_def)
  then show ?thesis using l r by (auto simp: FindAndDelete_def)
qed

lemma script_rest_GetOp: "GetOp p = Some (opcode, v, p') \<Longrightarrow> script_rest p = script_rest p'"
  by (simp add: script_rest.simps [of p])

lemma script_rest_None: "GetOp p = None \<Longrightarrow> script_rest p = p"
  by (simp add: script_rest.simps [of p])

lemma GetOp_None: "GetOp p = None \<longleftrightarrow> \<not> fst (GetOp2 p)"
  by (auto simp: GetOp_def split: prod.splits)

lemma write_scriptcode_spec:
  assumes "script_rest it = []" "itBegin = x @ it"
  shows "write_scriptcode itBegin it s = s @ x @ drop_codesep it"
  using assms
proof (induction "length it" arbitrary: itBegin it s x rule: less_induct)
  case less
  show ?case
  proof (cases "GetOp it")
    case None
    then have "it = []" using less(2) script_rest_None by simp
    then show ?thesis using less(3) write_scriptcode.simps [of itBegin it s] by (simp add: GetOp2_def drop_codesep.simps)
  next
    case (Some a)
    obtain opcode v it' where a: "a = (opcode, v, it')" by (cases a)
    then have g2: "GetOp2 it = (True, opcode, v, it')" using Some by (auto simp: GetOp_def split: prod.splits if_splits)
    have short: "length it' < length it" using GetOp_shorter Some a by blast
    have rest: "script_rest it' = []" using script_rest_GetOp Some a less(2) by simp
    have it: "it = take (length it - length it') it @ it'" using GetOp_suffix Some a by simp
    show ?thesis
    proof (cases "opcode = OP_CODESEPARATOR")
      case True
      then have sep: "it = of_nat OP_CODESEPARATOR # it'" using Some a GetOp_codesep_iff by blast
      have "write_scriptcode itBegin it s = write_scriptcode it' it' (s @ x)"
        using g2 True less(3) sep write_scriptcode.simps [of itBegin it s] by simp
      also have "\<dots> = (s @ x) @ [] @ drop_codesep it'"
        using less(1) [OF short rest, of it' "[]"] by simp
      finally show ?thesis using Some a True by (simp add: drop_codesep.simps [of it])
    next
      case False
      have "write_scriptcode itBegin it s = write_scriptcode itBegin it' s"
        using g2 False by (simp add: write_scriptcode.simps [of itBegin it])
      also have "\<dots> = s @ (x @ take (length it - length it') it) @ drop_codesep it'"
        using less(1) [OF short rest] less(3) it by (metis append_assoc)
      finally show ?thesis using Some a False by (simp add: drop_codesep.simps [of it])
    qed
  qed
qed

lemma count_codeseparators_length:
  "count_codeseparators it n + length (drop_codesep it) = n + length it"
proof (induction it n rule: count_codeseparators.induct)
  case (1 it n)
  show ?case
  proof (cases "GetOp it")
    case None
    then show ?thesis by (simp add: count_codeseparators.simps [of it] drop_codesep.simps [of it])
  next
    case (Some a)
    obtain opcode v it' where a: "a = (opcode, v, it')" by (cases a)
    have it: "length it' < length it" using GetOp_shorter Some a by blast
    have sep: "length it = Suc (length it')" if "opcode = OP_CODESEPARATOR"
      using Some a that by (auto simp: GetOp_codesep_iff)
    show ?thesis using 1 [OF Some a [symmetric] refl] Some a it sep
      by (simp add: count_codeseparators.simps [of it] drop_codesep.simps [of it] split: if_splits)
  qed
qed

lemma SerializeScriptCode_eq:
  assumes "script_rest (ser_scriptCode t) = []"
  shows "SerializeScriptCode t = Serialize_bytes (snd (FindAndDelete (ser_scriptCode t) [of_nat OP_CODESEPARATOR]))"
proof -
  have "length (ser_scriptCode t) - count_codeseparators (ser_scriptCode t) 0 = length (drop_codesep (ser_scriptCode t))"
    using count_codeseparators_length [of "ser_scriptCode t" 0] by simp
  moreover have "write_scriptcode (ser_scriptCode t) (ser_scriptCode t) [] = drop_codesep (ser_scriptCode t)"
    using write_scriptcode_spec [OF assms, of _ "[]"] by simp
  ultimately show ?thesis unfolding FindAndDelete_codesep by (simp add: SerializeScriptCode_def Serialize_bytes_def Let_def)
qed

section \<open>The serializer writes the reference copy\<close>

lemma Serialize_vector_upt:
  "Serialize_vector ser (map f [0..<k]) = WriteCompactSize k @ concat (map (\<lambda>i. ser (f i)) [0..<k])"
  by (simp add: Serialize_vector_def comp_def)

lemma Serialize_int32_0: "Serialize_int32 0 = ser_writedata32 0"
  by (simp add: Serialize_int32_def int_to_unsigned_def)

lemma blank_inputs_nth:
  "i < length (vin tx) \<Longrightarrow> blank_inputs tx nIn code ! i =
     (vin tx ! i)\<lparr>scriptSig := (if i = nIn then code else [])\<rparr>"
  by (simp add: blank_inputs_def nth_list_update)

lemma length_blank_inputs [simp]: "length (blank_inputs tx nIn code) = length (vin tx)"
  by (simp add: blank_inputs_def)

lemma length_relax_sequences [simp]: "length (relax_sequences ins nIn) = length ins"
  by (simp add: relax_sequences_def)

text \<open>The inputs and outputs of the copy, by index.\<close>

definition copy_input :: "sig_ser \<Rightarrow> bytes \<Rightarrow> nat \<Rightarrow> CTxIn" where
  "copy_input t code i = (vin (ser_txTo t) ! i)\<lparr>scriptSig := (if i = ser_nIn t then code else []),
     nSequence := (if i \<noteq> ser_nIn t \<and> (fHashSingle t \<or> fHashNone t) then 0 else nSequence (vin (ser_txTo t) ! i))\<rparr>"

lemma SerializeInput_copy:
  assumes "SerializeScriptCode t = Serialize_bytes code" "\<not> fAnyoneCanPay t"
  shows "SerializeInput t i = Serialize_CTxIn (copy_input t code i)"
  using assms by (simp add: SerializeInput_def Serialize_CTxIn_def copy_input_def Serialize_int32_0 Let_def)

lemma SerializeInput_anyone:
  assumes "SerializeScriptCode t = Serialize_bytes code" "fAnyoneCanPay t"
  shows "SerializeInput t i = Serialize_CTxIn (copy_input t code (ser_nIn t))"
  using assms by (simp add: SerializeInput_def Serialize_CTxIn_def copy_input_def Let_def)

lemma copy_vin:
  assumes "nIn < length (vin txTo)" "t = CTransactionSignatureSerializer txTo scriptCode nIn nHashType"
    "code = snd (FindAndDelete scriptCode [of_nat OP_CODESEPARATOR])"
  shows "vin (sighash_copy scriptCode txTo nIn nHashType) =
    (if fAnyoneCanPay t then [copy_input t code nIn] else map (copy_input t code) [0..<length (vin txTo)])"
proof -
  define b where "b = blank_inputs txTo nIn code"
  have b: "b ! i = (vin txTo ! i)\<lparr>scriptSig := (if i = nIn then code else [])\<rparr>" if "i < length (vin txTo)" for i
    using that by (simp add: b_def blank_inputs_nth)
  have lb: "length b = length (vin txTo)" by (simp add: b_def)
  have plain: "b = map (copy_input t code) [0..<length (vin txTo)]" if "\<not> (fHashSingle t \<or> fHashNone t)"
    using that b lb assms(2) by (intro nth_equalityI) (auto simp: copy_input_def CTransactionSignatureSerializer_def)
  have relaxed: "relax_sequences b nIn = map (copy_input t code) [0..<length (vin txTo)]" if "fHashSingle t \<or> fHashNone t"
    using that b lb assms(2) by (intro nth_equalityI) (auto simp: relax_sequences_def copy_input_def CTransactionSignatureSerializer_def)
  show ?thesis using plain relaxed assms
    by (auto simp: sighash_copy_def Let_def b_def CTransactionSignatureSerializer_def)
qed

lemma copy_vout:
  assumes "t = CTransactionSignatureSerializer txTo scriptCode nIn nHashType"
  shows "vout (sighash_copy scriptCode txTo nIn nHashType) =
    (if fHashNone t then [] else if fHashSingle t then map (\<lambda>i. if i < nIn then CTxOut_SetNull else vout txTo ! i) [0..<nIn + 1]
     else vout txTo)"
  using assms by (simp add: sighash_copy_def Let_def CTransactionSignatureSerializer_def SIGHASH_NONE_def SIGHASH_SINGLE_def)

lemma Serialize_sig_copy:
  assumes "nIn < length (vin txTo)" "script_rest scriptCode = []"
  shows "Serialize_sig (CTransactionSignatureSerializer txTo scriptCode nIn nHashType) =
    Serialize_CTransaction (sighash_copy scriptCode txTo nIn nHashType)"
proof -
  define t where "t = CTransactionSignatureSerializer txTo scriptCode nIn nHashType"
  define code where "code = snd (FindAndDelete scriptCode [of_nat OP_CODESEPARATOR])"
  define c where "c = sighash_copy scriptCode txTo nIn nHashType"
  have t [simp]: "ser_txTo t = txTo" "ser_nIn t = nIn" "ser_scriptCode t = scriptCode"
    by (simp_all add: t_def CTransactionSignatureSerializer_def)
  have sc: "SerializeScriptCode t = Serialize_bytes code"
    using SerializeScriptCode_eq [of t] assms(2) by (simp add: code_def)
  have vi: "Serialize_vector Serialize_CTxIn (vin c) =
      WriteCompactSize (if fAnyoneCanPay t then 1 else length (vin txTo)) @
      concat (map (SerializeInput t) [0..<if fAnyoneCanPay t then 1 else length (vin txTo)])"
  proof (cases "fAnyoneCanPay t")
    case True
    then show ?thesis using SerializeInput_anyone [OF sc True, of 0]
      unfolding c_def copy_vin [OF assms(1) t_def code_def] by (simp add: Serialize_vector_def)
  next
    case False
    then have "SerializeInput t = (\<lambda>i. Serialize_CTxIn (copy_input t code i))" using SerializeInput_copy [OF sc] by auto
    then show ?thesis using False
      unfolding c_def copy_vin [OF assms(1) t_def code_def] by (simp add: Serialize_vector_upt)
  qed
  have vo: "Serialize_vector Serialize_CTxOut (vout c) =
      WriteCompactSize (if fHashNone t then 0 else if fHashSingle t then nIn + 1 else length (vout txTo)) @
      concat (map (SerializeOutput t) [0..<if fHashNone t then 0 else if fHashSingle t then nIn + 1 else length (vout txTo)])"
  proof (cases "fHashNone t \<or> fHashSingle t")
    case True
    have m: "map (\<lambda>i. Serialize_CTxOut (if i < nIn then CTxOut_SetNull else vout txTo ! i)) [0..<nIn + 1] =
        map (SerializeOutput t) [0..<nIn + 1]" if "fHashSingle t"
      using that by (simp add: SerializeOutput_def)
    show ?thesis
    proof (cases "fHashNone t")
      case True
      then show ?thesis unfolding c_def copy_vout [OF t_def] by (simp add: Serialize_vector_def)
    next
      case none: False
      with True have single: "fHashSingle t" by simp
      show ?thesis unfolding c_def copy_vout [OF t_def]
        by (simp only: none single if_True if_False Serialize_vector_upt m [OF single])
    qed
  next
    case False
    then have "SerializeOutput t = (\<lambda>i. Serialize_CTxOut (vout txTo ! i))" by (auto simp: SerializeOutput_def)
    then show ?thesis using False Serialize_vector_upt [of Serialize_CTxOut "\<lambda>i. vout txTo ! i" "length (vout txTo)"]
      unfolding c_def copy_vout [OF t_def] by (simp add: map_nth)
  qed
  have "nVersion c = nVersion txTo" "nLockTime c = nLockTime txTo"
    by (simp_all add: c_def sighash_copy_def Let_def)
  then show ?thesis using vi vo
    unfolding c_def [symmetric] t_def [symmetric] by (simp add: Serialize_sig_def Serialize_CTransaction_def Let_def)
qed

section \<open>What a signature hash commits to\<close>

text \<open>The bytes \<open>SignatureHash\<close> feeds to the hash function once its two range checks passed.\<close>

definition sighash_message :: "bytes \<Rightarrow> CTransaction \<Rightarrow> nat \<Rightarrow> int \<Rightarrow> bytes" where
  "sighash_message scriptCode txTo nIn nHashType =
     Serialize_sig (CTransactionSignatureSerializer txTo scriptCode nIn nHashType) @ Serialize_int32 nHashType"

definition hashes_all :: "int \<Rightarrow> bool" where
  "hashes_all nHashType \<longleftrightarrow> nHashType AND 0x1f \<noteq> int SIGHASH_NONE \<and> nHashType AND 0x1f \<noteq> int SIGHASH_SINGLE \<and>
     nHashType AND int SIGHASH_ANYONECANPAY = 0"

lemma sighash_copy_all:
  "hashes_all nHashType \<Longrightarrow> sighash_copy scriptCode txTo nIn nHashType =
     txTo\<lparr>vin := blank_inputs txTo nIn (snd (FindAndDelete scriptCode [of_nat OP_CODESEPARATOR]))\<rparr>"
  by (simp add: sighash_copy_def hashes_all_def Let_def)

lemma length_FindAndDelete_codesep: "length (snd (FindAndDelete code [of_nat OP_CODESEPARATOR])) \<le> length code"
  using count_codeseparators_length [of code 0] unfolding FindAndDelete_codesep by simp

lemma wf_blank_inputs:
  assumes "wf_tx tx" "length code \<le> MAX_SIZE"
  shows "wf_tx (tx\<lparr>vin := blank_inputs tx nIn code\<rparr>)"
proof -
  have "list_all wf_txin (blank_inputs tx nIn code)"
    using assms(2) by (simp add: list_all_length blank_inputs_nth wf_txin_def)
  then show ?thesis using assms(1) by (simp add: wf_tx_def)
qed

lemma map_blank_inputs:
  "map prevout (blank_inputs tx nIn code) = map prevout (vin tx)"
  "map nSequence (blank_inputs tx nIn code) = map nSequence (vin tx)"
  by (auto intro!: nth_equalityI simp: blank_inputs_nth)

lemma SignatureHash_message:
  assumes "hashes_all h" "nIn < length (vin tx)"
  shows "SignatureHash Hash code tx nIn h = Hash (sighash_message code tx nIn h)"
  using assms by (simp add: SignatureHash_def sighash_message_def hashes_all_def)

lemma sighash_message_all:
  assumes "hashes_all h" "nIn < length (vin tx)" "script_rest code = []"
  shows "sighash_message code tx nIn h =
    Serialize_CTransaction (tx\<lparr>vin := blank_inputs tx nIn (snd (FindAndDelete code [of_nat OP_CODESEPARATOR]))\<rparr>) @ Serialize_int32 h"
  using Serialize_sig_copy [OF assms(2,3), of h] assms(1) by (simp add: sighash_message_def sighash_copy_all)

section \<open>The transaction signature checker\<close>

text \<open>
  A public key is its serialized bytes; an invalid one holds the header byte \<open>0xFF\<close>.
  The elliptic-curve verification of \<open>CPubKey::Verify\<close> belongs to libsecp256k1 and is a
  parameter.
\<close>

definition CPubKey_GetLen :: "byte \<Rightarrow> nat" where
  "CPubKey_GetLen chHeader =
     (if chHeader = 2 \<or> chHeader = 3 then 33
      else if chHeader = 4 \<or> chHeader = 6 \<or> chHeader = 7 then 65 else 0)"

definition CPubKey_Set :: "bytes \<Rightarrow> bytes" where
  "CPubKey_Set p =
     (let len = (if p = [] then 0 else CPubKey_GetLen (hd p)) in
      if len \<noteq> 0 \<and> len = length p then p else [0xFF])"

definition CPubKey_size :: "bytes \<Rightarrow> nat" where
  "CPubKey_size vch = CPubKey_GetLen (hd vch)"

definition CPubKey_IsValid :: "bytes \<Rightarrow> bool" where
  "CPubKey_IsValid vch \<longleftrightarrow> CPubKey_size vch > 0"

definition CPubKey_IsCompressed :: "bytes \<Rightarrow> bool" where
  "CPubKey_IsCompressed vch \<longleftrightarrow> CPubKey_size vch = 33"

definition Tx_CheckSig ::
    "(bytes \<Rightarrow> uint256) \<Rightarrow> (bytes \<Rightarrow> uint256 \<Rightarrow> bytes \<Rightarrow> bool) \<Rightarrow> CTransaction \<Rightarrow> nat \<Rightarrow>
     bytes \<Rightarrow> bytes \<Rightarrow> bytes \<Rightarrow> bool" where
  "Tx_CheckSig Hash Verify txTo nIn vchSigIn vchPubKey scriptCode =
     (let pubkey = CPubKey_Set vchPubKey in
      if \<not> CPubKey_IsValid pubkey then False
      else if vchSigIn = [] then False
      else let nHashType = int (unat (last vchSigIn));
               vchSig = butlast vchSigIn;
               sighash = SignatureHash Hash scriptCode txTo nIn nHashType
           in Verify pubkey sighash vchSig)"

definition Tx_CheckLockTime :: "CTransaction \<Rightarrow> nat \<Rightarrow> int \<Rightarrow> bool" where
  "Tx_CheckLockTime txTo nIn n =
     (let txLock = int (unat (nLockTime txTo)) in
      if \<not> ((txLock < int LOCKTIME_THRESHOLD \<and> n < int LOCKTIME_THRESHOLD) \<or>
            (txLock \<ge> int LOCKTIME_THRESHOLD \<and> n \<ge> int LOCKTIME_THRESHOLD)) then False
      else if n > txLock then False
      else if SEQUENCE_FINAL = nSequence (vin txTo ! nIn) then False
      else True)"

definition Tx_CheckSequence :: "CTransaction \<Rightarrow> nat \<Rightarrow> int \<Rightarrow> bool" where
  "Tx_CheckSequence txTo nIn n =
     (let txToSequence = int (unat (nSequence (vin txTo ! nIn)));
          nLockTimeMask = int (unat (SEQUENCE_LOCKTIME_TYPE_FLAG OR SEQUENCE_LOCKTIME_MASK));
          typeFlag = int (unat SEQUENCE_LOCKTIME_TYPE_FLAG)
      in if int_to_unsigned 32 (nVersion txTo) < 2 then False
         else if txToSequence AND int (unat SEQUENCE_LOCKTIME_DISABLE_FLAG) \<noteq> 0 then False
         else let txToSequenceMasked = txToSequence AND nLockTimeMask;
                  nSequenceMasked = n AND nLockTimeMask
              in if \<not> ((txToSequenceMasked < typeFlag \<and> nSequenceMasked < typeFlag) \<or>
                       (txToSequenceMasked \<ge> typeFlag \<and> nSequenceMasked \<ge> typeFlag)) then False
                 else if nSequenceMasked > txToSequenceMasked then False
                 else True)"

text \<open>The environment in which the script of input \<open>nIn\<close> of \<open>txTo\<close> is run.\<close>

definition tx_env ::
    "script_env \<Rightarrow> (bytes \<Rightarrow> uint256) \<Rightarrow> (bytes \<Rightarrow> uint256 \<Rightarrow> bytes \<Rightarrow> bool) \<Rightarrow> CTransaction \<Rightarrow> nat \<Rightarrow> script_env" where
  "tx_env env Hash Verify txTo nIn =
     env\<lparr>CheckSig := Tx_CheckSig Hash Verify txTo nIn, CheckLockTime := Tx_CheckLockTime txTo nIn,
         CheckSequence := Tx_CheckSequence txTo nIn\<rparr>"

section \<open>Properties\<close>

text \<open>
  C6. The streaming signature hash is the signature hash of the reference that copies and
  edits the transaction: for every script code that parses to its end, every transaction,
  input index and hash type, both return the same value.
\<close>

theorem SignatureHash_eq_reference:
  assumes "script_rest scriptCode = []"
  shows "SignatureHash Hash scriptCode txTo nIn nHashType = SignatureHashOld Hash scriptCode txTo nIn nHashType"
  using Serialize_sig_copy [OF _ assms] by (simp add: SignatureHash_def SignatureHashOld_def)

text \<open>
  C9. With a hash type that signs everything, two signature hashes that agree (on a hash
  function that does not collide on the two messages) come from transactions with the same
  version, the same spent outpoints and sequence numbers in the same order, the same outputs
  and the same lock time, and from the same hash type: a signature fixes all of these.
\<close>

theorem SignatureHash_all_commits:
  assumes "wf_tx tx" "nIn < length (vin tx)" "script_rest code = []" "length code \<le> MAX_SIZE" "hashes_all h" "in_int 32 h"
    and "wf_tx tx'" "nIn' < length (vin tx')" "script_rest code' = []" "length code' \<le> MAX_SIZE" "hashes_all h'" "in_int 32 h'"
    and "inj_on Hash {sighash_message code tx nIn h, sighash_message code' tx' nIn' h'}"
    and "SignatureHash Hash code tx nIn h = SignatureHash Hash code' tx' nIn' h'"
  shows "nVersion tx = nVersion tx' \<and> map prevout (vin tx) = map prevout (vin tx') \<and>
    map nSequence (vin tx) = map nSequence (vin tx') \<and> vout tx = vout tx' \<and> nLockTime tx = nLockTime tx' \<and> h = h'"
proof -
  define c where "c = snd (FindAndDelete code [of_nat OP_CODESEPARATOR])"
  define c' where "c' = snd (FindAndDelete code' [of_nat OP_CODESEPARATOR])"
  have len: "length c \<le> MAX_SIZE" "length c' \<le> MAX_SIZE"
    using assms(4,10) length_FindAndDelete_codesep order.trans unfolding c_def c'_def by blast+
  have "sighash_message code tx nIn h = sighash_message code' tx' nIn' h'"
    using assms(13) assms(14) [unfolded SignatureHash_message [OF assms(5,2)] SignatureHash_message [OF assms(11,8)]]
    by (rule inj_onD) simp_all
  then have "Serialize_CTransaction (tx\<lparr>vin := blank_inputs tx nIn c\<rparr>) @ Serialize_int32 h =
      Serialize_CTransaction (tx'\<lparr>vin := blank_inputs tx' nIn' c'\<rparr>) @ Serialize_int32 h'"
    unfolding c_def c'_def sighash_message_all [OF assms(5,2,3)] sighash_message_all [OF assms(11,8,9)] .
  then have eq: "tx\<lparr>vin := blank_inputs tx nIn c\<rparr> = tx'\<lparr>vin := blank_inputs tx' nIn' c'\<rparr>" and h: "Serialize_int32 h = Serialize_int32 h'"
    using tx_codec.prefix_free [OF wf_blank_inputs [OF assms(1) len(1)] wf_blank_inputs [OF assms(7) len(2)]] by blast+
  have "nVersion tx = nVersion tx'" "vout tx = vout tx'" "nLockTime tx = nLockTime tx'"
      "blank_inputs tx nIn c = blank_inputs tx' nIn' c'"
    using arg_cong [OF eq, of nVersion] arg_cong [OF eq, of vout] arg_cong [OF eq, of nLockTime] arg_cong [OF eq, of vin] by simp_all
  moreover have "h = h'" using h int32.enc_inject assms(6,12) by blast
  ultimately show ?thesis using map_blank_inputs [of tx nIn c] map_blank_inputs [of tx' nIn' c'] by simp
qed

text \<open>A script code of two opcodes around a code separator, for the witnesses.\<close>

definition codesep_script :: bytes where
  "codesep_script = [0x51, of_nat OP_CODESEPARATOR, 0x52]"

lemma script_rest_codesep: "script_rest codesep_script = []"
  by (simp add: codesep_script_def script_rest_GetOp [OF GetOp_opcode] script_rest_None)

theorem SignatureHash_eq_reference_witness:
  "SignatureHash (\<lambda>m. word_of_nat (le_nat m)) codesep_script (sample_tx 1) 0 3 = SignatureHashOld (\<lambda>m. word_of_nat (le_nat m)) codesep_script (sample_tx 1) 0 3"
  by (rule SignatureHash_eq_reference [OF script_rest_codesep])

text \<open>The sample transaction before it is signed.\<close>

definition unsigned_tx :: CTransaction where
  "unsigned_tx = (sample_tx 1)\<lparr>vin := map (\<lambda>i. i\<lparr>scriptSig := []\<rparr>) (vin (sample_tx 1))\<rparr>"

lemma wf_unsigned_tx: "wf_tx unsigned_tx"
  using wf_sample_tx [of 1] by (simp add: unsigned_tx_def sample_tx_def wf_tx_def wf_txin_def)

lemma hashes_all_1: "hashes_all 1" "in_int 32 1"
  by (simp_all add: hashes_all_def SIGHASH_NONE_def SIGHASH_SINGLE_def SIGHASH_ANYONECANPAY_def in_int_def)

lemma sample_message: "sighash_message codesep_script (sample_tx 1) 0 1 = sighash_message codesep_script unsigned_tx 0 1"
proof -
  have "blank_inputs (sample_tx 1) 0 c = blank_inputs unsigned_tx 0 c" for c
    by (simp add: blank_inputs_def unsigned_tx_def sample_tx_def)
  then have "(sample_tx 1)\<lparr>vin := blank_inputs (sample_tx 1) 0 c\<rparr> = unsigned_tx\<lparr>vin := blank_inputs unsigned_tx 0 c\<rparr>" for c
    by (simp add: unsigned_tx_def)
  then show ?thesis
    using sighash_message_all [OF hashes_all_1(1) _ script_rest_codesep, of 0 "sample_tx 1"]
      sighash_message_all [OF hashes_all_1(1) _ script_rest_codesep, of 0 unsigned_tx]
    by (simp add: unsigned_tx_def sample_tx_def)
qed

theorem SignatureHash_all_commits_witness:
  "scriptSig (hd (vin (sample_tx 1))) \<noteq> scriptSig (hd (vin unsigned_tx)) \<and> vout (sample_tx 1) = vout unsigned_tx"
proof
  show "scriptSig (hd (vin (sample_tx 1))) \<noteq> scriptSig (hd (vin unsigned_tx))"
    by (simp add: unsigned_tx_def sample_tx_def)
  have n: "0 < length (vin (sample_tx 1))" "0 < length (vin unsigned_tx)" by (simp_all add: unsigned_tx_def sample_tx_def)
  have c: "length codesep_script \<le> MAX_SIZE" by (simp add: codesep_script_def MAX_SIZE_def)
  let ?H = "\<lambda>m. word_of_nat (le_nat m) :: uint256"
  have "SignatureHash ?H codesep_script (sample_tx 1) 0 1 = SignatureHash ?H codesep_script unsigned_tx 0 1"
    unfolding SignatureHash_message [OF hashes_all_1(1) n(1)] SignatureHash_message [OF hashes_all_1(1) n(2)] sample_message ..
  then show "vout (sample_tx 1) = vout unsigned_tx"
    using SignatureHash_all_commits [OF wf_sample_tx n(1) script_rest_codesep c hashes_all_1
        wf_unsigned_tx n(2) script_rest_codesep c hashes_all_1, of ?H] by (simp add: sample_message)
qed

end
