(* ===== verification/Compressor.thy ===== *)
theory Compressor
  imports Sighash
begin

unbundle bit_operations_syntax

text \<open>
  The compact formats of \<open>src/src/compressor.h\<close> and \<open>compressor.cpp\<close>, in which amounts and
  output scripts are stored in the coin database and in the undo files.

  Validity and decompression of a public key belong to libsecp256k1: they are the parameters
  \<open>IsFullyValid\<close> and \<open>Decompress\<close> of the script functions, related by \<open>decompress_ok\<close>: the
  key that a fully valid uncompressed key is stored as decompresses to that key.

  Shown: amounts up to a ninth of the 64-bit range survive the round trip, larger ones (still
  within the money range) do not, and the script and output formats are codecs.
\<close>

section \<open>Amounts\<close>

function strip_tens :: "nat \<Rightarrow> nat \<Rightarrow> nat \<times> nat" where
  "strip_tens n e = (if n mod 10 = 0 \<and> e < 9 then strip_tens (n div 10) (e + 1) else (n, e))"
  by pat_completeness auto
termination by (relation "measure (\<lambda>(n, e). 9 - e)") auto

definition CompressAmount :: "nat \<Rightarrow> nat" where
  "CompressAmount n =
     (if n = 0 then 0
      else case strip_tens n 0 of (n, e) \<Rightarrow>
        if e < 9 then let d = n mod 10; n = n div 10 in (1 + (n * 9 + d - 1) * 10 + e) mod 2 ^ 64
        else (1 + (n - 1) * 10 + 9) mod 2 ^ 64)"

fun mul_tens :: "nat \<Rightarrow> nat \<Rightarrow> nat" where
  "mul_tens n 0 = n"
| "mul_tens n (Suc e) = mul_tens (n * 10 mod 2 ^ 64) e"

definition DecompressAmount :: "nat \<Rightarrow> nat" where
  "DecompressAmount x =
     (if x = 0 then 0
      else let x = x - 1; e = x mod 10; x = x div 10;
               n = (if e < 9 then let d = x mod 9 + 1; x = x div 9 in x * 10 + d else x + 1)
           in mul_tens n e)"

declare strip_tens.simps [simp del]

lemma strip_tens_spec:
  "strip_tens n e = (m, f) \<Longrightarrow> e \<le> 9 \<Longrightarrow> e \<le> f \<and> f \<le> 9 \<and> n = m * 10 ^ (f - e) \<and> (f < 9 \<longrightarrow> m mod 10 \<noteq> 0)"
proof (induction n e arbitrary: m f rule: strip_tens.induct)
  case (1 n e)
  show ?case
  proof (cases "n mod 10 = 0 \<and> e < 9")
    case True
    then have "strip_tens (n div 10) (e + 1) = (m, f)" using 1(2) by (simp add: strip_tens.simps [of n e])
    then have *: "e + 1 \<le> f \<and> f \<le> 9 \<and> n div 10 = m * 10 ^ (f - (e + 1)) \<and> (f < 9 \<longrightarrow> m mod 10 \<noteq> 0)"
      using 1(1) True by simp
    then have "n = m * 10 ^ (f - (e + 1)) * 10" using True by (metis dvd_imp_mod_0 dvd_mult_div_cancel mod_0_imp_dvd mult.commute)
    then have "n = m * 10 ^ (f - e)" using * by (simp add: Suc_diff_Suc flip: power_Suc2)
    then show ?thesis using * by simp
  next
    case False
    then show ?thesis using 1(2,3) by (auto simp: strip_tens.simps [of n e])
  qed
qed

lemma mul_tens_eq: "n < 2 ^ 64 \<Longrightarrow> mul_tens n e = n * 10 ^ e mod 2 ^ 64"
proof (induction n e rule: mul_tens.induct)
  case (2 n e)
  then have "mul_tens (n * 10 mod 2 ^ 64) e = n * 10 mod 2 ^ 64 * 10 ^ e mod 2 ^ 64" by simp
  then show ?case by (simp add: mod_mult_left_eq mult.assoc)
qed simp

definition max_compressible :: nat where
  "max_compressible = (2 ^ 64 - 1) div 9"

lemma CompressAmount_roundtrip:
  assumes "n \<le> max_compressible"
  shows "DecompressAmount (CompressAmount n) = n"
proof (cases "n = 0")
  case False
  obtain m e where s: "strip_tens n 0 = (m, e)" by fastforce
  then have e: "e \<le> 9" "n = m * 10 ^ e" "e < 9 \<Longrightarrow> m mod 10 \<noteq> 0" using strip_tens_spec [OF s] by auto
  have m: "0 < m" "m \<le> n" using False e(2) by (auto intro: Nat.gr0I)
  have nb: "9 * n < 2 ^ 64" "n < 2 ^ 64" using assms by (simp_all add: max_compressible_def)
  then have mb: "m < 2 ^ 64" using m by simp
  show ?thesis
  proof (cases "e < 9")
    case True
    define d k where "d = m mod 10" and "k = m div 10"
    have mdk: "m = 10 * k + d" "1 \<le> d" "d \<le> 9" using e(3) [OF True] by (auto simp: d_def k_def)
    have "e = 0 \<or> 10 * m \<le> n" using e(2) by (cases e) (auto simp: algebra_simps)
    then have "1 + (k * 9 + d - 1) * 10 + e < 2 ^ 64" using nb mdk m True by auto
    then have c: "CompressAmount n = 1 + (k * 9 + d - 1) * 10 + e"
      using False True s by (simp add: CompressAmount_def d_def k_def Let_def)
    have "(k * 9 + d - 1) mod 9 + 1 = d" "(k * 9 + d - 1) div 9 = k"
      using mdk(2,3) div_mult_self3 [of 9 k "d - 1"] mod_mult_self3 [of k 9 "d - 1"] by simp_all
    moreover have "((k * 9 + d - 1) * 10 + e) div 10 = k * 9 + d - 1" "((k * 9 + d - 1) * 10 + e) mod 10 = e"
      using True by simp_all
    ultimately have "DecompressAmount (CompressAmount n) = mul_tens (k * 10 + d) e"
      using True by (simp add: c DecompressAmount_def Let_def)
    also have "k * 10 + d = m" using mdk(1) by simp
    finally show ?thesis using mul_tens_eq [OF mb, of e] e(2) nb by simp
  next
    case 9: False
    then have e9: "e = 9" using e(1) by simp
    have "1 + (m - 1) * 10 + 9 = 10 * m" using m by simp
    moreover have "10 * m < 2 ^ 64" using e(2) e9 nb m by simp
    ultimately have c: "CompressAmount n = 10 * m" using False s e9 by (simp add: CompressAmount_def)
    have "(10 * m - 1) mod 10 = 9" "(10 * m - 1) div 10 + 1 = m" using m by (cases m; simp)+
    then have "DecompressAmount (CompressAmount n) = mul_tens m 9" using m by (simp add: c DecompressAmount_def Let_def)
    then show ?thesis using mul_tens_eq [OF mb, of 9] e(2) e9 nb by simp
  qed
qed (simp add: CompressAmount_def DecompressAmount_def)

section \<open>Scripts\<close>

definition nSpecialScripts :: nat where "nSpecialScripts = 6"

definition IsToKeyID :: "bytes \<Rightarrow> bytes option" where
  "IsToKeyID script =
     (if length script = 25 \<and> script ! 0 = of_nat OP_DUP \<and> script ! 1 = of_nat OP_HASH160 \<and> script ! 2 = 20 \<and>
         script ! 23 = of_nat OP_EQUALVERIFY \<and> script ! 24 = of_nat OP_CHECKSIG
      then Some (take 20 (drop 3 script)) else None)"

definition IsToScriptID :: "bytes \<Rightarrow> bytes option" where
  "IsToScriptID script =
     (if length script = 23 \<and> script ! 0 = of_nat OP_HASH160 \<and> script ! 1 = 20 \<and> script ! 22 = of_nat OP_EQUAL
      then Some (take 20 (drop 2 script)) else None)"

definition IsToPubKey :: "(bytes \<Rightarrow> bool) \<Rightarrow> bytes \<Rightarrow> bytes option" where
  "IsToPubKey IsFullyValid script =
     (if length script = 35 \<and> script ! 0 = 33 \<and> script ! 34 = of_nat OP_CHECKSIG \<and> (script ! 1 = 2 \<or> script ! 1 = 3)
      then Some (CPubKey_Set (take 33 (drop 1 script)))
      else if length script = 67 \<and> script ! 0 = 65 \<and> script ! 66 = of_nat OP_CHECKSIG \<and> script ! 1 = 4
      then let pubkey = CPubKey_Set (take 65 (drop 1 script)) in
           if IsFullyValid pubkey then Some pubkey else None
      else None)"

definition Compress :: "(bytes \<Rightarrow> bool) \<Rightarrow> bytes \<Rightarrow> bytes option" where
  "Compress IsFullyValid script =
     (case IsToKeyID script of Some keyID \<Rightarrow> Some (0x00 # keyID) | None \<Rightarrow>
      case IsToScriptID script of Some scriptID \<Rightarrow> Some (0x01 # scriptID) | None \<Rightarrow>
      case IsToPubKey IsFullyValid script of Some pubkey \<Rightarrow>
        (if pubkey ! 0 = 2 \<or> pubkey ! 0 = 3 then Some (pubkey ! 0 # take 32 (drop 1 pubkey))
         else if pubkey ! 0 = 4 then Some ((0x04 OR (pubkey ! 64 AND 1)) # take 32 (drop 1 pubkey))
         else None)
      | None \<Rightarrow> None)"

definition GetSpecialSize :: "nat \<Rightarrow> nat" where
  "GetSpecialSize nSize =
     (if nSize = 0 \<or> nSize = 1 then 20
      else if nSize = 2 \<or> nSize = 3 \<or> nSize = 4 \<or> nSize = 5 then 32 else 0)"

text \<open>Decompression returns whether it succeeded and the script, unchanged on failure.\<close>

definition Decompress :: "(bytes \<Rightarrow> bytes option) \<Rightarrow> nat \<Rightarrow> bytes \<Rightarrow> bytes \<Rightarrow> bool \<times> bytes" where
  "Decompress DecompressKey nSize inp script =
     (if nSize = 0 then
        (True, [of_nat OP_DUP, of_nat OP_HASH160, 20] @ take 20 inp @ [of_nat OP_EQUALVERIFY, of_nat OP_CHECKSIG])
      else if nSize = 1 then (True, [of_nat OP_HASH160, 20] @ take 20 inp @ [of_nat OP_EQUAL])
      else if nSize = 2 \<or> nSize = 3 then (True, [33, of_nat nSize] @ take 32 inp @ [of_nat OP_CHECKSIG])
      else if nSize = 4 \<or> nSize = 5 then
        (case DecompressKey (CPubKey_Set (of_nat (nSize - 2) # take 32 inp)) of
           None \<Rightarrow> (False, script)
         | Some pubkey \<Rightarrow> (True, 65 # take 65 pubkey @ [of_nat OP_CHECKSIG]))
      else (False, script))"

definition Serialize_CScriptCompressor :: "(bytes \<Rightarrow> bool) \<Rightarrow> bytes \<Rightarrow> bytes" where
  "Serialize_CScriptCompressor IsFullyValid script =
     (case Compress IsFullyValid script of
        Some compr \<Rightarrow> compr
      | None \<Rightarrow> WriteVarInt ((length script + nSpecialScripts) mod 2 ^ 32) @ script)"

definition stream_ignore :: "nat \<Rightarrow> unit reader" where
  "stream_ignore nSize s =
     (if nSize \<ge> 2 ^ 31 then Inl BadStream else ebind (stream_read nSize s) (\<lambda>(x, s). Inr ((), s)))"

definition Unserialize_CScriptCompressor :: "(bytes \<Rightarrow> bytes option) \<Rightarrow> bytes \<Rightarrow> bytes reader" where
  "Unserialize_CScriptCompressor DecompressKey script s =
     ebind (ReadVarInt 32 s) (\<lambda>(nSize, s).
       if nSize < nSpecialScripts then
         ebind (stream_read (GetSpecialSize nSize) s) (\<lambda>(vch, s). Inr (snd (Decompress DecompressKey nSize vch script), s))
       else let nSize = nSize - nSpecialScripts in
         if nSize > MAX_SCRIPT_SIZE then
           ebind (stream_ignore nSize s) (\<lambda>(_, s). Inr (script @ [of_nat OP_RETURN], s))
         else stream_read nSize s)"

section \<open>Outputs\<close>

definition Serialize_CTxOutCompressor :: "(bytes \<Rightarrow> bool) \<Rightarrow> CTxOut \<Rightarrow> bytes" where
  "Serialize_CTxOutCompressor IsFullyValid txout =
     WriteVarInt (CompressAmount (int_to_unsigned 64 (nValue txout))) @
     Serialize_CScriptCompressor IsFullyValid (scriptPubKey txout)"

definition Unserialize_CTxOutCompressor :: "(bytes \<Rightarrow> bytes option) \<Rightarrow> CTxOut \<Rightarrow> CTxOut reader" where
  "Unserialize_CTxOutCompressor DecompressKey txout s =
     ebind (ReadVarInt 64 s) (\<lambda>(nVal, s).
     ebind (Unserialize_CScriptCompressor DecompressKey (scriptPubKey txout) s) (\<lambda>(script, s).
       Inr (txout\<lparr>nValue := unsigned_to_int 64 (DecompressAmount nVal), scriptPubKey := script\<rparr>, s)))"

section \<open>Round trips\<close>

definition decompress_ok :: "(bytes \<Rightarrow> bool) \<Rightarrow> (bytes \<Rightarrow> bytes option) \<Rightarrow> bool" where
  "decompress_ok IsFullyValid DecompressKey \<longleftrightarrow>
     (\<forall>x y. length x = 32 \<and> length y = 32 \<and> IsFullyValid (4 # x @ y) \<longrightarrow>
        DecompressKey ((2 + (last y AND 1)) # x) = Some (4 # x @ y))"

lemma WriteVarInt_small: "n < 128 \<Longrightarrow> WriteVarInt n = [of_nat n]"
proof -
  assume n: "n < 128"
  then have "unat ((of_nat n :: byte) AND 0x7F) = unat (of_nat n :: byte)"
    by (simp add: unat_of_nat_digit unat_of_nat_byte)
  then have "(of_nat n :: byte) AND 0x7F = of_nat n" by (rule unsigned_word_eqI [where ?'a = nat])
  then show ?thesis using n by (simp add: WriteVarInt_def varint_tmp.simps [of False n])
qed

lemma ReadVarInt_small: "n < 128 \<Longrightarrow> ReadVarInt 32 (of_nat n # r) = Inr (n, r)"
  using varint32.dec_enc [of n r] by (simp add: WriteVarInt_small)

text \<open>The special scripts, by their shape.\<close>

lemma split_middle: "xs = take i xs @ take k (drop i xs) @ drop (i + k) xs"
  by (metis add.commute append_take_drop_id drop_drop)

lemma take_nths: "2 \<le> length xs \<Longrightarrow> take 2 xs = [xs ! 0, xs ! 1]" "3 \<le> length xs \<Longrightarrow> take 3 xs = [xs ! 0, xs ! 1, xs ! 2]"
  "1 \<le> length xs \<Longrightarrow> take 1 xs = [xs ! 0]"
  by (simp_all add: list_eq_iff_nth_eq nth_Cons' less_Suc_eq numeral_2_eq_2 numeral_3_eq_3 split: nat.splits)

lemma drop_nths: "length xs = Suc n \<Longrightarrow> drop n xs = [xs ! n]"
  "length xs = Suc (Suc n) \<Longrightarrow> drop n xs = [xs ! n, xs ! Suc n]"
  by (simp_all flip: Cons_nth_drop_Suc)

lemma IsToKeyID_Some:
  assumes "IsToKeyID script = Some h"
  shows "length h = 20 \<and> script = [of_nat OP_DUP, of_nat OP_HASH160, 20] @ h @ [of_nat OP_EQUALVERIFY, of_nat OP_CHECKSIG]"
  using assms split_middle [of script 3 20] take_nths(2) [of script] drop_nths(2) [of script 23]
  by (auto simp: IsToKeyID_def split: if_splits)

lemma IsToScriptID_Some:
  assumes "IsToScriptID script = Some h"
  shows "length h = 20 \<and> script = [of_nat OP_HASH160, 20] @ h @ [of_nat OP_EQUAL]"
  using assms split_middle [of script 2 20] take_nths(1) [of script] drop_nths(1) [of script 22]
  by (auto simp: IsToScriptID_def split: if_splits)

lemma CPubKey_Set_id: "p \<noteq> [] \<Longrightarrow> CPubKey_GetLen (hd p) = length p \<Longrightarrow> CPubKey_Set p = p"
  by (simp add: CPubKey_Set_def)

lemma IsToPubKey_Some:
  assumes "IsToPubKey IsFullyValid script = Some key"
  shows "(\<exists>b x. (b = 2 \<or> b = 3) \<and> key = b # x \<and> length x = 32 \<and> script = 33 # key @ [of_nat OP_CHECKSIG]) \<or>
    (\<exists>x y. key = 4 # x @ y \<and> length x = 32 \<and> length y = 32 \<and> IsFullyValid key \<and> script = 65 # key @ [of_nat OP_CHECKSIG])"
proof (cases "length script = 35 \<and> script ! 0 = 33 \<and> script ! 34 = of_nat OP_CHECKSIG \<and> (script ! 1 = 2 \<or> script ! 1 = 3)")
  case True
  define k where "k = take 33 (drop 1 script)"
  have k: "length k = 33" "hd k = script ! 1" using True by (simp_all add: k_def hd_drop_conv_nth)
  then obtain b x where bx: "k = b # x" "length x = 32" by (cases k) auto
  have "CPubKey_Set k = k" by (rule CPubKey_Set_id) (use k True bx in \<open>auto simp: CPubKey_GetLen_def\<close>)
  then have "key = k" using assms True by (auto simp: IsToPubKey_def k_def)
  moreover have "script = 33 # k @ [of_nat OP_CHECKSIG]"
    using True split_middle [of script 1 33] take_nths(3) [of script] drop_nths(1) [of script 34] by (simp add: k_def)
  ultimately show ?thesis using bx k True by auto
next
  case False
  then have u: "length script = 67" "script ! 0 = 65" "script ! 66 = of_nat OP_CHECKSIG" "script ! 1 = 4"
    using assms by (auto simp: IsToPubKey_def split: if_splits)
  define k where "k = take 65 (drop 1 script)"
  have k: "length k = 65" "hd k = 4" using u by (simp_all add: k_def hd_drop_conv_nth)
  then obtain x' where x': "k = 4 # x'" "length x' = 64" by (cases k) auto
  then have xy: "k = 4 # take 32 x' @ drop 32 x'" "length (take 32 x') = 32" "length (drop 32 x') = 32" by simp_all
  have "CPubKey_Set k = k" by (rule CPubKey_Set_id) (use k x' in \<open>auto simp: CPubKey_GetLen_def\<close>)
  then have "key = k" "IsFullyValid k" using assms u by (auto simp: IsToPubKey_def k_def Let_def split: if_splits)
  moreover have "script = 65 # k @ [of_nat OP_CHECKSIG]"
    using u split_middle [of script 1 65] take_nths(3) [of script] drop_nths(1) [of script 66] by (simp add: k_def)
  ultimately show ?thesis using xy by blast
qed

lemma parity_byte: "(b :: byte) AND 1 = 0 \<or> b AND 1 = 1"
  by (cases "even b") (simp_all add: and_one_eq odd_iff_mod_2_eq_one even_iff_mod_2_eq_zero)

lemma Decompress_Compress:
  assumes "Compress IsFullyValid script = Some c" "decompress_ok IsFullyValid DecompressKey"
  shows "\<exists>nSize inp. c = of_nat nSize # inp \<and> nSize < nSpecialScripts \<and> length inp = GetSpecialSize nSize \<and>
    Decompress DecompressKey nSize inp script0 = (True, script)"
proof -
  consider h where "IsToKeyID script = Some h" "c = 0x00 # h"
    | h where "IsToScriptID script = Some h" "c = 0x01 # h"
    | key where "IsToPubKey IsFullyValid script = Some key"
        "c = (if key ! 0 = 2 \<or> key ! 0 = 3 then key ! 0 # take 32 (drop 1 key) else (0x04 OR (key ! 64 AND 1)) # take 32 (drop 1 key))"
    using assms(1) by (auto simp: Compress_def split: option.splits if_splits)
  then show ?thesis
  proof cases
    case 1
    then show ?thesis using IsToKeyID_Some [OF 1(1)]
      by (intro exI [of _ 0] exI [of _ h]) (simp add: nSpecialScripts_def GetSpecialSize_def Decompress_def)
  next
    case 2
    then show ?thesis using IsToScriptID_Some [OF 2(1)]
      by (intro exI [of _ 1] exI [of _ h]) (simp add: nSpecialScripts_def GetSpecialSize_def Decompress_def)
  next
    case 3
    from IsToPubKey_Some [OF 3(1)] show ?thesis
    proof (rule disjE)
      assume "\<exists>b x. (b = 2 \<or> b = 3) \<and> key = b # x \<and> length x = 32 \<and> script = 33 # key @ [of_nat OP_CHECKSIG]"
      then obtain b x where "b = 2 \<or> b = 3" "key = b # x" "length x = 32" "script = 33 # key @ [of_nat OP_CHECKSIG]" by blast
      then show ?thesis using 3(2)
        by (intro exI [of _ "unat b"] exI [of _ x]) (auto simp: nSpecialScripts_def GetSpecialSize_def Decompress_def)
    next
      assume "\<exists>x y. key = 4 # x @ y \<and> length x = 32 \<and> length y = 32 \<and> IsFullyValid key \<and> script = 65 # key @ [of_nat OP_CHECKSIG]"
      then obtain x y where k: "key = 4 # x @ y" "length x = 32" "length y = 32" "IsFullyValid key" "script = 65 # key @ [of_nat OP_CHECKSIG]"
        by blast
      define p where "p = last y AND 1"
      have "key ! 64 = last y" using k(1-3) by (cases y rule: rev_cases) (auto simp: nth_append)
      then have c: "c = (4 OR p) # x" using 3(2) k(1,2) by (simp add: p_def)
      have d: "DecompressKey ((2 + p) # x) = Some key" using assms(2) k by (simp add: decompress_ok_def p_def)
      have "CPubKey_Set ((2 + p) # x) = (2 + p) # x"
        by (rule CPubKey_Set_id) (use k(2) parity_byte [of "last y"] in \<open>auto simp: p_def CPubKey_GetLen_def\<close>)
      then show ?thesis using c d k(1-3,5) parity_byte [of "last y"]
        by (intro exI [of _ "unat (4 OR p)"] exI [of _ x])
           (auto simp: p_def nSpecialScripts_def GetSpecialSize_def Decompress_def)
    qed
  qed
qed

lemma Compress_None_or_codec:
  assumes "decompress_ok IsFullyValid DecompressKey" "length script \<le> MAX_SCRIPT_SIZE"
  shows "Unserialize_CScriptCompressor DecompressKey script0 (Serialize_CScriptCompressor IsFullyValid script @ r) = Inr (script, r)"
proof (cases "Compress IsFullyValid script")
  case None
  have "length script + nSpecialScripts < 2 ^ 32" using assms(2) by (simp add: MAX_SCRIPT_SIZE_def nSpecialScripts_def)
  then show ?thesis using None assms(2)
    by (simp add: Serialize_CScriptCompressor_def Unserialize_CScriptCompressor_def varint32.dec_enc)
next
  case (Some c)
  obtain nSize inp where c: "c = of_nat nSize # inp" "nSize < nSpecialScripts" "length inp = GetSpecialSize nSize"
      "Decompress DecompressKey nSize inp script0 = (True, script)"
    using Decompress_Compress [OF Some assms(1)] by blast
  then have "ReadVarInt 32 (of_nat nSize # inp @ r) = Inr (nSize, inp @ r)"
    by (intro ReadVarInt_small) (simp add: nSpecialScripts_def)
  then show ?thesis using Some c by (simp add: Serialize_CScriptCompressor_def Unserialize_CScriptCompressor_def)
qed

definition compressible :: "CTxOut \<Rightarrow> bool" where
  "compressible txout \<longleftrightarrow> 0 \<le> nValue txout \<and> nValue txout \<le> int max_compressible \<and>
     length (scriptPubKey txout) \<le> MAX_SCRIPT_SIZE \<and> nRounds txout = - 10"

lemma amount_unsigned:
  "0 \<le> v \<Longrightarrow> v \<le> int max_compressible \<Longrightarrow>
     int_to_unsigned 64 v = nat v \<and> nat v \<le> max_compressible \<and> unsigned_to_int 64 (nat v) = v"
  by (auto simp: int_to_unsigned_def unsigned_to_int_def max_compressible_def)

lemma CompressAmount_less: "CompressAmount n < 2 ^ 64"
  by (simp add: CompressAmount_def Let_def split: prod.split)

text \<open>The output format is a codec, whatever script the output object held before, as long as
  its other fields are those of a new object.\<close>

lemma txout_compressor_codec:
  assumes "decompress_ok IsFullyValid DecompressKey" "nRounds txout0 = - 10"
  shows "codec (Serialize_CTxOutCompressor IsFullyValid) (Unserialize_CTxOutCompressor DecompressKey txout0) compressible"
proof (unfold_locales)
  fix txout r
  assume c: "compressible txout"
  define v where "v = nat (nValue txout)"
  have v: "int_to_unsigned 64 (nValue txout) = v" "v \<le> max_compressible" "unsigned_to_int 64 v = nValue txout"
    using amount_unsigned [of "nValue txout"] c by (auto simp: compressible_def v_def)
  have "ReadVarInt 64 (WriteVarInt (CompressAmount v) @ t) = Inr (CompressAmount v, t)" for t
    by (rule varint64.dec_enc) (rule CompressAmount_less)
  moreover have "txout0\<lparr>nValue := nValue txout, scriptPubKey := scriptPubKey txout\<rparr> = txout"
    using c assms(2) by (cases txout; cases txout0) (simp add: compressible_def)
  ultimately show "Unserialize_CTxOutCompressor DecompressKey txout0 (Serialize_CTxOutCompressor IsFullyValid txout @ r) = Inr (txout, r)"
    using v c Compress_None_or_codec [OF assms(1)]
    by (simp add: Unserialize_CTxOutCompressor_def Serialize_CTxOutCompressor_def compressible_def CompressAmount_roundtrip)
qed

section \<open>Properties\<close>

text \<open>
  C36. The compact output format loses nothing: an output whose amount is at most a ninth of
  the 64-bit range and whose script is within the size limit reads back as it was written, for
  all script forms, given that the key library decompresses the keys it calls valid.
\<close>

theorem CTxOutCompressor_roundtrip:
  assumes "decompress_ok IsFullyValid DecompressKey" "compressible txout"
  shows "Unserialize_CTxOutCompressor DecompressKey CTxOut_SetNull
    (Serialize_CTxOutCompressor IsFullyValid txout @ r) = Inr (txout, r)"
proof -
  have "nRounds CTxOut_SetNull = - 10" by (simp add: CTxOut_SetNull_def)
  then show ?thesis by (rule codec.dec_enc [OF txout_compressor_codec [OF assms(1)] assms(2)])
qed

definition one_key :: bytes where
  "one_key = 4 # replicate 32 7 @ replicate 32 9"

lemma one_key_ok: "decompress_ok (\<lambda>k. k = one_key) (\<lambda>k. if k = 3 # replicate 32 7 then Some one_key else None)"
  by (auto simp: decompress_ok_def one_key_def append_eq_append_conv last_replicate)

theorem CTxOutCompressor_roundtrip_witness:
  "Unserialize_CTxOutCompressor (\<lambda>k. if k = 3 # replicate 32 7 then Some one_key else None) CTxOut_SetNull
     (Serialize_CTxOutCompressor (\<lambda>k. k = one_key)
        \<lparr>nValue = 1230, scriptPubKey = 65 # one_key @ [0xac], nRounds = - 10\<rparr> @ [1, 2]) =
     Inr (\<lparr>nValue = 1230, scriptPubKey = 65 # one_key @ [0xac], nRounds = - 10\<rparr>, [1, 2])"
  by (rule CTxOutCompressor_roundtrip [OF one_key_ok])
     (simp add: compressible_def max_compressible_def MAX_SCRIPT_SIZE_def one_key_def)


end
