(* ===== verification/Coins.thy ===== *)
theory Coins
  imports Compressor "HOL-Library.AList"
begin

text \<open>
  The set of unspent outputs of \<open>src/src/coins.h\<close> and \<open>coins.cpp\<close>: coins and their disk
  format, views on the coin set and the cache view with its DIRTY and FRESH flags.

  A view is a state together with its virtual methods, the record \<open>CCoinsView\<close>; a method of
  the cache takes the methods of the view it is laid over as its first argument.  The hash map
  of a cache is an association list with distinct keys; where the code iterates over it, the
  list is the iteration order, and nothing below depends on that order.

  The locale \<open>coins_view\<close> is the contract of a view towards its users: there is a map from
  outpoints to unspent coins that lookups read, that a batch of writes updates, and that no
  other method changes.  In it every method of a cache is shown to implement the operation on
  the map of the cache, and a cache over a view is shown to be a view again.
\<close>

section \<open>Coins\<close>

record Coin =
  out :: CTxOut
  fCoinBase :: bool
  coin_nHeight :: nat

definition mk_Coin :: "CTxOut \<Rightarrow> int \<Rightarrow> bool \<Rightarrow> Coin" where
  "mk_Coin outIn nHeightIn fCoinBaseIn = \<lparr>out = outIn, fCoinBase = fCoinBaseIn, coin_nHeight = nat (nHeightIn mod 2 ^ 31)\<rparr>"

definition Coin_Clear :: Coin where
  "Coin_Clear = \<lparr>out = CTxOut_SetNull, fCoinBase = False, coin_nHeight = 0\<rparr>"

definition IsSpent :: "Coin \<Rightarrow> bool" where
  "IsSpent c \<longleftrightarrow> CTxOut_IsNull (out c)"

definition coinEmpty :: Coin where
  "coinEmpty = Coin_Clear"

text \<open>Memory of a script: scripts up to 28 bytes lie in the object, longer ones in a block of
  their length; \<open>MallocUsage\<close> is the 64-bit branch.\<close>

definition MallocUsage :: "u64 \<Rightarrow> u64" where
  "MallocUsage alloc = (if alloc = 0 then 0 else push_bit 4 (drop_bit 4 (alloc + 31)))"

definition allocated_memory :: "bytes \<Rightarrow> u64" where
  "allocated_memory v = (if length v \<le> 28 then 0 else of_nat (length v))"

definition Coin_DynamicMemoryUsage :: "Coin \<Rightarrow> u64" where
  "Coin_DynamicMemoryUsage c = MallocUsage (allocated_memory (scriptPubKey (out c)))"

text \<open>The disk format.  Writing a spent coin is an assertion failure, the value \<open>None\<close>.  The
  height is promoted to a signed integer before it is doubled; the product fits for heights
  below \<open>2 ^ 30\<close>, and the properties keep to these.\<close>

definition Serialize_Coin :: "(bytes \<Rightarrow> bool) \<Rightarrow> Coin \<Rightarrow> bytes option" where
  "Serialize_Coin IsFullyValid c =
     (if IsSpent c then None
      else let code = (coin_nHeight c * 2 + (if fCoinBase c then 1 else 0)) mod 2 ^ 32 in
           Some (WriteVarInt code @ Serialize_CTxOutCompressor IsFullyValid (out c)))"

definition Unserialize_Coin :: "(bytes \<Rightarrow> bytes option) \<Rightarrow> Coin reader" where
  "Unserialize_Coin DecompressKey s =
     ebind (ReadVarInt 32 s) (\<lambda>(code, s).
     ebind (Unserialize_CTxOutCompressor DecompressKey CTxOut_SetNull s) (\<lambda>(o', s).
       Inr (\<lparr>out = o', fCoinBase = odd code, coin_nHeight = code div 2\<rparr>, s)))"

section \<open>Views\<close>

record CCoinsCacheEntry =
  coin :: Coin
  DIRTY :: bool
  FRESH :: bool

definition new_entry :: CCoinsCacheEntry where
  "new_entry = \<lparr>coin = Coin_Clear, DIRTY = False, FRESH = False\<rparr>"

type_synonym CCoinsMap = "(COutPoint \<times> CCoinsCacheEntry) list"

datatype coins_error = AssertFailed | LogicError

text \<open>
  The virtual methods of a view.  \<open>GetCoin\<close> returns whether it found the coin, the coin and
  the view, since a cache may fill itself; \<open>BatchWrite\<close> returns its result or the exception,
  what is left of the map it was given, and the view.
\<close>

record 'v CCoinsView =
  vGetCoin :: "COutPoint \<Rightarrow> 'v \<Rightarrow> bool \<times> Coin \<times> 'v"
  vGetBestBlock :: "'v \<Rightarrow> uint256 \<times> 'v"
  vBatchWrite :: "CCoinsMap \<Rightarrow> uint256 \<Rightarrow> 'v \<Rightarrow> (coins_error + bool) \<times> CCoinsMap \<times> 'v"

definition HaveCoin_view :: "'v CCoinsView \<Rightarrow> COutPoint \<Rightarrow> 'v \<Rightarrow> bool \<times> 'v" where
  "HaveCoin_view V outpoint v = (case vGetCoin V outpoint v of (ok, c, v) \<Rightarrow> (ok, v))"

text \<open>The view without coins.\<close>

definition CCoinsView_empty :: "'v CCoinsView" where
  "CCoinsView_empty = \<lparr>vGetCoin = (\<lambda>outpoint v. (False, Coin_Clear, v)), vGetBestBlock = (\<lambda>v. (0, v)),
     vBatchWrite = (\<lambda>mapCoins hashBlock v. (Inr False, mapCoins, v))\<rparr>"

section \<open>The cache\<close>

record 'v CCoinsViewCache =
  base :: 'v
  hashBlock :: uint256
  cacheCoins :: CCoinsMap
  cachedCoinsUsage :: u64

definition mk_CCoinsViewCache :: "'v \<Rightarrow> 'v CCoinsViewCache" where
  "mk_CCoinsViewCache baseIn = \<lparr>base = baseIn, hashBlock = 0, cacheCoins = [], cachedCoinsUsage = 0\<rparr>"

definition put_entry :: "COutPoint \<Rightarrow> CCoinsCacheEntry \<Rightarrow> 'v CCoinsViewCache \<Rightarrow> 'v CCoinsViewCache" where
  "put_entry o' e c = c\<lparr>cacheCoins := AList.update o' e (cacheCoins c)\<rparr>"

definition erase_entry :: "COutPoint \<Rightarrow> 'v CCoinsViewCache \<Rightarrow> 'v CCoinsViewCache" where
  "erase_entry o' c = c\<lparr>cacheCoins := AList.delete o' (cacheCoins c)\<rparr>"

definition add_usage :: "Coin \<Rightarrow> 'v CCoinsViewCache \<Rightarrow> 'v CCoinsViewCache" where
  "add_usage cn c = c\<lparr>cachedCoinsUsage := cachedCoinsUsage c + Coin_DynamicMemoryUsage cn\<rparr>"

definition sub_usage :: "Coin \<Rightarrow> 'v CCoinsViewCache \<Rightarrow> 'v CCoinsViewCache" where
  "sub_usage cn c = c\<lparr>cachedCoinsUsage := cachedCoinsUsage c - Coin_DynamicMemoryUsage cn\<rparr>"

definition FetchCoin :: "'v CCoinsView \<Rightarrow> COutPoint \<Rightarrow> 'v CCoinsViewCache \<Rightarrow> CCoinsCacheEntry option \<times> 'v CCoinsViewCache" where
  "FetchCoin V outpoint c =
     (case map_of (cacheCoins c) outpoint of
        Some e \<Rightarrow> (Some e, c)
      | None \<Rightarrow> (case vGetCoin V outpoint (base c) of (ok, tmp, b) \<Rightarrow>
          let c = c\<lparr>base := b\<rparr> in
          if \<not> ok then (None, c)
          else let e = \<lparr>coin = tmp, DIRTY = False, FRESH = IsSpent tmp\<rparr> in
               (Some e, add_usage tmp (put_entry outpoint e c))))"

definition GetCoin :: "'v CCoinsView \<Rightarrow> COutPoint \<Rightarrow> 'v CCoinsViewCache \<Rightarrow> bool \<times> Coin \<times> 'v CCoinsViewCache" where
  "GetCoin V outpoint c =
     (case FetchCoin V outpoint c of
        (Some e, c) \<Rightarrow> (\<not> IsSpent (coin e), coin e, c)
      | (None, c) \<Rightarrow> (False, Coin_Clear, c))"

text \<open>\<open>AddCoin\<close> returns the exception it throws, if any, with the cache as it is then.\<close>

definition AddCoin ::
    "COutPoint \<Rightarrow> Coin \<Rightarrow> bool \<Rightarrow> 'v CCoinsViewCache \<Rightarrow> coins_error option \<times> 'v CCoinsViewCache" where
  "AddCoin outpoint cn possible_overwrite c =
     (if IsSpent cn then (Some AssertFailed, c)
      else if IsUnspendable (scriptPubKey (out cn)) then (None, c)
      else
        let inserted = (map_of (cacheCoins c) outpoint = None);
            it = (case map_of (cacheCoins c) outpoint of None \<Rightarrow> new_entry | Some e \<Rightarrow> e);
            c = (if inserted then put_entry outpoint it c else sub_usage (coin it) c)
        in if \<not> possible_overwrite \<and> \<not> IsSpent (coin it) then (Some LogicError, c)
           else let fresh = (\<not> possible_overwrite \<and> \<not> DIRTY it);
                    e = \<lparr>coin = cn, DIRTY = True, FRESH = FRESH it \<or> fresh\<rparr>
                in (None, add_usage cn (put_entry outpoint e c)))"

text \<open>The loop of \<open>AddCoins\<close> over the outputs from index \<open>i\<close> on; an exception ends it.\<close>

fun AddCoins_loop ::
    "uint256 \<Rightarrow> int \<Rightarrow> bool \<Rightarrow> nat \<Rightarrow> CTxOut list \<Rightarrow> 'v CCoinsViewCache \<Rightarrow> coins_error option \<times> 'v CCoinsViewCache" where
  "AddCoins_loop txid nHeight fCoinbase i [] c = (None, c)"
| "AddCoins_loop txid nHeight fCoinbase i (o' # outs) c =
     (case AddCoin \<lparr>prevout_hash = txid, prevout_n = of_nat i\<rparr> (mk_Coin o' nHeight fCoinbase) fCoinbase c of
        (Some e, c) \<Rightarrow> (Some e, c)
      | (None, c) \<Rightarrow> AddCoins_loop txid nHeight fCoinbase (i + 1) outs c)"

definition AddCoins ::
    "(bytes \<Rightarrow> uint256) \<Rightarrow> CTransaction \<Rightarrow> int \<Rightarrow> 'v CCoinsViewCache \<Rightarrow> coins_error option \<times> 'v CCoinsViewCache" where
  "AddCoins Hash tx nHeight c = AddCoins_loop (GetHash Hash tx) nHeight (IsCoinBase tx) 0 (vout tx) c"

definition SpendCoin :: "'v CCoinsView \<Rightarrow> COutPoint \<Rightarrow> 'v CCoinsViewCache \<Rightarrow> bool \<times> Coin \<times> 'v CCoinsViewCache" where
  "SpendCoin V outpoint c =
     (case FetchCoin V outpoint c of
        (None, c) \<Rightarrow> (False, Coin_Clear, c)
      | (Some it, c) \<Rightarrow>
          let c = sub_usage (coin it) c;
              c = (if FRESH it then erase_entry outpoint c
                   else put_entry outpoint \<lparr>coin = Coin_Clear, DIRTY = True, FRESH = False\<rparr> c)
          in (True, coin it, c))"

definition AccessCoin :: "'v CCoinsView \<Rightarrow> COutPoint \<Rightarrow> 'v CCoinsViewCache \<Rightarrow> Coin \<times> 'v CCoinsViewCache" where
  "AccessCoin V outpoint c =
     (case FetchCoin V outpoint c of (None, c) \<Rightarrow> (coinEmpty, c) | (Some it, c) \<Rightarrow> (coin it, c))"

definition HaveCoin :: "'v CCoinsView \<Rightarrow> COutPoint \<Rightarrow> 'v CCoinsViewCache \<Rightarrow> bool \<times> 'v CCoinsViewCache" where
  "HaveCoin V outpoint c =
     (case FetchCoin V outpoint c of (None, c) \<Rightarrow> (False, c) | (Some it, c) \<Rightarrow> (\<not> IsSpent (coin it), c))"

definition HaveCoinInCache :: "COutPoint \<Rightarrow> 'v CCoinsViewCache \<Rightarrow> bool" where
  "HaveCoinInCache outpoint c =
     (case map_of (cacheCoins c) outpoint of None \<Rightarrow> False | Some it \<Rightarrow> \<not> IsSpent (coin it))"

definition GetBestBlock :: "'v CCoinsView \<Rightarrow> 'v CCoinsViewCache \<Rightarrow> uint256 \<times> 'v CCoinsViewCache" where
  "GetBestBlock V c =
     (let c = (if hashBlock c = 0 then case vGetBestBlock V (base c) of (h, b) \<Rightarrow> c\<lparr>base := b, hashBlock := h\<rparr> else c)
      in (hashBlock c, c))"

definition SetBestBlock :: "uint256 \<Rightarrow> 'v CCoinsViewCache \<Rightarrow> 'v CCoinsViewCache" where
  "SetBestBlock hashBlockIn c = c\<lparr>hashBlock := hashBlockIn\<rparr>"

text \<open>One entry of the map that a child cache passes to \<open>BatchWrite\<close>.\<close>

definition BatchWrite_entry ::
    "COutPoint \<Rightarrow> CCoinsCacheEntry \<Rightarrow> 'v CCoinsViewCache \<Rightarrow> coins_error option \<times> 'v CCoinsViewCache" where
  "BatchWrite_entry o' it c =
     (if DIRTY it then
        (case map_of (cacheCoins c) o' of
           None \<Rightarrow>
             if \<not> (FRESH it \<and> IsSpent (coin it))
             then (None, add_usage (coin it) (put_entry o' \<lparr>coin = coin it, DIRTY = True, FRESH = FRESH it\<rparr> c))
             else (None, c)
         | Some itUs \<Rightarrow>
             if FRESH it \<and> \<not> IsSpent (coin itUs) then (Some LogicError, c)
             else if FRESH itUs \<and> IsSpent (coin it) then (None, erase_entry o' (sub_usage (coin itUs) c))
             else (None, add_usage (coin it)
                     (put_entry o' \<lparr>coin = coin it, DIRTY = True, FRESH = FRESH itUs\<rparr> (sub_usage (coin itUs) c))))
      else (None, c))"

fun BatchWrite_loop :: "CCoinsMap \<Rightarrow> 'v CCoinsViewCache \<Rightarrow> coins_error option \<times> CCoinsMap \<times> 'v CCoinsViewCache" where
  "BatchWrite_loop [] c = (None, [], c)"
| "BatchWrite_loop ((o', it) # mapCoins) c =
     (case BatchWrite_entry o' it c of
        (Some e, c) \<Rightarrow> (Some e, (o', it) # mapCoins, c)
      | (None, c) \<Rightarrow> BatchWrite_loop mapCoins c)"

definition BatchWrite ::
    "CCoinsMap \<Rightarrow> uint256 \<Rightarrow> 'v CCoinsViewCache \<Rightarrow> (coins_error + bool) \<times> CCoinsMap \<times> 'v CCoinsViewCache" where
  "BatchWrite mapCoins hashBlockIn c =
     (case BatchWrite_loop mapCoins c of
        (Some e, m, c) \<Rightarrow> (Inl e, m, c)
      | (None, m, c) \<Rightarrow> (Inr True, m, c\<lparr>hashBlock := hashBlockIn\<rparr>))"

definition Flush :: "'v CCoinsView \<Rightarrow> 'v CCoinsViewCache \<Rightarrow> (coins_error + bool) \<times> 'v CCoinsViewCache" where
  "Flush V c =
     (case vBatchWrite V (cacheCoins c) (hashBlock c) (base c) of
        (Inl e, m, b) \<Rightarrow> (Inl e, c\<lparr>base := b, cacheCoins := m\<rparr>)
      | (Inr fOk, m, b) \<Rightarrow> (Inr fOk, c\<lparr>base := b, cacheCoins := [], cachedCoinsUsage := 0\<rparr>))"

definition Uncache :: "COutPoint \<Rightarrow> 'v CCoinsViewCache \<Rightarrow> 'v CCoinsViewCache" where
  "Uncache hash c =
     (case map_of (cacheCoins c) hash of
        None \<Rightarrow> c
      | Some it \<Rightarrow> if \<not> DIRTY it \<and> \<not> FRESH it then erase_entry hash (sub_usage (coin it) c) else c)"

definition GetCacheSize :: "'v CCoinsViewCache \<Rightarrow> nat" where
  "GetCacheSize c = length (cacheCoins c)"

fun GetValueIn_loop :: "'v CCoinsView \<Rightarrow> CTxIn list \<Rightarrow> int \<Rightarrow> 'v CCoinsViewCache \<Rightarrow> amount_error + int \<times> 'v CCoinsViewCache" where
  "GetValueIn_loop V [] nResult c = Inr (nResult, c)"
| "GetValueIn_loop V (i # ins) nResult c =
     (case AccessCoin V (prevout i) c of (cn, c) \<Rightarrow>
        ebind (int64 (nResult + nValue (out cn))) (\<lambda>nResult. GetValueIn_loop V ins nResult c))"

definition GetValueIn :: "'v CCoinsView \<Rightarrow> CTransaction \<Rightarrow> 'v CCoinsViewCache \<Rightarrow> amount_error + int \<times> 'v CCoinsViewCache" where
  "GetValueIn V tx c = (if IsCoinBase tx then Inr (0, c) else GetValueIn_loop V (vin tx) 0 c)"

fun HaveInputs_loop :: "'v CCoinsView \<Rightarrow> CTxIn list \<Rightarrow> 'v CCoinsViewCache \<Rightarrow> bool \<times> 'v CCoinsViewCache" where
  "HaveInputs_loop V [] c = (True, c)"
| "HaveInputs_loop V (i # ins) c =
     (case HaveCoin V (prevout i) c of (False, c) \<Rightarrow> (False, c) | (True, c) \<Rightarrow> HaveInputs_loop V ins c)"

definition HaveInputs :: "'v CCoinsView \<Rightarrow> CTransaction \<Rightarrow> 'v CCoinsViewCache \<Rightarrow> bool \<times> 'v CCoinsViewCache" where
  "HaveInputs V tx c = (if \<not> IsCoinBase tx then HaveInputs_loop V (vin tx) c else (True, c))"

definition MAX_BLOCK_SIZE :: nat where "MAX_BLOCK_SIZE = 1572864"

text \<open>A null output takes nine bytes: the amount and the length of its empty script.\<close>

definition MAX_OUTPUTS_PER_BLOCK :: nat where
  "MAX_OUTPUTS_PER_BLOCK = MAX_BLOCK_SIZE div length (Serialize_CTxOut CTxOut_SetNull)"

function AccessByTxid_loop :: "'v CCoinsView \<Rightarrow> uint256 \<Rightarrow> nat \<Rightarrow> 'v CCoinsViewCache \<Rightarrow> Coin \<times> 'v CCoinsViewCache" where
  "AccessByTxid_loop V txid n c =
     (if n < MAX_OUTPUTS_PER_BLOCK then
        (case AccessCoin V \<lparr>prevout_hash = txid, prevout_n = of_nat n\<rparr> c of (alternate, c) \<Rightarrow>
           if \<not> IsSpent alternate then (alternate, c) else AccessByTxid_loop V txid (n + 1) c)
      else (coinEmpty, c))"
  by pat_completeness auto
termination by (relation "measure (\<lambda>(V, txid, n, c). MAX_OUTPUTS_PER_BLOCK - n)") auto

definition AccessByTxid :: "'v CCoinsView \<Rightarrow> uint256 \<Rightarrow> 'v CCoinsViewCache \<Rightarrow> Coin \<times> 'v CCoinsViewCache" where
  "AccessByTxid V txid c = AccessByTxid_loop V txid 0 c"

declare AccessByTxid_loop.simps [simp del]

text \<open>The methods of a cache over the view \<open>V\<close>, as a view.\<close>

definition cache_view :: "'v CCoinsView \<Rightarrow> 'v CCoinsViewCache CCoinsView" where
  "cache_view V = \<lparr>vGetCoin = GetCoin V, vGetBestBlock = GetBestBlock V, vBatchWrite = BatchWrite\<rparr>"

section \<open>The contract of a view\<close>

definition coin_opt :: "Coin \<Rightarrow> Coin option" where
  "coin_opt c = (if IsSpent c then None else Some c)"

text \<open>What the flags of an entry say about the view below.\<close>

definition entry_ok :: "(Coin \<Rightarrow> bool) \<Rightarrow> Coin option \<Rightarrow> CCoinsCacheEntry \<Rightarrow> bool" where
  "entry_ok storable below e \<longleftrightarrow>
     (\<not> IsSpent (coin e) \<longrightarrow> storable (coin e)) \<and> (\<not> DIRTY e \<longrightarrow> below = coin_opt (coin e)) \<and> (FRESH e \<longrightarrow> below = None)"

definition entries_ok :: "(Coin \<Rightarrow> bool) \<Rightarrow> (COutPoint \<Rightarrow> Coin option) \<Rightarrow> CCoinsMap \<Rightarrow> bool" where
  "entries_ok storable below m \<longleftrightarrow> distinct (map fst m) \<and> (\<forall>o' e. map_of m o' = Some e \<longrightarrow> entry_ok storable (below o') e)"

definition overlay :: "CCoinsMap \<Rightarrow> (COutPoint \<Rightarrow> Coin option) \<Rightarrow> COutPoint \<Rightarrow> Coin option" where
  "overlay m below o' = (case map_of m o' of None \<Rightarrow> below o' | Some e \<Rightarrow> coin_opt (coin e))"

text \<open>The map of unspent coins of a cache over a view with map \<open>utxo\<close>, its best block, and the
  invariant of a cache: the flags of its entries are right and the memory account is exact.\<close>

definition cutxo :: "('v \<Rightarrow> COutPoint \<Rightarrow> Coin option) \<Rightarrow> 'v CCoinsViewCache \<Rightarrow> COutPoint \<Rightarrow> Coin option" where
  "cutxo utxo c = overlay (cacheCoins c) (utxo (base c))"

definition cbest :: "('v \<Rightarrow> uint256) \<Rightarrow> 'v CCoinsViewCache \<Rightarrow> uint256" where
  "cbest best c = (if hashBlock c = 0 then best (base c) else hashBlock c)"

definition entry_usage :: "CCoinsCacheEntry option \<Rightarrow> u64" where
  "entry_usage e = (case e of None \<Rightarrow> 0 | Some e \<Rightarrow> Coin_DynamicMemoryUsage (coin e))"

definition map_usage :: "CCoinsMap \<Rightarrow> u64" where
  "map_usage m = sum_list (map (\<lambda>p. entry_usage (Some (snd p))) m)"

definition cache_inv :: "('v \<Rightarrow> COutPoint \<Rightarrow> Coin option) \<Rightarrow> ('v \<Rightarrow> bool) \<Rightarrow> (Coin \<Rightarrow> bool) \<Rightarrow> 'v CCoinsViewCache \<Rightarrow> bool" where
  "cache_inv utxo vinv storable c \<longleftrightarrow> vinv (base c) \<and> entries_ok storable (utxo (base c)) (cacheCoins c) \<and>
     cachedCoinsUsage c = map_usage (cacheCoins c)"

text \<open>What adding the outputs of a transaction from index \<open>i\<close> on does to the map.\<close>

fun add_outputs :: "uint256 \<Rightarrow> int \<Rightarrow> bool \<Rightarrow> nat \<Rightarrow> CTxOut list \<Rightarrow> (COutPoint \<Rightarrow> Coin option) \<Rightarrow> COutPoint \<Rightarrow> Coin option" where
  "add_outputs txid nHeight fCoinbase i [] u = u"
| "add_outputs txid nHeight fCoinbase i (o' # outs) u =
     add_outputs txid nHeight fCoinbase (i + 1) outs
       (if IsUnspendable (scriptPubKey o') then u
        else u(\<lparr>prevout_hash = txid, prevout_n = of_nat i\<rparr> \<mapsto> mk_Coin o' nHeight fCoinbase))"

section \<open>Entries\<close>

lemma map_usage_update: "map_usage (AList.update o' e m) = map_usage m - entry_usage (map_of m o') + entry_usage (Some e)"
  by (induction m) (auto simp: map_usage_def entry_usage_def)

lemma map_usage_delete:
  "distinct (map fst m) \<Longrightarrow> map_usage (AList.delete o' m) = map_usage m - entry_usage (map_of m o')"
proof (induction m)
  case (Cons p m)
  then show ?case
    by (cases "fst p = o'") (auto simp: map_usage_def entry_usage_def delete_idem map_of_eq_None_iff)
qed (simp add: map_usage_def entry_usage_def)

lemma update_twice: "AList.update o' e (AList.update o' e' m) = AList.update o' e m"
  by (induction m) auto

lemma entries_ok_update:
  assumes "entries_ok storable below m" "entry_ok storable (below o') e"
  shows "entries_ok storable below (AList.update o' e m)"
  using assms by (auto simp: entries_ok_def update_conv' distinct_update)

lemma entries_ok_delete: "entries_ok storable below m \<Longrightarrow> entries_ok storable below (AList.delete o' m)"
  by (auto simp: entries_ok_def delete_conv' distinct_delete)

lemma overlay_update: "overlay (AList.update o' e m) below = (overlay m below)(o' := coin_opt (coin e))"
  by (auto simp: overlay_def update_conv' fun_eq_iff)

lemma overlay_delete: "overlay (AList.delete o' m) below = (overlay m below)(o' := below o')"
  by (auto simp: overlay_def delete_conv' fun_eq_iff)

text \<open>The two ways in which a method changes the cache, with the memory account it must leave.\<close>

lemma put_entry_step:
  assumes "cache_inv utxo vinv storable c" "entry_ok storable (utxo (base c) o') e"
    and "base c' = base c" "cacheCoins c' = AList.update o' e (cacheCoins c)"
    and "cachedCoinsUsage c' = cachedCoinsUsage c - entry_usage (map_of (cacheCoins c) o') + entry_usage (Some e)"
  shows "cache_inv utxo vinv storable c' \<and> cutxo utxo c' = (cutxo utxo c)(o' := coin_opt (coin e))"
  using assms by (simp add: cache_inv_def cutxo_def overlay_update map_usage_update entries_ok_update)

lemma erase_entry_step:
  assumes "cache_inv utxo vinv storable c"
    and "base c' = base c" "cacheCoins c' = AList.delete o' (cacheCoins c)"
    and "cachedCoinsUsage c' = cachedCoinsUsage c - entry_usage (map_of (cacheCoins c) o')"
  shows "cache_inv utxo vinv storable c' \<and> cutxo utxo c' = (cutxo utxo c)(o' := utxo (base c) o')"
proof -
  have "distinct (map fst (cacheCoins c))" using assms(1) by (simp add: cache_inv_def entries_ok_def)
  then show ?thesis using assms by (simp add: cache_inv_def cutxo_def overlay_delete map_usage_delete entries_ok_delete)
qed

lemma cache_inv_entry:
  "cache_inv utxo vinv storable c \<Longrightarrow> map_of (cacheCoins c) o' = Some e \<Longrightarrow>
     entry_ok storable (utxo (base c) o') e \<and> cutxo utxo c o' = coin_opt (coin e)"
  by (simp add: cache_inv_def entries_ok_def cutxo_def overlay_def)

lemma cutxo_miss: "map_of (cacheCoins c) o' = None \<Longrightarrow> cutxo utxo c o' = utxo (base c) o'"
  by (simp add: cutxo_def overlay_def)

lemma usage_of_empty: "entry_usage (Some \<lparr>coin = Coin_Clear, DIRTY = d, FRESH = f\<rparr>) = 0"
  by (simp add: entry_usage_def Coin_DynamicMemoryUsage_def Coin_Clear_def CTxOut_SetNull_def allocated_memory_def MallocUsage_def)

lemma IsSpent_Clear [simp]: "IsSpent Coin_Clear"
  by (simp add: IsSpent_def Coin_Clear_def CTxOut_SetNull_def CTxOut_IsNull_def)

lemmas cache_ops = put_entry_def erase_entry_def add_usage_def sub_usage_def

lemma of_nat_u32_inject: "m < 2 ^ 32 \<Longrightarrow> n < 2 ^ 32 \<Longrightarrow> (of_nat m :: u32) = of_nat n \<longleftrightarrow> m = n"
  by (simp add: word_of_nat_eq_iff take_bit_nat_eq_self)

section \<open>The cache implements its map\<close>

locale coins_view =
  fixes V :: "'v CCoinsView" and utxo :: "'v \<Rightarrow> COutPoint \<Rightarrow> Coin option" and best :: "'v \<Rightarrow> uint256"
    and vinv :: "'v \<Rightarrow> bool" and storable :: "Coin \<Rightarrow> bool"
  assumes get: "vinv v \<Longrightarrow> vGetCoin V o' v = (ok, cn, v') \<Longrightarrow>
      vinv v' \<and> utxo v' = utxo v \<and> best v' = best v \<and> utxo v o' = (if ok then Some cn else None)"
    and unspent: "vinv v \<Longrightarrow> utxo v o' = Some cn \<Longrightarrow> \<not> IsSpent cn \<and> storable cn"
    and get_best: "vinv v \<Longrightarrow> vGetBestBlock V v = (h, v') \<Longrightarrow> vinv v' \<and> utxo v' = utxo v \<and> best v' = best v \<and> h = best v"
    and batch: "vinv v \<Longrightarrow> entries_ok storable (utxo v) m \<Longrightarrow> h \<noteq> 0 \<Longrightarrow>
      \<exists>v'. vBatchWrite V m h v = (Inr True, [], v') \<and> vinv v' \<and> utxo v' = overlay m (utxo v) \<and> best v' = h"
begin

abbreviation "cinv \<equiv> cache_inv utxo vinv storable"
abbreviation "coins \<equiv> cutxo utxo"
abbreviation "top_block \<equiv> cbest best"

lemma refill_base:
  assumes "cinv c" "vinv b" "utxo b = utxo (base c)" "best b = best (base c)"
  shows "cinv (c\<lparr>base := b\<rparr>) \<and> coins (c\<lparr>base := b\<rparr>) = coins c \<and> top_block (c\<lparr>base := b\<rparr>) = top_block c"
  using assms by (simp add: cache_inv_def cutxo_def cbest_def)

lemma FetchCoin_spec:
  assumes "cinv c" "FetchCoin V o' c = (e, c')"
  shows "cinv c' \<and> coins c' = coins c \<and> top_block c' = top_block c \<and> map_of (cacheCoins c') o' = e \<and>
    coins c o' = (case e of None \<Rightarrow> None | Some e \<Rightarrow> coin_opt (coin e))"
proof (cases "map_of (cacheCoins c) o'")
  case (Some e')
  moreover have "e = Some e'" "c' = c" using assms(2) Some by (simp_all add: FetchCoin_def)
  ultimately show ?thesis using assms(1) cache_inv_entry [OF assms(1) Some] by simp
next
  case None
  obtain ok tmp b where g: "vGetCoin V o' (base c) = (ok, tmp, b)" by (rule prod_cases3)
  define c1 where "c1 = c\<lparr>base := b\<rparr>"
  have b: "vinv b" "utxo b = utxo (base c)" "best b = best (base c)" "utxo (base c) o' = (if ok then Some tmp else None)"
    using get [OF _ g] assms(1) by (auto simp: cache_inv_def)
  have c1: "cinv c1" "coins c1 = coins c" "top_block c1 = top_block c" "map_of (cacheCoins c1) o' = None" "base c1 = b"
    using refill_base [OF assms(1) b(1-3)] None by (simp_all add: c1_def)
  show ?thesis
  proof (cases ok)
    case False
    then show ?thesis using assms(2) None g c1 b(4) cutxo_miss [OF None, of utxo] by (simp add: FetchCoin_def c1_def)
  next
    case True
    define en where "en = \<lparr>coin = tmp, DIRTY = False, FRESH = IsSpent tmp\<rparr>"
    have tmp: "\<not> IsSpent tmp" "storable tmp" "coins c o' = Some tmp"
      using unspent [of "base c" o' tmp] b(4) True assms(1) cutxo_miss [OF None, of utxo] by (auto simp: cache_inv_def)
    have r: "e = Some en" "c' = add_usage tmp (put_entry o' en c1)"
      using assms(2) None g True by (simp_all add: FetchCoin_def c1_def en_def Let_def)
    have "cinv c' \<and> coins c' = (coins c1)(o' := coin_opt (coin en))"
      by (rule put_entry_step [OF c1(1)])
         (use tmp b True c1 in \<open>auto simp: r en_def entry_ok_def coin_opt_def cache_ops entry_usage_def\<close>)
    moreover have "top_block c' = top_block c" using c1(3) by (auto simp: r cache_ops cbest_def)
    moreover have "map_of (cacheCoins c') o' = e" by (simp add: r cache_ops update_conv')
    ultimately show ?thesis using tmp c1(2) r(1) by (simp add: en_def coin_opt_def fun_upd_idem)
  qed
qed

lemma GetCoin_spec:
  assumes "cinv c" "GetCoin V o' c = (ok, cn, c')"
  shows "cinv c' \<and> coins c' = coins c \<and> top_block c' = top_block c \<and> coins c o' = (if ok then Some cn else None)"
proof -
  obtain e c1 where f: "FetchCoin V o' c = (e, c1)" by fastforce
  show ?thesis using FetchCoin_spec [OF assms(1) f] assms(2) f
    by (auto simp: GetCoin_def coin_opt_def split: option.splits)
qed

lemma HaveCoin_spec:
  assumes "cinv c" "HaveCoin V o' c = (ok, c')"
  shows "cinv c' \<and> coins c' = coins c \<and> top_block c' = top_block c \<and> (ok \<longleftrightarrow> coins c o' \<noteq> None)"
proof -
  obtain e c1 where f: "FetchCoin V o' c = (e, c1)" by fastforce
  show ?thesis using FetchCoin_spec [OF assms(1) f] assms(2) f
    by (auto simp: HaveCoin_def coin_opt_def split: option.splits)
qed

lemma AccessCoin_spec:
  assumes "cinv c" "AccessCoin V o' c = (cn, c')"
  shows "cinv c' \<and> coins c' = coins c \<and> top_block c' = top_block c \<and> coin_opt cn = coins c o'"
proof -
  obtain e c1 where f: "FetchCoin V o' c = (e, c1)" by fastforce
  show ?thesis using FetchCoin_spec [OF assms(1) f] assms(2) f
    by (auto simp: AccessCoin_def coin_opt_def coinEmpty_def split: option.splits)
qed

lemma AddCoin_spec:
  assumes "cinv c" "\<not> IsSpent cn" "storable cn" "\<not> overwrite \<Longrightarrow> coins c o' = None"
  shows "\<exists>c'. AddCoin o' cn overwrite c = (None, c') \<and> cinv c' \<and> top_block c' = top_block c \<and>
    coins c' = (if IsUnspendable (scriptPubKey (out cn)) then coins c else (coins c)(o' \<mapsto> cn))"
proof (cases "IsUnspendable (scriptPubKey (out cn))")
  case True
  then show ?thesis using assms by (simp add: AddCoin_def)
next
  case False
  define it where "it = (case map_of (cacheCoins c) o' of None \<Rightarrow> new_entry | Some e \<Rightarrow> e)"
  define c1 where "c1 = (if map_of (cacheCoins c) o' = None then put_entry o' it c else sub_usage (coin it) c)"
  define e where "e = \<lparr>coin = cn, DIRTY = True, FRESH = FRESH it \<or> (\<not> overwrite \<and> \<not> DIRTY it)\<rparr>"
  have "coin_opt (coin it) = None" if "\<not> overwrite"
    using cache_inv_entry [OF assms(1), of o'] assms(4) [OF that]
    by (cases "map_of (cacheCoins c) o'") (auto simp: it_def new_entry_def coin_opt_def)
  then have spent: "\<not> overwrite \<Longrightarrow> IsSpent (coin it)" by (auto simp: coin_opt_def split: if_splits)
  have "utxo (base c) o' = None" if "FRESH e"
    using that cache_inv_entry [OF assms(1), of o'] cutxo_miss [of c o' utxo] assms(4) spent
    by (cases "map_of (cacheCoins c) o'") (auto simp: e_def it_def new_entry_def entry_ok_def coin_opt_def)
  then have ok: "entry_ok storable (utxo (base c) o') e" using assms(2,3) by (auto simp: entry_ok_def e_def)
  have r: "AddCoin o' cn overwrite c = (None, add_usage cn (put_entry o' e c1))"
    using assms(2) False spent by (auto simp: AddCoin_def it_def c1_def e_def Let_def)
  have upd: "AList.update o' e (cacheCoins c1) = AList.update o' e (cacheCoins c)"
    by (simp add: c1_def cache_ops update_twice)
  have "cinv (add_usage cn (put_entry o' e c1)) \<and> coins (add_usage cn (put_entry o' e c1)) = (coins c)(o' := coin_opt (coin e))"
    by (rule put_entry_step [OF assms(1) ok])
       (auto simp: cache_ops upd, auto simp: c1_def it_def new_entry_def cache_ops entry_usage_def e_def split: option.splits)
  then show ?thesis using r False assms(2) by (auto simp: cbest_def c1_def cache_ops e_def coin_opt_def)
qed

lemma SpendCoin_spec:
  assumes "cinv c" "SpendCoin V o' c = (ok, cn, c')"
  shows "cinv c' \<and> coins c' = (coins c)(o' := None) \<and> top_block c' = top_block c \<and>
    coin_opt cn = coins c o' \<and> (coins c o' \<noteq> None \<longrightarrow> ok)"
proof -
  obtain e c1 where f: "FetchCoin V o' c = (e, c1)" by fastforce
  note fs = FetchCoin_spec [OF assms(1) f]
  show ?thesis
  proof (cases e)
    case None
    then show ?thesis using fs assms(2) f by (auto simp: SpendCoin_def coin_opt_def fun_upd_idem_iff)
  next
    case (Some it)
    define cl where "cl = \<lparr>coin = Coin_Clear, DIRTY = True, FRESH = False\<rparr>"
    define c2 where "c2 = sub_usage (coin it) c1"
    have en: "map_of (cacheCoins c1) o' = Some it" "entry_ok storable (utxo (base c1) o') it"
      using fs Some cache_inv_entry [of utxo vinv storable c1 o' it] by auto
    have r: "ok" "cn = coin it" "c' = (if FRESH it then erase_entry o' c2 else put_entry o' cl c2)"
      using assms(2) f Some by (auto simp: SpendCoin_def c2_def cl_def Let_def)
    have "cinv c' \<and> coins c' = (coins c1)(o' := None)"
    proof (cases "FRESH it")
      case True
      then have "utxo (base c1) o' = None" using en by (simp add: entry_ok_def)
      moreover have "cinv c' \<and> coins c' = (coins c1)(o' := utxo (base c1) o')"
        by (rule erase_entry_step) (use conjunct1 [OF fs] True en(1) r(3) in \<open>simp_all add: c2_def cache_ops entry_usage_def\<close>)
      ultimately show ?thesis by simp
    next
      case False
      have "cinv c' \<and> coins c' = (coins c1)(o' := coin_opt (coin cl))"
      proof (rule put_entry_step)
        show "entry_ok storable (utxo (base c1) o') cl" by (simp add: entry_ok_def cl_def)
        have "entry_usage (Some cl) = 0" unfolding cl_def by (rule usage_of_empty)
        then show "cachedCoinsUsage c' = cachedCoinsUsage c1 - entry_usage (map_of (cacheCoins c1) o') + entry_usage (Some cl)"
          using False en(1) r(3) by (simp add: c2_def cache_ops) (simp add: entry_usage_def)
      qed (use fs False r(3) in \<open>simp_all add: c2_def cache_ops\<close>)
      then show ?thesis by (simp add: cl_def coin_opt_def)
    qed
    moreover have "top_block c' = top_block c1" by (simp add: r c2_def cache_ops cbest_def)
    ultimately show ?thesis using fs Some r(1,2) by simp
  qed
qed

lemma BatchWrite_entry_spec:
  assumes "cinv c" "entry_ok storable (coins c o') it"
  shows "\<exists>c'. BatchWrite_entry o' it c = (None, c') \<and> cinv c' \<and> coins c' = (coins c)(o' := coin_opt (coin it))"
proof (cases "DIRTY it")
  case False
  then have "coins c o' = coin_opt (coin it)" using assms(2) by (simp add: entry_ok_def)
  then show ?thesis using False assms(1) by (simp add: BatchWrite_entry_def fun_upd_idem)
next
  case dirty: True
  show ?thesis
  proof (cases "map_of (cacheCoins c) o'")
    case None
    define e where "e = \<lparr>coin = coin it, DIRTY = True, FRESH = FRESH it\<rparr>"
    have below: "utxo (base c) o' = coins c o'" using cutxo_miss [OF None, of utxo] by simp
    show ?thesis
    proof (cases "FRESH it \<and> IsSpent (coin it)")
      case True
      then have "coins c o' = coin_opt (coin it)" using assms(2) by (simp add: entry_ok_def coin_opt_def)
      then show ?thesis using True dirty None assms(1) by (simp add: BatchWrite_entry_def fun_upd_idem)
    next
      case False
      have "cinv (add_usage (coin it) (put_entry o' e c)) \<and>
          coins (add_usage (coin it) (put_entry o' e c)) = (coins c)(o' := coin_opt (coin e))"
        by (rule put_entry_step [OF assms(1)])
           (use assms(2) None below in \<open>auto simp: e_def entry_ok_def cache_ops entry_usage_def\<close>)
      then show ?thesis using False dirty None by (simp add: BatchWrite_entry_def e_def)
    qed
  next
    case (Some us)
    define e where "e = \<lparr>coin = coin it, DIRTY = True, FRESH = FRESH us\<rparr>"
    have us: "entry_ok storable (utxo (base c) o') us" "coins c o' = coin_opt (coin us)"
      using cache_inv_entry [OF assms(1) Some] by auto
    have nothrow: "\<not> (FRESH it \<and> \<not> IsSpent (coin us))" using us(2) assms(2) by (auto simp: entry_ok_def coin_opt_def split: if_splits)
    show ?thesis
    proof (cases "FRESH us \<and> IsSpent (coin it)")
      case True
      have "cinv (erase_entry o' (sub_usage (coin us) c)) \<and>
          coins (erase_entry o' (sub_usage (coin us) c)) = (coins c)(o' := utxo (base c) o')"
        by (rule erase_entry_step [OF assms(1)]) (use Some in \<open>simp_all add: cache_ops entry_usage_def\<close>)
      moreover have "utxo (base c) o' = coin_opt (coin it)" using True us(1) by (simp add: entry_ok_def coin_opt_def)
      moreover have "BatchWrite_entry o' it c = (None, erase_entry o' (sub_usage (coin us) c))"
        using True dirty Some nothrow by (auto simp: BatchWrite_entry_def)
      ultimately show ?thesis by simp
    next
      case False
      define c' where "c' = add_usage (coin it) (put_entry o' e (sub_usage (coin us) c))"
      have "cinv c' \<and> coins c' = (coins c)(o' := coin_opt (coin e))"
        by (rule put_entry_step [OF assms(1)])
           (use assms(2) Some us in \<open>auto simp: c'_def e_def entry_ok_def cache_ops entry_usage_def\<close>)
      moreover have "BatchWrite_entry o' it c = (None, c')"
        using False dirty Some nothrow by (auto simp: BatchWrite_entry_def e_def c'_def)
      ultimately show ?thesis by (simp add: e_def)
    qed
  qed
qed

lemma BatchWrite_loop_spec:
  assumes "cinv c" "entries_ok storable (coins c) m"
  shows "\<exists>c'. BatchWrite_loop m c = (None, [], c') \<and> cinv c' \<and> coins c' = overlay m (coins c)"
  using assms
proof (induction m arbitrary: c)
  case (Cons p m)
  obtain o' it where p: "p = (o', it)" by (cases p)
  have "entry_ok storable (coins c o') it" using Cons.prems(2) by (simp add: p entries_ok_def)
  then obtain c1 where c1: "BatchWrite_entry o' it c = (None, c1)" "cinv c1" "coins c1 = (coins c)(o' := coin_opt (coin it))"
    using BatchWrite_entry_spec [OF Cons.prems(1)] by blast
  have new: "o' \<notin> fst ` set m" using Cons.prems(2) by (simp add: p entries_ok_def)
  then have "map_of m o' = None" by (simp add: map_of_eq_None_iff)
  then have "entries_ok storable (coins c1) m"
    using Cons.prems(2) new by (auto simp: p entries_ok_def c1(3) split: if_splits)
  then obtain c' where c': "BatchWrite_loop m c1 = (None, [], c')" "cinv c'" "coins c' = overlay m (coins c1)"
    using Cons.IH c1(2) by blast
  have "overlay m (coins c1) = overlay (p # m) (coins c)"
    using \<open>map_of m o' = None\<close> by (auto simp: overlay_def p c1(3) fun_eq_iff split: option.split)
  then show ?case using c' c1(1) by (simp add: p)
qed (simp add: overlay_def fun_eq_iff)

lemma BatchWrite_spec:
  assumes "cinv c" "entries_ok storable (coins c) m" "h \<noteq> 0"
  shows "\<exists>c'. BatchWrite m h c = (Inr True, [], c') \<and> cinv c' \<and> coins c' = overlay m (coins c) \<and> top_block c' = h"
proof -
  obtain c' where c': "BatchWrite_loop m c = (None, [], c')" "cinv c'" "coins c' = overlay m (coins c)"
    using BatchWrite_loop_spec [OF assms(1,2)] by blast
  have "cinv (c'\<lparr>hashBlock := h\<rparr>)" "coins (c'\<lparr>hashBlock := h\<rparr>) = coins c'" "top_block (c'\<lparr>hashBlock := h\<rparr>) = h"
    using c'(2) assms(3) by (simp_all add: cache_inv_def cutxo_def cbest_def)
  then show ?thesis using c' by (simp add: BatchWrite_def)
qed

lemma Flush_spec:
  assumes "cinv c" "hashBlock c \<noteq> 0"
  shows "\<exists>c'. Flush V c = (Inr True, c') \<and> cinv c' \<and> coins c' = coins c \<and> top_block c' = top_block c \<and>
    cacheCoins c' = [] \<and> utxo (base c') = coins c \<and> best (base c') = hashBlock c"
proof -
  obtain b where b: "vBatchWrite V (cacheCoins c) (hashBlock c) (base c) = (Inr True, [], b)" "vinv b"
      "utxo b = overlay (cacheCoins c) (utxo (base c))" "best b = hashBlock c"
    using batch [of "base c" "cacheCoins c" "hashBlock c"] assms by (auto simp: cache_inv_def)
  then show ?thesis using assms(2)
    by (auto simp: Flush_def cache_inv_def cutxo_def cbest_def entries_ok_def map_usage_def overlay_def)
qed

lemma Uncache_spec:
  assumes "cinv c"
  shows "cinv (Uncache o' c) \<and> coins (Uncache o' c) = coins c \<and> top_block (Uncache o' c) = top_block c"
proof (cases "\<exists>it. map_of (cacheCoins c) o' = Some it \<and> \<not> DIRTY it \<and> \<not> FRESH it")
  case True
  then obtain it where it: "map_of (cacheCoins c) o' = Some it" "\<not> DIRTY it" "\<not> FRESH it" by blast
  then have u: "Uncache o' c = erase_entry o' (sub_usage (coin it) c)" by (simp add: Uncache_def)
  have "cinv (Uncache o' c) \<and> coins (Uncache o' c) = (coins c)(o' := utxo (base c) o')"
    by (rule erase_entry_step [OF assms]) (use it u in \<open>simp_all add: cache_ops entry_usage_def\<close>)
  moreover have "coins c o' = utxo (base c) o'" using cache_inv_entry [OF assms it(1)] it(2) by (simp add: entry_ok_def)
  moreover have "top_block (Uncache o' c) = top_block c" by (simp add: u cache_ops cbest_def)
  ultimately show ?thesis by (simp add: fun_upd_idem)
qed (use assms in \<open>auto simp: Uncache_def split: option.splits\<close>)

lemma GetBestBlock_spec:
  assumes "cinv c" "GetBestBlock V c = (h, c')"
  shows "cinv c' \<and> coins c' = coins c \<and> top_block c' = top_block c \<and> h = top_block c"
proof (cases "hashBlock c = 0")
  case True
  obtain h' b where g: "vGetBestBlock V (base c) = (h', b)" by fastforce
  have "vinv b" "utxo b = utxo (base c)" "best b = best (base c)" "h' = best (base c)"
    using get_best [OF _ g] assms(1) by (auto simp: cache_inv_def)
  then show ?thesis using assms g True by (auto simp: GetBestBlock_def cache_inv_def cutxo_def cbest_def)
qed (use assms in \<open>auto simp: GetBestBlock_def cbest_def\<close>)

lemma SetBestBlock_spec:
  "cinv c \<Longrightarrow> h \<noteq> 0 \<Longrightarrow> cinv (SetBestBlock h c) \<and> coins (SetBestBlock h c) = coins c \<and> top_block (SetBestBlock h c) = h"
  by (simp add: SetBestBlock_def cache_inv_def cutxo_def cbest_def)

lemma new_cache:
  "vinv v \<Longrightarrow> cinv (mk_CCoinsViewCache v) \<and> coins (mk_CCoinsViewCache v) = utxo v \<and> top_block (mk_CCoinsViewCache v) = best v"
  by (simp add: mk_CCoinsViewCache_def cache_inv_def cutxo_def cbest_def overlay_def fun_eq_iff entries_ok_def map_usage_def)

lemma coins_unspent: "cinv c \<Longrightarrow> coins c o' = Some cn \<Longrightarrow> \<not> IsSpent cn \<and> storable cn"
  using unspent [of "base c" o' cn] cache_inv_entry [of utxo vinv storable c o'] cutxo_miss [of c o' utxo]
  by (cases "map_of (cacheCoins c) o'") (auto simp: cache_inv_def entry_ok_def coin_opt_def split: if_splits)

lemma AddCoins_loop_spec:
  assumes "cinv c" "\<forall>o'\<in>set outs. \<not> CTxOut_IsNull o' \<and> storable (mk_Coin o' nHeight fCoinbase)"
    and "\<not> fCoinbase \<Longrightarrow> \<forall>k<length outs. coins c \<lparr>prevout_hash = txid, prevout_n = of_nat (i + k)\<rparr> = None"
    and "i + length outs \<le> 2 ^ 32"
  shows "\<exists>c'. AddCoins_loop txid nHeight fCoinbase i outs c = (None, c') \<and> cinv c' \<and> top_block c' = top_block c \<and>
    coins c' = add_outputs txid nHeight fCoinbase i outs (coins c)"
  using assms
proof (induction outs arbitrary: i c)
  case (Cons o' outs)
  let ?op = "\<lparr>prevout_hash = txid, prevout_n = of_nat i\<rparr>" and ?cn = "mk_Coin o' nHeight fCoinbase"
  have cn: "\<not> IsSpent ?cn" "storable ?cn" "out ?cn = o'" using Cons.prems(2) by (simp_all add: IsSpent_def mk_Coin_def)
  have "coins c ?op = None" if "\<not> fCoinbase" using Cons.prems(3) [OF that, rule_format, of 0] by simp
  then obtain c1 where c1: "AddCoin ?op ?cn fCoinbase c = (None, c1)" "cinv c1" "top_block c1 = top_block c"
      "coins c1 = (if IsUnspendable (scriptPubKey o') then coins c else (coins c)(?op \<mapsto> ?cn))"
    using AddCoin_spec [OF Cons.prems(1) cn(1,2)] cn(3) by metis
  have "coins c1 \<lparr>prevout_hash = txid, prevout_n = of_nat (i + 1 + k)\<rparr> = None" if k: "\<not> fCoinbase" "k < length outs" for k
  proof -
    have "of_nat (i + 1 + k) \<noteq> (of_nat i :: u32)"
      using of_nat_u32_inject [of "i + 1 + k" i] Cons.prems(4) k(2) by simp
    then show ?thesis using Cons.prems(3) [OF k(1), rule_format, of "Suc k"] k(2) c1(4) by simp
  qed
  then obtain c' where "AddCoins_loop txid nHeight fCoinbase (i + 1) outs c1 = (None, c')" "cinv c'" "top_block c' = top_block c1"
      "coins c' = add_outputs txid nHeight fCoinbase (i + 1) outs (coins c1)"
    using Cons.IH [OF c1(2), of "i + 1"] Cons.prems(2,4) by auto
  then show ?case using c1 by simp
qed simp

lemma HaveInputs_loop_spec:
  assumes "cinv c" "HaveInputs_loop V ins c = (ok, c')"
  shows "cinv c' \<and> coins c' = coins c \<and> top_block c' = top_block c \<and> (ok \<longleftrightarrow> (\<forall>i\<in>set ins. coins c (prevout i) \<noteq> None))"
  using assms
proof (induction ins arbitrary: c)
  case (Cons i ins)
  obtain h c1 where h: "HaveCoin V (prevout i) c = (h, c1)" by fastforce
  note hs = HaveCoin_spec [OF Cons.prems(1) h]
  show ?case
  proof (cases h)
    case True
    then have "HaveInputs_loop V ins c1 = (ok, c')" using Cons.prems(2) h by simp
    then show ?thesis using Cons.IH [of c1] hs True by auto
  qed (use Cons.prems h hs in auto)
qed auto

lemma GetValueIn_loop_spec:
  assumes "cinv c" "\<forall>i\<in>set ins. \<exists>cn. coins c (prevout i) = Some cn \<and> 0 \<le> nValue (out cn)" "0 \<le> acc"
    and "acc + (\<Sum>i\<leftarrow>ins. nValue (out (the (coins c (prevout i))))) < 2 ^ 63"
  shows "\<exists>c'. GetValueIn_loop V ins acc c = Inr (acc + (\<Sum>i\<leftarrow>ins. nValue (out (the (coins c (prevout i))))), c') \<and>
    cinv c' \<and> coins c' = coins c \<and> top_block c' = top_block c"
  using assms
proof (induction ins arbitrary: acc c)
  case (Cons i ins)
  obtain cn c1 where a: "AccessCoin V (prevout i) c = (cn, c1)" by fastforce
  note as = AccessCoin_spec [OF Cons.prems(1) a]
  then have cn: "coins c (prevout i) = Some cn" "0 \<le> nValue (out cn)"
    using Cons.prems(2) by (auto simp: coin_opt_def split: if_splits)
  have "0 \<le> (\<Sum>i\<leftarrow>ins. nValue (out (the (coins c (prevout i)))))" using Cons.prems(2) by (intro sum_list_nonneg) auto
  then have "int64 (acc + nValue (out cn)) = Inr (acc + nValue (out cn))"
    using Cons.prems(3,4) cn by (simp add: int64_def in_int_def)
  then show ?case using Cons.IH [of c1 "acc + nValue (out cn)"] Cons.prems(2-4) as cn a by (simp add: add.assoc)
qed simp

lemma AccessByTxid_loop_spec:
  assumes "cinv c" "AccessByTxid_loop V txid n c = (cn, c')"
  shows "cinv c' \<and> coins c' = coins c \<and> top_block c' = top_block c \<and>
    (if IsSpent cn then \<forall>k. n \<le> k \<and> k < MAX_OUTPUTS_PER_BLOCK \<longrightarrow> coins c \<lparr>prevout_hash = txid, prevout_n = of_nat k\<rparr> = None
     else \<exists>k. n \<le> k \<and> k < MAX_OUTPUTS_PER_BLOCK \<and> coins c \<lparr>prevout_hash = txid, prevout_n = of_nat k\<rparr> = Some cn)"
  using assms
proof (induction "MAX_OUTPUTS_PER_BLOCK - n" arbitrary: n c)
  case 0
  then show ?case by (auto simp: AccessByTxid_loop.simps [of V txid n] coinEmpty_def)
next
  case (Suc d)
  let ?op = "\<lambda>k. \<lparr>prevout_hash = txid, prevout_n = of_nat k\<rparr>"
  have n: "n < MAX_OUTPUTS_PER_BLOCK" "d = MAX_OUTPUTS_PER_BLOCK - (n + 1)" using Suc.hyps(2) by auto
  obtain alt c1 where a: "AccessCoin V (?op n) c = (alt, c1)" by fastforce
  note as = AccessCoin_spec [OF Suc.prems(1) a]
  then have as1: "cinv c1" "coins c1 = coins c" "top_block c1 = top_block c" by auto
  show ?case
  proof (cases "IsSpent alt")
    case True
    then have "AccessByTxid_loop V txid (n + 1) c1 = (cn, c')"
      using Suc.prems(2) a n(1) by (simp add: AccessByTxid_loop.simps [of V txid n c])
    then have "cinv c' \<and> coins c' = coins c \<and> top_block c' = top_block c \<and>
      (if IsSpent cn then \<forall>k. n + 1 \<le> k \<and> k < MAX_OUTPUTS_PER_BLOCK \<longrightarrow> coins c (?op k) = None
       else \<exists>k. n + 1 \<le> k \<and> k < MAX_OUTPUTS_PER_BLOCK \<and> coins c (?op k) = Some cn)"
      using Suc.hyps(1) [OF n(2) as1(1)] unfolding as1(2,3) by blast
    moreover have "coins c (?op n) = None" using as True by (simp add: coin_opt_def)
    moreover have "n \<le> k \<longleftrightarrow> k = n \<or> n + 1 \<le> k" for k by auto
    ultimately show ?thesis by (cases "IsSpent cn") auto
  next
    case False
    then show ?thesis using Suc.prems(2) a n(1) as by (auto simp: AccessByTxid_loop.simps [of V txid n c] coin_opt_def)
  qed
qed

text \<open>A cache over a view is a view.\<close>

lemma cache_is_view: "coins_view (cache_view V) coins top_block cinv storable"
proof
  fix c o' ok cn c'
  assume "cinv c" "vGetCoin (cache_view V) o' c = (ok, cn, c')"
  then show "cinv c' \<and> coins c' = coins c \<and> top_block c' = top_block c \<and> coins c o' = (if ok then Some cn else None)"
    using GetCoin_spec by (simp add: cache_view_def)
next
  fix c o' cn
  assume "cinv c" "coins c o' = Some cn"
  then show "\<not> IsSpent cn \<and> storable cn" by (rule coins_unspent)
next
  fix c h c'
  assume "cinv c" "vGetBestBlock (cache_view V) c = (h, c')"
  then show "cinv c' \<and> coins c' = coins c \<and> top_block c' = top_block c \<and> h = top_block c"
    using GetBestBlock_spec by (simp add: cache_view_def)
next
  fix c m and h :: uint256
  assume "cinv c" "entries_ok storable (coins c) m" "h \<noteq> 0"
  then show "\<exists>c'. vBatchWrite (cache_view V) m h c = (Inr True, [], c') \<and> cinv c' \<and>
      coins c' = overlay m (coins c) \<and> top_block c' = h"
    using BatchWrite_spec by (simp add: cache_view_def)
qed

end

end
