(* ===== verification/CoinsDB.thy ===== *)
theory CoinsDB
  imports Coins
begin

unbundle bit_operations_syntax

text \<open>
  The database wrapper of \<open>src/src/dbwrapper.h\<close> and \<open>dbwrapper.cpp\<close>, and the view on the coin
  database of \<open>src/src/txdb.cpp\<close>.

  The LevelDB store is a map from byte strings to byte strings, and a write batch the list of
  its puts and deletes, applied in order and as a whole; errors of the store are not modelled.

  Shown: the obfuscation of values is undone by the same key, the key that was chosen when the
  database was created is found again, and the coin database implements the contract
  \<open>coins_view\<close>, so that caches over it do.
\<close>

section \<open>The database wrapper\<close>

text \<open>\<open>CDataStream::Xor\<close>: \<open>j\<close> runs around the key.\<close>

fun Xor_loop :: "bytes \<Rightarrow> nat \<Rightarrow> bytes \<Rightarrow> bytes" where
  "Xor_loop key j [] = []"
| "Xor_loop key j (b # bs) = (b XOR key ! j) # Xor_loop key (if j + 1 = length key then 0 else j + 1) bs"

definition Xor :: "bytes \<Rightarrow> bytes \<Rightarrow> bytes" where
  "Xor key v = (if length key = 0 then v else Xor_loop key 0 v)"

datatype batch_op = Put bytes bytes | Delete bytes

record CDBWrapper =
  pdb :: "bytes \<Rightarrow> bytes option"
  obfuscate_key :: bytes

record CDBBatch =
  batch_ops :: "batch_op list"
  size_estimate :: nat

definition mk_CDBBatch :: CDBBatch where
  "mk_CDBBatch = \<lparr>batch_ops = [], size_estimate = 0\<rparr>"

definition batch_Write :: "CDBWrapper \<Rightarrow> bytes \<Rightarrow> bytes \<Rightarrow> CDBBatch \<Rightarrow> CDBBatch" where
  "batch_Write db ssKey value b =
     (let ssValue = Xor (obfuscate_key db) value in
      b\<lparr>batch_ops := batch_ops b @ [Put ssKey ssValue],
        size_estimate := size_estimate b + 3 + (if length ssKey > 127 then 1 else 0) + length ssKey +
          (if length ssValue > 127 then 1 else 0) + length ssValue\<rparr>)"

definition batch_Erase :: "bytes \<Rightarrow> CDBBatch \<Rightarrow> CDBBatch" where
  "batch_Erase ssKey b =
     b\<lparr>batch_ops := batch_ops b @ [Delete ssKey],
       size_estimate := size_estimate b + 2 + (if length ssKey > 127 then 1 else 0) + length ssKey\<rparr>"

text \<open>The store applies the operations of a batch in order.\<close>

definition apply_op :: "batch_op \<Rightarrow> (bytes \<Rightarrow> bytes option) \<Rightarrow> bytes \<Rightarrow> bytes option" where
  "apply_op op m = (case op of Put k v \<Rightarrow> m(k \<mapsto> v) | Delete k \<Rightarrow> m(k := None))"

lemma apply_op_simps [simp]: "apply_op (Put k v) m = m(k \<mapsto> v)" "apply_op (Delete k) m = m(k := None)"
  by (simp_all add: apply_op_def)

definition WriteBatch :: "CDBBatch \<Rightarrow> CDBWrapper \<Rightarrow> bool \<times> CDBWrapper" where
  "WriteBatch b db = (True, db\<lparr>pdb := fold apply_op (batch_ops b) (pdb db)\<rparr>)"

text \<open>Reading fails when the key is absent and when its value does not parse.\<close>

definition db_Read :: "bytes \<Rightarrow> 'a reader \<Rightarrow> CDBWrapper \<Rightarrow> 'a option" where
  "db_Read ssKey unser db =
     (case pdb db ssKey of
        None \<Rightarrow> None
      | Some strValue \<Rightarrow> (case unser (Xor (obfuscate_key db) strValue) of Inl e \<Rightarrow> None | Inr (value, s) \<Rightarrow> Some value))"

definition db_Write :: "bytes \<Rightarrow> bytes \<Rightarrow> CDBWrapper \<Rightarrow> bool \<times> CDBWrapper" where
  "db_Write ssKey value db = WriteBatch (batch_Write db ssKey value mk_CDBBatch) db"

definition db_Exists :: "bytes \<Rightarrow> CDBWrapper \<Rightarrow> bool" where
  "db_Exists ssKey db \<longleftrightarrow> pdb db ssKey \<noteq> None"

definition db_Erase :: "bytes \<Rightarrow> CDBWrapper \<Rightarrow> bool \<times> CDBWrapper" where
  "db_Erase ssKey db = WriteBatch (batch_Erase ssKey mk_CDBBatch) db"

text \<open>The key under which the obfuscation key is stored: a string of 14 characters, the first
  of them null.\<close>

definition OBFUSCATE_KEY_KEY :: bytes where
  "OBFUSCATE_KEY_KEY = Serialize_bytes (map of_char (CHR 0x00 # ''obfuscate_key''))"

definition OBFUSCATE_KEY_NUM_BYTES :: nat where
  "OBFUSCATE_KEY_NUM_BYTES = 8"

text \<open>Opening a store; \<open>is_empty\<close> is the answer of \<open>IsEmpty\<close> and \<open>new_key\<close> the random key that
  \<open>CreateObfuscateKey\<close> would return.\<close>

definition CDBWrapper_open :: "(bytes \<Rightarrow> bytes option) \<Rightarrow> bool \<Rightarrow> bool \<Rightarrow> bytes \<Rightarrow> CDBWrapper" where
  "CDBWrapper_open store obfuscate is_empty new_key =
     (let db = \<lparr>pdb = store, obfuscate_key = replicate OBFUSCATE_KEY_NUM_BYTES 0\<rparr>
      in case db_Read OBFUSCATE_KEY_KEY Unserialize_bytes db of
           Some key \<Rightarrow> db\<lparr>obfuscate_key := key\<rparr>
         | None \<Rightarrow> if obfuscate \<and> is_empty
             then (snd (db_Write OBFUSCATE_KEY_KEY (Serialize_bytes new_key) db))\<lparr>obfuscate_key := new_key\<rparr>
             else db)"

section \<open>The coin database\<close>

definition DB_COIN :: byte where "DB_COIN = of_char CHR ''C''"
definition DB_BEST_BLOCK :: byte where "DB_BEST_BLOCK = of_char CHR ''B''"

definition Serialize_CoinEntry :: "COutPoint \<Rightarrow> bytes" where
  "Serialize_CoinEntry o' = DB_COIN # Serialize_uint256 (prevout_hash o') @ WriteVarInt (unat (prevout_n o'))"

definition DB_GetCoin :: "(bytes \<Rightarrow> bytes option) \<Rightarrow> COutPoint \<Rightarrow> CDBWrapper \<Rightarrow> bool \<times> Coin \<times> CDBWrapper" where
  "DB_GetCoin DecompressKey outpoint db =
     (case db_Read (Serialize_CoinEntry outpoint) (Unserialize_Coin DecompressKey) db of
        None \<Rightarrow> (False, Coin_Clear, db) | Some c \<Rightarrow> (True, c, db))"

definition DB_HaveCoin :: "COutPoint \<Rightarrow> CDBWrapper \<Rightarrow> bool" where
  "DB_HaveCoin outpoint db = db_Exists (Serialize_CoinEntry outpoint) db"

definition DB_GetBestBlock :: "CDBWrapper \<Rightarrow> uint256 \<times> CDBWrapper" where
  "DB_GetBestBlock db =
     (case db_Read [DB_BEST_BLOCK] Unserialize_uint256 db of None \<Rightarrow> (0, db) | Some h \<Rightarrow> (h, db))"

fun DB_BatchWrite_loop ::
    "(bytes \<Rightarrow> bool) \<Rightarrow> CDBWrapper \<Rightarrow> CCoinsMap \<Rightarrow> CDBBatch \<Rightarrow> coins_error option \<times> CCoinsMap \<times> CDBBatch" where
  "DB_BatchWrite_loop IsFullyValid db [] b = (None, [], b)"
| "DB_BatchWrite_loop IsFullyValid db ((o', it) # mapCoins) b =
     (if DIRTY it then
        (if IsSpent (coin it) then DB_BatchWrite_loop IsFullyValid db mapCoins (batch_Erase (Serialize_CoinEntry o') b)
         else case Serialize_Coin IsFullyValid (coin it) of
                None \<Rightarrow> (Some AssertFailed, (o', it) # mapCoins, b)
              | Some v \<Rightarrow> DB_BatchWrite_loop IsFullyValid db mapCoins (batch_Write db (Serialize_CoinEntry o') v b))
      else DB_BatchWrite_loop IsFullyValid db mapCoins b)"

definition DB_BatchWrite ::
    "(bytes \<Rightarrow> bool) \<Rightarrow> CCoinsMap \<Rightarrow> uint256 \<Rightarrow> CDBWrapper \<Rightarrow> (coins_error + bool) \<times> CCoinsMap \<times> CDBWrapper" where
  "DB_BatchWrite IsFullyValid mapCoins hashBlock' db =
     (case DB_BatchWrite_loop IsFullyValid db mapCoins mk_CDBBatch of
        (Some e, m, b) \<Rightarrow> (Inl e, m, db)
      | (None, m, b) \<Rightarrow>
          let b = (if hashBlock' \<noteq> 0 then batch_Write db [DB_BEST_BLOCK] (Serialize_uint256 hashBlock') b else b)
          in case WriteBatch b db of (ret, db) \<Rightarrow> (Inr ret, m, db))"

definition CCoinsViewDB :: "(bytes \<Rightarrow> bool) \<Rightarrow> (bytes \<Rightarrow> bytes option) \<Rightarrow> CDBWrapper CCoinsView" where
  "CCoinsViewDB IsFullyValid DecompressKey =
     \<lparr>vGetCoin = DB_GetCoin DecompressKey, vGetBestBlock = DB_GetBestBlock, vBatchWrite = DB_BatchWrite IsFullyValid\<rparr>"

section \<open>The wrapper stores what it was given\<close>

lemma Xor_loop_Xor_loop: "Xor_loop key j (Xor_loop key j v) = v"
  by (induction key j v rule: Xor_loop.induct) (simp_all add: xor.assoc)

lemma Xor_Xor [simp]: "Xor key (Xor key v) = v"
  by (simp add: Xor_def Xor_loop_Xor_loop)

lemma Xor_zero: "Xor (replicate n 0) v = v"
proof -
  have "j < n \<Longrightarrow> Xor_loop (replicate n 0) j v = v" for j
    by (induction v arbitrary: j) auto
  then show ?thesis by (simp add: Xor_def)
qed

lemma WriteBatch_one: "pdb (snd (db_Write k v db)) = (pdb db)(k \<mapsto> Xor (obfuscate_key db) v)"
  by (simp add: db_Write_def WriteBatch_def batch_Write_def mk_CDBBatch_def Let_def)

lemma db_Read_Some: "pdb db k = Some (Xor (obfuscate_key db) v) \<Longrightarrow> unser v = Inr (x, s) \<Longrightarrow> db_Read k unser db = Some x"
  by (simp add: db_Read_def)

lemma db_Read_None: "pdb db k = None \<Longrightarrow> db_Read k unser db = None"
  by (simp add: db_Read_def)

text \<open>Whatever else is written, as long as the entry of the key is left alone, the store is
  opened again with the obfuscation key it was created with.\<close>

lemma reopened_key:
  assumes "store OBFUSCATE_KEY_KEY = None" "length new_key \<le> MAX_SIZE"
    and "db = CDBWrapper_open store True True new_key" "store' OBFUSCATE_KEY_KEY = pdb db OBFUSCATE_KEY_KEY"
  shows "obfuscate_key db = new_key \<and> obfuscate_key (CDBWrapper_open store' obf e other_key) = new_key"
proof -
  have "db_Read OBFUSCATE_KEY_KEY Unserialize_bytes \<lparr>pdb = store, obfuscate_key = replicate OBFUSCATE_KEY_NUM_BYTES 0\<rparr> = None"
    using assms(1) by (simp add: db_Read_None)
  then have db: "obfuscate_key db = new_key" "pdb db OBFUSCATE_KEY_KEY = Some (Serialize_bytes new_key)"
    using assms(3) by (simp_all add: CDBWrapper_open_def WriteBatch_one Xor_zero Let_def)
  have "Unserialize_bytes (Serialize_bytes new_key) = Inr (new_key, [])"
    using bytevec.dec_enc [OF assms(2), of "[]"] by simp
  then have "db_Read OBFUSCATE_KEY_KEY Unserialize_bytes \<lparr>pdb = store', obfuscate_key = replicate OBFUSCATE_KEY_NUM_BYTES 0\<rparr> = Some new_key"
    using db(2) assms(4) by (intro db_Read_Some) (simp_all add: Xor_zero)
  then show ?thesis using db(1) by (simp add: CDBWrapper_open_def Let_def)
qed

section \<open>The coin database is a view\<close>

definition storable :: "Coin \<Rightarrow> bool" where
  "storable c \<longleftrightarrow> compressible (out c) \<and> coin_nHeight c < 2 ^ 30"

text \<open>The map of a database is what reading returns; the invariant says that every coin entry
  is the format of a storable coin, and the best block entry that of a hash.\<close>

definition db_utxo :: "(bytes \<Rightarrow> bytes option) \<Rightarrow> CDBWrapper \<Rightarrow> COutPoint \<Rightarrow> Coin option" where
  "db_utxo DecompressKey db o' = db_Read (Serialize_CoinEntry o') (Unserialize_Coin DecompressKey) db"

definition db_best :: "CDBWrapper \<Rightarrow> uint256" where
  "db_best db = (case db_Read [DB_BEST_BLOCK] Unserialize_uint256 db of None \<Rightarrow> 0 | Some h \<Rightarrow> h)"

definition db_inv :: "(bytes \<Rightarrow> bool) \<Rightarrow> CDBWrapper \<Rightarrow> bool" where
  "db_inv IsFullyValid db \<longleftrightarrow>
     (\<forall>o' v. pdb db (Serialize_CoinEntry o') = Some v \<longrightarrow>
        (\<exists>c. storable c \<and> Serialize_Coin IsFullyValid c = Some (Xor (obfuscate_key db) v)))"

lemma Coin_roundtrip:
  assumes "decompress_ok IsFullyValid DecompressKey" "storable c" "Serialize_Coin IsFullyValid c = Some v"
  shows "Unserialize_Coin DecompressKey (v @ r) = Inr (c, r)"
proof -
  define code where "code = coin_nHeight c * 2 + (if fCoinBase c then 1 else 0)"
  have code: "code < 2 ^ 32" "odd code = fCoinBase c" "code div 2 = coin_nHeight c"
    using assms(2) by (auto simp: code_def storable_def)
  have v: "v = WriteVarInt code @ Serialize_CTxOutCompressor IsFullyValid (out c)"
    using assms(3) code(1) by (auto simp: Serialize_Coin_def code_def Let_def split: if_splits)
  have "nRounds CTxOut_SetNull = - 10" by (simp add: CTxOut_SetNull_def)
  note to = codec.dec_enc [OF txout_compressor_codec [OF assms(1) this]]
  have "compressible (out c)" using assms(2) by (simp add: storable_def)
  then show ?thesis using varint32.dec_enc [OF code(1)] to code(2,3) by (simp add: v Unserialize_Coin_def)
qed

lemma storable_unspent: "storable c \<Longrightarrow> \<not> IsSpent c"
  by (simp add: storable_def compressible_def IsSpent_def CTxOut_IsNull_def)

lemma Serialize_CoinEntry_inject: "Serialize_CoinEntry o1 = Serialize_CoinEntry o2 \<longleftrightarrow> o1 = o2"
proof
  assume "Serialize_CoinEntry o1 = Serialize_CoinEntry o2"
  then have e: "Serialize_uint256 (prevout_hash o1) @ WriteVarInt (unat (prevout_n o1)) =
      Serialize_uint256 (prevout_hash o2) @ WriteVarInt (unat (prevout_n o2))" by (simp add: Serialize_CoinEntry_def)
  have h: "prevout_hash o1 = prevout_hash o2" and n: "WriteVarInt (unat (prevout_n o1)) = WriteVarInt (unat (prevout_n o2))"
    using blob256.prefix_free [OF _ _ e] by simp_all
  have "unat (prevout_n o1) = unat (prevout_n o2)"
    using n varint32.enc_inject unsigned_less [of "prevout_n o1", where 'a = nat] unsigned_less [of "prevout_n o2", where 'a = nat] by simp
  then show "o1 = o2" using h by (cases o1; cases o2) (simp add: unsigned_word_eqI [where ?'a = nat])
qed simp

lemma coin_key_not_best: "Serialize_CoinEntry o' \<noteq> [DB_BEST_BLOCK]"
  by (simp add: Serialize_CoinEntry_def DB_COIN_def DB_BEST_BLOCK_def)

text \<open>The effect of one entry of a batch on the store.\<close>

definition store_entry :: "(bytes \<Rightarrow> bool) \<Rightarrow> bytes \<Rightarrow> COutPoint \<times> CCoinsCacheEntry \<Rightarrow> (bytes \<Rightarrow> bytes option) \<Rightarrow> bytes \<Rightarrow> bytes option" where
  "store_entry IsFullyValid key p m =
     (case p of (o', it) \<Rightarrow>
        if \<not> DIRTY it then m
        else m(Serialize_CoinEntry o' :=
               if IsSpent (coin it) then None else map_option (Xor key) (Serialize_Coin IsFullyValid (coin it))))"

lemma batch_ops_simps [simp]:
  "batch_ops (batch_Write db k v b) = batch_ops b @ [Put k (Xor (obfuscate_key db) v)]"
  "batch_ops (batch_Erase k b) = batch_ops b @ [Delete k]"
  by (simp_all add: batch_Write_def batch_Erase_def Let_def)

lemma store_entry_simps:
  "\<not> DIRTY it \<Longrightarrow> store_entry IsFullyValid key (o', it) m = m"
  "DIRTY it \<Longrightarrow> IsSpent (coin it) \<Longrightarrow> store_entry IsFullyValid key (o', it) m = m(Serialize_CoinEntry o' := None)"
  "DIRTY it \<Longrightarrow> \<not> IsSpent (coin it) \<Longrightarrow> Serialize_Coin IsFullyValid (coin it) = Some v \<Longrightarrow>
     store_entry IsFullyValid key (o', it) m = m(Serialize_CoinEntry o' \<mapsto> Xor key v)"
  by (simp_all add: store_entry_def)

lemma DB_BatchWrite_loop_spec:
  "\<exists>b'. DB_BatchWrite_loop IsFullyValid db m b = (None, [], b') \<and>
     fold apply_op (batch_ops b') S = fold (store_entry IsFullyValid (obfuscate_key db)) m (fold apply_op (batch_ops b) S)"
proof (induction m arbitrary: b)
  case (Cons p m)
  let ?F = "fold apply_op" and ?st = "store_entry IsFullyValid (obfuscate_key db)"
  obtain o' it where p: "p = (o', it)" by (cases p)
  have "\<exists>b1. DB_BatchWrite_loop IsFullyValid db (p # m) b = DB_BatchWrite_loop IsFullyValid db m b1 \<and>
      ?F (batch_ops b1) S = ?st p (?F (batch_ops b) S)"
  proof (cases "DIRTY it \<and> \<not> IsSpent (coin it)")
    case True
    then obtain v where v: "Serialize_Coin IsFullyValid (coin it) = Some v" by (auto simp: Serialize_Coin_def Let_def)
    show ?thesis by (rule exI [of _ "batch_Write db (Serialize_CoinEntry o') v b"]) (use True v in \<open>simp add: p store_entry_simps(3)\<close>)
  next
    case False
    show ?thesis
      by (rule exI [of _ "if DIRTY it then batch_Erase (Serialize_CoinEntry o') b else b"])
         (use False in \<open>auto simp: p store_entry_simps(1,2)\<close>)
  qed
  then show ?case using Cons by (metis fold_simps(2))
qed simp

lemma fold_store_entry_other:
  "\<forall>p\<in>set m. Serialize_CoinEntry (fst p) \<noteq> k \<Longrightarrow> fold (store_entry IsFullyValid key) m S k = S k"
  by (induction m arbitrary: S) (auto simp: store_entry_def)

lemma fold_store_entry:
  assumes "distinct (map fst m)"
  shows "fold (store_entry IsFullyValid key) m S (Serialize_CoinEntry o') =
    (case map_of m o' of None \<Rightarrow> S (Serialize_CoinEntry o')
     | Some e \<Rightarrow> store_entry IsFullyValid key (o', e) S (Serialize_CoinEntry o'))"
  using assms
proof (induction m arbitrary: S)
  case (Cons p m)
  obtain o1 it where p: "p = (o1, it)" by (cases p)
  show ?case
  proof (cases "o1 = o'")
    case True
    then have "fold (store_entry IsFullyValid key) m (store_entry IsFullyValid key p S) (Serialize_CoinEntry o') =
        store_entry IsFullyValid key p S (Serialize_CoinEntry o')"
      using Cons.prems by (intro fold_store_entry_other) (auto simp: p Serialize_CoinEntry_inject)
    then show ?thesis using True by (simp add: p)
  next
    case False
    define S1 where "S1 = store_entry IsFullyValid key p S"
    have S1: "S1 (Serialize_CoinEntry o') = S (Serialize_CoinEntry o')"
      using False by (simp add: S1_def p store_entry_def Serialize_CoinEntry_inject)
    have "fold (store_entry IsFullyValid key) m S1 (Serialize_CoinEntry o') =
        (case map_of m o' of None \<Rightarrow> S1 (Serialize_CoinEntry o')
         | Some e \<Rightarrow> store_entry IsFullyValid key (o', e) S1 (Serialize_CoinEntry o'))"
      using Cons.prems by (intro Cons.IH) simp
    also have "\<dots> = (case map_of m o' of None \<Rightarrow> S (Serialize_CoinEntry o')
         | Some e \<Rightarrow> store_entry IsFullyValid key (o', e) S (Serialize_CoinEntry o'))"
      using S1 by (auto simp: store_entry_def split: option.split)
    finally show ?thesis using False by (simp add: p S1_def)
  qed
qed simp

lemma DB_BatchWrite_store:
  assumes "distinct (map fst m)" "h \<noteq> 0"
  shows "\<exists>db'. DB_BatchWrite IsFullyValid m h db = (Inr True, [], db') \<and> obfuscate_key db' = obfuscate_key db \<and>
    pdb db' [DB_BEST_BLOCK] = Some (Xor (obfuscate_key db) (Serialize_uint256 h)) \<and>
    (\<forall>o'. pdb db' (Serialize_CoinEntry o') =
      (case map_of m o' of None \<Rightarrow> pdb db (Serialize_CoinEntry o')
       | Some e \<Rightarrow> store_entry IsFullyValid (obfuscate_key db) (o', e) (pdb db) (Serialize_CoinEntry o')))"
proof -
  obtain b where b: "DB_BatchWrite_loop IsFullyValid db m mk_CDBBatch = (None, [], b)"
      "fold apply_op (batch_ops b) (pdb db) = fold (store_entry IsFullyValid (obfuscate_key db)) m (pdb db)"
    using DB_BatchWrite_loop_spec [of IsFullyValid db m mk_CDBBatch "pdb db"] by (auto simp: mk_CDBBatch_def)
  show ?thesis using assms(2) b coin_key_not_best
    by (simp add: DB_BatchWrite_def WriteBatch_def fold_store_entry [OF assms(1)])
qed

lemma db_utxo_entry:
  assumes "decompress_ok IsFullyValid DecompressKey" "storable c" "Serialize_Coin IsFullyValid c = Some v"
    and "pdb db (Serialize_CoinEntry o') = Some (Xor (obfuscate_key db) v)"
  shows "db_utxo DecompressKey db o' = Some c"
  unfolding db_utxo_def using assms(4) Coin_roundtrip [OF assms(1-3), of "[]"] by (intro db_Read_Some) simp_all

lemma db_utxo_storable:
  assumes "decompress_ok IsFullyValid DecompressKey" "db_inv IsFullyValid db" "db_utxo DecompressKey db o' = Some c"
  shows "storable c"
proof -
  obtain v where v: "pdb db (Serialize_CoinEntry o') = Some v" using assms(3) by (auto simp: db_utxo_def db_Read_def split: option.splits)
  then obtain c' where "storable c'" "Serialize_Coin IsFullyValid c' = Some (Xor (obfuscate_key db) v)"
    using assms(2) by (auto simp: db_inv_def)
  then show ?thesis using db_utxo_entry [OF assms(1), of c' "Xor (obfuscate_key db) v" db o'] v assms(3) by simp
qed

lemma db_batch:
  assumes "decompress_ok IsFullyValid DecompressKey" "db_inv IsFullyValid db"
    and "entries_ok storable (db_utxo DecompressKey db) m" "h \<noteq> 0"
  shows "\<exists>db'. DB_BatchWrite IsFullyValid m h db = (Inr True, [], db') \<and> db_inv IsFullyValid db' \<and>
    db_utxo DecompressKey db' = overlay m (db_utxo DecompressKey db) \<and> db_best db' = h"
proof -
  have d: "distinct (map fst m)" using assms(3) by (simp add: entries_ok_def)
  obtain db' where w: "DB_BatchWrite IsFullyValid m h db = (Inr True, [], db')" and k: "obfuscate_key db' = obfuscate_key db"
    and best: "pdb db' [DB_BEST_BLOCK] = Some (Xor (obfuscate_key db) (Serialize_uint256 h))"
    and st: "pdb db' (Serialize_CoinEntry o') = (case map_of m o' of None \<Rightarrow> pdb db (Serialize_CoinEntry o')
       | Some e \<Rightarrow> store_entry IsFullyValid (obfuscate_key db) (o', e) (pdb db) (Serialize_CoinEntry o'))" for o'
    using DB_BatchWrite_store [OF d assms(4)] by blast
  have same: "db_utxo DecompressKey db' o' = db_utxo DecompressKey db o'"
    if "pdb db' (Serialize_CoinEntry o') = pdb db (Serialize_CoinEntry o')" for o'
    unfolding db_utxo_def db_Read_def that k ..
  have entry: "db_utxo DecompressKey db' o' = overlay m (db_utxo DecompressKey db) o' \<and>
      (\<forall>v. pdb db' (Serialize_CoinEntry o') = Some v \<longrightarrow>
        (\<exists>c. storable c \<and> Serialize_Coin IsFullyValid c = Some (Xor (obfuscate_key db') v)))" for o'
  proof (cases "\<exists>e. map_of m o' = Some e \<and> DIRTY e")
    case True
    then obtain e where e: "map_of m o' = Some e" "DIRTY e" by blast
    show ?thesis
    proof (cases "IsSpent (coin e)")
      case True
      then show ?thesis using st [of o'] e
        by (simp add: store_entry_simps overlay_def coin_opt_def db_utxo_def db_Read_None)
    next
      case False
      then obtain v where v: "Serialize_Coin IsFullyValid (coin e) = Some v" by (auto simp: Serialize_Coin_def Let_def)
      have "storable (coin e)" using assms(3) e False by (auto simp: entries_ok_def entry_ok_def)
      then show ?thesis using st [of o'] e False v k db_utxo_entry [OF assms(1) _ v, of db' o']
        by (auto simp: store_entry_simps overlay_def coin_opt_def)
    qed
  next
    case False
    then have "pdb db' (Serialize_CoinEntry o') = pdb db (Serialize_CoinEntry o')"
      using st [of o'] by (cases "map_of m o'") (auto simp: store_entry_simps)
    moreover have "overlay m (db_utxo DecompressKey db) o' = db_utxo DecompressKey db o'"
      using False assms(3) by (auto simp: overlay_def entries_ok_def entry_ok_def split: option.split)
    ultimately show ?thesis using same assms(2) k by (simp add: db_inv_def)
  qed
  have "Unserialize_uint256 (Serialize_uint256 h) = Inr (h, [])" using blob256.dec_enc [of h "[]"] by simp
  then have "db_best db' = h" using best k by (simp add: db_best_def db_Read_Some)
  then show ?thesis using w entry by (auto simp: db_inv_def)
qed

lemma db_is_view:
  assumes "decompress_ok IsFullyValid DecompressKey"
  shows "coins_view (CCoinsViewDB IsFullyValid DecompressKey) (db_utxo DecompressKey) db_best (db_inv IsFullyValid) storable"
proof
  fix db o' ok cn db'
  assume "db_inv IsFullyValid db" "vGetCoin (CCoinsViewDB IsFullyValid DecompressKey) o' db = (ok, cn, db')"
  then show "db_inv IsFullyValid db' \<and> db_utxo DecompressKey db' = db_utxo DecompressKey db \<and> db_best db' = db_best db \<and>
      db_utxo DecompressKey db o' = (if ok then Some cn else None)"
    by (auto simp: CCoinsViewDB_def DB_GetCoin_def db_utxo_def split: option.splits)
next
  fix db o' cn
  assume "db_inv IsFullyValid db" "db_utxo DecompressKey db o' = Some cn"
  then show "\<not> IsSpent cn \<and> storable cn" using db_utxo_storable [OF assms] storable_unspent by blast
next
  fix db h db'
  assume "db_inv IsFullyValid db" "vGetBestBlock (CCoinsViewDB IsFullyValid DecompressKey) db = (h, db')"
  then show "db_inv IsFullyValid db' \<and> db_utxo DecompressKey db' = db_utxo DecompressKey db \<and> db_best db' = db_best db \<and> h = db_best db"
    by (auto simp: CCoinsViewDB_def DB_GetBestBlock_def db_best_def split: option.splits)
next
  fix db m and h :: uint256
  assume "db_inv IsFullyValid db" "entries_ok storable (db_utxo DecompressKey db) m" "h \<noteq> 0"
  then show "\<exists>db'. vBatchWrite (CCoinsViewDB IsFullyValid DecompressKey) m h db = (Inr True, [], db') \<and>
      db_inv IsFullyValid db' \<and> db_utxo DecompressKey db' = overlay m (db_utxo DecompressKey db) \<and> db_best db' = h"
    using db_batch [OF assms] by (simp add: CCoinsViewDB_def)
qed

text \<open>The views of a running node, for a key library that calls no uncompressed key valid: the
  database, the tip cache over it and the block view over the tip.\<close>

lemma no_keys_ok: "decompress_ok (\<lambda>_. False) (\<lambda>_. None)"
  by (simp add: decompress_ok_def)

interpretation coindb: coins_view "CCoinsViewDB (\<lambda>_. False) (\<lambda>_. None)" "db_utxo (\<lambda>_. None)" db_best "db_inv (\<lambda>_. False)" storable
  by (rule db_is_view [OF no_keys_ok])

interpretation cointip: coins_view "cache_view (CCoinsViewDB (\<lambda>_. False) (\<lambda>_. None))" "cutxo (db_utxo (\<lambda>_. None))"
    "cbest db_best" "cache_inv (db_utxo (\<lambda>_. None)) (db_inv (\<lambda>_. False)) storable" storable
  by (rule coindb.cache_is_view)

section \<open>Sequences of operations\<close>

text \<open>The requests that validation makes of a cache, and the answers: the coin found or spent.\<close>

datatype view_op = OpGet COutPoint | OpAdd COutPoint Coin bool | OpSpend COutPoint | OpUncache COutPoint | OpFlush

fun view_step :: "'v CCoinsView \<Rightarrow> view_op \<Rightarrow> 'v CCoinsViewCache \<Rightarrow> (coins_error + Coin option) \<times> 'v CCoinsViewCache" where
  "view_step V (OpGet o') c = (case GetCoin V o' c of (ok, cn, c) \<Rightarrow> (Inr (if ok then Some cn else None), c))"
| "view_step V (OpAdd o' cn ov) c = (case AddCoin o' cn ov c of (None, c) \<Rightarrow> (Inr None, c) | (Some e, c) \<Rightarrow> (Inl e, c))"
| "view_step V (OpSpend o') c = (case SpendCoin V o' c of (ok, cn, c) \<Rightarrow> (Inr (if ok then coin_opt cn else None), c))"
| "view_step V (OpUncache o') c = (Inr None, Uncache o' c)"
| "view_step V OpFlush c = (case Flush V c of (Inl e, c) \<Rightarrow> (Inl e, c) | (Inr ok, c) \<Rightarrow> (Inr None, c))"

fun view_run :: "'v CCoinsView \<Rightarrow> view_op list \<Rightarrow> 'v CCoinsViewCache \<Rightarrow> (coins_error + Coin option) list \<times> 'v CCoinsViewCache" where
  "view_run V [] c = ([], c)"
| "view_run V (op # ops) c = (case view_step V op c of (a, c) \<Rightarrow> case view_run V ops c of (as, c) \<Rightarrow> (a # as, c))"

text \<open>The specification: the same requests on a map.\<close>

fun map_step :: "view_op \<Rightarrow> (COutPoint \<Rightarrow> Coin option) \<Rightarrow> Coin option \<times> (COutPoint \<Rightarrow> Coin option)" where
  "map_step (OpGet o') u = (u o', u)"
| "map_step (OpAdd o' cn ov) u = (None, if IsUnspendable (scriptPubKey (out cn)) then u else u(o' \<mapsto> cn))"
| "map_step (OpSpend o') u = (u o', u(o' := None))"
| "map_step (OpUncache o') u = (None, u)"
| "map_step OpFlush u = (None, u)"

fun map_run :: "view_op list \<Rightarrow> (COutPoint \<Rightarrow> Coin option) \<Rightarrow> Coin option list \<times> (COutPoint \<Rightarrow> Coin option)" where
  "map_run [] u = ([], u)"
| "map_run (op # ops) u = (case map_step op u of (a, u) \<Rightarrow> case map_run ops u of (as, u) \<Rightarrow> (a # as, u))"

text \<open>What the caller must see to: a coin that is added is unspent and storable, and only a
  request that allows it overwrites a coin.\<close>

fun op_allowed :: "view_op \<Rightarrow> (COutPoint \<Rightarrow> Coin option) \<Rightarrow> bool" where
  "op_allowed (OpAdd o' cn ov) u \<longleftrightarrow> \<not> IsSpent cn \<and> storable cn \<and> (ov \<or> u o' = None)"
| "op_allowed _ u \<longleftrightarrow> True"

fun ops_allowed :: "view_op list \<Rightarrow> (COutPoint \<Rightarrow> Coin option) \<Rightarrow> bool" where
  "ops_allowed [] u \<longleftrightarrow> True"
| "ops_allowed (op # ops) u \<longleftrightarrow> op_allowed op u \<and> ops_allowed ops (snd (map_step op u))"

lemma hashBlock_kept:
  "hashBlock (snd (FetchCoin V o' c)) = hashBlock c" "hashBlock (snd (AddCoin o' cn ov c)) = hashBlock c"
  "hashBlock (Uncache o' c) = hashBlock c" "hashBlock (snd (Flush V c)) = hashBlock c"
  by (auto simp: FetchCoin_def AddCoin_def Uncache_def Flush_def cache_ops Let_def split: option.splits prod.splits sum.splits)

lemma view_step_hashBlock: "hashBlock (snd (view_step V op c)) = hashBlock c"
proof (cases op)
  case (OpGet o')
  then show ?thesis using hashBlock_kept(1) [of V o' c] by (auto simp: GetCoin_def split: prod.splits option.splits)
next
  case (OpAdd o' cn ov)
  then show ?thesis using hashBlock_kept(2) [of o' cn ov c] by (auto split: prod.splits option.splits)
next
  case (OpSpend o')
  then show ?thesis using hashBlock_kept(1) [of V o' c] by (auto simp: SpendCoin_def cache_ops Let_def split: prod.splits option.splits)
next
  case OpFlush
  then show ?thesis using hashBlock_kept(4) [of V c] by (auto split: prod.splits sum.splits)
qed (simp add: hashBlock_kept)

lemma view_step_refines:
  assumes "coins_view V utxo best vinv storable" "cache_inv utxo vinv storable c" "hashBlock c \<noteq> 0"
    and "op_allowed op (cutxo utxo c)" "view_step V op c = (a, c')" "map_step op (cutxo utxo c) = (a', u)"
  shows "cache_inv utxo vinv storable c' \<and> cutxo utxo c' = u \<and> a = Inr a' \<and> hashBlock c' = hashBlock c"
proof -
  note specs = coins_view.GetCoin_spec [OF assms(1,2)] coins_view.SpendCoin_spec [OF assms(1,2)]
    coins_view.Uncache_spec [OF assms(1,2)] coins_view.Flush_spec [OF assms(1-3)]
  have h: "hashBlock c' = hashBlock c" using view_step_hashBlock [of V op c] assms(5) by simp
  show ?thesis
  proof (cases op)
    case (OpGet o')
    obtain ok cn c1 where g: "GetCoin V o' c = (ok, cn, c1)" by (rule prod_cases3)
    show ?thesis using specs(1) [OF g] g h assms(5,6) OpGet by auto
  next
    case (OpAdd o' cn ov)
    obtain c1 where "AddCoin o' cn ov c = (None, c1)" "cache_inv utxo vinv storable c1"
        "cutxo utxo c1 = (if IsUnspendable (scriptPubKey (out cn)) then cutxo utxo c else (cutxo utxo c)(o' \<mapsto> cn))"
      using coins_view.AddCoin_spec [OF assms(1,2), of cn ov o'] assms(4) OpAdd by auto
    then show ?thesis using h assms(5,6) OpAdd by auto
  next
    case (OpSpend o')
    obtain ok cn c1 where g: "SpendCoin V o' c = (ok, cn, c1)" by (rule prod_cases3)
    show ?thesis using specs(2) [OF g] g h assms(5,6) OpSpend by auto
  next
    case (OpUncache o')
    then show ?thesis using specs(3) [of o'] h assms(5,6) by auto
  next
    case OpFlush
    then show ?thesis using specs(4) h assms(5,6) by auto
  qed
qed

lemma view_run_refines:
  assumes "coins_view V utxo best vinv storable" "cache_inv utxo vinv storable c" "hashBlock c \<noteq> 0" "ops_allowed ops (cutxo utxo c)"
  shows "\<exists>c'. view_run V ops c = (map Inr (fst (map_run ops (cutxo utxo c))), c') \<and>
    cache_inv utxo vinv storable c' \<and> cutxo utxo c' = snd (map_run ops (cutxo utxo c)) \<and> hashBlock c' = hashBlock c"
  using assms(2-4)
proof (induction ops arbitrary: c)
  case (Cons op ops)
  obtain a c1 where s: "view_step V op c = (a, c1)" by fastforce
  obtain a' u where m: "map_step op (cutxo utxo c) = (a', u)" by fastforce
  have st: "cache_inv utxo vinv storable c1 \<and> cutxo utxo c1 = u \<and> a = Inr a' \<and> hashBlock c1 = hashBlock c"
    using view_step_refines [OF assms(1) Cons.prems(1,2) _ s m] Cons.prems(3) by simp
  then obtain c' where "view_run V ops c1 = (map Inr (fst (map_run ops u)), c')" "cache_inv utxo vinv storable c'"
      "cutxo utxo c' = snd (map_run ops u)" "hashBlock c' = hashBlock c1"
    using Cons.IH [of c1] Cons.prems(2,3) m by auto
  then show ?case using s m st by (auto split: prod.splits)
qed simp

lemma Flush_hashBlock: "Flush (cache_view V) c = (Inr ok, c') \<Longrightarrow> hashBlock (base c') = hashBlock c"
  by (cases c) (auto simp: Flush_def cache_view_def BatchWrite_def split: prod.splits option.splits sum.splits)

section \<open>Properties\<close>

text \<open>
  C1. A cache over the coin database implements the map of unspent coins: for every sequence
  of lookups, additions, spends, evictions and flushes that keeps to the caller's obligations,
  no operation throws, every answer is the answer of the map, and the cache ends with the
  flag and memory invariants intact and representing the map that the same requests produce.
\<close>

theorem coins_cache_refines_map:
  assumes "decompress_ok IsFullyValid DecompressKey" "hashBlock c \<noteq> 0"
    and "cache_inv (db_utxo DecompressKey) (db_inv IsFullyValid) storable c" "ops_allowed ops (cutxo (db_utxo DecompressKey) c)"
  shows "\<exists>c'. view_run (CCoinsViewDB IsFullyValid DecompressKey) ops c =
      (map Inr (fst (map_run ops (cutxo (db_utxo DecompressKey) c))), c') \<and>
    cache_inv (db_utxo DecompressKey) (db_inv IsFullyValid) storable c' \<and>
    cutxo (db_utxo DecompressKey) c' = snd (map_run ops (cutxo (db_utxo DecompressKey) c))"
  using view_run_refines [OF db_is_view [OF assms(1)] assms(3,2,4)] by blast

definition empty_db :: CDBWrapper where
  "empty_db = \<lparr>pdb = (\<lambda>_. None), obfuscate_key = [0x5a, 3]\<rparr>"

definition sample_coin :: Coin where
  "sample_coin = \<lparr>out = \<lparr>nValue = 70, scriptPubKey = [0x51], nRounds = - 10\<rparr>, fCoinBase = False, coin_nHeight = 12\<rparr>"

lemma sample_coin_ok: "storable sample_coin" "\<not> IsSpent sample_coin" "\<not> IsUnspendable (scriptPubKey (out sample_coin))"
  by (simp_all add: sample_coin_def storable_def compressible_def max_compressible_def MAX_SCRIPT_SIZE_def IsSpent_def
      CTxOut_IsNull_def IsUnspendable_def)

lemma empty_db_inv: "db_inv IsFullyValid empty_db" "db_utxo DecompressKey empty_db = (\<lambda>_. None)"
  by (simp_all add: db_inv_def empty_db_def db_utxo_def db_Read_def fun_eq_iff)

abbreviation "op1 \<equiv> \<lparr>prevout_hash = 1, prevout_n = 0\<rparr>"

definition fresh_cache :: "CDBWrapper CCoinsViewCache" where
  "fresh_cache = SetBestBlock 1 (mk_CCoinsViewCache empty_db)"

lemma fresh_cache_ok:
  "cache_inv (db_utxo (\<lambda>_. None)) (db_inv (\<lambda>_. False)) storable fresh_cache"
  "cutxo (db_utxo (\<lambda>_. None)) fresh_cache = (\<lambda>_. None)" "hashBlock fresh_cache = 1"
  using coindb.new_cache [OF empty_db_inv(1)] coindb.SetBestBlock_spec [of "mk_CCoinsViewCache empty_db" 1]
  by (auto simp: fresh_cache_def empty_db_inv) (simp add: SetBestBlock_def)

theorem coins_cache_refines_map_witness:
  "\<exists>c'. view_run (CCoinsViewDB (\<lambda>_. False) (\<lambda>_. None)) [OpAdd op1 sample_coin False, OpFlush, OpGet op1, OpSpend op1, OpGet op1] fresh_cache =
     ([Inr None, Inr None, Inr (Some sample_coin), Inr (Some sample_coin), Inr None], c')"
  using coins_cache_refines_map [OF no_keys_ok _ fresh_cache_ok(1),
      of "[OpAdd op1 sample_coin False, OpFlush, OpGet op1, OpSpend op1, OpGet op1]"]
  by (auto simp: fresh_cache_ok sample_coin_ok)

text \<open>
  C32. What a block view holds reaches the disk: flushing the view of a block into the tip cache
  and the tip cache into the database leaves a database whose coins are exactly those of the
  block view and whose best block is that of the view.
\<close>

theorem Flush_reaches_database:
  assumes "decompress_ok IsFullyValid DecompressKey" "V = CCoinsViewDB IsFullyValid DecompressKey"
    and "cache_inv (cutxo (db_utxo DecompressKey)) (cache_inv (db_utxo DecompressKey) (db_inv IsFullyValid) storable) storable view"
    and "hashBlock view \<noteq> 0" "Flush (cache_view V) view = (r, view')" "Flush V (base view') = (r', tip)"
  shows "r = Inr True \<and> r' = Inr True \<and> db_utxo DecompressKey (base tip) = cutxo (cutxo (db_utxo DecompressKey)) view \<and>
    db_best (base tip) = hashBlock view"
proof -
  note db = db_is_view [OF assms(1), folded assms(2)]
  note tip = coins_view.cache_is_view [OF db]
  have v: "r = Inr True" "cutxo (db_utxo DecompressKey) (base view') = cutxo (cutxo (db_utxo DecompressKey)) view"
      "cbest db_best (base view') = hashBlock view" "cache_inv (db_utxo DecompressKey) (db_inv IsFullyValid) storable (base view')"
    using coins_view.Flush_spec [OF tip assms(3,4)] assms(5) by (auto simp: cache_inv_def)
  have "hashBlock (base view') \<noteq> 0" using Flush_hashBlock assms(4,5) v(1) by metis
  then show ?thesis using coins_view.Flush_spec [OF db v(4)] v assms(6) by (auto simp: cbest_def)
qed

definition block_view :: "CDBWrapper CCoinsViewCache CCoinsViewCache" where
  "block_view = snd (AddCoin op1 sample_coin False (SetBestBlock 2 (mk_CCoinsViewCache fresh_cache)))"

lemma block_view_ok:
  "cache_inv (cutxo (db_utxo (\<lambda>_. None))) (cache_inv (db_utxo (\<lambda>_. None)) (db_inv (\<lambda>_. False)) storable) storable block_view"
  "cutxo (cutxo (db_utxo (\<lambda>_. None))) block_view = [op1 \<mapsto> sample_coin]" "hashBlock block_view = 2"
proof -
  define c where "c = SetBestBlock 2 (mk_CCoinsViewCache fresh_cache)"
  have c: "cache_inv (cutxo (db_utxo (\<lambda>_. None))) (cache_inv (db_utxo (\<lambda>_. None)) (db_inv (\<lambda>_. False)) storable) storable c"
      "cutxo (cutxo (db_utxo (\<lambda>_. None))) c = (\<lambda>_. None)"
    using cointip.new_cache [OF fresh_cache_ok(1)] cointip.SetBestBlock_spec [of "mk_CCoinsViewCache fresh_cache" 2]
    by (auto simp: c_def fresh_cache_ok)
  have "hashBlock c = 2" by (simp add: c_def SetBestBlock_def)
  then show "hashBlock block_view = 2" using hashBlock_kept(2) [of op1 sample_coin False c] by (simp add: block_view_def c_def)
  show "cache_inv (cutxo (db_utxo (\<lambda>_. None))) (cache_inv (db_utxo (\<lambda>_. None)) (db_inv (\<lambda>_. False)) storable) storable block_view"
      "cutxo (cutxo (db_utxo (\<lambda>_. None))) block_view = [op1 \<mapsto> sample_coin]"
    using cointip.AddCoin_spec [OF c(1) sample_coin_ok(2,1), of False op1] c(2) sample_coin_ok(3)
    by (auto simp: block_view_def c_def)
qed

theorem Flush_reaches_database_witness:
  "\<exists>r view' r' tip. Flush (cache_view (CCoinsViewDB (\<lambda>_. False) (\<lambda>_. None))) block_view = (r, view') \<and>
     Flush (CCoinsViewDB (\<lambda>_. False) (\<lambda>_. None)) (base view') = (r', tip) \<and>
     db_utxo (\<lambda>_. None) (base tip) = [op1 \<mapsto> sample_coin] \<and> db_best (base tip) = 2"
proof -
  obtain r view' where f: "Flush (cache_view (CCoinsViewDB (\<lambda>_. False) (\<lambda>_. None))) block_view = (r, view')" by fastforce
  obtain r' tip where t: "Flush (CCoinsViewDB (\<lambda>_. False) (\<lambda>_. None)) (base view') = (r', tip)" by fastforce
  show ?thesis using Flush_reaches_database [OF no_keys_ok refl block_view_ok(1) _ f t] f t block_view_ok by auto
qed

text \<open>
  The exception that \<open>AddCoin\<close> throws when it would replace an unspent coin leaves the
  memory account wrong: the usage of the old coin has been subtracted and the coin is still in
  the cache.
\<close>

theorem AddCoin_throw_breaks_usage:
  "\<exists>(c :: CDBWrapper CCoinsViewCache) c' o' cn. cache_inv (db_utxo (\<lambda>_. None)) (db_inv (\<lambda>_. False)) storable c \<and>
     AddCoin o' cn False c = (Some LogicError, c') \<and> cachedCoinsUsage c' \<noteq> map_usage (cacheCoins c')"
proof -
  define cn where "cn = sample_coin\<lparr>out := (out sample_coin)\<lparr>scriptPubKey := replicate 40 0x51\<rparr>\<rparr>"
  define e where "e = \<lparr>coin = cn, DIRTY = True, FRESH = True\<rparr>"
  define c where "c = \<lparr>base = empty_db, hashBlock = 1, cacheCoins = [(op1, e)], cachedCoinsUsage = Coin_DynamicMemoryUsage cn\<rparr>"
  have cn: "\<not> IsSpent cn" "storable cn" "\<not> IsUnspendable (scriptPubKey (out cn))" "Coin_DynamicMemoryUsage cn = 64"
    by (simp_all add: cn_def sample_coin_def IsSpent_def CTxOut_IsNull_def storable_def compressible_def max_compressible_def
        MAX_SCRIPT_SIZE_def IsUnspendable_def Coin_DynamicMemoryUsage_def allocated_memory_def MallocUsage_def)
  have "cache_inv (db_utxo (\<lambda>_. None)) (db_inv (\<lambda>_. False)) storable c"
    using cn by (simp add: cache_inv_def c_def e_def empty_db_inv entries_ok_def entry_ok_def map_usage_def entry_usage_def)
  moreover have "AddCoin op1 cn False c = (Some LogicError, sub_usage cn c)"
    using cn by (simp add: AddCoin_def c_def e_def)
  moreover have "cachedCoinsUsage (sub_usage cn c) \<noteq> map_usage (cacheCoins (sub_usage cn c))"
    using cn by (simp add: sub_usage_def c_def e_def map_usage_def entry_usage_def)
  ultimately show ?thesis by blast
qed

end
