(* ===== verification/Utxo.thy ===== *)
theory Utxo
  imports CoinsDB
begin

text \<open>
  Connecting and disconnecting blocks on the coin set: \<open>UpdateCoins\<close>, \<open>ApplyTxInUndo\<close> and the
  coin part of \<open>ConnectBlock\<close> and \<open>DisconnectBlock\<close> of \<open>src/src/validation.cpp\<close>, with the undo
  records of \<open>src/src/undo.h\<close> and the undo file.

  Shown: disconnecting a block undoes connecting it, on the level of the map of unspent coins,
  and the undo file returns the records it was given.
\<close>

section \<open>Undo records\<close>

definition Serialize_TxInUndo :: "(bytes \<Rightarrow> bool) \<Rightarrow> Coin \<Rightarrow> bytes" where
  "Serialize_TxInUndo IsFullyValid txout =
     WriteVarInt ((coin_nHeight txout * 2 + (if fCoinBase txout then 1 else 0)) mod 2 ^ 32) @
     (if coin_nHeight txout > 0 then ser_writedata8 0 else []) @
     Serialize_CTxOutCompressor IsFullyValid (out txout)"

definition Unserialize_TxInUndo :: "(bytes \<Rightarrow> bytes option) \<Rightarrow> Coin reader" where
  "Unserialize_TxInUndo DecompressKey s =
     ebind (ReadVarInt 32 s) (\<lambda>(nCode, s).
     ebind (if nCode div 2 > 0 then ebind (ReadVarInt 32 s) (\<lambda>(nVersionDummy, s). Inr s) else Inr s) (\<lambda>s.
     ebind (Unserialize_CTxOutCompressor DecompressKey CTxOut_SetNull s) (\<lambda>(o', s).
       Inr (\<lparr>out = o', fCoinBase = odd nCode, coin_nHeight = nCode div 2\<rparr>, s))))"

text \<open>An empty input takes 41 bytes.\<close>

definition MAX_INPUTS_PER_BLOCK :: nat where
  "MAX_INPUTS_PER_BLOCK = MAX_BLOCK_SIZE div
     length (Serialize_CTxIn \<lparr>prevout = COutPoint_SetNull, scriptSig = [], nSequence = SEQUENCE_FINAL\<rparr>)"

definition Serialize_CTxUndo :: "(bytes \<Rightarrow> bool) \<Rightarrow> Coin list \<Rightarrow> bytes" where
  "Serialize_CTxUndo IsFullyValid vprevout =
     WriteCompactSize (length vprevout) @ concat (map (Serialize_TxInUndo IsFullyValid) vprevout)"

definition Unserialize_CTxUndo :: "(bytes \<Rightarrow> bytes option) \<Rightarrow> Coin list reader" where
  "Unserialize_CTxUndo DecompressKey s =
     ebind (ReadCompactSize s) (\<lambda>(count, s).
       if count > MAX_INPUTS_PER_BLOCK then Inl SizeTooLarge
       else read_elements (Unserialize_TxInUndo DecompressKey) count s)"

definition Serialize_CBlockUndo :: "(bytes \<Rightarrow> bool) \<Rightarrow> Coin list list \<Rightarrow> bytes" where
  "Serialize_CBlockUndo IsFullyValid = Serialize_vector (Serialize_CTxUndo IsFullyValid)"

definition Unserialize_CBlockUndo :: "(bytes \<Rightarrow> bytes option) \<Rightarrow> Coin list list reader" where
  "Unserialize_CBlockUndo DecompressKey = Unserialize_vector (Unserialize_CTxUndo DecompressKey)"

text \<open>The undo file: what is written, with the position of the record in it, and reading the
  record back from the bytes at that position.  The checksum covers the hash of the previous
  block and the bytes that were read.\<close>

definition UndoWriteToDisk :: "(bytes \<Rightarrow> uint256) \<Rightarrow> (bytes \<Rightarrow> bool) \<Rightarrow> bytes \<Rightarrow> Coin list list \<Rightarrow> uint256 \<Rightarrow> bytes \<times> nat" where
  "UndoWriteToDisk Hash IsFullyValid messageStart blockundo hashBlock' =
     (let rec = Serialize_CBlockUndo IsFullyValid blockundo;
          header = messageStart @ ser_writedata32 (of_nat (length rec))
      in (header @ rec @ Serialize_uint256 (Hash (Serialize_uint256 hashBlock' @ rec)), length header))"

definition UndoReadFromDisk :: "(bytes \<Rightarrow> uint256) \<Rightarrow> (bytes \<Rightarrow> bytes option) \<Rightarrow> bytes \<Rightarrow> uint256 \<Rightarrow> Coin list list option" where
  "UndoReadFromDisk Hash DecompressKey filein hashBlock' =
     (case Unserialize_CBlockUndo DecompressKey filein of
        Inl e \<Rightarrow> None
      | Inr (blockundo, s) \<Rightarrow>
          (case Unserialize_uint256 s of
             Inl e \<Rightarrow> None
           | Inr (hashChecksum, r) \<Rightarrow>
               if hashChecksum \<noteq> Hash (Serialize_uint256 hashBlock' @ take (length filein - length s) filein) then None
               else Some blockundo))"

section \<open>Connecting\<close>

fun spend_inputs :: "'v CCoinsView \<Rightarrow> CTxIn list \<Rightarrow> Coin list \<Rightarrow> 'v CCoinsViewCache \<Rightarrow> coins_error option \<times> Coin list \<times> 'v CCoinsViewCache" where
  "spend_inputs V [] vprevout c = (None, vprevout, c)"
| "spend_inputs V (i # ins) vprevout c =
     (case SpendCoin V (prevout i) c of (is_spent, cn, c) \<Rightarrow>
        if \<not> is_spent then (Some AssertFailed, vprevout @ [cn], c)
        else spend_inputs V ins (vprevout @ [cn]) c)"

definition UpdateCoins ::
    "(bytes \<Rightarrow> uint256) \<Rightarrow> 'v CCoinsView \<Rightarrow> CTransaction \<Rightarrow> int \<Rightarrow> 'v CCoinsViewCache \<Rightarrow> coins_error option \<times> Coin list \<times> 'v CCoinsViewCache" where
  "UpdateCoins Hash V tx nHeight c =
     (case (if \<not> IsCoinBase tx then spend_inputs V (vin tx) [] c else (None, [], c)) of
        (Some e, vprevout, c) \<Rightarrow> (Some e, vprevout, c)
      | (None, vprevout, c) \<Rightarrow> (case AddCoins Hash tx nHeight c of (e, c) \<Rightarrow> (e, vprevout, c)))"

text \<open>The coin part of the transaction loop of \<open>ConnectBlock\<close>; \<open>i\<close> is the index in the block.\<close>

fun connect_coins ::
    "(bytes \<Rightarrow> uint256) \<Rightarrow> 'v CCoinsView \<Rightarrow> int \<Rightarrow> nat \<Rightarrow> CTransaction list \<Rightarrow> Coin list list \<Rightarrow> 'v CCoinsViewCache \<Rightarrow>
     coins_error option \<times> Coin list list \<times> 'v CCoinsViewCache" where
  "connect_coins Hash V nHeight i [] vtxundo c = (None, vtxundo, c)"
| "connect_coins Hash V nHeight i (tx # txs) vtxundo c =
     (case UpdateCoins Hash V tx nHeight c of (e, txundo, c) \<Rightarrow>
        let vtxundo = (if i > 0 then vtxundo @ [txundo] else vtxundo) in
        case e of Some e \<Rightarrow> (Some e, vtxundo, c) | None \<Rightarrow> connect_coins Hash V nHeight (i + 1) txs vtxundo c)"

section \<open>Disconnecting\<close>

datatype DisconnectResult = DISCONNECT_OK | DISCONNECT_UNCLEAN | DISCONNECT_FAILED

definition ApplyTxInUndo ::
    "'v CCoinsView \<Rightarrow> Coin \<Rightarrow> COutPoint \<Rightarrow> 'v CCoinsViewCache \<Rightarrow> (coins_error + DisconnectResult) \<times> 'v CCoinsViewCache" where
  "ApplyTxInUndo V undo o' view =
     (case HaveCoin V o' view of (have_coin, view) \<Rightarrow>
        let fClean = (\<not> have_coin) in
        case (if coin_nHeight undo = 0 then
                (case AccessByTxid V (prevout_hash o') view of (alternate, view) \<Rightarrow>
                   if \<not> IsSpent alternate
                   then (Some (undo\<lparr>coin_nHeight := coin_nHeight alternate, fCoinBase := fCoinBase alternate\<rparr>), view)
                   else (None, view))
              else (Some undo, view)) of
          (None, view) \<Rightarrow> (Inr DISCONNECT_FAILED, view)
        | (Some undo, view) \<Rightarrow>
            (case AddCoin o' undo (fCoinBase undo) view of
               (Some e, view) \<Rightarrow> (Inl e, view)
             | (None, view) \<Rightarrow> (Inr (if fClean then DISCONNECT_OK else DISCONNECT_UNCLEAN), view)))"

text \<open>Removing the outputs of a transaction, from index \<open>i\<close> on.\<close>

fun remove_outputs ::
    "'v CCoinsView \<Rightarrow> uint256 \<Rightarrow> int \<Rightarrow> bool \<Rightarrow> nat \<Rightarrow> CTxOut list \<Rightarrow> bool \<Rightarrow> 'v CCoinsViewCache \<Rightarrow> bool \<times> 'v CCoinsViewCache" where
  "remove_outputs V hash nHeight is_coinbase i [] fClean view = (fClean, view)"
| "remove_outputs V hash nHeight is_coinbase i (o' # outs) fClean view =
     (if \<not> IsUnspendable (scriptPubKey o') then
        (case SpendCoin V \<lparr>prevout_hash = hash, prevout_n = of_nat i\<rparr> view of (is_spent, cn, view) \<Rightarrow>
           remove_outputs V hash nHeight is_coinbase (i + 1) outs
             (if \<not> is_spent \<or> o' \<noteq> out cn \<or> nHeight \<noteq> int (coin_nHeight cn) \<or> is_coinbase \<noteq> fCoinBase cn
              then False else fClean) view)
      else remove_outputs V hash nHeight is_coinbase (i + 1) outs fClean view)"

text \<open>Restoring the inputs: the list holds the inputs with their undo records, last one first.\<close>

fun restore_inputs ::
    "'v CCoinsView \<Rightarrow> (CTxIn \<times> Coin) list \<Rightarrow> bool \<Rightarrow> 'v CCoinsViewCache \<Rightarrow> (coins_error + bool option) \<times> 'v CCoinsViewCache" where
  "restore_inputs V [] fClean view = (Inr (Some fClean), view)"
| "restore_inputs V ((i, undo) # ins) fClean view =
     (case ApplyTxInUndo V undo (prevout i) view of
        (Inl e, view) \<Rightarrow> (Inl e, view)
      | (Inr DISCONNECT_FAILED, view) \<Rightarrow> (Inr None, view)
      | (Inr res, view) \<Rightarrow> restore_inputs V ins (fClean \<and> res \<noteq> DISCONNECT_UNCLEAN) view)"

text \<open>
  One transaction of the loop; \<open>txundo\<close> is its undo record, \<open>None\<close> for the first transaction of
  the block.  The result is the clean flag, or \<open>None\<close> for the failure result.
\<close>

definition disconnect_tx ::
    "(bytes \<Rightarrow> uint256) \<Rightarrow> 'v CCoinsView \<Rightarrow> int \<Rightarrow> CTransaction \<Rightarrow> Coin list option \<Rightarrow> bool \<Rightarrow> 'v CCoinsViewCache \<Rightarrow>
     (coins_error + bool option) \<times> 'v CCoinsViewCache" where
  "disconnect_tx Hash V nHeight tx txundo fClean view =
     (case remove_outputs V (GetHash Hash tx) nHeight (IsCoinBase tx) 0 (vout tx) fClean view of (fClean, view) \<Rightarrow>
        case txundo of
          None \<Rightarrow> (Inr (Some fClean), view)
        | Some vprevout \<Rightarrow>
            if length vprevout \<noteq> length (vin tx) then (Inr None, view)
            else restore_inputs V (rev (zip (vin tx) vprevout)) fClean view)"

text \<open>The loop, over the transactions with their undo records, last one first.\<close>

fun disconnect_txs ::
    "(bytes \<Rightarrow> uint256) \<Rightarrow> 'v CCoinsView \<Rightarrow> int \<Rightarrow> (CTransaction \<times> Coin list option) list \<Rightarrow> bool \<Rightarrow> 'v CCoinsViewCache \<Rightarrow>
     (coins_error + bool option) \<times> 'v CCoinsViewCache" where
  "disconnect_txs Hash V nHeight [] fClean view = (Inr (Some fClean), view)"
| "disconnect_txs Hash V nHeight ((tx, txundo) # txs) fClean view =
     (case disconnect_tx Hash V nHeight tx txundo fClean view of
        (Inl e, view) \<Rightarrow> (Inl e, view)
      | (Inr None, view) \<Rightarrow> (Inr None, view)
      | (Inr (Some fClean), view) \<Rightarrow> disconnect_txs Hash V nHeight txs fClean view)"

text \<open>
  The coin part of \<open>DisconnectBlock\<close>: \<open>blockHash\<close>, \<open>nHeight\<close> and \<open>prevHash\<close> are those of the
  block index entry, and \<open>blockUndo\<close> what reading the undo file returned.
\<close>

definition DisconnectBlock ::
    "(bytes \<Rightarrow> uint256) \<Rightarrow> 'v CCoinsView \<Rightarrow> uint256 \<Rightarrow> int \<Rightarrow> uint256 \<Rightarrow> CTransaction list \<Rightarrow> Coin list list option \<Rightarrow> 'v CCoinsViewCache \<Rightarrow>
     (coins_error + DisconnectResult) \<times> 'v CCoinsViewCache" where
  "DisconnectBlock Hash V blockHash nHeight prevHash vtx blockUndo view =
     (case GetBestBlock V view of (h, view) \<Rightarrow>
        if blockHash \<noteq> h then (Inl AssertFailed, view)
        else case blockUndo of
          None \<Rightarrow> (Inr DISCONNECT_FAILED, view)
        | Some vtxundo \<Rightarrow>
            if length vtxundo + 1 \<noteq> length vtx then (Inr DISCONNECT_FAILED, view)
            else (case disconnect_txs Hash V nHeight (rev (zip vtx (None # map Some vtxundo))) True view of
                    (Inl e, view) \<Rightarrow> (Inl e, view)
                  | (Inr None, view) \<Rightarrow> (Inr DISCONNECT_FAILED, view)
                  | (Inr (Some fClean), view) \<Rightarrow>
                      (Inr (if fClean then DISCONNECT_OK else DISCONNECT_UNCLEAN), SetBestBlock prevHash view)))"

section \<open>The same on maps\<close>

abbreviation outpoint :: "uint256 \<Rightarrow> nat \<Rightarrow> COutPoint" where
  "outpoint txid n \<equiv> \<lparr>prevout_hash = txid, prevout_n = of_nat n\<rparr>"

definition spendable_outs :: "uint256 \<Rightarrow> nat \<Rightarrow> CTxOut list \<Rightarrow> COutPoint set" where
  "spendable_outs txid i outs = {outpoint txid (i + k) |k. k < length outs \<and> \<not> IsUnspendable (scriptPubKey (outs ! k))}"

definition remove_inputs :: "CTxIn list \<Rightarrow> (COutPoint \<Rightarrow> Coin option) \<Rightarrow> COutPoint \<Rightarrow> Coin option" where
  "remove_inputs ins u = (\<lambda>o'. if o' \<in> prevout ` set ins then None else u o')"

definition connect_map :: "(bytes \<Rightarrow> uint256) \<Rightarrow> int \<Rightarrow> CTransaction \<Rightarrow> (COutPoint \<Rightarrow> Coin option) \<Rightarrow> COutPoint \<Rightarrow> Coin option" where
  "connect_map Hash nHeight tx u =
     add_outputs (GetHash Hash tx) nHeight (IsCoinBase tx) 0 (vout tx) (if IsCoinBase tx then u else remove_inputs (vin tx) u)"

text \<open>What validation has established about a transaction before its coins are updated: its
  outputs are proper and new, its inputs distinct, available, spendable and not of the
  genesis block.\<close>

definition coins_ok :: "(bytes \<Rightarrow> uint256) \<Rightarrow> (Coin \<Rightarrow> bool) \<Rightarrow> int \<Rightarrow> CTransaction \<Rightarrow> (COutPoint \<Rightarrow> Coin option) \<Rightarrow> bool" where
  "coins_ok Hash P nHeight tx u \<longleftrightarrow>
     (\<forall>o'\<in>set (vout tx). \<not> CTxOut_IsNull o' \<and> P (mk_Coin o' nHeight (IsCoinBase tx))) \<and> length (vout tx) \<le> 2 ^ 32 \<and>
     (\<forall>k<length (vout tx). u (outpoint (GetHash Hash tx) k) = None) \<and>
     (\<not> IsCoinBase tx \<longrightarrow> distinct (map prevout (vin tx)) \<and>
        (\<forall>i\<in>set (vin tx). \<exists>cn. u (prevout i) = Some cn \<and> coin_nHeight cn > 0 \<and> \<not> IsUnspendable (scriptPubKey (out cn))))"

fun block_coins_ok :: "(bytes \<Rightarrow> uint256) \<Rightarrow> (Coin \<Rightarrow> bool) \<Rightarrow> int \<Rightarrow> CTransaction list \<Rightarrow> (COutPoint \<Rightarrow> Coin option) \<Rightarrow> bool" where
  "block_coins_ok Hash P nHeight [] u \<longleftrightarrow> True"
| "block_coins_ok Hash P nHeight (tx # txs) u \<longleftrightarrow>
     coins_ok Hash P nHeight tx u \<and> block_coins_ok Hash P nHeight txs (connect_map Hash nHeight tx u)"

lemma outpoint_inject: "m < 2 ^ 32 \<Longrightarrow> n < 2 ^ 32 \<Longrightarrow> outpoint txid m = outpoint txid n \<longleftrightarrow> m = n"
  using of_nat_u32_inject by simp

lemma spendable_outs_Cons:
  "spendable_outs txid i (o' # outs) =
     (if IsUnspendable (scriptPubKey o') then {} else {outpoint txid i}) \<union> spendable_outs txid (i + 1) outs"
  unfolding spendable_outs_def by (subst ex_nat_split) auto

lemma spendable_outs_fresh:
  assumes "i + 1 + length outs \<le> 2 ^ 32"
  shows "outpoint txid i \<notin> spendable_outs txid (i + 1) outs"
proof
  assume "outpoint txid i \<in> spendable_outs txid (i + 1) outs"
  then obtain k where k: "outpoint txid i = outpoint txid (i + 1 + k)" "k < length outs"
    unfolding spendable_outs_def by blast
  then show False using outpoint_inject [of i "i + 1 + k" txid] assms by linarith
qed

text \<open>Looking up what \<open>add_outputs\<close> added.\<close>

lemma add_outputs_other: "o' \<notin> spendable_outs txid i outs \<Longrightarrow> add_outputs txid h cb i outs u o' = u o'"
  by (induction outs arbitrary: i u) (auto simp: spendable_outs_Cons)

lemma add_outputs_there:
  assumes "i + length outs \<le> 2 ^ 32" "k < length outs" "\<not> IsUnspendable (scriptPubKey (outs ! k))"
  shows "add_outputs txid h cb i outs u (outpoint txid (i + k)) = Some (mk_Coin (outs ! k) h cb)"
  using assms
proof (induction outs arbitrary: i k u)
  case (Cons o' outs)
  show ?case
  proof (cases k)
    case 0
    then show ?thesis using Cons.prems spendable_outs_fresh [of i outs txid] by (simp add: add_outputs_other)
  next
    case (Suc k')
    then show ?thesis using Cons.IH [of "i + 1" k'] Cons.prems by simp
  qed
qed simp

lemma mk_Coin_simps: "0 \<le> h \<Longrightarrow> h < 2 ^ 31 \<Longrightarrow> int (coin_nHeight (mk_Coin o' h cb)) = h" "out (mk_Coin o' h cb) = o'" "fCoinBase (mk_Coin o' h cb) = cb"
  by (simp_all add: mk_Coin_def)

text \<open>The undo records of a block, those of the first transaction included, and the records as
  the disconnecting loop looks at them.\<close>

definition tx_undo :: "CTransaction \<Rightarrow> (COutPoint \<Rightarrow> Coin option) \<Rightarrow> Coin list" where
  "tx_undo tx u = (if IsCoinBase tx then [] else map (\<lambda>i. the (u (prevout i))) (vin tx))"

fun block_undos :: "(bytes \<Rightarrow> uint256) \<Rightarrow> int \<Rightarrow> CTransaction list \<Rightarrow> (COutPoint \<Rightarrow> Coin option) \<Rightarrow> Coin list list" where
  "block_undos Hash h [] u = []"
| "block_undos Hash h (tx # txs) u = tx_undo tx u # block_undos Hash h txs (connect_map Hash h tx u)"

definition undo_pairs :: "CTransaction list \<Rightarrow> Coin list list \<Rightarrow> (CTransaction \<times> Coin list option) list" where
  "undo_pairs txs undos = map (\<lambda>(tx, undo). (tx, if IsCoinBase tx then None else Some undo)) (zip txs undos)"

lemma length_block_undos [simp]: "length (block_undos Hash h txs u) = length txs"
  by (induction txs arbitrary: u) auto

lemma undo_pairs_block:
  assumes "IsCoinBase tx" "\<forall>t\<in>set txs. \<not> IsCoinBase t" "length undos = length txs"
  shows "undo_pairs (tx # txs) (cbundo # undos) = zip (tx # txs) (None # map Some undos)"
proof -
  have "map (\<lambda>(tx, undo). (tx, if IsCoinBase tx then None else Some undo)) (zip txs undos) = zip txs (map Some undos)"
    using assms(3,2) by (induction undos txs rule: list_induct2) simp_all
  then show ?thesis using assms(1) by (simp add: undo_pairs_def)
qed

definition coins_proper :: "(Coin \<Rightarrow> bool) \<Rightarrow> (COutPoint \<Rightarrow> Coin option) \<Rightarrow> bool" where
  "coins_proper P u \<longleftrightarrow> (\<forall>o' cn. u o' = Some cn \<longrightarrow> \<not> IsSpent cn \<and> P cn)"

lemma add_outputs_proper:
  assumes "coins_proper P u" "\<forall>o'\<in>set outs. \<not> CTxOut_IsNull o' \<and> P (mk_Coin o' h cb)"
  shows "coins_proper P (add_outputs txid h cb i outs u)"
  using assms
proof (induction outs arbitrary: i u)
  case (Cons o' outs)
  have "coins_proper P (u(outpoint txid i \<mapsto> mk_Coin o' h cb))"
    using Cons.prems by (simp add: coins_proper_def IsSpent_def mk_Coin_def)
  then show ?case using Cons by simp
qed simp

lemma connect_map_proper: "coins_proper P u \<Longrightarrow> coins_ok Hash P h tx u \<Longrightarrow> coins_proper P (connect_map Hash h tx u)"
  unfolding connect_map_def by (rule add_outputs_proper) (auto simp: coins_proper_def coins_ok_def remove_inputs_def)

lemma disconnect_txs_append:
  "disconnect_txs Hash V h xs fClean c = (Inr (Some fClean'), c') \<Longrightarrow>
     disconnect_txs Hash V h (xs @ ys) fClean c = disconnect_txs Hash V h ys fClean' c'"
proof (induction xs arbitrary: fClean c)
  case (Cons p xs)
  obtain tx txundo where p: "p = (tx, txundo)" by (cases p)
  obtain r c1 where "disconnect_tx Hash V h tx txundo fClean c = (r, c1)" by fastforce
  then show ?case using Cons by (simp add: p split: sum.splits option.splits)
qed simp

lemma map_of_keyed: "map_of (map (\<lambda>i. (f i, g (f i))) xs) o' = (if o' \<in> f ` set xs then Some (g o') else None)"
  by (induction xs) auto

section \<open>Connecting and disconnecting, on a view\<close>

context coins_view
begin

lemma spend_inputs_spec:
  assumes "cinv c" "distinct (map prevout ins)" "\<forall>i\<in>set ins. coins c (prevout i) \<noteq> None"
  shows "\<exists>c'. spend_inputs V ins acc c = (None, acc @ map (\<lambda>i. the (coins c (prevout i))) ins, c') \<and> cinv c' \<and>
    top_block c' = top_block c \<and> coins c' = remove_inputs ins (coins c)"
  using assms
proof (induction ins arbitrary: acc c)
  case (Cons i ins)
  obtain ok cn c1 where s: "SpendCoin V (prevout i) c = (ok, cn, c1)" by (rule prod_cases3)
  have c1: "cinv c1" "coins c1 = (coins c)(prevout i := None)" "top_block c1 = top_block c" "coins c (prevout i) = Some cn" ok
    using SpendCoin_spec [OF Cons.prems(1) s] Cons.prems(3) by (auto simp: coin_opt_def split: if_splits)
  have "\<forall>j\<in>set ins. prevout j \<noteq> prevout i" using Cons.prems(2) by (metis distinct.simps(2) image_eqI list.set_map list.simps(9))
  then have other: "\<forall>j\<in>set ins. coins c1 (prevout j) = coins c (prevout j)" using c1(2) by simp
  then obtain c' where c': "spend_inputs V ins (acc @ [cn]) c1 = (None, (acc @ [cn]) @ map (\<lambda>i. the (coins c1 (prevout i))) ins, c')"
      "cinv c'" "top_block c' = top_block c1" "coins c' = remove_inputs ins (coins c1)"
    using Cons.IH [of c1 "acc @ [cn]"] Cons.prems(2,3) c1(1) by auto
  have "remove_inputs ins (coins c1) = remove_inputs (i # ins) (coins c)"
    by (auto simp: remove_inputs_def c1(2) fun_eq_iff)
  moreover have "map (\<lambda>i. the (coins c1 (prevout i))) ins = map (\<lambda>i. the (coins c (prevout i))) ins" using other by simp
  ultimately show ?case using s c1 c' by simp
qed (simp add: remove_inputs_def)

lemma UpdateCoins_spec:
  assumes "cinv c" "coins_ok Hash storable nHeight tx (coins c)"
  shows "\<exists>c'. UpdateCoins Hash V tx nHeight c =
      (None, if IsCoinBase tx then [] else map (\<lambda>i. the (coins c (prevout i))) (vin tx), c') \<and>
    cinv c' \<and> top_block c' = top_block c \<and> coins c' = connect_map Hash nHeight tx (coins c)"
proof -
  let ?u = "if IsCoinBase tx then coins c else remove_inputs (vin tx) (coins c)"
  obtain c1 where c1: "(if \<not> IsCoinBase tx then spend_inputs V (vin tx) [] c else (None, [], c)) =
      (None, if IsCoinBase tx then [] else map (\<lambda>i. the (coins c (prevout i))) (vin tx), c1)"
      "cinv c1" "top_block c1 = top_block c" "coins c1 = ?u"
    using spend_inputs_spec [OF assms(1), of "vin tx" "[]"] assms by (cases "IsCoinBase tx") (force simp: coins_ok_def)+
  have "\<forall>k<length (vout tx). coins c1 (outpoint (GetHash Hash tx) (0 + k)) = None"
    using assms(2) c1(4) by (simp add: coins_ok_def remove_inputs_def)
  then obtain c' where "AddCoins_loop (GetHash Hash tx) nHeight (IsCoinBase tx) 0 (vout tx) c1 = (None, c')" "cinv c'"
      "top_block c' = top_block c1" "coins c' = add_outputs (GetHash Hash tx) nHeight (IsCoinBase tx) 0 (vout tx) (coins c1)"
    using AddCoins_loop_spec [OF c1(2), of "vout tx" nHeight "IsCoinBase tx" "GetHash Hash tx" 0] assms(2)
    by (auto simp: coins_ok_def)
  then show ?thesis using c1 by (simp add: UpdateCoins_def AddCoins_def connect_map_def)
qed

lemma remove_outputs_spec:
  assumes "cinv c" "0 \<le> h" "h < 2 ^ 31" "i + length outs \<le> 2 ^ 32"
    and "\<forall>k<length outs. \<not> IsUnspendable (scriptPubKey (outs ! k)) \<longrightarrow> coins c (outpoint txid (i + k)) = Some (mk_Coin (outs ! k) h cb)"
  shows "\<exists>c'. remove_outputs V txid h cb i outs fClean c = (fClean, c') \<and> cinv c' \<and> top_block c' = top_block c \<and>
    coins c' = (\<lambda>o'. if o' \<in> spendable_outs txid i outs then None else coins c o')"
  using assms(1,4,5)
proof (induction outs arbitrary: i c)
  case (Cons o' outs)
  have tail: "\<forall>k<length outs. \<not> IsUnspendable (scriptPubKey (outs ! k)) \<longrightarrow>
      coins c (outpoint txid (i + 1 + k)) = Some (mk_Coin (outs ! k) h cb)"
    using Cons.prems(3) [rule_format, of "Suc _"] by auto
  show ?case
  proof (cases "IsUnspendable (scriptPubKey o')")
    case True
    then show ?thesis using Cons.IH [OF Cons.prems(1), of "i + 1"] Cons.prems(2) tail by (simp add: spendable_outs_Cons)
  next
    case False
    obtain ok cn c1 where s: "SpendCoin V (outpoint txid i) c = (ok, cn, c1)" by (rule prod_cases3)
    have "coins c (outpoint txid i) = Some (mk_Coin o' h cb)" using Cons.prems(3) [rule_format, of 0] False by simp
    then have c1: "cinv c1" "coins c1 = (coins c)(outpoint txid i := None)" "top_block c1 = top_block c" "cn = mk_Coin o' h cb" ok
      using SpendCoin_spec [OF Cons.prems(1) s] by (auto simp: coin_opt_def split: if_splits)
    have "coins c1 (outpoint txid (i + 1 + k)) = Some (mk_Coin (outs ! k) h cb)"
      if "k < length outs" "\<not> IsUnspendable (scriptPubKey (outs ! k))" for k
    proof -
      have "outpoint txid (i + 1 + k) \<noteq> outpoint txid i" using outpoint_inject [of "i + 1 + k" i txid] Cons.prems(2) that(1) by simp
      then show ?thesis using tail that c1(2) by (simp del: of_nat_add)
    qed
    then obtain c' where c': "remove_outputs V txid h cb (i + 1) outs fClean c1 = (fClean, c')" "cinv c'" "top_block c' = top_block c1"
        "coins c' = (\<lambda>o'. if o' \<in> spendable_outs txid (i + 1) outs then None else coins c1 o')"
      using Cons.IH [OF c1(1), of "i + 1"] Cons.prems(2) by auto
    then show ?thesis using False s c1 assms(2,3) by (auto simp: mk_Coin_simps spendable_outs_Cons fun_eq_iff)
  qed
qed (simp add: spendable_outs_def)

lemma ApplyTxInUndo_spec:
  assumes "cinv c" "coins c o' = None" "\<not> IsSpent undo" "storable undo" "coin_nHeight undo > 0"
    and "\<not> IsUnspendable (scriptPubKey (out undo))"
  shows "\<exists>c'. ApplyTxInUndo V undo o' c = (Inr DISCONNECT_OK, c') \<and> cinv c' \<and> top_block c' = top_block c \<and>
    coins c' = (coins c)(o' \<mapsto> undo)"
proof -
  obtain h c1 where h: "HaveCoin V o' c = (h, c1)" by fastforce
  have c1: "\<not> h" "cinv c1" "coins c1 = coins c" "top_block c1 = top_block c" using HaveCoin_spec [OF assms(1) h] assms(2) by auto
  obtain c' where "AddCoin o' undo (fCoinBase undo) c1 = (None, c')" "cinv c'" "top_block c' = top_block c1"
      "coins c' = (coins c1)(o' \<mapsto> undo)"
    using AddCoin_spec [OF c1(2) assms(3,4), of "fCoinBase undo" o'] assms(2,6) c1(3) by auto
  then show ?thesis using h c1 assms(5) by (simp add: ApplyTxInUndo_def Let_def)
qed

lemma ApplyTxInUndo_overwrite:
  assumes "cinv c" "coins c o' \<noteq> None" "\<not> IsSpent undo" "\<not> fCoinBase undo" "coin_nHeight undo > 0"
    and "\<not> IsUnspendable (scriptPubKey (out undo))"
  shows "fst (ApplyTxInUndo V undo o' c) = Inl LogicError"
proof -
  obtain e c1 where f: "FetchCoin V o' c = (e, c1)" by fastforce
  have "map_of (cacheCoins c1) o' = e" "coins c o' = (case e of None \<Rightarrow> None | Some e \<Rightarrow> coin_opt (coin e))"
    using FetchCoin_spec [OF assms(1) f] by blast+
  then obtain it where it: "e = Some it" "map_of (cacheCoins c1) o' = Some it" "\<not> IsSpent (coin it)"
    using assms(2) by (cases e) (auto simp: coin_opt_def split: if_splits)
  have "HaveCoin V o' c = (True, c1)" using f it by (simp add: HaveCoin_def)
  moreover have "fst (AddCoin o' undo False c1) = Some LogicError" using it assms(3,6) by (simp add: AddCoin_def Let_def)
  ultimately show ?thesis using assms(4,5) by (auto simp: ApplyTxInUndo_def Let_def split: prod.splits)
qed

lemma restore_inputs_spec:
  assumes "cinv c" "distinct (map (prevout \<circ> fst) ins)"
    and "\<forall>(i, undo)\<in>set ins. coins c (prevout i) = None \<and> \<not> IsSpent undo \<and> storable undo \<and> coin_nHeight undo > 0 \<and>
      \<not> IsUnspendable (scriptPubKey (out undo))"
  shows "\<exists>c'. restore_inputs V ins fClean c = (Inr (Some fClean), c') \<and> cinv c' \<and> top_block c' = top_block c \<and>
    coins c' = coins c ++ map_of (map (\<lambda>(i, undo). (prevout i, undo)) ins)"
  using assms
proof (induction ins arbitrary: c)
  case (Cons p ins)
  obtain i undo where p: "p = (i, undo)" by (cases p)
  obtain c1 where c1: "ApplyTxInUndo V undo (prevout i) c = (Inr DISCONNECT_OK, c1)" "cinv c1" "top_block c1 = top_block c"
      "coins c1 = (coins c)(prevout i \<mapsto> undo)"
    using ApplyTxInUndo_spec [OF Cons.prems(1), of "prevout i" undo] Cons.prems(3) by (auto simp: p)
  have new: "prevout i \<notin> (prevout \<circ> fst) ` set ins" using Cons.prems(2) by (simp add: p)
  then have "coins c1 (prevout j) = coins c (prevout j)" if "(j, u) \<in> set ins" for j u
    using that c1(4) by (force simp: image_iff)
  then have "\<forall>(i, undo)\<in>set ins. coins c1 (prevout i) = None \<and> \<not> IsSpent undo \<and> storable undo \<and> coin_nHeight undo > 0 \<and>
      \<not> IsUnspendable (scriptPubKey (out undo))" using Cons.prems(3) by auto
  then obtain c' where c': "restore_inputs V ins fClean c1 = (Inr (Some fClean), c')" "cinv c'" "top_block c' = top_block c1"
      "coins c' = coins c1 ++ map_of (map (\<lambda>(i, undo). (prevout i, undo)) ins)"
    using Cons.IH [OF c1(2)] Cons.prems(2) by auto
  have "map_of (map (\<lambda>(i, undo). (prevout i, undo)) ins) (prevout i) = None"
    using new by (auto simp: map_of_eq_None_iff image_iff split: prod.splits)
  then have "coins c1 ++ map_of (map (\<lambda>(i, undo). (prevout i, undo)) ins) = coins c ++ map_of (map (\<lambda>(i, undo). (prevout i, undo)) (p # ins))"
    by (auto simp: c1(4) p map_add_def fun_eq_iff split: option.split)
  with c'(4) have "coins c' = coins c ++ map_of (map (\<lambda>(i, undo). (prevout i, undo)) (p # ins))" by (rule trans)
  moreover have "restore_inputs V (p # ins) fClean c = (Inr (Some fClean), c')" using c'(1) c1(1) by (simp add: p)
  ultimately show ?case using c'(2,3) c1(3) by metis
qed simp

text \<open>Disconnecting a transaction restores the map it was connected to.\<close>

lemma disconnect_tx_spec:
  assumes "cinv c" "coins_ok Hash storable h tx u" "coins c = connect_map Hash h tx u" "0 \<le> h" "h < 2 ^ 31"
    and "\<forall>o' cn. u o' = Some cn \<longrightarrow> \<not> IsSpent cn \<and> storable cn"
    and "txundo = (if IsCoinBase tx then None else Some (tx_undo tx u))"
  shows "\<exists>c'. disconnect_tx Hash V h tx txundo fClean c = (Inr (Some fClean), c') \<and> cinv c' \<and> top_block c' = top_block c \<and> coins c' = u"
proof -
  let ?txid = "GetHash Hash tx" and ?cb = "IsCoinBase tx"
  let ?u = "if ?cb then u else remove_inputs (vin tx) u"
  have len: "length (vout tx) \<le> 2 ^ 32" using assms(2) by (simp add: coins_ok_def)
  have new: "u o' = None" if "o' \<in> spendable_outs ?txid 0 (vout tx)" for o'
    using that assms(2) by (auto simp: coins_ok_def spendable_outs_def)
  obtain c1 where c1: "remove_outputs V ?txid h ?cb 0 (vout tx) fClean c = (fClean, c1)" "cinv c1" "top_block c1 = top_block c"
      "coins c1 = (\<lambda>o'. if o' \<in> spendable_outs ?txid 0 (vout tx) then None else coins c o')"
    using remove_outputs_spec [OF assms(1,4,5), of 0 "vout tx" ?txid ?cb fClean] len add_outputs_there [of 0 "vout tx"]
    by (auto simp: assms(3) connect_map_def)
  have "coins c1 o' = ?u o'" for o'
    using new [of o'] add_outputs_other [of o' ?txid 0 "vout tx" h ?cb ?u]
    by (auto simp: c1(4) assms(3) connect_map_def remove_inputs_def)
  then have u1: "coins c1 = ?u" by blast
  show ?thesis
  proof (cases ?cb)
    case True
    then show ?thesis using c1 u1 assms(7) by (simp add: disconnect_tx_def)
  next
    case False
    let ?pairs = "zip (vin tx) (map (\<lambda>i. the (u (prevout i))) (vin tx))"
    have pairs: "?pairs = map (\<lambda>i. (i, the (u (prevout i)))) (vin tx)" by (simp add: zip_map2 zip_same_conv_map)
    have in_ok: "distinct (map prevout (vin tx))"
        "\<forall>i\<in>set (vin tx). \<exists>cn. u (prevout i) = Some cn \<and> coin_nHeight cn > 0 \<and> \<not> IsUnspendable (scriptPubKey (out cn))"
      using assms(2) False by (auto simp: coins_ok_def)
    have "distinct (map (prevout \<circ> fst) (rev ?pairs))" using in_ok(1) by (simp add: pairs comp_def flip: rev_map)
    moreover have "\<forall>(i, undo)\<in>set (rev ?pairs). coins c1 (prevout i) = None \<and> \<not> IsSpent undo \<and> storable undo \<and> coin_nHeight undo > 0 \<and>
        \<not> IsUnspendable (scriptPubKey (out undo))"
      using in_ok(2) assms(6) False by (auto simp: pairs u1 remove_inputs_def)
    ultimately obtain c' where c': "restore_inputs V (rev ?pairs) fClean c1 = (Inr (Some fClean), c')" "cinv c'" "top_block c' = top_block c1"
        "coins c' = coins c1 ++ map_of (map (\<lambda>(i, undo). (prevout i, undo)) (rev ?pairs))"
      using restore_inputs_spec [OF c1(2)] by blast
    have "map (\<lambda>(i, undo). (prevout i, undo)) (rev ?pairs) = map (\<lambda>i. (prevout i, the (u (prevout i)))) (rev (vin tx))"
      by (simp add: pairs rev_map)
    then have "coins c' o' = u o'" for o'
      using in_ok(2) map_of_keyed [of prevout "\<lambda>o'. the (u o')" "rev (vin tx)" o']
      by (auto simp: c'(4) u1 False map_add_def remove_inputs_def)
    then have "coins c' = u" by blast
    then show ?thesis using c' c1 False assms(7) by (simp add: disconnect_tx_def tx_undo_def)
  qed
qed

lemma connect_coins_spec:
  assumes "cinv c" "block_coins_ok Hash storable h txs (coins c)"
  shows "\<exists>c'. connect_coins Hash V h i txs acc c =
      (None, acc @ (if i > 0 then block_undos Hash h txs (coins c) else tl (block_undos Hash h txs (coins c))), c') \<and>
    cinv c' \<and> top_block c' = top_block c \<and> coins c' = fold (connect_map Hash h) txs (coins c)"
  using assms
proof (induction txs arbitrary: i acc c)
  case (Cons tx txs)
  obtain c1 where c1: "UpdateCoins Hash V tx h c = (None, tx_undo tx (coins c), c1)" "cinv c1" "top_block c1 = top_block c"
      "coins c1 = connect_map Hash h tx (coins c)"
    using UpdateCoins_spec [OF Cons.prems(1), of Hash h tx] Cons.prems(2) by (auto simp: tx_undo_def)
  define acc' where "acc' = (if i > 0 then acc @ [tx_undo tx (coins c)] else acc)"
  obtain c' where "connect_coins Hash V h (i + 1) txs acc' c1 = (None, acc' @ block_undos Hash h txs (coins c1), c')" "cinv c'"
      "top_block c' = top_block c1" "coins c' = fold (connect_map Hash h) txs (coins c1)"
    using Cons.IH [OF c1(2), of "i + 1" acc'] Cons.prems(2) c1(4) by auto
  then show ?case using c1 by (auto simp: acc'_def)
qed simp

lemma disconnect_txs_spec:
  assumes "cinv c" "block_coins_ok Hash storable h txs u" "coins_proper storable u"
    and "coins c = fold (connect_map Hash h) txs u" "0 \<le> h" "h < 2 ^ 31"
  shows "\<exists>c'. disconnect_txs Hash V h (rev (undo_pairs txs (block_undos Hash h txs u))) True c = (Inr (Some True), c') \<and>
    cinv c' \<and> top_block c' = top_block c \<and> coins c' = u"
  using assms(2-4)
proof (induction txs arbitrary: u)
  case (Cons tx txs)
  let ?u1 = "connect_map Hash h tx u"
  obtain c1 where c1: "disconnect_txs Hash V h (rev (undo_pairs txs (block_undos Hash h txs ?u1))) True c = (Inr (Some True), c1)"
      "cinv c1" "top_block c1 = top_block c" "coins c1 = ?u1"
    using Cons.IH [of ?u1] Cons.prems connect_map_proper by auto
  obtain c' where c': "disconnect_tx Hash V h tx (if IsCoinBase tx then None else Some (tx_undo tx u)) True c1 = (Inr (Some True), c')"
      "cinv c'" "top_block c' = top_block c1" "coins c' = u"
    using disconnect_tx_spec [OF c1(2) _ c1(4) assms(5,6) _ refl, of True] Cons.prems(1,2) unfolding coins_proper_def by auto
  have "undo_pairs (tx # txs) (block_undos Hash h (tx # txs) u) =
      (tx, if IsCoinBase tx then None else Some (tx_undo tx u)) # undo_pairs txs (block_undos Hash h txs ?u1)"
    by (simp add: undo_pairs_def)
  then show ?case using disconnect_txs_append [OF c1(1)] c1(3) c' by simp
qed (use assms(1) in \<open>simp add: undo_pairs_def\<close>)

lemma connect_disconnect:
  assumes "cinv c" "block_coins_ok Hash storable h vtx (coins c)" "vtx = cb # txs" "IsCoinBase cb" "\<forall>t\<in>set txs. \<not> IsCoinBase t"
    and "0 \<le> h" "h < 2 ^ 31" "bh \<noteq> 0" "ph \<noteq> 0"
  shows "\<exists>vtxundo c1 c2. connect_coins Hash V h 0 vtx [] c = (None, vtxundo, c1) \<and>
    cinv c1 \<and> vtxundo = tl (block_undos Hash h vtx (coins c)) \<and> coins c1 = fold (connect_map Hash h) vtx (coins c) \<and>
    DisconnectBlock Hash V bh h ph vtx (Some vtxundo) (SetBestBlock bh c1) = (Inr DISCONNECT_OK, c2) \<and>
    cinv c2 \<and> coins c2 = coins c \<and> top_block c2 = ph"
proof -
  let ?u = "coins c"
  let ?undos = "tl (block_undos Hash h vtx ?u)"
  obtain c1 where c1: "connect_coins Hash V h 0 vtx [] c = (None, ?undos, c1)" "cinv c1" "coins c1 = fold (connect_map Hash h) vtx ?u"
    using connect_coins_spec [OF assms(1,2), of 0 "[]"] by auto
  have s: "cinv (SetBestBlock bh c1)" "coins (SetBestBlock bh c1) = coins c1" "top_block (SetBestBlock bh c1) = bh"
    using SetBestBlock_spec [OF c1(2) assms(8)] by auto
  obtain h' c3 where g: "GetBestBlock V (SetBestBlock bh c1) = (h', c3)" by fastforce
  have c3: "cinv c3" "coins c3 = coins c1" "h' = bh" using GetBestBlock_spec [OF s(1) g] s by auto
  have "coins_proper storable ?u" using coins_unspent [OF assms(1)] by (auto simp: coins_proper_def)
  then obtain c4 where c4: "disconnect_txs Hash V h (rev (undo_pairs vtx (block_undos Hash h vtx ?u))) True c3 = (Inr (Some True), c4)"
      "cinv c4" "coins c4 = ?u"
    using disconnect_txs_spec [OF c3(1) assms(2) _ _ assms(6,7)] c3(2) c1(3) by auto
  have "undo_pairs vtx (block_undos Hash h vtx ?u) = zip vtx (None # map Some ?undos)"
    using undo_pairs_block [OF assms(4,5)] by (simp add: assms(3))
  then have "DisconnectBlock Hash V bh h ph vtx (Some ?undos) (SetBestBlock bh c1) = (Inr DISCONNECT_OK, SetBestBlock ph c4)"
    using g c3(3) c4(1) assms(3) by (simp add: DisconnectBlock_def)
  then show ?thesis using c1 c4 SetBestBlock_spec [OF c4(2) assms(9)] by auto
qed

end

section \<open>The undo file\<close>

lemma txinundo_codec:
  assumes "decompress_ok IsFullyValid DecompressKey"
  shows "codec (Serialize_TxInUndo IsFullyValid) (Unserialize_TxInUndo DecompressKey) storable"
proof unfold_locales
  fix c r
  assume st: "storable c"
  define code where "code = coin_nHeight c * 2 + (if fCoinBase c then 1 else 0)"
  have code: "code < 2 ^ 32" "odd code = fCoinBase c" "code div 2 = coin_nHeight c" using st by (auto simp: code_def storable_def)
  have ser: "Serialize_TxInUndo IsFullyValid c = WriteVarInt code @
      (if coin_nHeight c > 0 then [0] else []) @ Serialize_CTxOutCompressor IsFullyValid (out c)"
    using code(1) by (simp add: Serialize_TxInUndo_def code_def ser_writedata8_def)
  have "nRounds CTxOut_SetNull = - 10" by (simp add: CTxOut_SetNull_def)
  note to = codec.dec_enc [OF txout_compressor_codec [OF assms this]]
  have "compressible (out c)" using st by (simp add: storable_def)
  then show "Unserialize_TxInUndo DecompressKey (Serialize_TxInUndo IsFullyValid c @ r) = Inr (c, r)"
    using varint32.dec_enc [OF code(1)] to code(2,3) ReadVarInt_small [of 0]
    by (simp add: ser Unserialize_TxInUndo_def)
qed

lemma ctxundo_codec:
  assumes "decompress_ok IsFullyValid DecompressKey"
  shows "codec (Serialize_CTxUndo IsFullyValid) (Unserialize_CTxUndo DecompressKey)
    (\<lambda>undo. list_all storable undo \<and> length undo \<le> MAX_INPUTS_PER_BLOCK)"
proof unfold_locales
  fix undo r
  assume u: "list_all storable undo \<and> length undo \<le> MAX_INPUTS_PER_BLOCK"
  have "MAX_INPUTS_PER_BLOCK \<le> MAX_BLOCK_SIZE" unfolding MAX_INPUTS_PER_BLOCK_def by (rule div_le_dividend)
  then have "MAX_INPUTS_PER_BLOCK \<le> MAX_SIZE" by (simp add: MAX_BLOCK_SIZE_def MAX_SIZE_def)
  then show "Unserialize_CTxUndo DecompressKey (Serialize_CTxUndo IsFullyValid undo @ r) = Inr (undo, r)"
    using u codec.read_elements_enc [OF txinundo_codec [OF assms], of undo r]
    by (simp add: Serialize_CTxUndo_def Unserialize_CTxUndo_def csize.dec_enc)
qed

definition undo_ok :: "Coin list list \<Rightarrow> bool" where
  "undo_ok vtxundo \<longleftrightarrow> list_all (\<lambda>undo. list_all storable undo \<and> length undo \<le> MAX_INPUTS_PER_BLOCK) vtxundo \<and> length vtxundo \<le> MAX_SIZE"

lemma cblockundo_codec:
  assumes "decompress_ok IsFullyValid DecompressKey"
  shows "codec (Serialize_CBlockUndo IsFullyValid) (Unserialize_CBlockUndo DecompressKey) undo_ok"
  unfolding Serialize_CBlockUndo_def Unserialize_CBlockUndo_def undo_ok_def
  by (rule codec.vector_codec [OF ctxundo_codec [OF assms]])

lemma block_undos_ok:
  assumes "block_coins_ok Hash storable h txs u" "coins_proper storable u"
    and "\<forall>t\<in>set txs. \<not> IsCoinBase t \<longrightarrow> length (vin t) \<le> MAX_INPUTS_PER_BLOCK"
  shows "list_all (\<lambda>undo. list_all storable undo \<and> length undo \<le> MAX_INPUTS_PER_BLOCK) (block_undos Hash h txs u)"
  using assms
proof (induction txs arbitrary: u)
  case (Cons tx txs)
  have "list_all storable (tx_undo tx u) \<and> length (tx_undo tx u) \<le> MAX_INPUTS_PER_BLOCK"
    using Cons.prems by (auto simp: tx_undo_def coins_ok_def coins_proper_def list_all_iff)
  then show ?case using Cons.IH [of "connect_map Hash h tx u"] Cons.prems connect_map_proper by auto
qed simp

lemma undo_file:
  assumes "decompress_ok IsFullyValid DecompressKey" "undo_ok vtxundo"
    and "UndoWriteToDisk Hash IsFullyValid messageStart vtxundo hashBlock' = (undofile, pos)"
  shows "UndoReadFromDisk Hash DecompressKey (drop pos undofile @ rest) hashBlock' = Some vtxundo"
proof -
  define rec where "rec = Serialize_CBlockUndo IsFullyValid vtxundo"
  define chk where "chk = Serialize_uint256 (Hash (Serialize_uint256 hashBlock' @ rec))"
  have f: "drop pos undofile = rec @ chk" using assms(3) by (auto simp: UndoWriteToDisk_def rec_def chk_def Let_def)
  have "Unserialize_CBlockUndo DecompressKey (rec @ chk @ rest) = Inr (vtxundo, chk @ rest)"
    unfolding rec_def by (rule codec.dec_enc [OF cblockundo_codec [OF assms(1)] assms(2)])
  then show ?thesis using f blob256.dec_enc [of "Hash (Serialize_uint256 hashBlock' @ rec)" rest]
    by (simp add: UndoReadFromDisk_def chk_def)
qed

section \<open>Properties\<close>

text \<open>
  C4. Disconnecting a block undoes connecting it.  On a cache over the coin database whose
  coins a valid block spends and creates, connecting the transactions of the block throws
  nothing; and disconnecting it with the undo records as they are read back from the undo file
  is clean and leaves exactly the unspent coins there were before, with the previous block as
  the best block.
\<close>

theorem DisconnectBlock_undoes_ConnectBlock:
  assumes "decompress_ok IsFullyValid DecompressKey" "V = CCoinsViewDB IsFullyValid DecompressKey"
    and "cache_inv (db_utxo DecompressKey) (db_inv IsFullyValid) storable c"
    and "block_coins_ok Hash storable h vtx (cutxo (db_utxo DecompressKey) c)"
    and "vtx = cb # txs" "IsCoinBase cb" "\<forall>t\<in>set txs. \<not> IsCoinBase t \<and> length (vin t) \<le> MAX_INPUTS_PER_BLOCK"
    and "length vtx \<le> MAX_SIZE" "0 \<le> h" "h < 2 ^ 30" "bh \<noteq> 0" "ph \<noteq> 0"
  shows "\<exists>vtxundo c1 undofile pos c2. connect_coins Hash V h 0 vtx [] c = (None, vtxundo, c1) \<and>
    cutxo (db_utxo DecompressKey) c1 = fold (connect_map Hash h) vtx (cutxo (db_utxo DecompressKey) c) \<and>
    UndoWriteToDisk Hash IsFullyValid messageStart vtxundo ph = (undofile, pos) \<and>
    DisconnectBlock Hash V bh h ph vtx (UndoReadFromDisk Hash DecompressKey (drop pos undofile @ rest) ph) (SetBestBlock bh c1) =
      (Inr DISCONNECT_OK, c2) \<and>
    cutxo (db_utxo DecompressKey) c2 = cutxo (db_utxo DecompressKey) c \<and> cbest db_best c2 = ph"
proof -
  note db = db_is_view [OF assms(1), folded assms(2)]
  let ?u = "cutxo (db_utxo DecompressKey) c"
  obtain vtxundo c1 c2 where c: "connect_coins Hash V h 0 vtx [] c = (None, vtxundo, c1)"
      "vtxundo = tl (block_undos Hash h vtx ?u)" "cutxo (db_utxo DecompressKey) c1 = fold (connect_map Hash h) vtx ?u"
      "DisconnectBlock Hash V bh h ph vtx (Some vtxundo) (SetBestBlock bh c1) = (Inr DISCONNECT_OK, c2)"
      "cutxo (db_utxo DecompressKey) c2 = ?u" "cbest db_best c2 = ph"
    using coins_view.connect_disconnect [OF db assms(3-6), of bh ph] assms(7-12) by auto
  obtain undofile pos where f: "UndoWriteToDisk Hash IsFullyValid messageStart vtxundo ph = (undofile, pos)" by fastforce
  have "coins_proper storable ?u" using coins_view.coins_unspent [OF db assms(3)] by (auto simp: coins_proper_def)
  then have "list_all (\<lambda>undo. list_all storable undo \<and> length undo \<le> MAX_INPUTS_PER_BLOCK) (block_undos Hash h vtx ?u)"
    using assms(4-7) by (intro block_undos_ok) auto
  then have "undo_ok vtxundo" using assms(5,8) by (auto simp: undo_ok_def c(2) list_all_iff dest: list.set_sel(2))
  then show ?thesis using undo_file [OF assms(1) _ f, of rest] c f by auto
qed

text \<open>A block with a coinbase and one transaction that spends the sample coin.\<close>

definition coinbase_tx :: CTransaction where
  "coinbase_tx = \<lparr>nVersion = 1, vin = [\<lparr>prevout = COutPoint_SetNull, scriptSig = [1, 2], nSequence = 0\<rparr>], vout = [], nLockTime = 0\<rparr>"

definition spending_tx :: CTransaction where
  "spending_tx = \<lparr>nVersion = 1, vin = [\<lparr>prevout = op1, scriptSig = [], nSequence = 0\<rparr>],
     vout = [\<lparr>nValue = 60, scriptPubKey = [0x52], nRounds = - 10\<rparr>], nLockTime = 0\<rparr>"

definition coin_cache :: "CDBWrapper CCoinsViewCache" where
  "coin_cache = snd (AddCoin op1 sample_coin False fresh_cache)"

lemma coin_cache_ok:
  "cache_inv (db_utxo (\<lambda>_. None)) (db_inv (\<lambda>_. False)) storable coin_cache" "cutxo (db_utxo (\<lambda>_. None)) coin_cache = [op1 \<mapsto> sample_coin]"
  using coindb.AddCoin_spec [OF fresh_cache_ok(1) sample_coin_ok(2,1), of False op1] sample_coin_ok(3)
  by (auto simp: coin_cache_def fresh_cache_ok)

lemma block_ok:
  "IsCoinBase coinbase_tx" "\<not> IsCoinBase spending_tx" "length (vin spending_tx) \<le> MAX_INPUTS_PER_BLOCK"
  "block_coins_ok (\<lambda>_. 100) storable 20 [coinbase_tx, spending_tx] [op1 \<mapsto> sample_coin]"
proof -
  show cb: "IsCoinBase coinbase_tx" "\<not> IsCoinBase spending_tx"
    by (simp_all add: coinbase_tx_def spending_tx_def IsCoinBase_def COutPoint_IsNull_def COutPoint_SetNull_def)
  show "length (vin spending_tx) \<le> MAX_INPUTS_PER_BLOCK"
    by (simp add: spending_tx_def MAX_INPUTS_PER_BLOCK_def MAX_BLOCK_SIZE_def Serialize_CTxIn_def Serialize_COutPoint_def
        Serialize_uint256_def Serialize_bytes_def ser_writedata32_def length_WriteCompactSize GetSizeOfCompactSize_def)
  have 1: "coins_ok (\<lambda>_. 100) storable 20 coinbase_tx [op1 \<mapsto> sample_coin]"
    using cb by (simp add: coins_ok_def coinbase_tx_def)
  have 2: "connect_map (\<lambda>_. 100) 20 coinbase_tx [op1 \<mapsto> sample_coin] = [op1 \<mapsto> sample_coin]"
    using cb by (simp add: connect_map_def coinbase_tx_def)
  have "coins_ok (\<lambda>_. 100) storable 20 spending_tx [op1 \<mapsto> sample_coin]"
    using cb sample_coin_ok by (simp add: coins_ok_def spending_tx_def GetHash_def CTxOut_IsNull_def mk_Coin_def storable_def
        compressible_def max_compressible_def MAX_SCRIPT_SIZE_def) (simp add: sample_coin_def)
  then show "block_coins_ok (\<lambda>_. 100) storable 20 [coinbase_tx, spending_tx] [op1 \<mapsto> sample_coin]" using 1 2 by simp
qed

theorem DisconnectBlock_undoes_ConnectBlock_witness:
  "\<exists>vtxundo c1 undofile pos c2.
     connect_coins (\<lambda>_. 100) (CCoinsViewDB (\<lambda>_. False) (\<lambda>_. None)) 20 0 [coinbase_tx, spending_tx] [] coin_cache = (None, vtxundo, c1) \<and>
     UndoWriteToDisk (\<lambda>_. 100) (\<lambda>_. False) [1, 2, 3, 4] vtxundo 8 = (undofile, pos) \<and>
     DisconnectBlock (\<lambda>_. 100) (CCoinsViewDB (\<lambda>_. False) (\<lambda>_. None)) 9 20 8 [coinbase_tx, spending_tx]
       (UndoReadFromDisk (\<lambda>_. 100) (\<lambda>_. None) (drop pos undofile @ []) 8) (SetBestBlock 9 c1) = (Inr DISCONNECT_OK, c2) \<and>
     cutxo (db_utxo (\<lambda>_. None)) c2 = [op1 \<mapsto> sample_coin]"
proof -
  have "length [coinbase_tx, spending_tx] \<le> MAX_SIZE" by (simp add: MAX_SIZE_def)
  then show ?thesis
    using DisconnectBlock_undoes_ConnectBlock [OF no_keys_ok refl coin_cache_ok(1), of "\<lambda>_. 100" 20 "[coinbase_tx, spending_tx]"
        coinbase_tx "[spending_tx]" 9 8 "[1, 2, 3, 4]" "[]"] block_ok coin_cache_ok(2) by auto
qed

text \<open>
  When an input that is being restored overwrites an unspent coin of the view and did not
  come from a coinbase, the restoring function does not report an unclean result: adding the
  coin throws an exception.
\<close>

theorem ApplyTxInUndo_overwrite_throws:
  assumes "decompress_ok IsFullyValid DecompressKey" "cache_inv (db_utxo DecompressKey) (db_inv IsFullyValid) storable c"
    and "cutxo (db_utxo DecompressKey) c o' \<noteq> None" "\<not> IsSpent undo" "\<not> fCoinBase undo" "coin_nHeight undo > 0"
    and "\<not> IsUnspendable (scriptPubKey (out undo))"
  shows "fst (ApplyTxInUndo (CCoinsViewDB IsFullyValid DecompressKey) undo o' c) = Inl LogicError"
  by (rule coins_view.ApplyTxInUndo_overwrite [OF db_is_view [OF assms(1)] assms(2-7)])

theorem ApplyTxInUndo_overwrite_throws_witness:
  "fst (ApplyTxInUndo (CCoinsViewDB (\<lambda>_. False) (\<lambda>_. None)) sample_coin op1 coin_cache) = Inl LogicError"
  using ApplyTxInUndo_overwrite_throws [OF no_keys_ok coin_cache_ok(1), of op1 sample_coin] coin_cache_ok(2) sample_coin_ok
  by (simp add: sample_coin_def)

end
