(* ===== verification/Arith_Uint256.thy ===== *)
theory Arith_Uint256
  imports Serialize
begin

unbundle bit_operations_syntax

text \<open>
  The 256-bit unsigned integers of \<open>src/src/arith_uint256.h\<close> and \<open>arith_uint256.cpp\<close>, which
  hold chain work and difficulty targets, on their limbs: a number is the list of its 32-bit
  words, the lowest first, and every operator is the limb loop of the source with its 64-bit
  carries.  \<open>nval\<close> is the number a list of limbs stands for.

  Shown: each operator computes the operation of the same name modulo \<open>2 ^ 256\<close>, the
  shift-and-subtract division is Euclidean division and fails exactly on a zero divisor, and
  the compact encoding of difficulty targets rounds down to the leading bytes.
\<close>

section \<open>Limbs\<close>

type_synonym arith_uint256 = "u32 list"

definition WIDTH :: nat where "WIDTH = 8"

fun nval :: "u32 list \<Rightarrow> nat" where
  "nval [] = 0"
| "nval (x # xs) = unat x + 2 ^ 32 * nval xs"

definition base_uint_zero :: arith_uint256 where
  "base_uint_zero = replicate WIDTH 0"

definition base_uint_u64 :: "u64 \<Rightarrow> arith_uint256" where
  "base_uint_u64 b = ucast b # ucast (drop_bit 32 b) # replicate (WIDTH - 2) 0"

definition is_zero :: "arith_uint256 \<Rightarrow> bool" where
  "is_zero pn \<longleftrightarrow> (\<forall>x\<in>set pn. x = 0)"

definition uint_not :: "arith_uint256 \<Rightarrow> arith_uint256" where
  "uint_not pn = map NOT pn"

text \<open>\<open>operator++\<close> and \<open>operator--\<close>: the carry goes on while a limb wraps and is not the last.\<close>

fun uint_incr :: "arith_uint256 \<Rightarrow> arith_uint256" where
  "uint_incr [] = []"
| "uint_incr (x # xs) = (let x = x + 1 in if x = 0 \<and> xs \<noteq> [] then x # uint_incr xs else x # xs)"

fun uint_decr :: "arith_uint256 \<Rightarrow> arith_uint256" where
  "uint_decr [] = []"
| "uint_decr (x # xs) = (let x = x - 1 in if x = - 1 \<and> xs \<noteq> [] then x # uint_decr xs else x # xs)"

definition uint_neg :: "arith_uint256 \<Rightarrow> arith_uint256" where
  "uint_neg pn = uint_incr (map NOT pn)"

fun add_loop :: "u64 \<Rightarrow> u32 list \<Rightarrow> u32 list \<Rightarrow> u32 list" where
  "add_loop carry (x # xs) (y # ys) =
     (let n = carry + ucast x + ucast y in ucast (n AND 0xFFFFFFFF) # add_loop (drop_bit 32 n) xs ys)"
| "add_loop carry xs ys = []"

definition uint_add :: "arith_uint256 \<Rightarrow> arith_uint256 \<Rightarrow> arith_uint256" where
  "uint_add a b = add_loop 0 a b"

definition uint_sub :: "arith_uint256 \<Rightarrow> arith_uint256 \<Rightarrow> arith_uint256" where
  "uint_sub a b = uint_add a (uint_neg b)"

fun mul32_loop :: "u64 \<Rightarrow> u32 \<Rightarrow> u32 list \<Rightarrow> u32 list" where
  "mul32_loop carry b32 (x # xs) =
     (let n = carry + ucast b32 * ucast x in ucast (n AND 0xFFFFFFFF) # mul32_loop (drop_bit 32 n) b32 xs)"
| "mul32_loop carry b32 [] = []"

definition uint_mul32 :: "arith_uint256 \<Rightarrow> u32 \<Rightarrow> arith_uint256" where
  "uint_mul32 a b32 = mul32_loop 0 b32 a"

text \<open>The inner loop of the multiplication adds \<open>a.pn[j] * b\<close> to the limbs from \<open>j\<close> on; the outer
  loop moves on by one limb after each row.\<close>

fun mul_row :: "u64 \<Rightarrow> u32 \<Rightarrow> u32 list \<Rightarrow> u32 list \<Rightarrow> u32 list" where
  "mul_row carry aj (p # ps) (b # bs) =
     (let n = carry + ucast p + ucast aj * ucast b in ucast (n AND 0xFFFFFFFF) # mul_row (drop_bit 32 n) aj ps bs)"
| "mul_row carry aj ps bs = []"

fun mul_loop :: "u32 list \<Rightarrow> u32 list \<Rightarrow> u32 list \<Rightarrow> u32 list" where
  "mul_loop (aj # as) b ps =
     (let ps = mul_row 0 aj ps b in take 1 ps @ mul_loop as b (drop 1 ps))"
| "mul_loop [] b ps = ps"

definition uint_mul :: "arith_uint256 \<Rightarrow> arith_uint256 \<Rightarrow> arith_uint256" where
  "uint_mul a b = mul_loop a b (replicate (length a) 0)"

section \<open>Comparison and size\<close>

fun compare_loop :: "u32 list \<Rightarrow> u32 list \<Rightarrow> int" where
  "compare_loop (x # xs) (y # ys) = (if x < y then - 1 else if x > y then 1 else compare_loop xs ys)"
| "compare_loop xs ys = 0"

definition CompareTo :: "arith_uint256 \<Rightarrow> arith_uint256 \<Rightarrow> int" where
  "CompareTo a b = compare_loop (rev a) (rev b)"

definition EqualTo :: "arith_uint256 \<Rightarrow> u64 \<Rightarrow> bool" where
  "EqualTo a b \<longleftrightarrow> \<not> (\<exists>x\<in>set (drop 2 a). x \<noteq> 0) \<and> ucast (a ! 1) = drop_bit 32 b \<and> ucast (a ! 0) = b AND 0xFFFFFFFF"

fun top_bit :: "u32 \<Rightarrow> nat \<Rightarrow> nat" where
  "top_bit x 0 = 1"
| "top_bit x (Suc n) = (if x AND push_bit (Suc n) 1 \<noteq> 0 then Suc n + 1 else top_bit x n)"

fun bits_loop :: "u32 list \<Rightarrow> nat" where
  "bits_loop [] = 0"
| "bits_loop (x # xs) = (if x \<noteq> 0 then 32 * length xs + top_bit x 31 else bits_loop xs)"

definition uint_bits :: "arith_uint256 \<Rightarrow> nat" where
  "uint_bits pn = bits_loop (rev pn)"

definition GetLow64 :: "arith_uint256 \<Rightarrow> u64" where
  "GetLow64 pn = ucast (pn ! 0) OR push_bit 32 (ucast (pn ! 1))"

section \<open>Shifts and division\<close>

definition or_at :: "nat \<Rightarrow> u32 \<Rightarrow> u32 list \<Rightarrow> u32 list" where
  "or_at i x pn = pn[i := pn ! i OR x]"

fun shl_loop :: "u32 list \<Rightarrow> nat \<Rightarrow> nat \<Rightarrow> nat list \<Rightarrow> u32 list \<Rightarrow> u32 list" where
  "shl_loop a k shift (i # is) pn =
     (let pn = (if i + k + 1 < length a \<and> shift \<noteq> 0 then or_at (i + k + 1) (drop_bit (32 - shift) (a ! i)) pn else pn);
          pn = (if i + k < length a then or_at (i + k) (push_bit shift (a ! i)) pn else pn)
      in shl_loop a k shift is pn)"
| "shl_loop a k shift [] pn = pn"

definition uint_shl :: "arith_uint256 \<Rightarrow> nat \<Rightarrow> arith_uint256" where
  "uint_shl a shift = shl_loop a (shift div 32) (shift mod 32) [0..<length a] (replicate (length a) 0)"

fun shr_loop :: "u32 list \<Rightarrow> nat \<Rightarrow> nat \<Rightarrow> nat list \<Rightarrow> u32 list \<Rightarrow> u32 list" where
  "shr_loop a k shift (i # is) pn =
     (let pn = (if i \<ge> k + 1 \<and> shift \<noteq> 0 then or_at (i - k - 1) (push_bit (32 - shift) (a ! i)) pn else pn);
          pn = (if i \<ge> k then or_at (i - k) (drop_bit shift (a ! i)) pn else pn)
      in shr_loop a k shift is pn)"
| "shr_loop a k shift [] pn = pn"

definition uint_shr :: "arith_uint256 \<Rightarrow> nat \<Rightarrow> arith_uint256" where
  "uint_shr a shift = shr_loop a (shift div 32) (shift mod 32) [0..<length a] (replicate (length a) 0)"

text \<open>The division loop counts \<open>shift\<close> down to zero; the argument is \<open>shift + 1\<close>.\<close>

fun div_loop :: "nat \<Rightarrow> arith_uint256 \<Rightarrow> arith_uint256 \<Rightarrow> arith_uint256 \<Rightarrow> arith_uint256" where
  "div_loop 0 num dv pn = pn"
| "div_loop (Suc shift) num dv pn =
     (if CompareTo num dv \<ge> 0
      then div_loop shift (uint_sub num dv) (uint_shr dv 1) (or_at (shift div 32) (push_bit (shift mod 32) 1) pn)
      else div_loop shift num (uint_shr dv 1) pn)"

datatype uint_error = DivisionByZero

definition uint_div :: "arith_uint256 \<Rightarrow> arith_uint256 \<Rightarrow> uint_error + arith_uint256" where
  "uint_div a b =
     (let num_bits = uint_bits a; div_bits = uint_bits b; z = replicate (length a) 0 in
      if div_bits = 0 then Inl DivisionByZero
      else if div_bits > num_bits then Inr z
      else let shift = num_bits - div_bits in Inr (div_loop (shift + 1) a (uint_shl b shift) z))"

section \<open>The compact form of targets\<close>

definition SetCompact :: "u32 \<Rightarrow> arith_uint256 \<times> bool \<times> bool" where
  "SetCompact nCompact =
     (let nSize = unat (drop_bit 24 nCompact);
          nWord = nCompact AND 0x007FFFFF;
          nWord = (if nSize \<le> 3 then drop_bit (8 * (3 - nSize)) nWord else nWord);
          this = (if nSize \<le> 3 then base_uint_u64 (ucast nWord) else uint_shl (base_uint_u64 (ucast nWord)) (8 * (nSize - 3)));
          fNegative = (nWord \<noteq> 0 \<and> nCompact AND 0x00800000 \<noteq> 0);
          fOverflow = (nWord \<noteq> 0 \<and> (nSize > 34 \<or> nWord > 0xFF \<and> nSize > 33 \<or> nWord > 0xFFFF \<and> nSize > 32))
      in (this, fNegative, fOverflow))"

text \<open>\<open>None\<close> is a failed assertion.\<close>

definition GetCompact :: "arith_uint256 \<Rightarrow> bool \<Rightarrow> u32 option" where
  "GetCompact pn fNegative =
     (let nSize = (uint_bits pn + 7) div 8;
          nCompact = (if nSize \<le> 3 then ucast (push_bit (8 * (3 - nSize)) (GetLow64 pn))
                      else ucast (GetLow64 (uint_shr pn (8 * (nSize - 3))))) :: u32;
          high = nCompact AND 0x00800000 \<noteq> 0;
          nCompact = (if high then drop_bit 8 nCompact else nCompact);
          nSize = (if high then nSize + 1 else nSize)
      in if nCompact AND NOT 0x007FFFFF = 0 \<and> nSize < 256 then
           let nCompact = nCompact OR push_bit 24 (of_nat nSize) in
           Some (nCompact OR (if fNegative \<and> nCompact AND 0x007FFFFF \<noteq> 0 then 0x00800000 else 0))
         else None)"

definition ArithToUint256 :: "arith_uint256 \<Rightarrow> uint256" where
  "ArithToUint256 a = of_nat (le_nat (concat (map (\<lambda>x. le_bytes 4 (unat x)) a)))"

definition UintToArith256 :: "uint256 \<Rightarrow> arith_uint256" where
  "UintToArith256 a = map (\<lambda>x. of_nat (le_nat (take 4 (drop (x * 4) (le_bytes 32 (unat a)))))) [0..<WIDTH]"

section \<open>What the operators compute\<close>

lemma limb_less: "unat (x :: u32) < 2 ^ 32"
  using unsigned_less [of x, where ?'a = nat] by simp

lemma nval_less: "nval xs < 2 ^ (32 * length xs)"
proof (induction xs)
  case (Cons x xs)
  have x: "unat x < 2 ^ 32" by (rule limb_less)
  have "unat x + 2 ^ 32 * nval xs < 2 ^ 32 + 2 ^ 32 * nval xs" using x by simp
  also have "\<dots> = 2 ^ 32 * (nval xs + 1)" by simp
  also have "\<dots> \<le> 2 ^ 32 * 2 ^ (32 * length xs)" using Cons by (intro mult_le_mono) simp_all
  finally show ?case by (simp add: power_add)
qed simp

lemma nval_append: "nval (xs @ ys) = nval xs + 2 ^ (32 * length xs) * nval ys"
  by (induction xs) (simp_all add: power_add algebra_simps)

lemma nval_replicate [simp]: "nval (replicate n 0) = 0"
  by (induction n) simp_all

lemma digits_inj: "x < m \<Longrightarrow> y < m \<Longrightarrow> x + m * u = y + m * (v :: nat) \<Longrightarrow> x = y \<and> u = v"
  by (metis add_left_imp_eq bot_nat_0.not_eq_extremum mod_less mod_mult_self2 mult_cancel1 not_less_zero)

lemma nval_inj: "length xs = length ys \<Longrightarrow> nval xs = nval ys \<Longrightarrow> xs = ys"
proof (induction xs ys rule: list_induct2)
  case (Cons x xs y ys)
  from digits_inj [OF limb_less [of x] limb_less [of y], of "nval xs" "nval ys"] Cons.prems
  have "unat x = unat y \<and> nval xs = nval ys" by (simp only: nval.simps)
  then show ?case using Cons.IH by (simp add: word_unat_eq_iff)
qed simp

lemma low_limb: "unat (ucast ((n :: u64) AND 0xFFFFFFFF) :: u32) = unat n mod 2 ^ 32"
proof -
  have "n AND 0xFFFFFFFF = take_bit 32 n" by (simp add: take_bit_eq_mask mask_eq_exp_minus_1)
  then have "unat (n AND 0xFFFFFFFF) = unat n mod 2 ^ 32" by (simp only: unsigned_take_bit_eq) (simp add: take_bit_eq_mod)
  then show ?thesis by (simp add: unsigned_ucast_eq take_bit_eq_mod)
qed

lemma high_limb: "unat (drop_bit 32 (n :: u64)) = unat n div 2 ^ 32"
proof -
  have "take_bit 64 (unat n) = unat n" using unsigned_less [of n, where ?'a = nat] by (simp add: take_bit_nat_eq_self)
  then show ?thesis by (simp only: unsigned_drop_bit_eq) (simp add: drop_bit_eq_div)
qed

lemma unat_ucast_limb [simp]: "unat (ucast (x :: u32) :: u64) = unat x"
  by (simp add: unsigned_ucast_eq take_bit_nat_eq_self limb_less [THEN order_less_le_trans])

text \<open>One round of a carry loop: the limb kept and the carry are together the sum.\<close>

lemma carry_step:
  assumes "unat (n :: u64) = s" and "nval r = (unat (drop_bit 32 n) + t) mod 2 ^ k"
  shows "nval (ucast (n AND 0xFFFFFFFF) # r) = (s + 2 ^ 32 * t) mod 2 ^ (32 + k)"
proof -
  have "nval (ucast (n AND 0xFFFFFFFF) # r) = s mod 2 ^ 32 + 2 ^ 32 * ((s div 2 ^ 32 + t) mod 2 ^ k)"
    using assms by (simp add: low_limb high_limb)
  also have "\<dots> = (s + 2 ^ 32 * t) mod 2 ^ (32 + k)"
  proof -
    have "(s + 2 ^ 32 * t) mod 2 ^ (32 + k) = 2 ^ 32 * ((s + 2 ^ 32 * t) div 2 ^ 32 mod 2 ^ k) + (s + 2 ^ 32 * t) mod 2 ^ 32"
      by (simp only: power_add mod_mult2_eq)
    then show ?thesis by (simp add: add.commute)
  qed
  finally show ?thesis .
qed

lemma length_add_loop [simp]: "length (add_loop c xs ys) = min (length xs) (length ys)"
  by (induction c xs ys rule: add_loop.induct) (simp_all add: Let_def)

lemma nval_add_loop:
  "length xs = length ys \<Longrightarrow> unat c \<le> 1 \<Longrightarrow> nval (add_loop c xs ys) = (unat c + nval xs + nval ys) mod 2 ^ (32 * length xs)"
proof (induction xs ys arbitrary: c rule: list_induct2)
  case (Cons x xs y ys)
  let ?n = "c + ucast x + ucast y"
  have n: "unat ?n = unat c + unat x + unat y"
    using Cons.prems limb_less [of x] limb_less [of y] by (simp add: unat_word_ariths)
  have "unat (drop_bit 32 ?n) \<le> 1"
    unfolding high_limb n using Cons.prems limb_less [of x] limb_less [of y] by simp
  from Cons.IH [OF this] have "nval (add_loop (drop_bit 32 ?n) xs ys) = (unat (drop_bit 32 ?n) + (nval xs + nval ys)) mod 2 ^ (32 * length xs)"
    by (simp add: add.assoc)
  from carry_step [OF n this] show ?case by (simp add: Let_def algebra_simps)
qed simp

lemma length_uint_add [simp]: "length (uint_add a b) = min (length a) (length b)"
  by (simp add: uint_add_def)

lemma nval_uint_add: "length a = length b \<Longrightarrow> nval (uint_add a b) = (nval a + nval b) mod 2 ^ (32 * length a)"
  by (simp add: uint_add_def nval_add_loop)

lemma length_uint_incr [simp]: "length (uint_incr a) = length a"
  by (induction a) (simp_all add: Let_def)

lemma unat_NOT_limb: "unat (NOT (x :: u32)) = 2 ^ 32 - 1 - unat x"
proof -
  have "NOT x = - 1 - x" by (simp add: not_eq_complement)
  also have "unat \<dots> = unat (- 1 :: u32) - unat x" by (rule unat_sub) simp
  finally show ?thesis by (simp add: unsigned_minus_1_eq_mask mask_eq_exp_minus_1)
qed

lemma nval_not: "nval (map NOT a) + nval a + 1 = 2 ^ (32 * length a)"
proof (induction a)
  case (Cons x xs)
  have "unat (NOT x) + unat x = 2 ^ 32 - 1" using limb_less [of x] by (simp add: unat_NOT_limb)
  then have "nval (map NOT (x # xs)) + nval (x # xs) + 1 = 2 ^ 32 * (nval (map NOT xs) + nval xs + 1)" by (simp add: algebra_simps)
  then show ?case using Cons by (simp add: power_add)
qed simp

lemma nval_uint_incr: "a \<noteq> [] \<Longrightarrow> nval (uint_incr a) = (nval a + 1) mod 2 ^ (32 * length a)"
proof (induction a)
  case (Cons x xs)
  show ?case
  proof (cases "x + 1 = 0")
    case True
    then have "x = - 1" by (simp add: eq_neg_iff_add_eq_0)
    then have x: "unat x = 2 ^ 32 - 1" by (simp add: unsigned_minus_1_eq_mask mask_eq_exp_minus_1)
    show ?thesis
    proof (cases "xs = []")
      case False
      have "nval (uint_incr (x # xs)) = 2 ^ 32 * ((nval xs + 1) mod 2 ^ (32 * length xs))" using True False Cons.IH by (simp add: Let_def)
      also have "\<dots> = (2 ^ 32 * (nval xs + 1)) mod 2 ^ (32 * length (x # xs))" by (simp add: power_add mult_mod_right)
      finally show ?thesis using x by (simp add: algebra_simps)
    qed (use True x in \<open>simp add: Let_def\<close>)
  next
    case False
    then have x: "unat (x + 1) = unat x + 1" by (metis Suc_eq_plus1 add.commute unatSuc)
    have "nval ((x + 1) # xs) < 2 ^ (32 * length (x # xs))" using nval_less [of "(x + 1) # xs"] by simp
    then show ?thesis using False x by (simp add: Let_def)
  qed
qed simp


lemma length_uint_neg [simp]: "length (uint_neg a) = length a"
  by (simp add: uint_neg_def)

lemma nval_uint_neg: "nval (uint_neg a) = (2 ^ (32 * length a) - nval a) mod 2 ^ (32 * length a)"
proof (cases "a = []")
  case False
  have "nval (map NOT a) + 1 = 2 ^ (32 * length a) - nval a" using nval_not [of a] by simp
  then show ?thesis using False by (simp add: uint_neg_def nval_uint_incr)
qed (simp add: uint_neg_def)

lemma length_uint_sub [simp]: "length (uint_sub a b) = min (length a) (length b)"
  by (simp add: uint_sub_def)

lemma nval_uint_sub:
  "length a = length b \<Longrightarrow> nval (uint_sub a b) = (nval a + 2 ^ (32 * length a) - nval b) mod 2 ^ (32 * length a)"
  using nval_less [of b] by (simp add: uint_sub_def nval_uint_add nval_uint_neg mod_add_right_eq)

lemma nval_uint_sub_le:
  assumes "length a = length b" "nval b \<le> nval a"
  shows "nval (uint_sub a b) = nval a - nval b"
proof -
  have "nval a + 2 ^ (32 * length a) - nval b = (nval a - nval b) + 2 ^ (32 * length a)" using assms by simp
  moreover have "nval a - nval b < 2 ^ (32 * length a)" using nval_less [of a] by simp
  ultimately show ?thesis using nval_uint_sub [OF assms(1)] by (simp only: mod_add_self2 mod_less)
qed

lemma length_mul32_loop [simp]: "length (mul32_loop c b xs) = length xs"
  by (induction c b xs rule: mul32_loop.induct) (simp_all add: Let_def)

text \<open>No partial sum leaves 64 bits.\<close>

lemma limb_product_bound:
  assumes "x < 2 ^ 32" "y < 2 ^ 32" "c < 2 ^ 32" "p < 2 ^ 32"
  shows "c + p + x * y < 2 ^ 64 \<and> (c + p + x * y) div 2 ^ 32 < (2 ^ 32 :: nat)"
proof -
  have "x * y \<le> (2 ^ 32 - 1) * (2 ^ 32 - 1)" using assms by (intro mult_le_mono) simp_all
  then have "c + p + x * y \<le> (2 ^ 32 - 1) + (2 ^ 32 - 1) + (2 ^ 32 - 1) * (2 ^ 32 - 1)" using assms by simp
  also have "\<dots> < 2 ^ 64" by simp
  finally show ?thesis by (simp add: less_mult_imp_div_less)
qed

lemma unat_product_sum:
  assumes "unat (c :: u64) < 2 ^ 32" "unat (p :: u64) < 2 ^ 32"
  shows "unat (c + p + ucast (x :: u32) * ucast (y :: u32)) = unat c + unat p + unat x * unat y"
proof -
  have "c + p + ucast x * ucast y = of_nat (unat c + unat p + unat x * unat y)" by simp
  moreover have "unat c + unat p + unat x * unat y < 2 ^ 64"
    using limb_product_bound [OF limb_less [of x] limb_less [of y] assms] by (rule conjunct1)
  ultimately show ?thesis by (simp add: unsigned_of_nat take_bit_nat_eq_self del: of_nat_add of_nat_mult)
qed

lemma nval_mul32_loop:
  "unat c < 2 ^ 32 \<Longrightarrow> nval (mul32_loop c b xs) = (unat c + unat b * nval xs) mod 2 ^ (32 * length xs)"
proof (induction xs arbitrary: c)
  case (Cons x xs)
  let ?n = "c + ucast b * ucast x"
  have n: "unat ?n = unat c + unat b * unat x"
    using unat_product_sum [OF Cons.prems, of 0 b x] by simp
  have "unat (drop_bit 32 ?n) < 2 ^ 32"
    unfolding high_limb n using limb_product_bound [OF limb_less [of b] limb_less [of x] Cons.prems, of 0] by simp
  from Cons.IH [OF this] have "nval (mul32_loop (drop_bit 32 ?n) b xs) = (unat (drop_bit 32 ?n) + unat b * nval xs) mod 2 ^ (32 * length xs)" .
  from carry_step [OF n this] show ?case by (simp add: Let_def algebra_simps)
qed simp

lemma length_uint_mul32 [simp]: "length (uint_mul32 a b) = length a"
  by (simp add: uint_mul32_def)

lemma nval_uint_mul32: "nval (uint_mul32 a b) = (nval a * unat b) mod 2 ^ (32 * length a)"
  by (simp add: uint_mul32_def nval_mul32_loop mult.commute)

lemma length_mul_row [simp]: "length (mul_row c a ps bs) = min (length ps) (length bs)"
  by (induction c a ps bs rule: mul_row.induct) (simp_all add: Let_def)

lemma nval_mul_row:
  "unat c < 2 ^ 32 \<Longrightarrow> length ps \<le> length bs \<Longrightarrow>
   nval (mul_row c a ps bs) = (unat c + nval ps + unat a * nval bs) mod 2 ^ (32 * length ps)"
proof (induction ps arbitrary: bs c)
  case (Cons p ps)
  then obtain b bs' where bs: "bs = b # bs'" by (cases bs) auto
  let ?n = "c + ucast p + ucast a * ucast b"
  have p: "unat (ucast p :: u64) < 2 ^ 32" using limb_less [of p] by simp
  have n: "unat ?n = unat c + unat p + unat a * unat b"
    using unat_product_sum [OF Cons.prems(1) p, of a b] by simp
  have "unat (drop_bit 32 ?n) < 2 ^ 32"
    unfolding high_limb n using limb_product_bound [OF limb_less [of a] limb_less [of b] Cons.prems(1) limb_less [of p]] by simp
  from Cons.IH [OF this, of bs'] have
    "nval (mul_row (drop_bit 32 ?n) a ps bs') = (unat (drop_bit 32 ?n) + (nval ps + unat a * nval bs')) mod 2 ^ (32 * length ps)"
    using Cons.prems(2) bs by (simp add: add.assoc)
  from carry_step [OF n this] show ?case by (simp add: Let_def algebra_simps bs)
qed simp

lemma mod_split: "x < m \<Longrightarrow> (x + m * y) mod (m * k) = x + m * (y mod (k :: nat))"
  by (simp add: mod_mult2_eq)

lemma limb_mod: "(nval (r # rs) + 2 ^ 32 * t) mod 2 ^ (32 + k) = unat r + 2 ^ 32 * ((nval rs + t) mod 2 ^ k)"
  using mod_split [OF limb_less [of r], of "nval rs + t" "2 ^ k"]
  by (simp only: power_add nval.simps distrib_left add.assoc)

lemma length_mul_loop [simp]: "length as = length ps \<Longrightarrow> length ps \<le> length b \<Longrightarrow> length (mul_loop as b ps) = length ps"
  by (induction as b ps rule: mul_loop.induct) (auto simp: Let_def)

lemma nval_mul_loop:
  "length as = length ps \<Longrightarrow> length ps \<le> length b \<Longrightarrow>
   nval (mul_loop as b ps) = (nval ps + nval as * nval b) mod 2 ^ (32 * length ps)"
proof (induction as arbitrary: ps)
  case (Cons a as)
  let ?r = "mul_row 0 a ps b" and ?k = "32 * length as"
  have r: "nval ?r = (nval ps + unat a * nval b) mod 2 ^ (32 + ?k)" and len: "length ?r = Suc (length as)"
    using Cons.prems nval_mul_row [of 0 ps b a] by (auto simp flip: Cons.prems(1))
  from len obtain r0 rs where rs: "?r = r0 # rs" and lrs: "length rs = length as" by (cases ?r) auto
  have ih: "nval (mul_loop as b rs) = (nval rs + nval as * nval b) mod 2 ^ ?k"
    using Cons.IH [of rs] lrs Cons.prems by simp
  have "nval (mul_loop (a # as) b ps) = unat r0 + 2 ^ 32 * ((nval rs + nval as * nval b) mod 2 ^ ?k)"
    using rs ih by (simp add: Let_def)
  also have "\<dots> = (nval (r0 # rs) + 2 ^ 32 * (nval as * nval b)) mod 2 ^ (32 + ?k)"
    by (rule limb_mod [symmetric])
  also have "\<dots> = (nval ps + unat a * nval b + 2 ^ 32 * (nval as * nval b)) mod 2 ^ (32 + ?k)"
    using r unfolding rs by (simp only: mod_add_left_eq)
  finally show ?case using Cons.prems(1) [symmetric] by (simp add: algebra_simps)
qed simp

lemma length_uint_mul [simp]: "length a = length b \<Longrightarrow> length (uint_mul a b) = length a"
  by (simp add: uint_mul_def)

lemma nval_uint_mul: "length a = length b \<Longrightarrow> nval (uint_mul a b) = (nval a * nval b) mod 2 ^ (32 * length a)"
  by (simp add: uint_mul_def nval_mul_loop)

section \<open>Comparison and bit counts\<close>

lemma high_digit_less: "u < b \<Longrightarrow> x < y \<Longrightarrow> u + b * x < v + b * (y :: nat)"
proof -
  assume "u < b" "x < y"
  then have "u + b * x < b * (x + 1)" by simp
  also have "\<dots> \<le> b * y" using \<open>x < y\<close> by (intro mult_le_mono2) simp
  finally show ?thesis by simp
qed

lemma compare_loop_rev:
  "length xs = length ys \<Longrightarrow>
   compare_loop xs ys = (if nval (rev xs) < nval (rev ys) then - 1 else if nval (rev xs) > nval (rev ys) then 1 else 0)"
proof (induction xs ys rule: list_induct2)
  case (Cons x xs y ys)
  let ?b = "2 ^ (32 * length xs) :: nat"
  have less: "nval (rev xs) < ?b" "nval (rev ys) < ?b"
    using nval_less [of "rev xs"] nval_less [of "rev ys"] Cons.hyps by simp_all
  have val: "nval (rev (x # xs)) = nval (rev xs) + ?b * unat x" "nval (rev (y # ys)) = nval (rev ys) + ?b * unat y"
    using Cons.hyps by (simp_all add: nval_append)
  consider "x < y" | "y < x" | "x = y" by (rule linorder_cases)
  then show ?case
  proof cases
    case 1
    then show ?thesis using high_digit_less [OF less(1), of "unat x" "unat y" "nval (rev ys)"] unfolding val
      by (simp add: word_less_nat_alt)
  next
    case 2
    then show ?thesis using high_digit_less [OF less(2), of "unat y" "unat x" "nval (rev xs)"] unfolding val
      by (simp add: word_less_nat_alt)
  next
    case 3
    then show ?thesis using Cons.IH unfolding val by simp
  qed
qed simp

lemma CompareTo_nval:
  assumes "length a = length b"
  shows "CompareTo a b < 0 \<longleftrightarrow> nval a < nval b" "CompareTo a b > 0 \<longleftrightarrow> nval a > nval b"
    "CompareTo a b \<ge> 0 \<longleftrightarrow> nval a \<ge> nval b" "CompareTo a b \<le> 0 \<longleftrightarrow> nval a \<le> nval b"
  using assms compare_loop_rev [of "rev a" "rev b"] by (auto simp: CompareTo_def)

lemma bit_nat_range:
  assumes "(x :: nat) < 2 ^ Suc n"
  shows "if bit x n then 2 ^ n \<le> x else x < 2 ^ n"
proof -
  have "x div 2 ^ n < 2" using assms by (intro less_mult_imp_div_less) simp
  then have "bit x n \<longleftrightarrow> x div 2 ^ n = 1" by (auto simp: bit_iff_odd less_2_cases_iff)
  moreover have "x div 2 ^ n = 0 \<longleftrightarrow> x < 2 ^ n" by (simp add: div_eq_0_iff)
  ultimately show ?thesis using \<open>x div 2 ^ n < 2\<close> by (auto simp: less_2_cases_iff)
qed

lemma top_bit_range:
  "x \<noteq> 0 \<Longrightarrow> n < 32 \<Longrightarrow> unat x < 2 ^ Suc n \<Longrightarrow>
   2 ^ (top_bit x n - 1) \<le> unat x \<and> unat x < 2 ^ top_bit x n \<and> 0 < top_bit x n"
proof (induction n)
  case 0
  then show ?case by (simp add: unat_gt_0 Suc_leI)
next
  case (Suc n)
  have "x AND push_bit (Suc n) 1 \<noteq> 0 \<longleftrightarrow> bit (unat x) (Suc n)"
    using Suc.prems by (simp only: bit_iff_and_push_bit_not_eq_0 [symmetric]) (simp add: bit_unsigned_iff)
  then show ?case using Suc.IH Suc.prems bit_nat_range [of "unat x" "Suc n"] by (auto split: if_splits)
qed

lemma bits_loop_range:
  "nval (rev xs) < 2 ^ bits_loop xs \<and> (bits_loop xs \<noteq> 0 \<longrightarrow> 2 ^ (bits_loop xs - 1) \<le> nval (rev xs))"
proof (induction xs)
  case (Cons x xs)
  show ?case
  proof (cases "x = 0")
    case True
    then show ?thesis using Cons by (simp add: nval_append)
  next
    case False
    let ?k = "32 * length xs" and ?t = "top_bit x 31"
    have t: "2 ^ (?t - 1) \<le> unat x" "unat x < 2 ^ ?t" "0 < ?t"
      using top_bit_range [OF False, of 31] limb_less [of x] by simp_all
    have val: "nval (rev (x # xs)) = nval (rev xs) + 2 ^ ?k * unat x" by (simp add: nval_append)
    have "nval (rev xs) < 2 ^ ?k" using nval_less [of "rev xs"] by simp
    from high_digit_less [OF this t(2), of 0] have "nval (rev (x # xs)) < 2 ^ (?k + ?t)" unfolding val by (simp add: power_add)
    moreover have "2 ^ (?k + ?t - 1) \<le> nval (rev (x # xs))"
    proof -
      have "(2 :: nat) ^ (?k + ?t - 1) = 2 ^ ?k * 2 ^ (?t - 1)" using t(3) by (simp flip: power_add)
      also have "\<dots> \<le> 2 ^ ?k * unat x" using t(1) by simp
      finally show ?thesis unfolding val by simp
    qed
    ultimately show ?thesis using False by simp
  qed
qed simp

lemma uint_bits_range: "nval a < 2 ^ uint_bits a" "uint_bits a \<noteq> 0 \<Longrightarrow> 2 ^ (uint_bits a - 1) \<le> nval a"
  using bits_loop_range [of "rev a"] by (simp_all add: uint_bits_def)

lemma uint_bits_le: "uint_bits a \<le> 32 * length a"
proof (rule ccontr)
  assume more: "\<not> ?thesis"
  then have "(2 :: nat) ^ (32 * length a) \<le> 2 ^ (uint_bits a - 1)" by (intro power_increasing) simp_all
  moreover have "2 ^ (uint_bits a - 1) \<le> nval a" using more by (intro uint_bits_range(2)) simp
  ultimately show False using nval_less [of a] by linarith
qed

lemma uint_bits_zero: "uint_bits a = 0 \<longleftrightarrow> nval a = 0"
  using uint_bits_range [of a] by (cases "uint_bits a = 0") (auto dest: order.trans)

section \<open>Shifts and division\<close>

lemma bit_nval: "bit (nval xs) n \<longleftrightarrow> n div 32 < length xs \<and> bit (xs ! (n div 32)) (n mod 32)"
proof (induction xs arbitrary: n)
  case (Cons x xs)
  show ?case
  proof (cases "n < 32")
    case True
    have "bit (nval (x # xs)) n \<longleftrightarrow> bit (take_bit 32 (nval (x # xs))) n" using True by (simp add: bit_take_bit_iff)
    also have "take_bit 32 (nval (x # xs)) = unat x" using limb_less [of x] by (simp add: take_bit_eq_mod)
    finally show ?thesis using True by (simp add: bit_unsigned_iff)
  next
    case False
    then obtain m where n: "n = m + 32" by (metis add.commute le_Suc_ex not_less)
    have "bit (nval (x # xs)) n \<longleftrightarrow> bit (drop_bit 32 (nval (x # xs))) m" by (simp only: n bit_drop_bit_eq comp_def add.commute)
    also have "drop_bit 32 (nval (x # xs)) = nval xs" using limb_less [of x] by (simp add: drop_bit_eq_div)
    moreover have "n div 32 = Suc (m div 32)" by (simp add: n div_add_self2)
    ultimately show ?thesis using Cons.IH [of m] by (simp add: n)
  qed
qed simp

lemma length_or_at [simp]: "length (or_at i x pn) = length pn"
  by (simp add: or_at_def)

lemma length_shl_loop [simp]: "length (shl_loop a k s is pn) = length pn"
  by (induction a k s "is" pn rule: shl_loop.induct) (simp_all add: Let_def)

lemma length_shr_loop [simp]: "length (shr_loop a k s is pn) = length pn"
  by (induction a k s "is" pn rule: shr_loop.induct) (simp_all add: Let_def)

lemma length_uint_shl [simp]: "length (uint_shl a n) = length a"
  by (simp add: uint_shl_def)

lemma length_uint_shr [simp]: "length (uint_shr a n) = length a"
  by (simp add: uint_shr_def)

lemma bit_or_at: "j < length pn \<Longrightarrow> bit (or_at i x pn ! j) m \<longleftrightarrow> bit (pn ! j) m \<or> i = j \<and> bit x m"
  by (cases "i = j") (simp_all add: or_at_def bit_or_iff)

lemma bit_shl_loop:
  "length pn = length a \<Longrightarrow> j < length a \<Longrightarrow> m < 32 \<Longrightarrow> s < 32 \<Longrightarrow>
   bit (shl_loop a k s is pn ! j) m \<longleftrightarrow>
     bit (pn ! j) m \<or> (\<exists>i\<in>set is. i + k + 1 = j \<and> s \<noteq> 0 \<and> bit (a ! i) (m + 32 - s)) \<or>
     (\<exists>i\<in>set is. i + k = j \<and> s \<le> m \<and> bit (a ! i) (m - s))"
proof (induction "is" arbitrary: pn)
  case (Cons i "is")
  then show ?case
    by (simp add: Let_def bit_or_at bit_push_bit_iff bit_drop_bit_eq algebra_simps) blast
qed simp

lemma bit_shr_loop:
  "length pn = length a \<Longrightarrow> j < length a \<Longrightarrow> m < 32 \<Longrightarrow> s < 32 \<Longrightarrow>
   bit (shr_loop a k s is pn ! j) m \<longleftrightarrow>
     bit (pn ! j) m \<or> (\<exists>i\<in>set is. i = j + k + 1 \<and> s \<noteq> 0 \<and> 32 \<le> m + s \<and> bit (a ! i) (m + s - 32)) \<or>
     (\<exists>i\<in>set is. i = j + k \<and> bit (a ! i) (m + s))"
proof (induction "is" arbitrary: pn)
  case (Cons i "is")
  let ?p1 = "if i \<ge> k + 1 \<and> s \<noteq> 0 then or_at (i - k - 1) (push_bit (32 - s) (a ! i)) pn else pn"
  let ?p2 = "if i \<ge> k then or_at (i - k) (drop_bit s (a ! i)) ?p1 else ?p1"
  have len: "length ?p1 = length a" "length ?p2 = length a" using Cons.prems by simp_all
  have "bit (?p1 ! j) m \<longleftrightarrow> bit (pn ! j) m \<or> i = j + k + 1 \<and> s \<noteq> 0 \<and> 32 \<le> m + s \<and> bit (a ! i) (m + s - 32)"
    using Cons.prems by (auto simp: bit_or_at bit_push_bit_iff)
  moreover have "bit (?p2 ! j) m \<longleftrightarrow> bit (?p1 ! j) m \<or> i = j + k \<and> bit (a ! i) (m + s)"
    using Cons.prems len(1) by (auto simp: bit_or_at bit_drop_bit_eq add.commute)
  moreover have "shr_loop a k s (i # is) pn = shr_loop a k s is ?p2" by (simp only: shr_loop.simps Let_def)
  ultimately show ?case using Cons.IH [OF len(2) Cons.prems(2-4)] by (simp only: set_simps bex_simps) blast
qed simp

lemma bit_limb_above: "32 \<le> m \<Longrightarrow> \<not> bit (x :: u32) m"
  using bit_imp_le_length [of x m] by auto

lemma limb_index: "t div 32 < k \<longleftrightarrow> t < 32 * (k :: nat)"
  by (simp add: div_less_iff_less_mult mult.commute)

lemma digits_of: "x = 32 * q + r \<Longrightarrow> r < 32 \<Longrightarrow> x div 32 = q \<and> x mod 32 = (r :: nat)"
  by simp

lemma digitsE: obtains q r where "x = 32 * q + r" "r < (32 :: nat)" "x div 32 = q" "x mod 32 = r"
  by (metis digits_of mod_less_divisor mult_div_mod_eq zero_less_numeral)

lemma shift_index_high:
  assumes "n mod 32 \<le> t mod (32 :: nat)"
  shows "(n \<le> t \<longleftrightarrow> n div 32 \<le> t div 32) \<and> (n \<le> t \<longrightarrow> (t - n) div 32 = t div 32 - n div 32 \<and> (t - n) mod 32 = t mod 32 - n mod 32)"
proof -
  obtain k s where n: "n = 32 * k + s" "s < 32" "n div 32 = k" "n mod 32 = s" by (rule digitsE)
  obtain j m where t: "t = 32 * j + m" "m < 32" "t div 32 = j" "t mod 32 = m" by (rule digitsE)
  have sm: "s \<le> m" using assms unfolding n(4) t(4) .
  have le: "n \<le> t \<longleftrightarrow> k \<le> j" using n(1,2) t(1,2) sm by linarith
  have "t - n = 32 * (j - k) + (m - s)" if "n \<le> t" using that n(1,2) t(1,2) sm le by linarith
  then show ?thesis unfolding n(3,4) t(3,4) using le digits_of [of "t - n" "j - k" "m - s"] t(2) by auto
qed

lemma shift_index_low:
  assumes "\<not> n mod 32 \<le> t mod (32 :: nat)"
  shows "(n \<le> t \<longleftrightarrow> n div 32 + 1 \<le> t div 32) \<and>
    (n \<le> t \<longrightarrow> (t - n) div 32 = t div 32 - (n div 32 + 1) \<and> (t - n) mod 32 = t mod 32 + 32 - n mod 32)"
proof -
  obtain k s where n: "n = 32 * k + s" "s < 32" "n div 32 = k" "n mod 32 = s" by (rule digitsE)
  obtain j m where t: "t = 32 * j + m" "m < 32" "t div 32 = j" "t mod 32 = m" by (rule digitsE)
  have sm: "m < s" using assms unfolding n(4) t(4) by simp
  have le: "n \<le> t \<longleftrightarrow> k + 1 \<le> j" using n(1,2) t(1,2) sm by linarith
  have "t - n = 32 * (j - (k + 1)) + (m + 32 - s)" if "n \<le> t" using that n(1,2) t(1,2) sm le by linarith
  then show ?thesis unfolding n(3,4) t(3,4) using le digits_of [of "t - n" "j - (k + 1)" "m + 32 - s"] sm by auto
qed

lemma shift_index_sum:
  fixes t n :: nat
  shows "(32 \<le> t mod 32 + n mod 32 \<longrightarrow> (t + n) div 32 = t div 32 + n div 32 + 1 \<and> (t + n) mod 32 = t mod 32 + n mod 32 - 32) \<and>
    (\<not> 32 \<le> t mod 32 + n mod 32 \<longrightarrow> (t + n) div 32 = t div 32 + n div 32 \<and> (t + n) mod 32 = t mod 32 + n mod 32)"
proof -
  obtain k s where n: "n = 32 * k + s" "s < 32" "n div 32 = k" "n mod 32 = s" by (rule digitsE)
  obtain j m where t: "t = 32 * j + m" "m < 32" "t div 32 = j" "t mod 32 = m" by (rule digitsE)
  have "t + n = 32 * (j + k + 1) + (m + s - 32)" if "32 \<le> m + s" using that by (simp add: n(1) t(1))
  moreover have "t + n = 32 * (j + k) + (m + s)" by (simp add: n(1) t(1))
  ultimately show ?thesis unfolding n(3,4) t(3,4)
    using digits_of [of "t + n" "j + k + 1" "m + s - 32"] digits_of [of "t + n" "j + k" "m + s"] n(2) t(2) by auto
qed

lemma ex_index: "j < len \<Longrightarrow> (\<exists>i<len. i + k = j \<and> P i) \<longleftrightarrow> k \<le> j \<and> P (j - k)" for j k :: nat
  by (auto intro!: exI [of _ "j - k"])

lemma bit_uint_shl: "bit (nval (uint_shl a n)) t \<longleftrightarrow> t < 32 * length a \<and> n \<le> t \<and> bit (nval a) (t - n)"
proof (cases "t div 32 < length a")
  case True
  let ?j = "t div 32" and ?m = "t mod 32" and ?k = "n div 32" and ?s = "n mod 32"
  have "bit (nval (uint_shl a n)) t \<longleftrightarrow>
      (\<exists>i<length a. i + (?k + 1) = ?j \<and> ?s \<noteq> 0 \<and> bit (a ! i) (?m + 32 - ?s)) \<or> (\<exists>i<length a. i + ?k = ?j \<and> ?s \<le> ?m \<and> bit (a ! i) (?m - ?s))"
    using True by (simp add: bit_nval uint_shl_def bit_shl_loop Bex_def)
  also have "\<dots> \<longleftrightarrow> ?k + 1 \<le> ?j \<and> ?s \<noteq> 0 \<and> bit (a ! (?j - (?k + 1))) (?m + 32 - ?s) \<or> ?k \<le> ?j \<and> ?s \<le> ?m \<and> bit (a ! (?j - ?k)) (?m - ?s)"
    by (simp only: ex_index [OF True])
  also have "\<dots> \<longleftrightarrow> n \<le> t \<and> bit (nval a) (t - n)"
  proof (cases "?s \<le> ?m")
    case s: True
    then have "\<not> bit (a ! i) (?m + 32 - ?s)" for i by (intro bit_limb_above) simp
    moreover have "bit (nval a) (t - n) \<longleftrightarrow> bit (a ! (?j - ?k)) (?m - ?s)" if "n \<le> t"
      using shift_index_high [OF s] that True by (simp add: bit_nval less_imp_diff_less)
    ultimately show ?thesis using s shift_index_high [OF s] by blast
  next
    case s: False
    moreover have "?s \<noteq> 0" using s by (intro notI) simp
    moreover have "bit (nval a) (t - n) \<longleftrightarrow> bit (a ! (?j - (?k + 1))) (?m + 32 - ?s)" if "n \<le> t"
      using shift_index_low [OF s] that True by (simp add: bit_nval less_imp_diff_less)
    ultimately show ?thesis using shift_index_low [OF s] by blast
  qed
  finally show ?thesis using True by (simp add: limb_index)
qed (simp add: bit_nval limb_index)

lemma nval_uint_shl: "nval (uint_shl a n) = (nval a * 2 ^ n) mod 2 ^ (32 * length a)"
proof -
  have "nval (uint_shl a n) = take_bit (32 * length a) (push_bit n (nval a))"
    by (rule bit_eqI) (simp add: bit_uint_shl bit_take_bit_iff bit_push_bit_iff)
  then show ?thesis by (simp add: take_bit_eq_mod push_bit_eq_mult)
qed

lemma bit_uint_shr: "bit (nval (uint_shr a n)) t \<longleftrightarrow> bit (nval a) (t + n)"
proof (cases "t div 32 < length a")
  case True
  let ?j = "t div 32" and ?m = "t mod 32" and ?k = "n div 32" and ?s = "n mod 32"
  have "bit (nval (uint_shr a n)) t \<longleftrightarrow>
      (?j + ?k + 1 < length a \<and> ?s \<noteq> 0 \<and> 32 \<le> ?m + ?s \<and> bit (a ! (?j + ?k + 1)) (?m + ?s - 32)) \<or> (?j + ?k < length a \<and> bit (a ! (?j + ?k)) (?m + ?s))"
    using True by (auto simp: bit_nval uint_shr_def bit_shr_loop)
  also have "\<dots> \<longleftrightarrow> bit (nval a) (t + n)"
  proof (cases "32 \<le> ?m + ?s")
    case s: True
    then have "\<not> bit (a ! i) (?m + ?s)" for i by (rule bit_limb_above)
    moreover have "?s \<noteq> 0" using s by (intro notI) simp
    ultimately show ?thesis using s shift_index_sum [of t n] by (simp add: bit_nval)
  next
    case s: False
    then show ?thesis using shift_index_sum [of t n] by (simp add: bit_nval)
  qed
  finally show ?thesis .
next
  case False
  moreover have "t div 32 \<le> (t + n) div 32" by (rule div_le_mono) simp
  ultimately show ?thesis by (auto simp: bit_nval)
qed

lemma nval_uint_shr: "nval (uint_shr a n) = nval a div 2 ^ n"
proof -
  have "nval (uint_shr a n) = drop_bit n (nval a)"
    by (rule bit_eqI) (simp add: bit_uint_shr bit_drop_bit_eq add.commute)
  then show ?thesis by (simp add: drop_bit_eq_div)
qed

lemma nval_set_bit:
  assumes "t < 32 * length pn" "\<not> bit (nval pn) t"
  shows "nval (or_at (t div 32) (push_bit (t mod 32) 1) pn) = nval pn + 2 ^ t"
proof -
  have "nval (or_at (t div 32) (push_bit (t mod 32) 1) pn) = set_bit t (nval pn)"
  proof (rule bit_eqI)
    fix n
    have "bit (push_bit (t mod 32) (1 :: u32)) (n mod 32) \<longleftrightarrow> t mod 32 = n mod 32"
      by (auto simp: bit_exp_iff)
    moreover have "t = n \<longleftrightarrow> t div 32 = n div 32 \<and> t mod 32 = n mod 32" by (metis div_mult_mod_eq)
    ultimately show "bit (nval (or_at (t div 32) (push_bit (t mod 32) 1) pn)) n \<longleftrightarrow> bit (set_bit t (nval pn)) n"
      using assms(1) by (cases "n div 32 < length pn") (auto simp: bit_nval bit_or_at bit_set_bit_iff limb_index simp del: push_bit_of_1)
  qed
  then show ?thesis using assms(2) by (simp add: set_bit_eq)
qed


lemma length_div_loop [simp]: "length (div_loop n num dv pn) = length pn"
  by (induction n num dv pn rule: div_loop.induct) simp_all

text \<open>The division loop adds the quotient by \<open>d\<close> to what has been set already, when the divisor
  is aligned with the bit being decided and all lower bits of the quotient are still clear.\<close>

lemma nval_div_loop:
  "length num = w \<Longrightarrow> length dv = w \<Longrightarrow> length pn = w \<Longrightarrow> n \<le> 32 * w \<Longrightarrow> 0 < d \<Longrightarrow>
   nval num < d * 2 ^ n \<Longrightarrow> (n \<noteq> 0 \<longrightarrow> nval dv = d * 2 ^ (n - 1)) \<Longrightarrow> 2 ^ n dvd nval pn \<Longrightarrow>
   nval (div_loop n num dv pn) = nval pn + nval num div d"
proof (induction n arbitrary: num dv pn)
  case (Suc n)
  let ?dv = "uint_shr dv 1" and ?pn = "or_at (n div 32) (push_bit (n mod 32) 1) pn"
  have dv: "nval dv = d * 2 ^ n" using Suc.prems by simp
  have dv': "n \<noteq> 0 \<longrightarrow> nval ?dv = d * 2 ^ (n - 1)" using dv by (cases n) (simp_all add: nval_uint_shr)
  show ?case
  proof (cases "nval dv \<le> nval num")
    case True
    have "\<not> bit (nval pn) n" using Suc.prems(8) by (auto simp: bit_iff_odd dvd_def)
    then have pn: "nval ?pn = nval pn + 2 ^ n" using Suc.prems by (intro nval_set_bit) simp_all
    have num: "nval (uint_sub num dv) = nval num - d * 2 ^ n" using True Suc.prems dv by (simp add: nval_uint_sub_le)
    have "2 ^ n dvd nval ?pn" unfolding pn using Suc.prems(8) by (auto intro: dvd_add power_le_dvd)
    moreover have "nval (uint_sub num dv) < d * 2 ^ n" unfolding num using Suc.prems(6) by simp
    ultimately have "nval (div_loop n (uint_sub num dv) ?dv ?pn) = nval ?pn + nval (uint_sub num dv) div d"
      using Suc.prems dv' by (intro Suc.IH) simp_all
    moreover have "nval num div d = 2 ^ n + (nval num - d * 2 ^ n) div d"
      using True dv Suc.prems(5) by (metis add.commute div_mult_self2 le_add_diff_inverse2 less_not_refl2)
    ultimately show ?thesis using True Suc.prems by (simp add: CompareTo_nval pn num del: push_bit_of_1)
  next
    case False
    have "2 ^ n dvd nval pn" using Suc.prems(8) by (rule power_le_dvd) simp
    then have "nval (div_loop n num ?dv pn) = nval pn + nval num div d"
      using Suc.prems dv' False dv by (intro Suc.IH) simp_all
    then show ?thesis using False Suc.prems by (simp add: CompareTo_nval)
  qed
qed simp

lemma uint_div_nval:
  assumes len: "length a = w" "length b = w" and b: "nval b \<noteq> 0"
  shows "\<exists>q. uint_div a b = Inr q \<and> length q = w \<and> nval q = nval a div nval b"
proof (cases "uint_bits b > uint_bits a")
  case True
  then have "(2 :: nat) ^ uint_bits a \<le> 2 ^ (uint_bits b - 1)" by (intro power_increasing) simp_all
  moreover have "2 ^ (uint_bits b - 1) \<le> nval b" using True by (intro uint_bits_range(2)) simp
  ultimately have "nval a < nval b" using uint_bits_range(1) [of a] by linarith
  then show ?thesis using True len by (simp add: uint_div_def Let_def)
next
  case False
  define s where "s = uint_bits a - uint_bits b"
  have nz: "uint_bits b \<noteq> 0" using b by (simp add: uint_bits_zero)
  have sum: "uint_bits b + s = uint_bits a" using False by (simp add: s_def)
  have "nval b * 2 ^ s < 2 ^ uint_bits b * 2 ^ s" using uint_bits_range(1) [of b] by simp
  also have "\<dots> = 2 ^ uint_bits a" by (simp only: sum power_add [symmetric])
  also have "\<dots> \<le> 2 ^ (32 * w)" using uint_bits_le [of a] len by (intro power_increasing) simp_all
  finally have shl: "nval (uint_shl b s) = nval b * 2 ^ s" using len by (simp add: nval_uint_shl)
  have "nval a < 2 ^ uint_bits a" by (rule uint_bits_range)
  also have "(2 :: nat) ^ uint_bits a = 2 ^ (uint_bits b - 1) * 2 ^ (s + 1)"
  proof -
    have "uint_bits a = (uint_bits b - 1) + (s + 1)" using nz sum by simp
    then show ?thesis by (simp only: power_add)
  qed
  also have "\<dots> \<le> nval b * 2 ^ (s + 1)" using uint_bits_range(2) [OF nz] by simp
  finally have num: "nval a < nval b * 2 ^ (s + 1)" .
  have "s + 1 \<le> 32 * w" using sum nz uint_bits_le [of a] len by simp
  then have "nval (div_loop (s + 1) a (uint_shl b s) (replicate w 0)) = nval (replicate w 0) + nval a div nval b"
    using len b num shl by (intro nval_div_loop) simp_all
  then show ?thesis using False nz len by (simp add: uint_div_def Let_def s_def)
qed

lemma uint_div_zero: "uint_div a b = Inl DivisionByZero \<longleftrightarrow> nval b = 0"
  by (simp add: uint_div_def Let_def uint_bits_zero)

section \<open>Conversion from and to hashes\<close>

lemma le_bytes_append: "le_bytes (a + b) n = le_bytes a n @ le_bytes b (n div 256 ^ a)"
  by (induction a arbitrary: n) (simp_all add: div_mult2_eq)

lemma nval_limbs_of_bytes:
  "nval (map (\<lambda>x. of_nat (le_nat (take 4 (drop (x * 4) (le_bytes (k * 4) n))))) [0..<k]) = n mod 2 ^ (32 * k)"
proof (induction k arbitrary: n)
  case (Suc k)
  have split: "le_bytes (Suc k * 4) n = le_bytes 4 n @ le_bytes (k * 4) (n div 256 ^ 4)"
    using le_bytes_append [of 4 "k * 4" n] by simp
  have "take 4 (drop (Suc x * 4) (le_bytes (Suc k * 4) n)) = take 4 (drop (x * 4) (le_bytes (k * 4) (n div 2 ^ 32)))" for x
    unfolding split by simp
  moreover have "unat (of_nat (le_nat (take 4 (le_bytes (Suc k * 4) n))) :: u32) = n mod 2 ^ 32"
    unfolding split by (simp add: le_nat_le_bytes unsigned_of_nat take_bit_eq_mod)
  moreover have "n mod 2 ^ 32 + 2 ^ 32 * (n div 2 ^ 32 mod 2 ^ (32 * k)) = n mod (2 ^ 32 * 2 ^ (32 * k))"
    by (simp only: mod_mult2_eq add.commute)
  ultimately show ?case using Suc.IH [of "n div 2 ^ 32"]
    by (simp del: upt_Suc mult_Suc add: map_upt_Suc power_add comp_def)
qed simp

lemma length_UintToArith256 [simp]: "length (UintToArith256 h) = 8"
  by (simp add: UintToArith256_def WIDTH_def)

lemma nval_UintToArith256 [simp]: "nval (UintToArith256 h) = unat h"
  using nval_limbs_of_bytes [of 8 "unat h"] unsigned_less [of h, where ?'a = nat]
  by (simp add: UintToArith256_def WIDTH_def)

lemma le_nat_limbs: "le_nat (concat (map (\<lambda>x. le_bytes 4 (unat x)) a)) = nval a"
  using limb_less by (induction a) (simp_all add: le_nat_append le_nat_le_bytes)

lemma unat_ArithToUint256: "length a = 8 \<Longrightarrow> unat (ArithToUint256 a) = nval a"
  using nval_less [of a] by (simp add: ArithToUint256_def le_nat_limbs unsigned_of_nat take_bit_nat_eq_self)

lemma UintToArith256_inverse: "ArithToUint256 (UintToArith256 h) = h"
  by (simp add: word_unat_eq_iff unat_ArithToUint256)

lemma ArithToUint256_inverse: "length a = 8 \<Longrightarrow> UintToArith256 (ArithToUint256 a) = a"
  by (rule nval_inj) (simp_all add: unat_ArithToUint256)

section \<open>Compact targets\<close>

lemma nval_u64: "nval (base_uint_u64 b) = unat b"
proof -
  have b: "unat b < 2 ^ 64" using unsigned_less [of b, where ?'a = nat] by simp
  have "unat (ucast b :: u32) = unat b mod 2 ^ 32" by (simp add: unsigned_ucast_eq take_bit_eq_mod)
  moreover have "unat (ucast (drop_bit 32 b) :: u32) = unat b div 2 ^ 32 mod 2 ^ 32"
    by (simp only: unsigned_ucast_eq high_limb) (simp add: take_bit_eq_mod)
  moreover have "unat b div 2 ^ 32 < 2 ^ 32" using b by (intro less_mult_imp_div_less) simp
  ultimately show ?thesis by (simp add: base_uint_u64_def)
qed

lemma length_u64 [simp]: "length (base_uint_u64 b) = WIDTH"
  by (simp add: base_uint_u64_def WIDTH_def)

lemma length_SetCompact [simp]: "length (fst (SetCompact c)) = 8"
  by (simp add: SetCompact_def Let_def WIDTH_def)

definition compact_size :: "u32 \<Rightarrow> nat" where
  "compact_size c = unat c div 2 ^ 24"

definition compact_word :: "u32 \<Rightarrow> nat" where
  "compact_word c = unat c mod 2 ^ 23"

lemma unat_low_mask: "unat (c AND 0x007FFFFF :: u32) = unat c mod 2 ^ 23"
proof -
  have "c AND 0x007FFFFF = take_bit 23 c" by (simp add: take_bit_eq_mask mask_eq_exp_minus_1)
  then show ?thesis by (simp only: unsigned_take_bit_eq) (simp add: take_bit_eq_mod)
qed

lemma unat_drop_limb: "n \<le> 32 \<Longrightarrow> unat (drop_bit n (c :: u32)) = unat c div 2 ^ n"
proof -
  have "take_bit 32 (unat c) = unat c" using limb_less [of c] by (simp add: take_bit_nat_eq_self)
  then show ?thesis by (simp only: unsigned_drop_bit_eq) (simp add: drop_bit_eq_div)
qed

text \<open>What a compact number stands for, before it is cut to 256 bits.\<close>

definition compact_value :: "nat \<Rightarrow> nat \<Rightarrow> nat" where
  "compact_value e m = (if e \<le> 3 then m div 256 ^ (3 - e) else m * 256 ^ (e - 3))"

lemma pow256: "(256 :: nat) ^ n = 2 ^ (8 * n)"
  by (simp add: power_mult)

lemma compact_value_small: "e \<le> 3 \<Longrightarrow> compact_value e (compact_word c) < 2 ^ 256"
  by (simp add: compact_value_def compact_word_def) (rule order.strict_trans1 [OF div_le_dividend], simp add: order.strict_trans [OF mod_less_divisor])

lemma nval_SetCompact: "nval (fst (SetCompact c)) = compact_value (compact_size c) (compact_word c) mod 2 ^ 256"
proof (cases "compact_size c \<le> 3")
  case True
  have "nval (fst (SetCompact c)) = compact_word c div 2 ^ (8 * (3 - compact_size c))"
    using True by (simp add: SetCompact_def Let_def compact_size_def compact_word_def unat_drop_limb unat_low_mask nval_u64 del: drop_bit_and)
  then show ?thesis using True compact_value_small [OF True] by (simp add: compact_value_def pow256)
next
  case False
  then have "nval (fst (SetCompact c)) = (compact_word c * 2 ^ (8 * (compact_size c - 3))) mod 2 ^ (32 * WIDTH)"
    by (simp add: SetCompact_def Let_def compact_size_def compact_word_def unat_drop_limb unat_low_mask nval_u64 nval_uint_shl del: power_mult)
  then show ?thesis using False by (simp add: compact_value_def pow256 WIDTH_def)
qed

text \<open>The overflow flag says whether the number needs more than 256 bits.\<close>

lemma compact_overflow:
  assumes m: "(m :: nat) < 2 ^ 23" and e: "3 < e"
  shows "m \<noteq> 0 \<and> (34 < e \<or> 0xFF < m \<and> 33 < e \<or> 0xFFFF < m \<and> 32 < e) \<longleftrightarrow> 2 ^ 256 \<le> m * 256 ^ (e - 3)"
proof -
  consider "e \<le> 32" | "e = 33" | "e = 34" | "35 \<le> e" by linarith
  then show ?thesis
  proof cases
    case 1
    then have "(256 :: nat) ^ (e - 3) \<le> 256 ^ 29" by (intro power_increasing) simp_all
    then have "m * 256 ^ (e - 3) \<le> 2 ^ 23 * 256 ^ 29" using m by (intro mult_le_mono) simp_all
    also have "\<dots> < (2 :: nat) ^ 256" by simp
    finally show ?thesis using 1 by simp
  next
    case 4
    then have "(256 :: nat) ^ 32 \<le> 256 ^ (e - 3)" by (intro power_increasing) simp_all
    then have "m \<noteq> 0 \<Longrightarrow> 1 * 256 ^ 32 \<le> m * 256 ^ (e - 3)" by (intro mult_le_mono) simp_all
    then show ?thesis using 4 by (cases "m = 0") simp_all
  qed (use m in auto)
qed

lemma SetCompact_flags:
  "fst (snd (SetCompact c)) \<longleftrightarrow> (if compact_size c \<le> 3 then compact_value (compact_size c) (compact_word c) \<noteq> 0 else compact_word c \<noteq> 0) \<and> bit c 23"
  "snd (snd (SetCompact c)) \<longleftrightarrow> 2 ^ 256 \<le> compact_value (compact_size c) (compact_word c)"
proof -
  define w where "w = (if unat (drop_bit 24 c) \<le> 3 then drop_bit (8 * (3 - unat (drop_bit 24 c))) (c AND 0x007FFFFF) else c AND 0x007FFFFF)"
  have e: "unat (drop_bit 24 c) = compact_size c" by (simp add: compact_size_def unat_drop_limb)
  have w: "unat w = (if compact_size c \<le> 3 then compact_value (compact_size c) (compact_word c) else compact_word c)"
    unfolding w_def e by (simp add: compact_value_def compact_word_def unat_drop_limb unat_low_mask pow256 del: drop_bit_and)
  have nz: "w \<noteq> 0 \<longleftrightarrow> unat w \<noteq> 0" by (simp add: unat_eq_0)
  have gt: "w > 0xFF \<longleftrightarrow> unat w > 0xFF" "w > 0xFFFF \<longleftrightarrow> unat w > 0xFFFF" by (simp_all add: word_less_nat_alt)
  have flags: "fst (snd (SetCompact c)) \<longleftrightarrow> w \<noteq> 0 \<and> c AND 0x00800000 \<noteq> 0"
    "snd (snd (SetCompact c)) \<longleftrightarrow> w \<noteq> 0 \<and> (compact_size c > 34 \<or> w > 0xFF \<and> compact_size c > 33 \<or> w > 0xFFFF \<and> compact_size c > 32)"
    unfolding SetCompact_def Let_def fst_conv snd_conv w_def e by (rule refl)+
  have "c AND 0x00800000 \<noteq> 0 \<longleftrightarrow> bit c 23" unfolding bit_iff_and_push_bit_not_eq_0 by simp
  then show "fst (snd (SetCompact c)) \<longleftrightarrow> (if compact_size c \<le> 3 then compact_value (compact_size c) (compact_word c) \<noteq> 0 else compact_word c \<noteq> 0) \<and> bit c 23"
    unfolding flags nz w by simp
  show "snd (snd (SetCompact c)) \<longleftrightarrow> 2 ^ 256 \<le> compact_value (compact_size c) (compact_word c)"
  proof (cases "compact_size c \<le> 3")
    case True
    then show ?thesis unfolding flags using compact_value_small [OF True, of c] by simp
  next
    case False
    then show ?thesis unfolding flags nz gt w using compact_overflow [of "compact_word c" "compact_size c"]
      by (simp add: compact_value_def compact_word_def)
  qed
qed

lemma unat_GetLow64: "2 \<le> length pn \<Longrightarrow> unat (GetLow64 pn) = nval pn mod 2 ^ 64"
proof -
  assume len: "2 \<le> length pn"
  have "unat (GetLow64 pn) = take_bit 64 (nval pn)"
  proof (rule bit_eqI)
    fix n
    have low: "\<not> bit (pn ! i) n" if "32 \<le> n" for i using that by (rule bit_limb_above)
    consider "n < 32" | "32 \<le> n" "n < 64" | "64 \<le> n" by linarith
    then show "bit (unat (GetLow64 pn)) n \<longleftrightarrow> bit (take_bit 64 (nval pn)) n"
    proof cases
      case 1
      then show ?thesis using len by (auto simp: GetLow64_def bit_unsigned_iff bit_or_iff bit_push_bit_iff bit_take_bit_iff bit_nval)
    next
      case 2
      then obtain m where "n = m + 32" "m < 32" by (metis add.commute le_Suc_ex nat_add_left_cancel_less numeral_Bit0)
      then show ?thesis using len 2 low by (simp add: GetLow64_def bit_unsigned_iff bit_or_iff bit_push_bit_iff bit_take_bit_iff bit_nval div_add_self2)
    next
      case 3
      then show ?thesis using bit_imp_le_length [of "GetLow64 pn" n] by (auto simp: bit_unsigned_iff bit_take_bit_iff)
    qed
  qed
  then show ?thesis by (simp add: take_bit_eq_mod)
qed

definition byte_size :: "arith_uint256 \<Rightarrow> nat" where
  "byte_size pn = (uint_bits pn + 7) div 8"

lemma byte_size_range: "nval pn < 256 ^ byte_size pn" "byte_size pn \<noteq> 0 \<Longrightarrow> 256 ^ (byte_size pn - 1) \<le> nval pn"
proof -
  have "nval pn < 2 ^ uint_bits pn" by (rule uint_bits_range)
  also have "\<dots> \<le> 2 ^ (8 * byte_size pn)" unfolding byte_size_def by (intro power_increasing) simp_all
  finally show "nval pn < 256 ^ byte_size pn" by (simp add: pow256)
next
  assume "byte_size pn \<noteq> 0"
  then have "uint_bits pn \<noteq> 0" and "8 * (byte_size pn - 1) \<le> uint_bits pn - 1" by (auto simp: byte_size_def)
  then have "(2 :: nat) ^ (8 * (byte_size pn - 1)) \<le> 2 ^ (uint_bits pn - 1)" by (intro power_increasing) simp_all
  also have "\<dots> \<le> nval pn" by (rule uint_bits_range(2) [OF \<open>uint_bits pn \<noteq> 0\<close>])
  finally show "256 ^ (byte_size pn - 1) \<le> nval pn" by (simp add: pow256)
qed

lemma byte_size_eq: "256 ^ (s - 1) \<le> nval pn \<Longrightarrow> nval pn < 256 ^ s \<Longrightarrow> s \<noteq> 0 \<Longrightarrow> byte_size pn = s"
proof (rule linorder_cases [of "byte_size pn" s])
  assume a: "nval pn < 256 ^ s" "byte_size pn > s"
  then have "(256 :: nat) ^ s \<le> 256 ^ (byte_size pn - 1)" by (intro power_increasing) simp_all
  moreover have "256 ^ (byte_size pn - 1) \<le> nval pn" using a by (intro byte_size_range(2)) simp
  ultimately show ?thesis using a(1) by linarith
next
  assume a: "256 ^ (s - 1) \<le> nval pn" "byte_size pn < s"
  then have "(256 :: nat) ^ byte_size pn \<le> 256 ^ (s - 1)" by (intro power_increasing) simp_all
  with a(1) byte_size_range(1) [of pn] show ?thesis by linarith
qed

lemma byte_size_le: "length pn = 8 \<Longrightarrow> byte_size pn \<le> 32"
  using uint_bits_le [of pn] by (simp add: byte_size_def)

text \<open>The mantissa and exponent of the compact form of a number of \<open>s\<close> bytes.\<close>

definition mantissa :: "nat \<Rightarrow> nat \<Rightarrow> nat" where
  "mantissa s v = (if s \<le> 3 then v * 256 ^ (3 - s) else v div 256 ^ (s - 3))"

lemma mantissa_range:
  assumes "v < 256 ^ s"
  shows "mantissa s v < 2 ^ 24"
proof (cases "s \<le> 3")
  case True
  then have "v * 256 ^ (3 - s) < 256 ^ s * 256 ^ (3 - s)" using assms by simp
  also have "\<dots> = (256 :: nat) ^ 3" using True by (simp flip: power_add)
  finally show ?thesis using True by (simp add: mantissa_def)
next
  case False
  then have "(256 :: nat) ^ s = 256 ^ 3 * 256 ^ (s - 3)" by (simp only: power_add [symmetric]) simp
  then have "v div 256 ^ (s - 3) < 256 ^ 3" using assms by (intro less_mult_imp_div_less) simp
  then show ?thesis using False by (simp add: mantissa_def)
qed

lemma limb_take_bit: "unat (x :: u32) < 2 ^ n \<Longrightarrow> x = take_bit n x"
  by (rule unsigned_word_eqI [where ?'a = nat]) (simp add: unsigned_take_bit_eq take_bit_nat_eq_self)

lemma unat_or_high:
  assumes "unat (x :: u32) < 2 ^ 23" "s < 256"
  shows "unat (x OR push_bit 24 (of_nat s)) = unat x + 2 ^ 24 * s"
proof -
  let ?y = "push_bit 24 (of_nat s) :: u32"
  have "x AND ?y = 0" by (subst limb_take_bit [OF assms(1)]) (rule bit_eqI, simp add: bit_simps)
  then have "x OR ?y = x + ?y" by (simp add: disjunctive_add_eq_or)
  moreover have "x + ?y = of_nat (unat x + 2 ^ 24 * s)" by (simp add: push_bit_eq_mult mult.commute)
  moreover have "unat x + 2 ^ 24 * s < 2 ^ 32" using assms by simp
  ultimately show ?thesis by (simp add: unsigned_of_nat take_bit_nat_eq_self del: of_nat_add of_nat_mult)
qed

lemma limb_above_mask: "unat (x :: u32) < 2 ^ 23 \<Longrightarrow> x AND NOT 0x007FFFFF = 0"
proof -
  assume "unat x < 2 ^ 23"
  then have x: "x = take_bit 23 x" by (rule limb_take_bit)
  have m: "(0x007FFFFF :: u32) = mask 23" by (simp add: mask_eq_exp_minus_1)
  have "take_bit 23 x AND NOT (mask 23) = 0" by (rule bit_eqI) (simp add: bit_simps)
  then show ?thesis unfolding m using x by argo
qed

lemma sign_bit: "unat (x :: u32) < 2 ^ 24 \<Longrightarrow> x AND 0x00800000 \<noteq> 0 \<longleftrightarrow> 2 ^ 23 \<le> unat x"
proof -
  assume x: "unat x < 2 ^ 24"
  have "x AND 0x00800000 \<noteq> 0 \<longleftrightarrow> bit x 23" unfolding bit_iff_and_push_bit_not_eq_0 by simp
  also have "\<dots> \<longleftrightarrow> bit (unat x) 23" by (simp add: bit_unsigned_iff)
  finally show ?thesis using bit_nat_range [of "unat x" 23] x by (auto split: if_splits)
qed

lemma compact_mantissa:
  assumes len: "length pn = 8"
  defines "s \<equiv> byte_size pn"
  shows "unat (if s \<le> 3 then ucast (push_bit (8 * (3 - s)) (GetLow64 pn)) else ucast (GetLow64 (uint_shr pn (8 * (s - 3)))) :: u32) = mantissa s (nval pn)"
proof -
  have v: "nval pn < 256 ^ s" unfolding s_def by (rule byte_size_range)
  have m: "mantissa s (nval pn) < 2 ^ 24" using v by (rule mantissa_range)
  have cast: "unat (ucast (w :: u64) :: u32) = unat w" if "unat w < 2 ^ 24" for w
    using that by (simp add: unsigned_ucast_eq take_bit_nat_eq_self)
  show ?thesis
  proof (cases "s \<le> 3")
    case True
    then have "(256 :: nat) ^ s \<le> 256 ^ 3" by (intro power_increasing) simp_all
    then have "nval pn < 2 ^ 64" using v by simp
    then have "unat (GetLow64 pn) = nval pn" using len by (simp add: unat_GetLow64)
    then have "unat (push_bit (8 * (3 - s)) (GetLow64 pn)) = mantissa s (nval pn)"
      using m True by (simp only: unsigned_push_bit_eq) (simp add: push_bit_eq_mult mantissa_def pow256 take_bit_nat_eq_self)
    then show ?thesis using True cast m by simp
  next
    case False
    then have "nval (uint_shr pn (8 * (s - 3))) = mantissa s (nval pn)" by (simp add: nval_uint_shr mantissa_def pow256)
    then have "unat (GetLow64 (uint_shr pn (8 * (s - 3)))) = mantissa s (nval pn)" using m len by (simp add: unat_GetLow64)
    then show ?thesis using False cast m by simp
  qed
qed

lemma GetCompact_fields:
  assumes len: "length pn = 8"
  defines "s \<equiv> byte_size pn" and "m \<equiv> mantissa (byte_size pn) (nval pn)"
  defines "high \<equiv> 2 ^ 23 \<le> m"
  shows "\<exists>c. GetCompact pn False = Some c \<and> unat c = (if high then m div 256 else m) + 2 ^ 24 * (if high then s + 1 else s)"
proof -
  define c0 :: u32 where "c0 = (if s \<le> 3 then ucast (push_bit (8 * (3 - s)) (GetLow64 pn)) else ucast (GetLow64 (uint_shr pn (8 * (s - 3)))))"
  define c1 where "c1 = (if c0 AND 0x00800000 \<noteq> 0 then drop_bit 8 c0 else c0)"
  have c0: "unat c0 = m" unfolding c0_def s_def m_def by (rule compact_mantissa [OF len])
  have m: "m < 2 ^ 24" unfolding m_def by (rule mantissa_range [OF byte_size_range(1)])
  have high: "c0 AND 0x00800000 \<noteq> 0 \<longleftrightarrow> high" using sign_bit [of c0] c0 m by (simp add: high_def)
  have c1_if: "c1 = (if high then drop_bit 8 c0 else c0)" unfolding c1_def high by (rule refl)
  then have c1: "unat c1 = (if high then m div 256 else m)" by (simp add: unat_drop_limb c0)
  have c1_less: "unat c1 < 2 ^ 23" unfolding c1 using m by (auto simp: high_def)
  have size: "(if high then s + 1 else s) < 256" using byte_size_le [OF len] by (simp add: s_def)
  have "GetCompact pn False = Some (c1 OR push_bit 24 (of_nat (if high then s + 1 else s)))"
    using limb_above_mask [OF c1_less] size
    unfolding GetCompact_def Let_def byte_size_def [symmetric] s_def [symmetric] c0_def [symmetric] high c1_if
    by simp
  then show ?thesis using unat_or_high [OF c1_less size] c1 by simp
qed

text \<open>Undoing the compact form drops the bytes below the mantissa.\<close>

lemma mantissa_value:
  assumes v: "v < 256 ^ s" and s: "s \<noteq> 0 \<longrightarrow> 256 ^ (s - 1) \<le> v"
  defines "m \<equiv> mantissa s v"
  shows "compact_value s m = v - v mod 256 ^ (s - 3)"
    "compact_value (s + 1) (m div 256) = v - v mod 256 ^ (s + 1 - 3)"
proof -
  show "compact_value s m = v - v mod 256 ^ (s - 3)"
    by (cases "s \<le> 3") (simp_all add: compact_value_def m_def mantissa_def minus_mod_eq_div_mult)
  show "compact_value (s + 1) (m div 256) = v - v mod 256 ^ (s + 1 - 3)"
  proof (cases "s + 1 \<le> 3")
    case True
    then have "(256 :: nat) ^ (3 - s) = 256 * 256 ^ (3 - (s + 1))" by (simp flip: power_Suc add: Suc_diff_le)
    then show ?thesis using True by (simp add: compact_value_def m_def mantissa_def)
  next
    case False
    then have "s + 1 - 3 = Suc (s - 3)" by simp
    then have "(256 :: nat) ^ (s + 1 - 3) = 256 ^ (s - 3) * 256" by (simp only: power_Suc2)
    then show ?thesis using False
      by (cases "s = 3") (simp_all add: compact_value_def m_def mantissa_def minus_mod_eq_div_mult div_mult2_eq)
  qed
qed

lemma digits_trunc: "k \<le> n \<Longrightarrow> 256 ^ n \<le> v \<Longrightarrow> 256 ^ n \<le> v - v mod (256 :: nat) ^ k"
proof -
  assume "k \<le> n" "256 ^ n \<le> v"
  then have p: "(256 :: nat) ^ n = 256 ^ (n - k) * 256 ^ k" by (simp flip: power_add)
  have "256 ^ (n - k) \<le> v div 256 ^ k" using \<open>256 ^ n \<le> v\<close> unfolding p by (simp add: less_eq_div_iff_mult_less_eq)
  then show ?thesis unfolding p minus_mod_eq_div_mult by (rule mult_le_mono1)
qed

lemma mantissa_trunc:
  assumes "3 < e" "e = (if 2 ^ 23 \<le> mantissa s v then s + 1 else s)"
  defines "t \<equiv> v - v mod 256 ^ (e - 3)"
  shows "mantissa s t = (if 2 ^ 23 \<le> mantissa s v then mantissa s v div 256 * 256 else mantissa s v)"
proof (cases "2 ^ 23 \<le> mantissa s v")
  case True
  then have s: "3 \<le> s" "e - 3 = (s - 3) + 1" using assms(1,2) by simp_all
  have "t = v div (256 ^ (s - 3) * 256) * 256 * 256 ^ (s - 3)" unfolding t_def s(2) by (simp add: minus_mod_eq_div_mult mult.commute mult.left_commute)
  then have "t div 256 ^ (s - 3) = v div 256 ^ (s - 3) div 256 * 256" by (simp add: div_mult2_eq)
  then show ?thesis using True s by (cases "s = 3") (simp_all add: mantissa_def)
next
  case False
  then show ?thesis using assms(1,2) by (simp add: t_def mantissa_def minus_mod_eq_div_mult)
qed

lemma GetCompact_parts:
  assumes len: "length pn = 8"
  defines "m \<equiv> mantissa (byte_size pn) (nval pn)"
  shows "\<exists>c. GetCompact pn False = Some c \<and> compact_word c = (if 2 ^ 23 \<le> m then m div 256 else m) \<and>
    compact_size c = (if 2 ^ 23 \<le> m then byte_size pn + 1 else byte_size pn) \<and> \<not> bit c 23"
proof -
  let ?w = "if 2 ^ 23 \<le> m then m div 256 else m" and ?e = "if 2 ^ 23 \<le> m then byte_size pn + 1 else byte_size pn"
  obtain c where c: "GetCompact pn False = Some c" "unat c = ?w + 2 ^ 24 * ?e"
    using GetCompact_fields [OF len] unfolding m_def by blast
  have w: "?w < 2 ^ 23" using mantissa_range [OF byte_size_range(1) [of pn]] by (auto simp: m_def)
  have "unat c mod 2 ^ 23 = ?w" unfolding c(2) using w by (simp add: mod_mult_self2 [of _ "2 ^ 23" "2 * x" for x, simplified])
  moreover have "unat c div 2 ^ 24 = ?e" unfolding c(2) using w by simp
  moreover have "\<not> bit (unat c) 23"
  proof -
    have "(?w + 2 ^ 24 * ?e) div 2 ^ 23 = 2 * ?e" using w by simp
    then show ?thesis unfolding c(2) bit_iff_odd by simp
  qed
  ultimately show ?thesis using c(1) by (auto simp: compact_word_def compact_size_def bit_unsigned_iff)
qed

lemma SetCompact_parts:
  assumes "\<not> bit c 23" "compact_value (compact_size c) (compact_word c) < 2 ^ 256"
  shows "\<exists>t. SetCompact c = (t, False, False) \<and> length t = 8 \<and> nval t = compact_value (compact_size c) (compact_word c)"
proof -
  obtain t n f where c: "SetCompact c = (t, n, f)" by (cases "SetCompact c")
  have "\<not> n" "\<not> f" using SetCompact_flags [of c] assms by (simp_all add: c not_le)
  moreover have "nval t = compact_value (compact_size c) (compact_word c)" using nval_SetCompact [of c] assms(2) by (simp add: c)
  moreover have "length t = 8" using length_SetCompact [of c] by (simp add: c)
  ultimately show ?thesis by (simp add: c)
qed

lemma GetCompact_same:
  assumes "length pn = 8" "length t = 8" "byte_size t = byte_size pn"
  defines "m \<equiv> mantissa (byte_size pn) (nval pn)"
  assumes t: "mantissa (byte_size pn) (nval t) = (if 2 ^ 23 \<le> m then m div 256 * 256 else m)"
  shows "GetCompact t False = GetCompact pn False"
proof -
  let ?m = "mantissa (byte_size pn) (nval t)"
  have "2 ^ 23 \<le> m div 256 * 256" if "2 ^ 23 \<le> m" using that by simp
  then have "2 ^ 23 \<le> ?m \<longleftrightarrow> 2 ^ 23 \<le> m" "2 ^ 23 \<le> m \<Longrightarrow> ?m div 256 = m div 256" "\<not> 2 ^ 23 \<le> m \<Longrightarrow> ?m = m"
    using t by auto
  then show ?thesis using GetCompact_fields [OF assms(1)] GetCompact_fields [OF assms(2)]
    by (auto simp: assms(3) m_def word_unat_eq_iff split: if_splits)
qed

lemma compact_precision:
  assumes "3 < e" "e = (if 2 ^ 23 \<le> mantissa s v then s + 1 else s)" "256 ^ (s - 1) \<le> v"
  shows "2 ^ 15 * 256 ^ (e - 3) \<le> v"
proof (cases "2 ^ 23 \<le> mantissa s v")
  case True
  then have s: "3 \<le> s" "e - 3 = Suc (s - 3)" using assms(1,2) by simp_all
  have "mantissa s v = v div 256 ^ (s - 3)" using s(1) by (cases "s = 3") (simp_all add: mantissa_def)
  then have "2 ^ 23 * 256 ^ (s - 3) \<le> v" using True by (simp add: less_eq_div_iff_mult_less_eq)
  then show ?thesis unfolding s(2) by simp
next
  case False
  then have "s - 1 = 2 + (s - 3)" "e - 3 = s - 3" using assms(1,2) by simp_all
  then have "2 ^ 16 * 256 ^ (e - 3) \<le> v" using assms(3) by (simp add: power_add)
  then show ?thesis by simp
qed

text \<open>What the compact form keeps of a number.\<close>

lemma GetCompact_rounds:
  assumes len: "length pn = 8"
  shows "\<exists>c t. GetCompact pn False = Some c \<and> SetCompact c = (t, False, False) \<and> length t = 8 \<and>
    nval t \<le> nval pn \<and> 2 ^ 15 * (nval pn - nval t) \<le> nval pn \<and> GetCompact t False = Some c"
proof -
  define s v m e where "s = byte_size pn" and "v = nval pn" and "m = mantissa s v" and "e = (if 2 ^ 23 \<le> m then s + 1 else s)"
  note defs = s_def v_def m_def e_def
  obtain c where c: "GetCompact pn False = Some c" "compact_word c = (if 2 ^ 23 \<le> m then m div 256 else m)" "compact_size c = e" "\<not> bit c 23"
    using GetCompact_parts [OF len] unfolding defs by blast
  have v: "v < 256 ^ s" "s \<noteq> 0 \<longrightarrow> 256 ^ (s - 1) \<le> v" using byte_size_range [of pn] by (auto simp: defs)
  have "compact_value (compact_size c) (compact_word c) = v - v mod 256 ^ (e - 3)"
    using mantissa_value [OF v] unfolding c(2,3) by (simp add: e_def m_def)
  moreover have "v - v mod 256 ^ (e - 3) < 2 ^ 256" using nval_less [of pn] len by (simp add: v_def)
  ultimately obtain t where t: "SetCompact c = (t, False, False)" "length t = 8" "nval t = v - v mod 256 ^ (e - 3)"
    using SetCompact_parts [OF c(4)] by auto
  show ?thesis
  proof (cases "e \<le> 3")
    case True
    then have "t = pn" using t len by (intro nval_inj) (simp_all add: v_def)
    then show ?thesis using c(1) t len by auto
  next
    case False
    then have e: "3 < e" "e = (if 2 ^ 23 \<le> mantissa s v then s + 1 else s)" and s: "s \<noteq> 0" by (auto simp: e_def m_def split: if_splits)
    have low: "256 ^ (s - 1) \<le> nval t" unfolding t(3) using v(2) s e by (intro digits_trunc) (auto split: if_splits)
    have size: "byte_size t = s" using low v(1) s t(3) by (intro byte_size_eq) simp_all
    have "GetCompact t False = GetCompact pn False"
      using mantissa_trunc [OF e] len t(2) size t(3) by (intro GetCompact_same) (simp_all add: s_def v_def)
    moreover have "2 ^ 15 * (v mod 256 ^ (e - 3)) \<le> v"
    proof (rule order.trans [OF _ compact_precision [OF e]])
      show "2 ^ 15 * (v mod 256 ^ (e - 3)) \<le> 2 ^ 15 * 256 ^ (e - 3)" by (intro mult_le_mono2 less_imp_le mod_less_divisor) simp
      show "256 ^ (s - 1) \<le> v" using v(2) s by (rule mp)
    qed
    ultimately show ?thesis using c(1) t by (auto simp: v_def)
  qed
qed

text \<open>C33. Encoding a target into the compact form never fails an assertion, decoding the result
  raises neither flag and gives the target rounded down, off by at most one part in \<open>2 ^ 15\<close>, and
  encoding that again gives the same compact form.\<close>

theorem GetCompact_SetCompact:
  assumes len: "length pn = 8"
  shows "\<exists>c t. GetCompact pn False = Some c \<and> SetCompact c = (t, False, False) \<and> length t = 8 \<and>
    nval t \<le> nval pn \<and> 2 ^ 15 * (nval pn - nval t) \<le> nval pn \<and> GetCompact t False = Some c"
  by (rule GetCompact_rounds [OF len])

theorem GetCompact_SetCompact_witness:
  "\<exists>c t. GetCompact [0x12345678, 0x9abcdef0, 0, 0, 0, 0, 0, 0] False = Some c \<and> SetCompact c = (t, False, False) \<and>
    GetCompact t False = Some c"
  using GetCompact_SetCompact [of "[0x12345678, 0x9abcdef0, 0, 0, 0, 0, 0, 0]"] by auto

text \<open>C15. On eight limbs the operators of \<open>arith_uint256\<close> are those of unsigned arithmetic modulo
  \<open>2 ^ 256\<close>: sum, difference, products, shifts and comparison, and the shift-and-subtract division
  gives the quotient, failing exactly on a zero divisor.\<close>

theorem arith_uint256_operators:
  assumes "length a = 8" "length b = 8"
  shows "nval (uint_add a b) = (nval a + nval b) mod 2 ^ 256 \<and>
    nval (uint_sub a b) = (nval a + 2 ^ 256 - nval b) mod 2 ^ 256 \<and>
    nval (uint_mul a b) = (nval a * nval b) mod 2 ^ 256 \<and>
    nval (uint_mul32 a x) = (nval a * unat x) mod 2 ^ 256 \<and>
    nval (uint_shl a n) = (nval a * 2 ^ n) mod 2 ^ 256 \<and>
    nval (uint_shr a n) = nval a div 2 ^ n \<and>
    (CompareTo a b < 0 \<longleftrightarrow> nval a < nval b) \<and> (CompareTo a b > 0 \<longleftrightarrow> nval a > nval b) \<and>
    (if nval b = 0 then uint_div a b = Inl DivisionByZero
     else \<exists>q. uint_div a b = Inr q \<and> length q = 8 \<and> nval q = nval a div nval b)"
  using assms uint_div_nval [of a 8 b] uint_div_zero [of a b]
  by (simp add: nval_uint_add nval_uint_sub nval_uint_mul nval_uint_mul32 nval_uint_shl nval_uint_shr CompareTo_nval)

theorem arith_uint256_operators_witness:
  "\<exists>q. uint_div [7, 5, 0, 0, 0, 0, 0, 0] [3, 0, 0, 0, 0, 0, 0, 0] = Inr q \<and> nval q = (7 + 5 * 2 ^ 32) div 3"
  using arith_uint256_operators [of "[7, 5, 0, 0, 0, 0, 0, 0]" "[3, 0, 0, 0, 0, 0, 0, 0]" 0 0] by auto

end
