(* ===== verification/Chain.thy ===== *)
theory Chain
  imports Arith_Uint256
begin

unbundle bit_operations_syntax

text \<open>
  The block index and the active chain of \<open>src/src/chain.h\<close> and \<open>chain.cpp\<close>.

  Block index entries live in a store: pointers are numbers, and a store gives the entry of
  each.  \<open>block_tree\<close> says that heights count the blocks below, \<open>skips_ok\<close> that the skip
  pointers are where \<open>BuildSkip\<close> puts them.  The loops that follow parent pointers are partial
  functions; that they return on a block tree is part of what is shown.

  Shown: the skip-list walk finds the ancestor that following parent pointers finds, setting
  the tip produces the chain of that tip whatever chain it starts from, and the fork point is
  the last block that the chain and a branch share.
\<close>

section \<open>Block index entries\<close>

text \<open>The bits of \<open>nStatus\<close> (\<open>enum BlockStatus\<close>).\<close>

definition BLOCK_VALID_TREE :: u32 where "BLOCK_VALID_TREE = 2"
definition BLOCK_VALID_TRANSACTIONS :: u32 where "BLOCK_VALID_TRANSACTIONS = 3"
definition BLOCK_VALID_CHAIN :: u32 where "BLOCK_VALID_CHAIN = 4"
definition BLOCK_VALID_SCRIPTS :: u32 where "BLOCK_VALID_SCRIPTS = 5"

definition BLOCK_VALID_MASK :: u32 where
  "BLOCK_VALID_MASK = 1 OR BLOCK_VALID_TREE OR BLOCK_VALID_TRANSACTIONS OR BLOCK_VALID_CHAIN OR BLOCK_VALID_SCRIPTS"

definition BLOCK_HAVE_DATA :: u32 where "BLOCK_HAVE_DATA = 8"
definition BLOCK_HAVE_UNDO :: u32 where "BLOCK_HAVE_UNDO = 16"
definition BLOCK_FAILED_VALID :: u32 where "BLOCK_FAILED_VALID = 32"
definition BLOCK_FAILED_CHILD :: u32 where "BLOCK_FAILED_CHILD = 64"
definition BLOCK_FAILED_MASK :: u32 where "BLOCK_FAILED_MASK = BLOCK_FAILED_VALID OR BLOCK_FAILED_CHILD"

lemmas block_status_defs = BLOCK_VALID_TREE_def BLOCK_VALID_TRANSACTIONS_def BLOCK_VALID_CHAIN_def BLOCK_VALID_SCRIPTS_def
  BLOCK_VALID_MASK_def BLOCK_HAVE_DATA_def BLOCK_HAVE_UNDO_def BLOCK_FAILED_VALID_def BLOCK_FAILED_CHILD_def BLOCK_FAILED_MASK_def

type_synonym block_ptr = nat

text \<open>\<open>phashBlock\<close> is the hash that the pointer of the source points to.\<close>

record CBlockIndex =
  phashBlock :: uint256
  pprev :: "block_ptr option"
  pskip :: "block_ptr option"
  nHeight :: nat
  nFile :: int
  nDataPos :: u32
  nUndoPos :: u32
  nChainWork :: arith_uint256
  nTx :: u32
  nChainTx :: u32
  nStatus :: u32
  bi_nVersion :: int
  bi_hashMerkleRoot :: uint256
  nTime :: u32
  nBits :: u32
  nNonce :: u32
  nSequenceId :: int
  nTimeMax :: u32

definition CBlockIndex_SetNull :: CBlockIndex where
  "CBlockIndex_SetNull = \<lparr>phashBlock = 0, pprev = None, pskip = None, nHeight = 0, nFile = 0, nDataPos = 0, nUndoPos = 0,
     nChainWork = base_uint_zero, nTx = 0, nChainTx = 0, nStatus = 0, bi_nVersion = 0, bi_hashMerkleRoot = 0, nTime = 0,
     nBits = 0, nNonce = 0, nSequenceId = 0, nTimeMax = 0\<rparr>"

text \<open>A validity level with other bits set fails an assertion.\<close>

definition IsValid :: "CBlockIndex \<Rightarrow> u32 \<Rightarrow> bool option" where
  "IsValid b nUpTo =
     (if nUpTo AND NOT BLOCK_VALID_MASK \<noteq> 0 then None
      else if nStatus b AND BLOCK_FAILED_MASK \<noteq> 0 then Some False
      else Some (nStatus b AND BLOCK_VALID_MASK \<ge> nUpTo))"

definition RaiseValidity :: "CBlockIndex \<Rightarrow> u32 \<Rightarrow> (bool \<times> CBlockIndex) option" where
  "RaiseValidity b nUpTo =
     (if nUpTo AND NOT BLOCK_VALID_MASK \<noteq> 0 then None
      else if nStatus b AND BLOCK_FAILED_MASK \<noteq> 0 then Some (False, b)
      else if nStatus b AND BLOCK_VALID_MASK < nUpTo
      then Some (True, b\<lparr>nStatus := (nStatus b AND NOT BLOCK_VALID_MASK) OR nUpTo\<rparr>)
      else Some (False, b))"

type_synonym block_store = "block_ptr \<Rightarrow> CBlockIndex"

definition GetBlockTime :: "CBlockIndex \<Rightarrow> int" where
  "GetBlockTime b = int (unat (nTime b))"

definition GetBlockTimeMax :: "CBlockIndex \<Rightarrow> int" where
  "GetBlockTimeMax b = int (unat (nTimeMax b))"

definition nMedianTimeSpan :: nat where "nMedianTimeSpan = 11"

text \<open>The times of up to \<open>n\<close> blocks from \<open>pindex\<close> back.\<close>

fun median_times :: "block_store \<Rightarrow> nat \<Rightarrow> block_ptr option \<Rightarrow> int list" where
  "median_times S (Suc n) (Some p) = GetBlockTime (S p) # median_times S n (pprev (S p))"
| "median_times S n p = []"

definition GetMedianTimePast :: "block_store \<Rightarrow> block_ptr \<Rightarrow> int" where
  "GetMedianTimePast S p =
     (let pmedian = sort (median_times S nMedianTimeSpan (Some p)) in pmedian ! (length pmedian div 2))"

section \<open>The skip list\<close>

definition InvertLowestOne :: "nat \<Rightarrow> nat" where
  "InvertLowestOne n = n AND (n - 1)"

definition GetSkipHeight :: "nat \<Rightarrow> nat" where
  "GetSkipHeight height =
     (if height < 2 then 0
      else if odd height then InvertLowestOne (InvertLowestOne (height - 1)) + 1 else InvertLowestOne height)"

lemma and_nat_le: "(m :: nat) AND n \<le> n"
proof -
  have "int m AND int n \<le> int n" by (simp add: AND_upper2)
  then show ?thesis by (metis of_nat_and_eq of_nat_le_iff)
qed

lemma InvertLowestOne_less: "0 < n \<Longrightarrow> InvertLowestOne n < n"
  using and_nat_le [of n "n - 1"] by (simp add: InvertLowestOne_def)

lemma InvertLowestOne_le: "InvertLowestOne n \<le> n"
  using InvertLowestOne_less [of n] by (cases n) (auto simp: InvertLowestOne_def)

lemma GetSkipHeight_less: "0 < h \<Longrightarrow> GetSkipHeight h < h"
  using InvertLowestOne_less [of h] InvertLowestOne_less [of "h - 1"] InvertLowestOne_le [of "InvertLowestOne (h - 1)"]
  by (auto simp: GetSkipHeight_def)

datatype chain_error = NoParent | NullPointer

function ancestor_walk :: "block_store \<Rightarrow> nat \<Rightarrow> block_ptr \<Rightarrow> nat \<Rightarrow> chain_error + block_ptr" where
  "ancestor_walk S height pindexWalk heightWalk =
     (if heightWalk > height then
        let heightSkip = GetSkipHeight heightWalk;
            heightSkipPrev = GetSkipHeight (heightWalk - 1)
        in case pskip (S pindexWalk) of
             Some s \<Rightarrow>
               if heightSkip = height \<or>
                  (heightSkip > height \<and> \<not> (int heightSkipPrev < int heightSkip - 2 \<and> heightSkipPrev \<ge> height))
               then ancestor_walk S height s heightSkip
               else (case pprev (S pindexWalk) of None \<Rightarrow> Inl NoParent | Some q \<Rightarrow> ancestor_walk S height q (heightWalk - 1))
           | None \<Rightarrow> (case pprev (S pindexWalk) of None \<Rightarrow> Inl NoParent | Some q \<Rightarrow> ancestor_walk S height q (heightWalk - 1))
      else Inr pindexWalk)"
  by pat_completeness auto
termination
  by (relation "measure (\<lambda>(S, height, p, heightWalk). heightWalk)") (auto intro: GetSkipHeight_less)

declare ancestor_walk.simps [simp del]

definition GetAncestor :: "block_store \<Rightarrow> block_ptr \<Rightarrow> int \<Rightarrow> chain_error + block_ptr option" where
  "GetAncestor S p height =
     (if height > int (nHeight (S p)) \<or> height < 0 then Inr None
      else ebind (ancestor_walk S (nat height) p (nHeight (S p))) (\<lambda>q. Inr (Some q)))"

definition BuildSkip :: "block_ptr \<Rightarrow> block_store \<Rightarrow> chain_error + block_store" where
  "BuildSkip p S =
     (case pprev (S p) of
        None \<Rightarrow> Inr S
      | Some q \<Rightarrow> ebind (GetAncestor S q (int (GetSkipHeight (nHeight (S p))))) (\<lambda>s. Inr (S(p := (S p)\<lparr>pskip := s\<rparr>))))"

section \<open>The active chain\<close>

type_synonym CChain = "block_ptr option list"

definition Tip :: "CChain \<Rightarrow> block_ptr option" where
  "Tip vChain = (if length vChain > 0 then vChain ! (length vChain - 1) else None)"

definition Genesis :: "CChain \<Rightarrow> block_ptr option" where
  "Genesis vChain = (if length vChain > 0 then vChain ! 0 else None)"

definition chain_at :: "CChain \<Rightarrow> int \<Rightarrow> block_ptr option" where
  "chain_at vChain h = (if h < 0 \<or> h \<ge> int (length vChain) then None else vChain ! nat h)"

definition Contains :: "block_store \<Rightarrow> CChain \<Rightarrow> block_ptr \<Rightarrow> bool" where
  "Contains S vChain p \<longleftrightarrow> chain_at vChain (int (nHeight (S p))) = Some p"

definition Next :: "block_store \<Rightarrow> CChain \<Rightarrow> block_ptr \<Rightarrow> block_ptr option" where
  "Next S vChain p = (if Contains S vChain p then chain_at vChain (int (nHeight (S p)) + 1) else None)"

definition Height :: "CChain \<Rightarrow> int" where
  "Height vChain = int (length vChain) - 1"

partial_function (option) SetTip_loop :: "block_store \<Rightarrow> block_ptr option \<Rightarrow> CChain \<Rightarrow> CChain option" where
  [code]: "SetTip_loop S pindex vChain =
     (case pindex of
        None \<Rightarrow> Some vChain
      | Some p \<Rightarrow> if vChain ! nHeight (S p) \<noteq> Some p
                  then SetTip_loop S (pprev (S p)) (vChain[nHeight (S p) := Some p])
                  else Some vChain)"

definition resize :: "nat \<Rightarrow> CChain \<Rightarrow> CChain" where
  "resize n v = take n v @ replicate (n - length v) None"

definition SetTip :: "block_store \<Rightarrow> block_ptr option \<Rightarrow> CChain \<Rightarrow> CChain option" where
  "SetTip S pindex vChain =
     (case pindex of None \<Rightarrow> Some [] | Some p \<Rightarrow> SetTip_loop S pindex (resize (nHeight (S p) + 1) vChain))"

text \<open>The locator loop; the step doubles once eleven hashes have been collected.\<close>

partial_function (option) GetLocator_loop ::
    "block_store \<Rightarrow> CChain \<Rightarrow> block_ptr option \<Rightarrow> nat \<Rightarrow> uint256 list \<Rightarrow> (chain_error + uint256 list) option" where
  [code]: "GetLocator_loop S vChain pindex nStep vHave =
     (case pindex of
        None \<Rightarrow> Some (Inr vHave)
      | Some p \<Rightarrow>
          let vHave = vHave @ [phashBlock (S p)] in
          if nHeight (S p) = 0 then Some (Inr vHave)
          else let h = nHeight (S p) - nStep;
                   next' = (if Contains S vChain p then Inr (chain_at vChain (int h)) else GetAncestor S p (int h));
                   nStep = (if length vHave > 10 then nStep * 2 else nStep)
               in case next' of Inl e \<Rightarrow> Some (Inl e) | Inr q \<Rightarrow> GetLocator_loop S vChain q nStep vHave)"

definition GetLocator :: "block_store \<Rightarrow> CChain \<Rightarrow> block_ptr option \<Rightarrow> (chain_error + uint256 list) option" where
  "GetLocator S vChain pindex =
     GetLocator_loop S vChain (if pindex = None then Tip vChain else pindex) 1 []"

partial_function (option) FindFork_loop :: "block_store \<Rightarrow> CChain \<Rightarrow> block_ptr option \<Rightarrow> block_ptr option option" where
  [code]: "FindFork_loop S vChain pindex =
     (case pindex of
        None \<Rightarrow> Some None
      | Some p \<Rightarrow> if \<not> Contains S vChain p then FindFork_loop S vChain (pprev (S p)) else Some (Some p))"

definition FindFork :: "block_store \<Rightarrow> CChain \<Rightarrow> block_ptr option \<Rightarrow> (chain_error + block_ptr option) option" where
  "FindFork S vChain pindex =
     (case pindex of
        None \<Rightarrow> Some (Inr None)
      | Some p \<Rightarrow>
          (case (if int (nHeight (S p)) > Height vChain then GetAncestor S p (Height vChain) else Inr (Some p)) of
             Inl e \<Rightarrow> Some (Inl e)
           | Inr q \<Rightarrow> map_option Inr (FindFork_loop S vChain q)))"

text \<open>\<open>std::lower_bound\<close> by halving: the first of the entries from \<open>first\<close> on, \<open>count\<close> of them,
  whose \<open>nTimeMax\<close> is not below the time.\<close>

function lower_bound :: "block_store \<Rightarrow> CChain \<Rightarrow> int \<Rightarrow> nat \<Rightarrow> nat \<Rightarrow> nat" where
  "lower_bound S v t first count =
     (if count > 0 then
        let step = count div 2; it = first + step in
        if GetBlockTimeMax (S (the (v ! it))) < t then lower_bound S v t (it + 1) (count - (step + 1))
        else lower_bound S v t first step
      else first)"
  by pat_completeness auto
termination by (relation "measure (\<lambda>(S, v, t, first, count). count)") auto

declare lower_bound.simps [simp del]

definition FindEarliestAtLeast :: "block_store \<Rightarrow> CChain \<Rightarrow> int \<Rightarrow> block_ptr option" where
  "FindEarliestAtLeast S vChain t =
     (let lower = lower_bound S vChain t 0 (length vChain) in
      if lower = length vChain then None else vChain ! lower)"

section \<open>Block trees\<close>

definition block_tree :: "block_store \<Rightarrow> bool" where
  "block_tree S \<longleftrightarrow> (\<forall>p. case pprev (S p) of None \<Rightarrow> nHeight (S p) = 0 | Some q \<Rightarrow> nHeight (S p) = nHeight (S q) + 1)"

text \<open>The block \<open>n\<close> parents back.\<close>

fun back_by :: "block_store \<Rightarrow> nat \<Rightarrow> block_ptr \<Rightarrow> block_ptr option" where
  "back_by S 0 p = Some p"
| "back_by S (Suc n) p = (case pprev (S p) of None \<Rightarrow> None | Some q \<Rightarrow> back_by S n q)"

definition skips_ok :: "block_store \<Rightarrow> bool" where
  "skips_ok S \<longleftrightarrow> (\<forall>p s. pskip (S p) = Some s \<longrightarrow> back_by S (nHeight (S p) - GetSkipHeight (nHeight (S p))) p = Some s)"

lemma block_tree_parent: "block_tree S \<Longrightarrow> pprev (S p) = Some q \<Longrightarrow> nHeight (S p) = Suc (nHeight (S q))"
  by (auto simp: block_tree_def split: option.splits dest: spec [of _ p])

lemma block_tree_root: "block_tree S \<Longrightarrow> pprev (S p) = None \<Longrightarrow> nHeight (S p) = 0"
  by (auto simp: block_tree_def split: option.splits dest: spec [of _ p])

lemma block_tree_has_parent: "block_tree S \<Longrightarrow> 0 < nHeight (S p) \<Longrightarrow> \<exists>q. pprev (S p) = Some q"
  using block_tree_root [of S p] by (cases "pprev (S p)") auto

lemma back_by_add: "back_by S (m + n) p = Option.bind (back_by S m p) (back_by S n)"
  by (induction m arbitrary: p) (simp_all split: option.splits)

lemma back_by_height:
  "block_tree S \<Longrightarrow> n \<le> nHeight (S p) \<Longrightarrow> \<exists>q. back_by S n p = Some q \<and> nHeight (S q) = nHeight (S p) - n"
proof (induction n arbitrary: p)
  case (Suc n)
  then obtain q where q: "pprev (S p) = Some q" using block_tree_has_parent [of S p] by auto
  have "n \<le> nHeight (S q)" using Suc.prems block_tree_parent [OF Suc.prems(1) q] by simp
  from Suc.IH [OF Suc.prems(1) this] show ?case using q block_tree_parent [OF Suc.prems(1) q] by simp
qed simp

lemma back_by_Some_height: "block_tree S \<Longrightarrow> back_by S n p = Some q \<Longrightarrow> n \<le> nHeight (S p) \<and> nHeight (S q) = nHeight (S p) - n"
proof (induction n arbitrary: p)
  case (Suc n)
  then obtain r where r: "pprev (S p) = Some r" "back_by S n r = Some q" by (auto split: option.splits)
  with Suc.IH [OF Suc.prems(1) r(2)] block_tree_parent [OF Suc.prems(1) r(1)] show ?case by simp
qed simp

text \<open>Only the parent pointers matter.\<close>

lemma back_by_cong: "(\<And>q. pprev (S q) = pprev (T q)) \<Longrightarrow> back_by S n p = back_by T n p"
  by (induction n arbitrary: p) (simp_all split: option.splits)

lemma block_tree_cong: "(\<And>q. pprev (S q) = pprev (T q)) \<Longrightarrow> (\<And>q. nHeight (S q) = nHeight (T q)) \<Longrightarrow> block_tree S = block_tree T"
  by (simp add: block_tree_def cong: option.case_cong)

section \<open>The skip list finds ancestors\<close>

lemma ancestor_walk_back_by:
  assumes tree: "block_tree S" and skips: "skips_ok S"
  shows "height \<le> nHeight (S p) \<Longrightarrow>
    \<exists>q. ancestor_walk S height p (nHeight (S p)) = Inr q \<and> back_by S (nHeight (S p) - height) p = Some q"
proof (induction "nHeight (S p)" arbitrary: p rule: less_induct)
  case less
  let ?h = "nHeight (S p)" and ?sk = "GetSkipHeight (nHeight (S p))"
  show ?case
  proof (cases "?h > height")
    case above: True
    obtain q where q: "pprev (S p) = Some q" "?h = Suc (nHeight (S q))"
      using block_tree_has_parent [OF tree, of p] block_tree_parent [OF tree] above by (metis gr_zeroI not_less_zero)
    have parent: "\<exists>r. ancestor_walk S height q (?h - 1) = Inr r \<and> back_by S (?h - height) p = Some r"
    proof -
      have "?h - height = Suc (nHeight (S q) - height)" using q above by simp
      then have "back_by S (?h - height) p = back_by S (nHeight (S q) - height) q" using q by simp
      then show ?thesis using less(1) [of q] q above by simp
    qed
    have skip: "\<exists>r. ancestor_walk S height s ?sk = Inr r \<and> back_by S (?h - height) p = Some r"
      if s: "pskip (S p) = Some s" "height \<le> ?sk" for s
    proof -
      have b: "back_by S (?h - ?sk) p = Some s" using skips s(1) by (simp add: skips_ok_def)
      then have sk: "nHeight (S s) = ?sk" using back_by_Some_height [OF tree b] GetSkipHeight_less [of ?h] above by simp
      have "?h - height = (?h - ?sk) + (?sk - height)" using s(2) GetSkipHeight_less [of ?h] above by simp
      then have "back_by S (?h - height) p = back_by S (?sk - height) s" by (simp only: back_by_add b bind.bind_lunit)
      then show ?thesis using less(1) [of s] sk s(2) GetSkipHeight_less [of ?h] above by simp
    qed
    show ?thesis
      by (subst ancestor_walk.simps) (use above q(1) parent skip in \<open>auto simp: Let_def split: option.splits\<close>)
  qed (use less in \<open>simp add: ancestor_walk.simps\<close>)
qed

lemma GetAncestor_back_by:
  assumes "block_tree S" "skips_ok S"
  shows "GetAncestor S p h = Inr (if 0 \<le> h \<and> h \<le> int (nHeight (S p)) then back_by S (nHeight (S p) - nat h) p else None)"
proof (cases "0 \<le> h \<and> h \<le> int (nHeight (S p))")
  case True
  then have "nat h \<le> nHeight (S p)" by (simp add: nat_le_iff)
  from ancestor_walk_back_by [OF assms this] True show ?thesis by (auto simp: GetAncestor_def)
qed (auto simp: GetAncestor_def)

text \<open>C12. On a block tree with skip pointers built by \<open>BuildSkip\<close>, the ancestor that the skip-list walk
  finds at any height is the one reached by following parent pointers, the assertion in the walk
  never fails, and no block is returned exactly for heights below zero or above the block.\<close>

theorem GetAncestor_follows_parents:
  assumes "block_tree S" "skips_ok S"
  shows "\<exists>r. GetAncestor S p h = Inr r \<and> (0 \<le> h \<and> h \<le> int (nHeight (S p)) \<longleftrightarrow> r \<noteq> None) \<and>
    (\<forall>q. r = Some q \<longrightarrow> back_by S (nHeight (S p) - nat h) p = Some q \<and> int (nHeight (S q)) = h)"
proof -
  have "\<exists>q. back_by S (nHeight (S p) - nat h) p = Some q \<and> int (nHeight (S q)) = h" if "0 \<le> h" "h \<le> int (nHeight (S p))"
    using back_by_height [OF assms(1), of "nHeight (S p) - nat h" p] that by auto
  then show ?thesis by (auto simp: GetAncestor_back_by [OF assms])
qed

lemma BuildSkip_ok:
  assumes tree: "block_tree S" and skips: "skips_ok S"
  shows "\<exists>T. BuildSkip p S = Inr T \<and> (\<exists>s. T = S(p := (S p)\<lparr>pskip := s\<rparr>) \<and> (pprev (S p) \<noteq> None \<longrightarrow> s \<noteq> None)) \<and> block_tree T \<and> skips_ok T"
proof (cases "pprev (S p)")
  case None
  then show ?thesis using assms by (simp add: BuildSkip_def) (metis CBlockIndex.surjective CBlockIndex.update_convs(3) fun_upd_triv)
next
  case (Some q)
  let ?h = "nHeight (S p)"
  have h: "?h = Suc (nHeight (S q))" using tree Some by (rule block_tree_parent)
  then have lt: "GetSkipHeight ?h \<le> nHeight (S q)" using GetSkipHeight_less [of ?h] by simp
  obtain s where s: "back_by S (nHeight (S q) - GetSkipHeight ?h) q = Some s" using back_by_height [OF tree] by (metis diff_le_self)
  let ?T = "S(p := (S p)\<lparr>pskip := Some s\<rparr>)"
  have "GetAncestor S q (int (GetSkipHeight ?h)) = Inr (Some s)" using lt s by (simp add: GetAncestor_back_by [OF tree skips])
  then have "BuildSkip p S = Inr ?T" by (simp add: BuildSkip_def Some)
  moreover have "back_by ?T n r = back_by S n r" for n r by (rule back_by_cong) simp
  moreover have "back_by S (?h - GetSkipHeight ?h) p = Some s" using Some s lt h by (simp add: Suc_diff_le)
  then have "skips_ok ?T" using skips calculation(2) by (simp add: skips_ok_def)
  moreover have "block_tree ?T = block_tree S" by (rule block_tree_cong) simp_all
  ultimately show ?thesis using tree by blast
qed

section \<open>Chains\<close>

definition chain_of :: "block_store \<Rightarrow> block_ptr \<Rightarrow> CChain" where
  "chain_of S p = map (\<lambda>h. back_by S (nHeight (S p) - h) p) [0..<nHeight (S p) + 1]"

definition is_chain :: "block_store \<Rightarrow> CChain \<Rightarrow> bool" where
  "is_chain S v \<longleftrightarrow> v = [] \<or> (\<exists>t. v = chain_of S t)"

lemma length_chain_of [simp]: "length (chain_of S p) = nHeight (S p) + 1"
  by (simp add: chain_of_def)

lemma nth_chain_of: "h \<le> nHeight (S p) \<Longrightarrow> chain_of S p ! h = back_by S (nHeight (S p) - h) p"
  by (simp add: chain_of_def del: upt_Suc)

lemma Tip_chain_of [simp]: "Tip (chain_of S p) = Some p"
  by (simp add: Tip_def nth_chain_of)

text \<open>An entry of the chain array that is set determines everything below it.\<close>

definition linked :: "block_store \<Rightarrow> CChain \<Rightarrow> nat \<Rightarrow> bool" where
  "linked S v n \<longleftrightarrow> (\<forall>h<n. \<forall>r. v ! h = Some r \<longrightarrow> nHeight (S r) = h \<and> (\<forall>k\<le>h. v ! k = back_by S (h - k) r))"

lemma linked_chain:
  assumes tree: "block_tree S" and v: "is_chain S v"
  shows "linked S (resize n v) n"
  unfolding linked_def
proof (intro allI impI)
  fix h r
  assume h: "h < n" "resize n v ! h = Some r"
  then have hv: "h < length v" and vh: "v ! h = Some r" by (auto simp: resize_def nth_append split: if_splits)
  then obtain t where t: "v = chain_of S t" using v by (auto simp: is_chain_def)
  have ht: "h \<le> nHeight (S t)" using hv by (simp add: t)
  have b: "back_by S (nHeight (S t) - h) t = Some r" using vh ht by (simp add: t nth_chain_of)
  then have "nHeight (S r) = h" using back_by_Some_height [OF tree b] ht by simp
  moreover have "resize n v ! k = back_by S (h - k) r" if "k \<le> h" for k
  proof -
    have "nHeight (S t) - k = (nHeight (S t) - h) + (h - k)" using that ht by simp
    then have "back_by S (nHeight (S t) - k) t = back_by S (h - k) r" by (simp only: back_by_add b bind.bind_lunit)
    then show ?thesis using that ht h by (simp add: resize_def nth_append t nth_chain_of)
  qed
  ultimately show "nHeight (S r) = h \<and> (\<forall>k\<le>h. resize n v ! k = back_by S (h - k) r)" by blast
qed

lemma chain_of_back_by:
  assumes "block_tree S" "back_by S n p = Some q" "k \<le> nHeight (S q)"
  shows "chain_of S p ! k = back_by S (nHeight (S q) - k) q"
proof -
  have "nHeight (S p) - k = n + (nHeight (S q) - k) \<and> k \<le> nHeight (S p)"
    using back_by_Some_height [OF assms(1,2)] assms(3) by linarith
  then show ?thesis using assms(2) by (simp add: nth_chain_of back_by_add)
qed

lemma SetTip_loop_chain:
  assumes tree: "block_tree S"
  shows "back_by S n p = Some q \<Longrightarrow> length v = nHeight (S p) + 1 \<Longrightarrow> linked S v (nHeight (S q) + 1) \<Longrightarrow>
    (\<forall>h. nHeight (S q) < h \<and> h \<le> nHeight (S p) \<longrightarrow> v ! h = chain_of S p ! h) \<Longrightarrow>
    SetTip_loop S (Some q) v = Some (chain_of S p)"
proof (induction "nHeight (S q)" arbitrary: n q v rule: less_induct)
  case less
  let ?h = "nHeight (S q)" and ?v = "v[nHeight (S q) := Some q]"
  have h: "?h \<le> nHeight (S p)" using back_by_Some_height [OF tree less(2)] by simp
  have at: "chain_of S p ! ?h = Some q" using chain_of_back_by [OF tree less(2), of ?h] by simp
  have upper: "\<forall>h. ?h \<le> h \<and> h \<le> nHeight (S p) \<longrightarrow> ?v ! h = chain_of S p ! h"
    using less(3,5) at by (auto simp: nth_list_update)
  show ?case
  proof (cases "v ! ?h = Some q")
    case True
    then have "\<forall>k\<le>?h. v ! k = chain_of S p ! k"
      using less(4) chain_of_back_by [OF tree less(2)] by (auto simp: linked_def)
    then have "v = chain_of S p" using less(3,5) by (intro nth_equalityI) (auto simp: not_le [symmetric])
    then show ?thesis using True by (subst SetTip_loop.simps) simp
  next
    case False
    show ?thesis
    proof (cases "pprev (S q)")
      case None
      then have "?v = chain_of S p" using less(3) upper block_tree_root [OF tree None] by (intro nth_equalityI) auto
      then show ?thesis using False None by (subst SetTip_loop.simps) (simp add: SetTip_loop.simps)
    next
      case (Some r)
      have r: "?h = Suc (nHeight (S r))" using block_tree_parent [OF tree Some] .
      have "back_by S (n + 1) p = Some r" using less(2) Some by (simp only: back_by_add) simp
      moreover have "linked S ?v (nHeight (S r) + 1)" using less(4) r by (simp add: linked_def)
      ultimately have "SetTip_loop S (Some r) ?v = Some (chain_of S p)" using less(1) [of r "n + 1" ?v] less(3) upper r by simp
      then show ?thesis using False Some by (subst SetTip_loop.simps) simp
    qed
  qed
qed

lemma SetTip_result:
  assumes "block_tree S" "is_chain S v"
  shows "SetTip S (Some p) v = Some (chain_of S p) \<and> SetTip S None v = Some []"
proof -
  have "SetTip_loop S (Some p) (resize (nHeight (S p) + 1) v) = Some (chain_of S p)"
    using linked_chain [OF assms, of "nHeight (S p) + 1"]
    by (intro SetTip_loop_chain [OF assms(1), of 0]) (auto simp: resize_def)
  then show ?thesis by (simp add: SetTip_def)
qed

text \<open>C18. Setting the tip returns, and makes the active chain the path from the root to the new tip,
  whatever branch the chain was on before; a null tip empties it.\<close>

theorem SetTip_chain_of:
  assumes "block_tree S" "is_chain S v"
  shows "SetTip S (Some p) v = Some (chain_of S p) \<and> SetTip S None v = Some []"
  by (rule SetTip_result [OF assms])

section \<open>Fork points\<close>

lemma Contains_chain_of:
  assumes "block_tree S"
  shows "Contains S (chain_of S t) p \<longleftrightarrow> (\<exists>n. back_by S n t = Some p)"
proof
  assume "Contains S (chain_of S t) p"
  then have "nHeight (S p) \<le> nHeight (S t)" "chain_of S t ! nHeight (S p) = Some p"
    by (auto simp: Contains_def chain_at_def split: if_splits)
  then show "\<exists>n. back_by S n t = Some p" by (auto simp: nth_chain_of)
next
  assume "\<exists>n. back_by S n t = Some p"
  then obtain n where n: "back_by S n t = Some p" ..
  have "nHeight (S p) \<le> nHeight (S t)" using back_by_Some_height [OF assms n] by simp
  then show "Contains S (chain_of S t) p"
    using chain_of_back_by [OF assms n, of "nHeight (S p)"] by (simp add: Contains_def chain_at_def)
qed

lemma FindFork_loop_spec:
  assumes tree: "block_tree S"
  shows "\<exists>r. FindFork_loop S v (Some p) = Some r \<and>
    (case r of None \<Rightarrow> \<forall>n q. back_by S n p = Some q \<longrightarrow> \<not> Contains S v q
     | Some f \<Rightarrow> \<exists>n. back_by S n p = Some f \<and> Contains S v f \<and> (\<forall>m<n. \<forall>q. back_by S m p = Some q \<longrightarrow> \<not> Contains S v q))"
proof (induction "nHeight (S p)" arbitrary: p rule: less_induct)
  case less
  show ?case
  proof (cases "Contains S v p")
    case True
    then show ?thesis by (subst FindFork_loop.simps) (auto intro!: exI [of _ 0])
  next
    case False
    show ?thesis
    proof (cases "pprev (S p)")
      case None
      have "back_by S n p = Some q \<Longrightarrow> q = p" for n q using None by (cases n) auto
      then show ?thesis using False None by (subst FindFork_loop.simps) (auto simp: FindFork_loop.simps)
    next
      case (Some q)
      have "nHeight (S q) < nHeight (S p)" using block_tree_parent [OF tree Some] by simp
      from less(1) [OF this] obtain r where r: "FindFork_loop S v (Some q) = Some r"
        "case r of None \<Rightarrow> \<forall>n s. back_by S n q = Some s \<longrightarrow> \<not> Contains S v s
         | Some f \<Rightarrow> \<exists>n. back_by S n q = Some f \<and> Contains S v f \<and> (\<forall>m<n. \<forall>s. back_by S m q = Some s \<longrightarrow> \<not> Contains S v s)" by blast
      have step: "FindFork_loop S v (Some p) = Some r" using r(1) False Some by (subst FindFork_loop.simps) simp
      show ?thesis
      proof (cases r)
        case None
        have "\<not> Contains S v s" if "back_by S n p = Some s" for n s
          using that False r(2) \<open>pprev (S p) = Some q\<close> None by (cases n) auto
        then show ?thesis using step None by auto
      next
        case (Some f)
        then obtain n where n: "back_by S n q = Some f" "Contains S v f" "\<forall>m<n. \<forall>s. back_by S m q = Some s \<longrightarrow> \<not> Contains S v s" using r(2) by auto
        have "\<not> Contains S v s" if "m < Suc n" "back_by S m p = Some s" for m s
          using that False n(3) \<open>pprev (S p) = Some q\<close> by (cases m) auto
        moreover have "back_by S (Suc n) p = Some f" using n(1) \<open>pprev (S p) = Some q\<close> by simp
        ultimately show ?thesis using step Some n(2) by (auto intro!: exI [of _ "Suc n"])
      qed
    qed
  qed
qed

definition is_ancestor :: "block_store \<Rightarrow> block_ptr \<Rightarrow> block_ptr \<Rightarrow> bool" where
  "is_ancestor S q p \<longleftrightarrow> (\<exists>n. back_by S n p = Some q)"

lemma is_ancestor_between:
  assumes "back_by S n p = Some f" "is_ancestor S q p" "\<not> (\<exists>m<n. back_by S m p = Some q)"
  shows "is_ancestor S q f"
proof -
  obtain m where m: "back_by S m p = Some q" using assms(2) by (auto simp: is_ancestor_def)
  then have "m = n + (m - n)" using assms(3) by (metis le_add_diff_inverse not_less)
  then have "back_by S (m - n) f = Some q" using m assms(1) by (metis back_by_add bind.bind_lunit)
  then show ?thesis by (auto simp: is_ancestor_def)
qed

lemma is_ancestor_parent: "is_ancestor S p t \<Longrightarrow> pprev (S p) = Some q \<Longrightarrow> is_ancestor S q t"
proof -
  assume p: "is_ancestor S p t" "pprev (S p) = Some q"
  then obtain n where "back_by S n t = Some p" by (auto simp: is_ancestor_def)
  then have "back_by S (n + 1) t = Some q" using p(2) by (simp only: back_by_add) simp
  then show ?thesis unfolding is_ancestor_def ..
qed

lemma is_ancestor_height: "block_tree S \<Longrightarrow> is_ancestor S q p \<Longrightarrow> nHeight (S q) \<le> nHeight (S p)"
  using back_by_Some_height [of S] by (fastforce simp: is_ancestor_def)

lemma FindFork_common:
  assumes tree: "block_tree S" and skips: "skips_ok S"
  shows "\<exists>r. FindFork S (chain_of S t) (Some p) = Some (Inr r) \<and>
    (case r of None \<Rightarrow> \<not> (\<exists>q. is_ancestor S q p \<and> is_ancestor S q t)
     | Some f \<Rightarrow> is_ancestor S f p \<and> is_ancestor S f t \<and>
         (\<forall>q. is_ancestor S q p \<and> is_ancestor S q t \<longrightarrow> is_ancestor S q f))"
proof -
  let ?v = "chain_of S t" and ?d = "nHeight (S p) - nHeight (S t)"
  obtain p' where p': "back_by S ?d p = Some p'" using back_by_height [OF tree, of ?d p] by auto
  have start: "FindFork S ?v (Some p) = map_option Inr (FindFork_loop S ?v (Some p'))"
    using p' by (auto simp: FindFork_def Height_def GetAncestor_back_by [OF tree skips])
  have common: "is_ancestor S q p'" if q: "is_ancestor S q p" "is_ancestor S q t" for q
  proof (rule is_ancestor_between [OF p' q(1)])
    show "\<not> (\<exists>m<?d. back_by S m p = Some q)"
      using is_ancestor_height [OF tree q(2)] back_by_Some_height [OF tree, of _ p q] by (metis diff_diff_cancel diff_le_mono2 less_le_not_le)
  qed
  have p'_p: "is_ancestor S q p" if "is_ancestor S q p'" for q
    using that p' by (auto simp: is_ancestor_def) (metis back_by_add bind.bind_lunit)
  from FindFork_loop_spec [OF tree, of ?v p'] obtain r where r: "FindFork_loop S ?v (Some p') = Some r"
    "case r of None \<Rightarrow> \<forall>n q. back_by S n p' = Some q \<longrightarrow> \<not> is_ancestor S q t
     | Some f \<Rightarrow> \<exists>n. back_by S n p' = Some f \<and> is_ancestor S f t \<and> (\<forall>m<n. \<forall>q. back_by S m p' = Some q \<longrightarrow> \<not> is_ancestor S q t)"
    unfolding Contains_chain_of [OF tree] is_ancestor_def by blast
  show ?thesis
  proof (cases r)
    case None
    then have "\<not> (\<exists>q. is_ancestor S q p \<and> is_ancestor S q t)" using r(2) common unfolding is_ancestor_def by simp blast
    then show ?thesis using start r(1) None by simp
  next
    case (Some f)
    then obtain n where n: "back_by S n p' = Some f" "is_ancestor S f t" "\<forall>m<n. \<forall>q. back_by S m p' = Some q \<longrightarrow> \<not> is_ancestor S q t"
      using r(2) by auto
    have "is_ancestor S q f" if "is_ancestor S q p" "is_ancestor S q t" for q
      using is_ancestor_between [OF n(1) common [OF that]] n(3) that(2) by blast
    moreover have "is_ancestor S f p" using n(1) p'_p by (auto simp: is_ancestor_def)
    ultimately show ?thesis using start r(1) Some n(2) by auto
  qed
qed

text \<open>The fork point of a block with the active chain is their last common ancestor: it returns, it
  is an ancestor of both the block and the tip, and every common ancestor is one of its own; no block
  is returned only when they have none in common.\<close>

theorem FindFork_last_common:
  assumes tree: "block_tree S" and skips: "skips_ok S"
  shows "\<exists>r. FindFork S (chain_of S t) (Some p) = Some (Inr r) \<and>
    (case r of None \<Rightarrow> \<not> (\<exists>q. is_ancestor S q p \<and> is_ancestor S q t)
     | Some f \<Rightarrow> is_ancestor S f p \<and> is_ancestor S f t \<and>
         (\<forall>q. is_ancestor S q p \<and> is_ancestor S q t \<longrightarrow> is_ancestor S q f))"
  by (rule FindFork_common [OF assms])

section \<open>Searching by time\<close>

text \<open>The halving search finds the first entry that is not below, when the entries that are below
  come first.\<close>

definition first_not :: "(nat \<Rightarrow> bool) \<Rightarrow> nat \<Rightarrow> nat \<Rightarrow> nat \<Rightarrow> bool" where
  "first_not P lo hi r \<longleftrightarrow> lo \<le> r \<and> r \<le> hi \<and> (\<forall>i. lo \<le> i \<and> i < r \<longrightarrow> P i) \<and> (r < hi \<longrightarrow> \<not> P r)"

lemma first_not_lower:
  assumes "\<And>i. i < k \<Longrightarrow> P i" "lo \<le> k" "first_not P k hi r"
  shows "first_not P lo hi r"
proof -
  have "P i" if "i < r" for i using that assms(1) [of i] assms(3) by (cases "i < k") (auto simp: first_not_def)
  then show ?thesis using assms(2,3) by (auto simp: first_not_def)
qed

lemma first_not_upper: "\<not> P k \<Longrightarrow> k \<le> hi \<Longrightarrow> first_not P lo k r \<Longrightarrow> first_not P lo hi r"
  by (auto simp: first_not_def le_less)

lemma lower_bound_spec:
  fixes S v t
  defines "P \<equiv> \<lambda>i. GetBlockTimeMax (S (the (v ! i))) < t"
  assumes below: "\<And>i j. i \<le> j \<Longrightarrow> j < n \<Longrightarrow> P j \<Longrightarrow> P i"
  shows "first + count \<le> n \<Longrightarrow> first_not P first (first + count) (lower_bound S v t first count)"
proof (induction count arbitrary: first rule: less_induct)
  case (less count)
  show ?case
  proof (cases "count = 0")
    case False
    let ?s = "count div 2"
    let ?it = "first + ?s" and ?c = "count - (count div 2 + 1)"
    have s: "?s < count" and c: "?c < count" "?it + 1 + ?c = first + count" using False by simp_all
    show ?thesis
    proof (cases "P ?it")
      case True
      have low: "\<And>i. i \<le> ?it \<Longrightarrow> P i" using below [of _ ?it] True less.prems s by auto
      have "lower_bound S v t first count = lower_bound S v t (?it + 1) ?c"
        using True False by (subst lower_bound.simps) (simp add: Let_def P_def)
      moreover have "first_not P (?it + 1) (first + count) (lower_bound S v t (?it + 1) ?c)"
        using less.IH [OF c(1), of "?it + 1"] less.prems unfolding c(2) .
      then have "first_not P first (first + count) (lower_bound S v t (?it + 1) ?c)"
        by (rule first_not_lower [rotated 2]) (auto intro: low)
      ultimately show ?thesis by simp
    next
      case P: False
      have "lower_bound S v t first count = lower_bound S v t first ?s"
        using P False by (subst lower_bound.simps) (simp add: Let_def P_def)
      moreover have "first_not P first ?it (lower_bound S v t first ?s)" using less.IH [OF s, of first] less.prems s by simp
      then have "first_not P first (first + count) (lower_bound S v t first ?s)"
        by (rule first_not_upper [of P, OF P, rotated]) (use s in simp)
      ultimately show ?thesis by simp
    qed
  qed (subst lower_bound.simps, auto simp: first_not_def)
qed

definition time_max_ok :: "block_store \<Rightarrow> bool" where
  "time_max_ok S \<longleftrightarrow> (\<forall>p. nTimeMax (S p) = (case pprev (S p) of None \<Rightarrow> nTime (S p) | Some q \<Rightarrow> max (nTimeMax (S q)) (nTime (S p))))"

lemma time_max_parent:
  "time_max_ok S \<Longrightarrow> GetBlockTimeMax (S p) = (case pprev (S p) of None \<Rightarrow> GetBlockTime (S p) | Some q \<Rightarrow> max (GetBlockTimeMax (S q)) (GetBlockTime (S p)))"
proof -
  assume "time_max_ok S"
  then have "nTimeMax (S p) = (case pprev (S p) of None \<Rightarrow> nTime (S p) | Some q \<Rightarrow> max (nTimeMax (S q)) (nTime (S p)))"
    unfolding time_max_ok_def by (rule spec)
  then show ?thesis by (cases "pprev (S p)") (simp_all add: GetBlockTimeMax_def GetBlockTime_def max_def word_le_def)
qed

lemma time_max_back_by: "time_max_ok S \<Longrightarrow> back_by S n p = Some q \<Longrightarrow> GetBlockTimeMax (S q) \<le> GetBlockTimeMax (S p)"
proof (induction n arbitrary: p)
  case (Suc n)
  then obtain r where r: "pprev (S p) = Some r" "back_by S n r = Some q" by (auto split: option.splits)
  have "GetBlockTimeMax (S r) \<le> GetBlockTimeMax (S p)" using time_max_parent [OF Suc.prems(1), of p] r(1) by simp
  with Suc.IH [OF Suc.prems(1) r(2)] show ?case by simp
qed simp

lemma time_le_max: "time_max_ok S \<Longrightarrow> GetBlockTime (S p) \<le> GetBlockTimeMax (S p)"
  using time_max_parent [of S p] by (cases "pprev (S p)") simp_all

lemma chain_of_entry:
  assumes "block_tree S" "i \<le> nHeight (S t)"
  shows "\<exists>q. chain_of S t ! i = Some q \<and> is_ancestor S q t \<and> nHeight (S q) = i"
  using back_by_height [OF assms(1), of "nHeight (S t) - i" t] assms(2) by (auto simp: nth_chain_of is_ancestor_def)

lemma ancestor_entry:
  assumes "block_tree S" "is_ancestor S q t"
  shows "chain_of S t ! nHeight (S q) = Some q"
  using assms(2) chain_of_back_by [OF assms(1)] by (auto simp: is_ancestor_def)

lemma chain_of_below:
  assumes tree: "block_tree S" and le: "i \<le> j" "j \<le> nHeight (S t)"
  shows "\<exists>n. back_by S n (the (chain_of S t ! j)) = Some (the (chain_of S t ! i))"
proof -
  obtain q where q: "chain_of S t ! j = Some q" "nHeight (S q) = j" "is_ancestor S q t" using chain_of_entry [OF tree le(2)] by blast
  then obtain m where m: "back_by S m t = Some q" by (auto simp: is_ancestor_def)
  have "chain_of S t ! i = back_by S (j - i) q" using chain_of_back_by [OF tree m, of i] q(2) le(1) by simp
  then show ?thesis using back_by_height [OF tree, of "j - i" q] q by auto
qed

text \<open>Searching the active chain by time finds the lowest block whose own time is at least the
  given one, and no block exactly when the whole chain is earlier.\<close>

theorem FindEarliestAtLeast_first:
  assumes tree: "block_tree S" and times: "time_max_ok S"
  shows "case FindEarliestAtLeast S (chain_of S tip) t of
      None \<Rightarrow> \<forall>q. is_ancestor S q tip \<longrightarrow> GetBlockTime (S q) < t
    | Some p \<Rightarrow> is_ancestor S p tip \<and> t \<le> GetBlockTime (S p) \<and>
        (\<forall>q. is_ancestor S q tip \<and> nHeight (S q) < nHeight (S p) \<longrightarrow> GetBlockTime (S q) < t)"
proof -
  let ?v = "chain_of S tip" and ?n = "nHeight (S tip) + 1"
  define P where "P = (\<lambda>i. GetBlockTimeMax (S (the (?v ! i))) < t)"
  define r where "r = lower_bound S ?v t 0 ?n"
  have "P i" if le: "i \<le> j" "j < ?n" and Pj: "P j" for i j
  proof -
    obtain k where "back_by S k (the (?v ! j)) = Some (the (?v ! i))" using chain_of_below [OF tree le(1), of tip] le(2) by auto
    from time_max_back_by [OF times this] show ?thesis using Pj by (simp add: P_def)
  qed
  then have r: "first_not P 0 ?n r" using lower_bound_spec [of ?n S ?v t 0 ?n] unfolding P_def r_def by simp
  have early: "GetBlockTime (S q) < t" if "is_ancestor S q tip" "nHeight (S q) < r" for q
    using r that ancestor_entry [OF tree that(1)] time_le_max [OF times, of q] by (auto simp: first_not_def P_def)
  show ?thesis
  proof (cases "r = ?n")
    case True
    then have "GetBlockTime (S q) < t" if "is_ancestor S q tip" for q using early [OF that] is_ancestor_height [OF tree that] by simp
    then show ?thesis using True by (simp add: FindEarliestAtLeast_def Let_def r_def)
  next
    case False
    then have rn: "r \<le> nHeight (S tip)" using r by (simp add: first_not_def)
    then obtain p where p: "?v ! r = Some p" "is_ancestor S p tip" "nHeight (S p) = r" using chain_of_entry [OF tree] by blast
    have late: "t \<le> GetBlockTimeMax (S p)" using r False rn p(1) by (simp add: first_not_def P_def)
    have "t \<le> GetBlockTime (S p)"
    proof (rule ccontr)
      assume "\<not> ?thesis"
      then obtain q where q: "pprev (S p) = Some q" "t \<le> GetBlockTimeMax (S q)"
        using time_max_parent [OF times, of p] late by (auto split: option.splits)
      have anc: "is_ancestor S q tip" using p(2) q(1) by (rule is_ancestor_parent)
      have "nHeight (S q) < r" using block_tree_parent [OF tree q(1)] p(3) by simp
      then have "P (nHeight (S q))" using r by (simp add: first_not_def)
      then show False using ancestor_entry [OF tree anc] q(2) by (simp add: P_def)
    qed
    moreover have "FindEarliestAtLeast S ?v t = Some p" using False p(1) by (simp add: FindEarliestAtLeast_def Let_def r_def)
    ultimately show ?thesis using p(2,3) early by simp
  qed
qed

section \<open>Median time\<close>

lemma sort_nth_ge:
  fixes m :: int
  assumes "length (filter (\<lambda>x. x < m) xs) \<le> i" "i < length xs"
  shows "m \<le> sort xs ! i"
proof (rule ccontr)
  assume "\<not> ?thesis"
  then have "sort xs ! j < m" if "j \<le> i" for j
    using sorted_nth_mono [OF sorted_sort, of j i xs] that assms(2) by simp
  then have "{..i} \<subseteq> {j. j < length (sort xs) \<and> sort xs ! j < m}" using assms(2) by auto
  then have "card {..i} \<le> card {j. j < length (sort xs) \<and> sort xs ! j < m}" by (intro card_mono) auto
  also have "\<dots> = length (filter (\<lambda>x. x < m) (sort xs))" by (simp add: length_filter_conv_card)
  also have "\<dots> = length (filter (\<lambda>x. x < m) xs)" by (simp add: filter_sort)
  finally show False using assms(1) by simp
qed

lemma sort_filter_below:
  fixes m :: int
  assumes "i < length xs" "sort xs ! i = m"
  shows "length (filter (\<lambda>x. x < m) xs) \<le> i"
proof -
  have "length (filter (\<lambda>x. x < m) xs) = length (filter (\<lambda>x. x < m) (sort xs))" by (simp add: filter_sort)
  also have "\<dots> = card {j. j < length xs \<and> sort xs ! j < m}" by (simp add: length_filter_conv_card)
  also have "\<dots> \<le> card {..<i}"
  proof (intro card_mono subsetI)
    fix j assume "j \<in> {j. j < length xs \<and> sort xs ! j < m}"
    then show "j \<in> {..<i}" using sorted_nth_mono [OF sorted_sort, of i j xs] assms by (auto simp: not_less [symmetric])
  qed simp
  finally show ?thesis by simp
qed

text \<open>The rule for new blocks: a block's time is after the median of the blocks up to its parent.\<close>

definition times_ok :: "block_store \<Rightarrow> bool" where
  "times_ok S \<longleftrightarrow> (\<forall>p q. pprev (S p) = Some q \<longrightarrow> GetMedianTimePast S q < GetBlockTime (S p))"

lemma median_times_drop: "median_times S n p = take n (median_times S (n + k) p)"
  by (induction S n p rule: median_times.induct) (auto split: option.splits)

lemma length_median_times: "length (median_times S n p) \<le> n"
  by (induction S n p rule: median_times.induct) simp_all

lemma median_times_nonempty: "length (median_times S nMedianTimeSpan (Some p)) > 0"
  by (simp add: nMedianTimeSpan_def numeral_eq_Suc)

lemma filter_take_le: "length (filter P (take n xs)) \<le> length (filter P xs)"
  by (metis append_take_drop_id filter_append le_add1 length_append)

text \<open>Adding a time above the median, and dropping the oldest when there are eleven already, does not
  lower the median.\<close>

lemma median_shift:
  fixes xs :: "int list" and y :: int
  assumes "0 < length xs" "length xs \<le> n" "sort xs ! (length xs div 2) < y"
  shows "sort xs ! (length xs div 2) \<le> sort (y # take (n - 1) xs) ! (length (y # take (n - 1) xs) div 2)"
proof (rule sort_nth_ge)
  let ?m = "sort xs ! (length xs div 2)" and ?ys = "y # take (n - 1) xs"
  have "length (filter (\<lambda>x. x < ?m) ?ys) = length (filter (\<lambda>x. x < ?m) (take (n - 1) xs))" using assms(3) by simp
  also have "\<dots> \<le> length (filter (\<lambda>x. x < ?m) xs)" by (rule filter_take_le)
  also have "\<dots> \<le> length xs div 2" using assms(1) by (intro sort_filter_below) simp_all
  also have "\<dots> \<le> length ?ys div 2" using assms(1,2) by (intro div_le_mono) (auto simp: min_def)
  finally show "length (filter (\<lambda>x. x < ?m) ?ys) \<le> length ?ys div 2" .
  show "length ?ys div 2 < length ?ys" by simp
qed

lemma GetMedianTimePast_parent:
  assumes "times_ok S" "pprev (S p) = Some q"
  shows "GetMedianTimePast S q \<le> GetMedianTimePast S p"
proof -
  let ?xs = "median_times S nMedianTimeSpan (Some q)"
  have "median_times S nMedianTimeSpan (Some p) = GetBlockTime (S p) # median_times S (nMedianTimeSpan - 1) (Some q)"
    using assms(2) by (simp add: nMedianTimeSpan_def numeral_eq_Suc)
  also have "median_times S (nMedianTimeSpan - 1) (Some q) = take (nMedianTimeSpan - 1) ?xs"
    using median_times_drop [of S "nMedianTimeSpan - 1" "Some q" 1] by (simp add: nMedianTimeSpan_def)
  finally have "median_times S nMedianTimeSpan (Some p) = GetBlockTime (S p) # take (nMedianTimeSpan - 1) ?xs" .
  moreover have "sort ?xs ! (length ?xs div 2) < GetBlockTime (S p)"
    using assms by (auto simp: times_ok_def GetMedianTimePast_def Let_def)
  ultimately show ?thesis
    using median_shift [OF median_times_nonempty length_median_times, of S q "GetBlockTime (S p)"]
    by (simp add: GetMedianTimePast_def Let_def)
qed

text \<open>Block acceptance requires \<open>times_ok\<close>, so the median time past never decreases along a chain.\<close>

lemma GetMedianTimePast_mono:
  assumes "times_ok S"
  shows "back_by S n p = Some q \<Longrightarrow> GetMedianTimePast S q \<le> GetMedianTimePast S p"
proof (induction n arbitrary: p)
  case (Suc n)
  then obtain r where r: "pprev (S p) = Some r" "back_by S n r = Some q" by (auto split: option.splits)
  from Suc.IH [OF r(2)] GetMedianTimePast_parent [OF assms r(1)] show ?case by simp
qed simp

section \<open>Block locators\<close>

lemma is_ancestor_refl [simp]: "is_ancestor S p p"
  unfolding is_ancestor_def by (rule exI [of _ 0]) simp

lemma is_ancestor_trans: "is_ancestor S q p \<Longrightarrow> is_ancestor S p t \<Longrightarrow> is_ancestor S q t"
  unfolding is_ancestor_def by (metis back_by_add bind.bind_lunit)

text \<open>One round of the locator loop goes to the ancestor \<open>step\<close> blocks down, or to the root.\<close>

lemma locator_next:
  assumes tree: "block_tree S" and skips: "skips_ok S" and v: "is_chain S v"
  obtains q where "is_ancestor S q p" "nHeight (S q) = nHeight (S p) - step"
    "(if Contains S v p then Inr (chain_at v (int (nHeight (S p) - step))) else GetAncestor S p (int (nHeight (S p) - step))) = Inr (Some q)"
proof -
  let ?h = "nHeight (S p) - step"
  have le: "nHeight (S p) - ?h \<le> nHeight (S p)" by simp
  obtain q where q: "back_by S (nHeight (S p) - ?h) p = Some q" "nHeight (S q) = ?h"
    using back_by_height [OF tree le] by auto
  have "chain_at v (int ?h) = Some q" if c: "Contains S v p"
  proof -
    obtain t where t: "v = chain_of S t" using v c by (auto simp: is_chain_def Contains_def chain_at_def split: if_splits)
    then obtain n where n: "back_by S n t = Some p" using c by (auto simp: Contains_chain_of [OF tree])
    have "?h \<le> nHeight (S t)" using back_by_Some_height [OF tree n] by simp
    then show ?thesis using chain_of_back_by [OF tree n, of ?h] q(1) by (simp add: chain_at_def t)
  qed
  moreover have "GetAncestor S p (int ?h) = Inr (Some q)" using q(1) by (simp add: GetAncestor_back_by [OF tree skips])
  moreover have "is_ancestor S q p" using q(1) unfolding is_ancestor_def by (rule exI)
  ultimately show ?thesis using q(2) that by simp
qed

text \<open>\<open>locates S p ps\<close>: the blocks of a locator from \<open>p\<close> down to the root.\<close>

definition locates :: "block_store \<Rightarrow> block_ptr \<Rightarrow> block_ptr list \<Rightarrow> bool" where
  "locates S p ps \<longleftrightarrow> ps \<noteq> [] \<and> hd ps = p \<and> nHeight (S (last ps)) = 0 \<and> (\<forall>q\<in>set ps. is_ancestor S q p)"

lemma locates_Cons: "is_ancestor S q p \<Longrightarrow> locates S q ps \<Longrightarrow> locates S p (p # ps)"
  by (auto simp: locates_def intro: is_ancestor_trans)

lemma locates_root: "nHeight (S p) = 0 \<Longrightarrow> locates S p [p]"
  by (simp add: locates_def)

lemma GetLocator_step:
  assumes "block_tree S" "skips_ok S" "is_chain S v" "nHeight (S p) \<noteq> 0"
  obtains q where "is_ancestor S q p" "nHeight (S q) = nHeight (S p) - step"
    "GetLocator_loop S v (Some p) step have' =
       GetLocator_loop S v (Some q) (if length have' \<ge> 10 then step * 2 else step) (have' @ [phashBlock (S p)])"
proof -
  obtain q where q: "is_ancestor S q p" "nHeight (S q) = nHeight (S p) - step"
    "(if Contains S v p then Inr (chain_at v (int (nHeight (S p) - step))) else GetAncestor S p (int (nHeight (S p) - step))) = Inr (Some q)"
    by (rule locator_next [OF assms(1-3)])
  have "GetLocator_loop S v (Some p) step have' =
       GetLocator_loop S v (Some q) (if length have' \<ge> 10 then step * 2 else step) (have' @ [phashBlock (S p)])"
    using assms(4) q(3) by (subst GetLocator_loop.simps) (simp add: Let_def not_less_eq_eq less_eq_Suc_le)
  then show ?thesis using q that by blast
qed

lemma GetLocator_root:
  "nHeight (S p) = 0 \<Longrightarrow> GetLocator_loop S v (Some p) step have' = Some (Inr (have' @ map (\<lambda>q. phashBlock (S q)) [p]))"
  by (subst GetLocator_loop.simps) (simp add: Let_def)

text \<open>Once ten hashes are there the steps double; before, they go one block down.\<close>

lemma GetLocator_doubling:
  assumes S: "block_tree S" "skips_ok S" "is_chain S v"
  shows "10 \<le> length have' \<Longrightarrow> 0 < step \<Longrightarrow> nHeight (S p) \<le> step * (2 ^ k - 1) \<Longrightarrow>
    \<exists>ps. GetLocator_loop S v (Some p) step have' = Some (Inr (have' @ map (\<lambda>q. phashBlock (S q)) ps)) \<and> locates S p ps \<and> length ps \<le> k + 1"
proof (induction k arbitrary: p step have')
  case 0
  then show ?case using GetLocator_root [of S p] locates_root [of S p] by fastforce
next
  case (Suc k)
  show ?case
  proof (cases "nHeight (S p) = 0")
    case True
    then show ?thesis using GetLocator_root [of S p] locates_root [of S p] by fastforce
  next
    case False
    obtain q where q: "is_ancestor S q p" "nHeight (S q) = nHeight (S p) - step"
      "GetLocator_loop S v (Some p) step have' = GetLocator_loop S v (Some q) (step * 2) (have' @ [phashBlock (S p)])"
      using GetLocator_step [OF S False, of step have'] Suc.prems(1) by auto
    have "nHeight (S q) \<le> step * 2 * (2 ^ k - 1)" using Suc.prems(3) unfolding q(2) by (simp add: algebra_simps)
    then obtain ps where ps: "GetLocator_loop S v (Some q) (step * 2) (have' @ [phashBlock (S p)]) =
        Some (Inr ((have' @ [phashBlock (S p)]) @ map (\<lambda>q. phashBlock (S q)) ps))" "locates S q ps" "length ps \<le> k + 1"
      using Suc.IH [of "have' @ [phashBlock (S p)]" "step * 2" q] Suc.prems by auto
    then show ?thesis using q locates_Cons [OF q(1) ps(2)] by (intro exI [of _ "p # ps"]) simp
  qed
qed

lemma GetLocator_single_steps:
  assumes S: "block_tree S" "skips_ok S" "is_chain S v"
  shows "length have' + m = 10 \<Longrightarrow> nHeight (S p) < m + 2 ^ k \<Longrightarrow>
    \<exists>ps. GetLocator_loop S v (Some p) 1 have' = Some (Inr (have' @ map (\<lambda>q. phashBlock (S q)) ps)) \<and> locates S p ps \<and> length ps \<le> m + k + 1"
proof (induction m arbitrary: p have')
  case 0
  then have "nHeight (S p) \<le> 1 * (2 ^ k - 1)" by simp
  then show ?case using GetLocator_doubling [OF S, of have' 1 p k] 0 by simp
next
  case (Suc m)
  show ?case
  proof (cases "nHeight (S p) = 0")
    case True
    then show ?thesis using GetLocator_root [of S p] locates_root [of S p] by fastforce
  next
    case False
    obtain q where q: "is_ancestor S q p" "nHeight (S q) = nHeight (S p) - 1"
      "GetLocator_loop S v (Some p) 1 have' = GetLocator_loop S v (Some q) 1 (have' @ [phashBlock (S p)])"
      using GetLocator_step [OF S False, of 1 have'] Suc.prems(1) by auto
    have "nHeight (S q) < m + 2 ^ k" using q(2) Suc.prems(2) False by simp
    then obtain ps where ps: "GetLocator_loop S v (Some q) 1 (have' @ [phashBlock (S p)]) =
        Some (Inr ((have' @ [phashBlock (S p)]) @ map (\<lambda>q. phashBlock (S q)) ps))" "locates S q ps" "length ps \<le> m + k + 1"
      using Suc.IH [of "have' @ [phashBlock (S p)]" q] Suc.prems by auto
    then show ?thesis using q locates_Cons [OF q(1) ps(2)] by (intro exI [of _ "p # ps"]) simp
  qed
qed

text \<open>C39. A block locator is finished: the loop returns the hashes of ancestors of the block, the block
  itself first and the root last, and from a height below \<open>10 + 2 ^ k\<close> there are at most \<open>11 + k\<close> of
  them, so the 32 that are reserved are enough up to a height of two million.\<close>

theorem GetLocator_bound:
  assumes "block_tree S" "skips_ok S" "is_chain S v" "nHeight (S p) < 10 + 2 ^ k"
  shows "\<exists>ps. GetLocator S v (Some p) = Some (Inr (map (\<lambda>q. phashBlock (S q)) ps)) \<and> locates S p ps \<and> length ps \<le> 11 + k"
  using GetLocator_single_steps [OF assms(1-3), of "[]" 10 p k] assms(4) by (simp add: GetLocator_def)

section \<open>A branching example\<close>

text \<open>A store with a line of blocks \<open>0, 1, \<dots>, 99\<close> and a branch \<open>100, 101, \<dots>\<close> on block 2.\<close>

definition sample_store :: block_store where
  "sample_store p = CBlockIndex_SetNull\<lparr>phashBlock := of_nat p,
     pprev := (if p = 0 then None else if p = 100 then Some 2 else Some (p - 1)),
     nHeight := (if p < 100 then p else p - 97)\<rparr>"

lemma sample_tree: "block_tree sample_store"
  by (auto simp: block_tree_def sample_store_def CBlockIndex_SetNull_def)

lemma sample_skips: "skips_ok sample_store"
  by (simp add: skips_ok_def sample_store_def CBlockIndex_SetNull_def)

lemma sample_times: "time_max_ok sample_store"
  by (auto simp: time_max_ok_def sample_store_def CBlockIndex_SetNull_def)

lemma sample_simps [simp]:
  "pprev (sample_store p) = (if p = 0 then None else if p = 100 then Some 2 else Some (p - 1))"
  "nHeight (sample_store p) = (if p < 100 then p else p - 97)" "GetBlockTime (sample_store p) = 0"
  by (simp_all add: sample_store_def CBlockIndex_SetNull_def GetBlockTime_def)

theorem GetAncestor_follows_parents_witness: "GetAncestor sample_store 101 2 = Inr (Some 2)"
  using GetAncestor_follows_parents [OF sample_tree sample_skips, of 101 2] by (auto simp: numeral_eq_Suc)

theorem SetTip_chain_of_witness: "SetTip sample_store (Some 101) (chain_of sample_store 5) = Some [Some 0, Some 1, Some 2, Some 100, Some 101]"
proof -
  have "is_chain sample_store (chain_of sample_store 5)" by (auto simp: is_chain_def)
  moreover have "chain_of sample_store 101 = [Some 0, Some 1, Some 2, Some 100, Some 101]"
    by (simp add: chain_of_def upt_rec numeral_eq_Suc)
  ultimately show ?thesis using SetTip_chain_of [OF sample_tree, of "chain_of sample_store 5" 101] by simp
qed

theorem FindFork_last_common_witness: "\<exists>f. FindFork sample_store (chain_of sample_store 5) (Some 101) = Some (Inr (Some f)) \<and> is_ancestor sample_store 2 f"
proof -
  have "back_by sample_store 2 101 = Some 2" "back_by sample_store 3 5 = Some 2" by (simp_all add: numeral_eq_Suc)
  then have "is_ancestor sample_store 2 101" "is_ancestor sample_store 2 5" unfolding is_ancestor_def by blast+
  then show ?thesis using FindFork_last_common [OF sample_tree sample_skips, of 5 101] by (auto split: option.splits)
qed

theorem FindEarliestAtLeast_first_witness: "\<exists>p. FindEarliestAtLeast sample_store (chain_of sample_store 5) 0 = Some p"
proof (cases "FindEarliestAtLeast sample_store (chain_of sample_store 5) 0")
  case None
  then have "GetBlockTime (sample_store 5) < 0" using FindEarliestAtLeast_first [OF sample_tree sample_times, of 5 0] by (auto dest: spec [of _ 5])
  then show ?thesis by simp
qed simp

theorem GetLocator_bound_witness:
  "\<exists>ps. GetLocator sample_store (chain_of sample_store 5) (Some 99) = Some (Inr (map (\<lambda>q. phashBlock (sample_store q)) ps)) \<and> length ps \<le> 18"
  using GetLocator_bound [OF sample_tree sample_skips, of "chain_of sample_store 5" 99 7] by (auto simp: is_chain_def)

end
