(* ===== verification/Versionbits.thy ===== *)
theory Versionbits
  imports Chain
begin

unbundle bit_operations_syntax

text \<open>
  Deployment of rule changes by miner signalling: \<open>src/src/versionbits.h\<close> and
  \<open>versionbits.cpp\<close>.  The state of a deployment changes at period boundaries only; the code
  computes it with a cache, backwards to a known boundary and forwards again.

  Shown: with any correct cache the code returns, and gives the state that the plain recursion over
  all earlier periods defines; a deployment is decided once its timeout has passed; and with the
  constants of the source no block ever signals, so no deployment can be locked in.
\<close>

section \<open>Threshold states\<close>

datatype ThresholdState = THRESHOLD_DEFINED | THRESHOLD_STARTED | THRESHOLD_LOCKED_IN | THRESHOLD_ACTIVE | THRESHOLD_FAILED

text \<open>The virtual functions of \<open>AbstractThresholdConditionChecker\<close>, for fixed parameters.\<close>

record checker =
  Condition :: "CBlockIndex \<Rightarrow> bool"
  BeginTime :: int
  EndTime :: int
  Period :: nat
  Threshold :: int

type_synonym ThresholdConditionCache = "block_ptr option \<rightharpoonup> ThresholdState"

text \<open>The loop that counts the signalling blocks follows \<open>pprev\<close> without a check.\<close>

fun count_signals :: "block_store \<Rightarrow> checker \<Rightarrow> nat \<Rightarrow> block_ptr option \<Rightarrow> chain_error + int" where
  "count_signals S c 0 pindexCount = Inr 0"
| "count_signals S c (Suc n) None = Inl NullPointer"
| "count_signals S c (Suc n) (Some p) =
     ebind (count_signals S c n (pprev (S p))) (\<lambda>k. Inr (if Condition c (S p) then k + 1 else k))"

fun state_next :: "block_store \<Rightarrow> checker \<Rightarrow> block_ptr \<Rightarrow> ThresholdState \<Rightarrow> chain_error + ThresholdState" where
  "state_next S c p THRESHOLD_DEFINED =
     Inr (if GetMedianTimePast S p \<ge> EndTime c then THRESHOLD_FAILED
          else if GetMedianTimePast S p \<ge> BeginTime c then THRESHOLD_STARTED else THRESHOLD_DEFINED)"
| "state_next S c p THRESHOLD_STARTED =
     (if GetMedianTimePast S p \<ge> EndTime c then Inr THRESHOLD_FAILED
      else ebind (count_signals S c (Period c) (Some p)) (\<lambda>count.
        Inr (if count \<ge> Threshold c then THRESHOLD_LOCKED_IN else THRESHOLD_STARTED)))"
| "state_next S c p THRESHOLD_LOCKED_IN = Inr THRESHOLD_ACTIVE"
| "state_next S c p THRESHOLD_FAILED = Inr THRESHOLD_FAILED"
| "state_next S c p THRESHOLD_ACTIVE = Inr THRESHOLD_ACTIVE"

definition period_parent :: "block_store \<Rightarrow> checker \<Rightarrow> block_ptr option \<Rightarrow> chain_error + block_ptr option" where
  "period_parent S c pindexPrev =
     (case pindexPrev of
        None \<Rightarrow> Inr None
      | Some p \<Rightarrow> GetAncestor S p (int (nHeight (S p)) - int ((nHeight (S p) + 1) mod Period c)))"

text \<open>The stack \<open>vToCompute\<close> has its back first.\<close>

partial_function (option) walk_back ::
    "block_store \<Rightarrow> checker \<Rightarrow> block_ptr option \<Rightarrow> ThresholdConditionCache \<Rightarrow> block_ptr list
     \<Rightarrow> (chain_error + block_ptr option \<times> ThresholdConditionCache \<times> block_ptr list) option" where
  [code]: "walk_back S c pindexPrev cache vToCompute =
     (if cache pindexPrev = None then
        (case pindexPrev of
           None \<Rightarrow> Some (Inr (None, cache(None \<mapsto> THRESHOLD_DEFINED), vToCompute))
         | Some p \<Rightarrow>
             if GetMedianTimePast S p < BeginTime c
             then Some (Inr (Some p, cache(Some p \<mapsto> THRESHOLD_DEFINED), vToCompute))
             else (case GetAncestor S p (int (nHeight (S p)) - int (Period c)) of
                     Inl e \<Rightarrow> Some (Inl e)
                   | Inr q \<Rightarrow> walk_back S c q cache (p # vToCompute)))
      else Some (Inr (pindexPrev, cache, vToCompute)))"

fun walk_forward ::
    "block_store \<Rightarrow> checker \<Rightarrow> ThresholdState \<Rightarrow> block_ptr list \<Rightarrow> ThresholdConditionCache
     \<Rightarrow> chain_error + ThresholdState \<times> ThresholdConditionCache" where
  "walk_forward S c state [] cache = Inr (state, cache)"
| "walk_forward S c state (p # vToCompute) cache =
     ebind (state_next S c p state) (\<lambda>stateNext. walk_forward S c stateNext vToCompute (cache(Some p \<mapsto> stateNext)))"

definition GetStateFor ::
    "block_store \<Rightarrow> checker \<Rightarrow> block_ptr option \<Rightarrow> ThresholdConditionCache
     \<Rightarrow> (chain_error + ThresholdState \<times> ThresholdConditionCache) option" where
  "GetStateFor S c pindexPrev cache =
     (case period_parent S c pindexPrev of
        Inl e \<Rightarrow> Some (Inl e)
      | Inr q \<Rightarrow>
          (case walk_back S c q cache [] of
             None \<Rightarrow> None
           | Some (Inl e) \<Rightarrow> Some (Inl e)
           | Some (Inr (p, cache, vToCompute)) \<Rightarrow> Some (walk_forward S c (the (cache p)) vToCompute cache)))"

partial_function (option) since_loop ::
    "block_store \<Rightarrow> checker \<Rightarrow> ThresholdState \<Rightarrow> block_ptr \<Rightarrow> ThresholdConditionCache
     \<Rightarrow> (chain_error + int \<times> ThresholdConditionCache) option" where
  [code]: "since_loop S c initialState pindexPrev cache =
     (case GetAncestor S pindexPrev (int (nHeight (S pindexPrev)) - int (Period c)) of
        Inl e \<Rightarrow> Some (Inl e)
      | Inr None \<Rightarrow> Some (Inr (int (nHeight (S pindexPrev)) + 1, cache))
      | Inr (Some previousPeriodParent) \<Rightarrow>
          (case GetStateFor S c (Some previousPeriodParent) cache of
             None \<Rightarrow> None
           | Some (Inl e) \<Rightarrow> Some (Inl e)
           | Some (Inr (state, cache)) \<Rightarrow>
               if state = initialState then since_loop S c initialState previousPeriodParent cache
               else Some (Inr (int (nHeight (S pindexPrev)) + 1, cache))))"

definition GetStateSinceHeightFor ::
    "block_store \<Rightarrow> checker \<Rightarrow> block_ptr option \<Rightarrow> ThresholdConditionCache
     \<Rightarrow> (chain_error + int \<times> ThresholdConditionCache) option" where
  "GetStateSinceHeightFor S c pindexPrev cache =
     (case GetStateFor S c pindexPrev cache of
        None \<Rightarrow> None
      | Some (Inl e) \<Rightarrow> Some (Inl e)
      | Some (Inr (initialState, cache)) \<Rightarrow>
          if initialState = THRESHOLD_DEFINED then Some (Inr (0, cache))
          else (case pindexPrev of
                  None \<Rightarrow> Some (Inl NullPointer)
                | Some p \<Rightarrow>
                    (case period_parent S c (Some p) of
                       Inl e \<Rightarrow> Some (Inl e)
                     | Inr None \<Rightarrow> Some (Inl NullPointer)
                     | Inr (Some q) \<Rightarrow> since_loop S c initialState q cache)))"

section \<open>Version bits\<close>

definition VERSIONBITS_LAST_OLD_BLOCK_VERSION :: int where "VERSIONBITS_LAST_OLD_BLOCK_VERSION = 4"
definition VERSIONBITS_TOP_BITS :: u32 where "VERSIONBITS_TOP_BITS = 0x10000000"
definition VERSIONBITS_TOP_MASK :: u32 where "VERSIONBITS_TOP_MASK = 0xE0000000"
definition VERSIONBITS_NUM_BITS :: nat where "VERSIONBITS_NUM_BITS = 29"

datatype DeploymentPos = DEPLOYMENT_TESTDUMMY | DEPLOYMENT_CSV | DEPLOYMENT_BIP147 | DEPLOYMENT_ISAUTOLOCKS

record BIP9Deployment =
  dep_bit :: nat
  nStartTime :: int
  nTimeout :: int
  nWindowSize :: nat
  nThreshold :: int

text \<open>The fields of \<open>Consensus::Params\<close> that the deployments use.\<close>

record deployment_params =
  nRuleChangeActivationThreshold :: int
  nMinerConfirmationWindow :: nat
  vDeployments :: "DeploymentPos \<Rightarrow> BIP9Deployment"

definition VersionBitsMask :: "deployment_params \<Rightarrow> DeploymentPos \<Rightarrow> u32" where
  "VersionBitsMask params pos = push_bit (dep_bit (vDeployments params pos)) 1"

definition VersionBitsCondition :: "deployment_params \<Rightarrow> DeploymentPos \<Rightarrow> CBlockIndex \<Rightarrow> bool" where
  "VersionBitsCondition params pos b \<longleftrightarrow>
     word_of_int (bi_nVersion b) AND VERSIONBITS_TOP_MASK = VERSIONBITS_TOP_BITS \<and>
     word_of_int (bi_nVersion b) AND VersionBitsMask params pos \<noteq> 0"

definition VersionBitsConditionChecker :: "deployment_params \<Rightarrow> DeploymentPos \<Rightarrow> checker" where
  "VersionBitsConditionChecker params pos = (let d = vDeployments params pos in
     \<lparr>Condition = VersionBitsCondition params pos, BeginTime = nStartTime d, EndTime = nTimeout d,
      Period = (if nWindowSize d \<noteq> 0 then nWindowSize d else nMinerConfirmationWindow params),
      Threshold = (if nThreshold d \<noteq> 0 then nThreshold d else nRuleChangeActivationThreshold params)\<rparr>)"

type_synonym VersionBitsCache = "DeploymentPos \<Rightarrow> ThresholdConditionCache"

definition VersionBitsState ::
    "block_store \<Rightarrow> deployment_params \<Rightarrow> DeploymentPos \<Rightarrow> block_ptr option \<Rightarrow> VersionBitsCache
     \<Rightarrow> (chain_error + ThresholdState \<times> VersionBitsCache) option" where
  "VersionBitsState S params pos pindexPrev caches =
     map_option (\<lambda>r. ebind r (\<lambda>(state, cache). Inr (state, caches(pos := cache))))
       (GetStateFor S (VersionBitsConditionChecker params pos) pindexPrev (caches pos))"

definition VersionBitsStateSinceHeight ::
    "block_store \<Rightarrow> deployment_params \<Rightarrow> DeploymentPos \<Rightarrow> block_ptr option \<Rightarrow> VersionBitsCache
     \<Rightarrow> (chain_error + int \<times> VersionBitsCache) option" where
  "VersionBitsStateSinceHeight S params pos pindexPrev caches =
     map_option (\<lambda>r. ebind r (\<lambda>(h, cache). Inr (h, caches(pos := cache))))
       (GetStateSinceHeightFor S (VersionBitsConditionChecker params pos) pindexPrev (caches pos))"

definition VersionBitsCache_Clear :: VersionBitsCache where
  "VersionBitsCache_Clear = (\<lambda>_. Map.empty)"

section \<open>The state without a cache\<close>

definition signals :: "block_store \<Rightarrow> checker \<Rightarrow> nat \<Rightarrow> block_ptr \<Rightarrow> nat" where
  "signals S c n p = length (filter (\<lambda>i. case back_by S i p of None \<Rightarrow> False | Some q \<Rightarrow> Condition c (S q)) [0..<n])"

fun bip9_step :: "block_store \<Rightarrow> checker \<Rightarrow> block_ptr \<Rightarrow> ThresholdState \<Rightarrow> ThresholdState" where
  "bip9_step S c p THRESHOLD_DEFINED =
     (if GetMedianTimePast S p \<ge> EndTime c then THRESHOLD_FAILED
      else if GetMedianTimePast S p \<ge> BeginTime c then THRESHOLD_STARTED else THRESHOLD_DEFINED)"
| "bip9_step S c p THRESHOLD_STARTED =
     (if GetMedianTimePast S p \<ge> EndTime c then THRESHOLD_FAILED
      else if int (signals S c (Period c) p) \<ge> Threshold c then THRESHOLD_LOCKED_IN else THRESHOLD_STARTED)"
| "bip9_step S c p THRESHOLD_LOCKED_IN = THRESHOLD_ACTIVE"
| "bip9_step S c p s = s"

fun bip9 :: "block_store \<Rightarrow> checker \<Rightarrow> nat \<Rightarrow> block_ptr option \<Rightarrow> ThresholdState" where
  "bip9 S c (Suc k) (Some p) = bip9_step S c p (bip9 S c k (back_by S (Period c) p))"
| "bip9 S c k p = THRESHOLD_DEFINED"

definition bip9_at :: "block_store \<Rightarrow> checker \<Rightarrow> block_ptr option \<Rightarrow> ThresholdState" where
  "bip9_at S c p = bip9 S c (case p of None \<Rightarrow> 0 | Some q \<Rightarrow> (nHeight (S q) + 1) div Period c) p"

text \<open>The last block of the period before the block that follows \<open>p\<close>.\<close>

definition boundary :: "block_store \<Rightarrow> checker \<Rightarrow> block_ptr option \<Rightarrow> block_ptr option" where
  "boundary S c p = (case p of None \<Rightarrow> None | Some q \<Rightarrow> back_by S ((nHeight (S q) + 1) mod Period c) q)"

definition period_end :: "block_store \<Rightarrow> checker \<Rightarrow> block_ptr \<Rightarrow> bool" where
  "period_end S c p \<longleftrightarrow> Period c dvd nHeight (S p) + 1"

definition cache_ok :: "block_store \<Rightarrow> checker \<Rightarrow> ThresholdConditionCache \<Rightarrow> bool" where
  "cache_ok S c cache \<longleftrightarrow> (\<forall>p s. cache p = Some s \<longrightarrow> s = bip9_at S c p)"

text \<open>The blocks still to be computed lead from \<open>p\<close> to \<open>t\<close>, one period at a time.\<close>

fun pending :: "block_store \<Rightarrow> checker \<Rightarrow> block_ptr option \<Rightarrow> block_ptr list \<Rightarrow> block_ptr option \<Rightarrow> bool" where
  "pending S c p [] t \<longleftrightarrow> p = t"
| "pending S c p (q # qs) t \<longleftrightarrow> period_end S c q \<and> back_by S (Period c) q = p \<and> pending S c (Some q) qs t"

lemma walk_back_simps:
  "cache p = Some s \<Longrightarrow> walk_back S c p cache qs = Some (Inr (p, cache, qs))"
  "cache None = None \<Longrightarrow> walk_back S c None cache qs = Some (Inr (None, cache(None \<mapsto> THRESHOLD_DEFINED), qs))"
  "cache (Some q) = None \<Longrightarrow> GetMedianTimePast S q < BeginTime c \<Longrightarrow>
     walk_back S c (Some q) cache qs = Some (Inr (Some q, cache(Some q \<mapsto> THRESHOLD_DEFINED), qs))"
  "cache (Some q) = None \<Longrightarrow> \<not> GetMedianTimePast S q < BeginTime c \<Longrightarrow>
     GetAncestor S q (int (nHeight (S q)) - int (Period c)) = Inr r \<Longrightarrow>
     walk_back S c (Some q) cache qs = walk_back S c r cache (q # qs)"
  by (subst walk_back.simps; simp)+

text \<open>\<open>q\<close> is the first boundary of the run of boundaries before \<open>p\<close> that are in the state of \<open>p\<close>.\<close>

definition run_start :: "block_store \<Rightarrow> checker \<Rightarrow> block_ptr \<Rightarrow> block_ptr \<Rightarrow> bool" where
  "run_start S c p q \<longleftrightarrow> (\<exists>n. back_by S (n * Period c) p = Some q \<and>
     (\<forall>m\<le>n. bip9_at S c (back_by S (m * Period c) p) = bip9_at S c (Some p)) \<and>
     bip9_at S c (back_by S (Period c) q) \<noteq> bip9_at S c (Some p))"

section \<open>Deployments on a block tree\<close>

locale deployment =
  fixes S :: block_store and c :: checker
  assumes tree: "block_tree S" and skips: "skips_ok S" and times: "times_ok S"
    and period: "0 < Period c" and begin_end: "BeginTime c \<le> EndTime c"
begin

lemma bip9_at_None [simp]: "bip9_at S c None = THRESHOLD_DEFINED"
  by (simp add: bip9_at_def)

lemma period_end_height: "period_end S c p \<Longrightarrow> Period c \<le> nHeight (S p) + 1"
  unfolding period_end_def by (rule dvd_imp_le) simp_all

lemma back_by_period:
  assumes "period_end S c p" "back_by S (Period c) p = Some q"
  shows "nHeight (S p) = nHeight (S q) + Period c \<and> period_end S c q"
proof -
  have h: "nHeight (S p) = nHeight (S q) + Period c" using back_by_Some_height [OF tree assms(2)] by simp
  then have "nHeight (S p) + 1 = (nHeight (S q) + 1) + Period c" by simp
  then have "period_end S c q" using assms(1) unfolding period_end_def by (simp only: dvd_add_triv_right_iff)
  then show ?thesis using h by simp
qed

lemma bip9_at_step:
  assumes "period_end S c p"
  shows "bip9_at S c (Some p) = bip9_step S c p (bip9_at S c (back_by S (Period c) p))"
proof (cases "back_by S (Period c) p")
  case None
  then have "nHeight (S p) < Period c" using back_by_height [OF tree, of "Period c" p] by (force simp: not_le [symmetric])
  then have "nHeight (S p) + 1 = Period c" using period_end_height [OF assms] by simp
  then show ?thesis using None period by (simp add: bip9_at_def)
next
  case (Some q)
  have "nHeight (S p) + 1 = (nHeight (S q) + 1) + Period c" using back_by_period [OF assms Some] by simp
  then have "(nHeight (S p) + 1) div Period c = Suc ((nHeight (S q) + 1) div Period c)" using period by (simp only: div_add_self2)
  then show ?thesis using Some by (simp add: bip9_at_def)
qed

lemma count_signals_eq: "n \<le> nHeight (S p) + 1 \<Longrightarrow> count_signals S c n (Some p) = Inr (int (signals S c n p))"
proof (induction n arbitrary: p)
  case (Suc n)
  have upt: "[0..<Suc n] = 0 # map Suc [0..<n]" by (simp add: map_Suc_upt upt_conv_Cons del: upt_Suc)
  show ?case
  proof (cases "pprev (S p)")
    case None
    then have "n = 0" using Suc.prems block_tree_root [OF tree None] by simp
    then show ?thesis by (simp add: signals_def)
  next
    case (Some q)
    have "n \<le> nHeight (S q) + 1" using Suc.prems block_tree_parent [OF tree Some] by simp
    moreover have "signals S c (Suc n) p = (if Condition c (S p) then 1 else 0) + signals S c n q"
      unfolding signals_def upt using Some by (simp add: filter_map comp_def)
    ultimately show ?thesis using Suc.IH [of q] Some by simp
  qed
qed (simp add: signals_def)

lemma state_next_eq: "period_end S c p \<Longrightarrow> state_next S c p s = Inr (bip9_step S c p s)"
  using period_end_height [of p] count_signals_eq [of "Period c" p] by (cases s) simp_all

text \<open>The shortcut: before the start time every earlier period is still in the defined state.\<close>

lemma early_defined: "period_end S c p \<Longrightarrow> GetMedianTimePast S p < BeginTime c \<Longrightarrow> bip9_at S c (Some p) = THRESHOLD_DEFINED"
proof (induction "nHeight (S p)" arbitrary: p rule: less_induct)
  case less
  have "bip9_at S c (back_by S (Period c) p) = THRESHOLD_DEFINED"
  proof (cases "back_by S (Period c) p")
    case (Some q)
    note q = back_by_period [OF less.prems(1) Some]
    have "GetMedianTimePast S q \<le> GetMedianTimePast S p" by (rule GetMedianTimePast_mono [OF times Some])
    then have "bip9_at S c (Some q) = THRESHOLD_DEFINED" using q period less.prems(2) by (intro less.hyps) simp_all
    then show ?thesis by (simp add: Some)
  qed simp
  then show ?case using bip9_at_step [OF less.prems(1)] less.prems(2) begin_end by simp
qed

lemma cache_ok_update: "cache_ok S c cache \<Longrightarrow> s = bip9_at S c p \<Longrightarrow> cache_ok S c (cache(p \<mapsto> s))"
  by (simp add: cache_ok_def)

lemma GetAncestor_down: "GetAncestor S q (int (nHeight (S q)) - int n) = Inr (back_by S n q)"
proof (cases "n \<le> nHeight (S q)")
  case True
  then have "int (nHeight (S q)) - int n = int (nHeight (S q) - n)" by (simp only: of_nat_diff)
  then show ?thesis using True by (simp add: GetAncestor_back_by [OF tree skips] del: of_nat_diff)
next
  case False
  then have "back_by S n q = None" using back_by_Some_height [OF tree, of n q] by (cases "back_by S n q") auto
  then show ?thesis using False by (simp add: GetAncestor_back_by [OF tree skips])
qed

lemma walk_back_pending:
  "(\<And>q. p = Some q \<Longrightarrow> period_end S c q) \<Longrightarrow> cache_ok S c cache \<Longrightarrow> pending S c p qs t \<Longrightarrow>
   \<exists>p' cache' qs'. walk_back S c p cache qs = Some (Inr (p', cache', qs')) \<and> cache_ok S c cache' \<and>
     cache' p' = Some (bip9_at S c p') \<and> pending S c p' qs' t"
proof (induction "case p of None \<Rightarrow> 0 | Some q \<Rightarrow> Suc (nHeight (S q))" arbitrary: p qs rule: less_induct)
  case less
  note ok = less.prems(2) and pend = less.prems(3)
  show ?case
  proof (cases "cache p")
    case (Some s)
    then have "s = bip9_at S c p" using ok by (simp add: cache_ok_def)
    then show ?thesis using Some ok pend by (simp add: walk_back_simps(1))
  next
    case known: None
    show ?thesis
    proof (cases p)
      case None
      have "cache_ok S c (cache(None \<mapsto> THRESHOLD_DEFINED))" using ok by (rule cache_ok_update) simp
      then show ?thesis using None known pend by (simp add: walk_back_simps(2))
    next
      case (Some q)
      then have q: "period_end S c q" using less.prems(1) by simp
      show ?thesis
      proof (cases "GetMedianTimePast S q < BeginTime c")
        case True
        have "cache_ok S c (cache(Some q \<mapsto> THRESHOLD_DEFINED))" using ok by (rule cache_ok_update) (simp add: early_defined [OF q True])
        then show ?thesis using known pend Some early_defined [OF q True] by (simp add: walk_back_simps(3) True)
      next
        case False
        let ?r = "back_by S (Period c) q"
        have "walk_back S c p cache qs = walk_back S c ?r cache (q # qs)"
          using walk_back_simps(4) [OF _ False GetAncestor_down] known Some by simp
        moreover have "pending S c ?r (q # qs) t" using q pend Some by simp
        moreover have "(case ?r of None \<Rightarrow> 0 | Some r \<Rightarrow> Suc (nHeight (S r))) < (case p of None \<Rightarrow> 0 | Some q \<Rightarrow> Suc (nHeight (S q)))"
          using Some back_by_period [OF q] period by (cases ?r) auto
        ultimately show ?thesis using less.hyps [of ?r "q # qs"] ok back_by_period [OF q] by simp
      qed
    qed
  qed
qed

lemma walk_forward_pending:
  "cache_ok S c cache \<Longrightarrow> pending S c p qs t \<Longrightarrow> s = bip9_at S c p \<Longrightarrow>
   \<exists>cache'. walk_forward S c s qs cache = Inr (bip9_at S c t, cache') \<and> cache_ok S c cache'"
proof (induction qs arbitrary: p s cache)
  case (Cons q qs)
  then have q: "period_end S c q" "back_by S (Period c) q = p" "pending S c (Some q) qs t" by auto
  have next': "state_next S c q s = Inr (bip9_at S c (Some q))" using state_next_eq [OF q(1)] bip9_at_step [OF q(1)] q(2) Cons.prems(3) by simp
  have "cache_ok S c (cache(Some q \<mapsto> bip9_at S c (Some q)))" using Cons.prems(1) by (rule cache_ok_update) simp
  from Cons.IH [OF this q(3) refl] show ?case by (simp only: walk_forward.simps next' ebind_simps)
qed simp

lemma period_parent_eq: "period_parent S c p = Inr (boundary S c p)"
  by (cases p) (simp_all only: period_parent_def boundary_def option.case GetAncestor_down)

lemma boundary_end: "boundary S c p = Some q \<Longrightarrow> period_end S c q"
proof -
  assume "boundary S c p = Some q"
  then obtain r where r: "p = Some r" "back_by S ((nHeight (S r) + 1) mod Period c) r = Some q"
    by (auto simp: boundary_def split: option.splits)
  have "nHeight (S q) + 1 = (nHeight (S r) + 1) - (nHeight (S r) + 1) mod Period c" using back_by_Some_height [OF tree r(2)] by linarith
  then show ?thesis unfolding period_end_def by (simp only: dvd_minus_mod)
qed

lemma GetStateFor_eq:
  assumes "cache_ok S c cache"
  shows "\<exists>cache'. GetStateFor S c p cache = Some (Inr (bip9_at S c (boundary S c p), cache')) \<and> cache_ok S c cache'"
proof -
  obtain p' cache' qs' where w: "walk_back S c (boundary S c p) cache [] = Some (Inr (p', cache', qs'))" "cache_ok S c cache'"
    "cache' p' = Some (bip9_at S c p')" "pending S c p' qs' (boundary S c p)"
    using walk_back_pending [of "boundary S c p" cache "[]" "boundary S c p"] boundary_end assms by auto
  from walk_forward_pending [OF w(2,4) refl] show ?thesis
    by (simp add: GetStateFor_def period_parent_eq w(1,3))
qed

lemma boundary_self: "period_end S c p \<Longrightarrow> boundary S c (Some p) = Some p"
  unfolding period_end_def boundary_def by (simp add: mod_eq_0_iff_dvd)

text \<open>A deployment is decided at the first boundary after its timeout.\<close>

lemma timeout_decides: "period_end S c p \<Longrightarrow> EndTime c \<le> GetMedianTimePast S p \<Longrightarrow> bip9_at S c (Some p) \<in> {THRESHOLD_FAILED, THRESHOLD_ACTIVE}"
  using bip9_at_step [of p] by (cases "bip9_at S c (back_by S (Period c) p)") simp_all

lemma run_start_extend:
  assumes "back_by S (Period c) p = Some r" "bip9_at S c (Some r) = bip9_at S c (Some p)" "run_start S c r q"
  shows "run_start S c p q"
proof -
  obtain n where n: "back_by S (n * Period c) r = Some q"
    "\<forall>m\<le>n. bip9_at S c (back_by S (m * Period c) r) = bip9_at S c (Some r)"
    "bip9_at S c (back_by S (Period c) q) \<noteq> bip9_at S c (Some r)"
    using assms(3) unfolding run_start_def by blast
  have step: "back_by S (Suc m * Period c) p = back_by S (m * Period c) r" for m
    using assms(1) by (simp add: back_by_add)
  have "bip9_at S c (back_by S (m * Period c) p) = bip9_at S c (Some p)" if "m \<le> Suc n" for m
    using that n(2) assms(2) step by (cases m) simp_all
  moreover have "back_by S (Suc n * Period c) p = Some q" using n(1) step by simp
  ultimately show ?thesis unfolding run_start_def using n(3) assms(2) by (metis (no_types))
qed

lemma since_loop_eq:
  "period_end S c p \<Longrightarrow> cache_ok S c cache \<Longrightarrow> bip9_at S c (Some p) \<noteq> THRESHOLD_DEFINED \<Longrightarrow>
   \<exists>q cache'. since_loop S c (bip9_at S c (Some p)) p cache = Some (Inr (int (nHeight (S q)) + 1, cache')) \<and> run_start S c p q \<and> cache_ok S c cache'"
proof (induction "nHeight (S p)" arbitrary: p cache rule: less_induct)
  case less
  let ?st = "bip9_at S c (Some p)" and ?r = "back_by S (Period c) p"
  have stop: "run_start S c p p" if "bip9_at S c ?r \<noteq> ?st" unfolding run_start_def using that by (intro exI [of _ 0]) simp
  show ?case
  proof (cases ?r)
    case None
    then have "since_loop S c ?st p cache = Some (Inr (int (nHeight (S p)) + 1, cache))"
      by (subst since_loop.simps) (simp add: GetAncestor_down)
    then show ?thesis using stop less.prems None by auto
  next
    case (Some r)
    note r = back_by_period [OF less.prems(1) Some]
    obtain cache' where g: "GetStateFor S c (Some r) cache = Some (Inr (bip9_at S c (Some r), cache'))" "cache_ok S c cache'"
      using GetStateFor_eq [OF less.prems(2), of "Some r"] boundary_self r by auto
    show ?thesis
    proof (cases "bip9_at S c (Some r) = ?st")
      case True
      have "since_loop S c ?st p cache = since_loop S c ?st r cache'"
        using True g(1) by (subst since_loop.simps) (simp add: GetAncestor_down Some)
      moreover obtain q cache'' where "since_loop S c (bip9_at S c (Some r)) r cache' = Some (Inr (int (nHeight (S q)) + 1, cache''))"
        "run_start S c r q" "cache_ok S c cache''"
        using less.hyps [of r cache'] r period g(2) less.prems(3) True by auto
      ultimately show ?thesis using run_start_extend [OF Some True] True by auto
    next
      case False
      then have "since_loop S c ?st p cache = Some (Inr (int (nHeight (S p)) + 1, cache'))"
        using g(1) by (subst since_loop.simps) (simp add: GetAncestor_down Some)
      then show ?thesis using stop False Some g(2) by auto
    qed
  qed
qed

lemma GetStateSinceHeightFor_eq:
  assumes "cache_ok S c cache"
  shows "\<exists>h cache'. GetStateSinceHeightFor S c p cache = Some (Inr (h, cache')) \<and> cache_ok S c cache' \<and>
    (if bip9_at S c (boundary S c p) = THRESHOLD_DEFINED then h = 0
     else \<exists>b q. boundary S c p = Some b \<and> run_start S c b q \<and> h = int (nHeight (S q)) + 1)"
proof -
  obtain cache' where g: "GetStateFor S c p cache = Some (Inr (bip9_at S c (boundary S c p), cache'))" "cache_ok S c cache'"
    using GetStateFor_eq [OF assms] by blast
  show ?thesis
  proof (cases "bip9_at S c (boundary S c p) = THRESHOLD_DEFINED")
    case True
    then show ?thesis using g by (simp add: GetStateSinceHeightFor_def)
  next
    case False
    then obtain b r where b: "boundary S c p = Some b" "p = Some r" by (cases "boundary S c p"; cases p) (auto simp: boundary_def)
    then show ?thesis using g False since_loop_eq [OF boundary_end [OF b(1)] g(2)] period_parent_eq [of "Some r"]
      by (auto simp: GetStateSinceHeightFor_def)
  qed
qed

end

section \<open>The version bits of the source\<close>

lemma VersionBitsCondition_False: "\<not> VersionBitsCondition params pos b"
proof
  let ?w = "word_of_int (bi_nVersion b) :: u32"
  assume "VersionBitsCondition params pos b"
  then have "?w AND VERSIONBITS_TOP_MASK = VERSIONBITS_TOP_BITS" by (simp add: VersionBitsCondition_def)
  then have "VERSIONBITS_TOP_BITS AND VERSIONBITS_TOP_MASK = VERSIONBITS_TOP_BITS"
    by (metis and.assoc and.idem)
  then show False by (simp add: VERSIONBITS_TOP_BITS_def VERSIONBITS_TOP_MASK_def)
qed

lemma no_signals:
  assumes "\<And>b. \<not> Condition c b" "0 < Threshold c"
  shows "bip9 S c k p \<in> {THRESHOLD_DEFINED, THRESHOLD_STARTED, THRESHOLD_FAILED}"
proof (induction k arbitrary: p)
  case (Suc k)
  have "signals S c n q = 0" for n q using assms(1) by (simp add: signals_def filter_empty_conv split: option.split)
  then show ?case using Suc [of "back_by S (Period c) (the p)"] assms(2) by (cases p) (auto split: if_splits)
qed simp

text \<open>C23. For every deployment on a block tree whose times follow the acceptance rule, the cached
  computation of the deployment state returns, gives the state that the recursion over all earlier
  periods defines, and leaves a correct cache, whatever correct cache it starts from.\<close>

theorem VersionBitsState_is_bip9:
  assumes "deployment S (VersionBitsConditionChecker params pos)"
    and "cache_ok S (VersionBitsConditionChecker params pos) (caches pos)"
  shows "\<exists>cache. VersionBitsState S params pos p caches =
      Some (Inr (bip9_at S (VersionBitsConditionChecker params pos) (boundary S (VersionBitsConditionChecker params pos) p), caches(pos := cache))) \<and>
    cache_ok S (VersionBitsConditionChecker params pos) cache"
  using deployment.GetStateFor_eq [OF assms, of p] by (auto simp: VersionBitsState_def)

text \<open>C34. A deployment is decided once the median time of a period boundary has passed its timeout:
  the state of the next blocks is failed or active, and it stays what it is.\<close>

theorem deployment_decided:
  assumes dep: "deployment S c" and "cache_ok S c cache" "boundary S c p = Some b" "EndTime c \<le> GetMedianTimePast S b"
  shows "\<exists>st cache'. GetStateFor S c p cache = Some (Inr (st, cache')) \<and> st \<in> {THRESHOLD_FAILED, THRESHOLD_ACTIVE} \<and>
    (\<forall>b'. period_end S c b' \<and> back_by S (Period c) b' = Some b \<longrightarrow> bip9_at S c (Some b') = st)"
proof -
  have "period_end S c b" by (rule deployment.boundary_end [OF dep assms(3)])
  then have st: "bip9_at S c (Some b) \<in> {THRESHOLD_FAILED, THRESHOLD_ACTIVE}" by (rule deployment.timeout_decides [OF dep _ assms(4)])
  then have "bip9_at S c (Some b') = bip9_at S c (Some b)" if "period_end S c b'" "back_by S (Period c) b' = Some b" for b'
    using deployment.bip9_at_step [OF dep that(1)] that(2) by auto
  with st deployment.GetStateFor_eq [OF dep assms(2), of p] assms(3) show ?thesis by auto
qed

text \<open>The height since which a deployment has its state is the first block of the first period of
  the run of periods in that state, and 0 for the defined state.\<close>

theorem GetStateSinceHeightFor_run_start:
  assumes "deployment S c" "cache_ok S c cache"
  shows "\<exists>h cache'. GetStateSinceHeightFor S c p cache = Some (Inr (h, cache')) \<and> cache_ok S c cache' \<and>
    (if bip9_at S c (boundary S c p) = THRESHOLD_DEFINED then h = 0
     else \<exists>b q. boundary S c p = Some b \<and> run_start S c b q \<and> h = int (nHeight (S q)) + 1)"
  by (rule deployment.GetStateSinceHeightFor_eq [OF assms])

text \<open>C35. With the mask and the pattern of the source no block version signals for any deployment, so
  with a positive threshold no deployment is ever locked in or active.\<close>

theorem VersionBits_never_locks_in:
  assumes "deployment S (VersionBitsConditionChecker params pos)" "0 < Threshold (VersionBitsConditionChecker params pos)"
    and "cache_ok S (VersionBitsConditionChecker params pos) (caches pos)"
  shows "\<exists>st caches'. VersionBitsState S params pos p caches = Some (Inr (st, caches')) \<and>
    st \<in> {THRESHOLD_DEFINED, THRESHOLD_STARTED, THRESHOLD_FAILED} \<and> \<not> VersionBitsCondition params pos b"
proof -
  let ?c = "VersionBitsConditionChecker params pos"
  have "\<not> Condition ?c b" for b using VersionBitsCondition_False by (simp add: VersionBitsConditionChecker_def Let_def)
  from no_signals [OF this assms(2)] have "bip9_at S ?c q \<in> {THRESHOLD_DEFINED, THRESHOLD_STARTED, THRESHOLD_FAILED}" for q
    unfolding bip9_at_def .
  then show ?thesis using deployment.GetStateFor_eq [OF assms(1,3), of p] VersionBitsCondition_False
    by (auto simp: VersionBitsState_def)
qed

section \<open>An example\<close>

text \<open>Thirty blocks in a line, ten minutes apart; all other entries are roots.\<close>

definition line_store :: block_store where
  "line_store p = CBlockIndex_SetNull\<lparr>phashBlock := of_nat p, pprev := (if 0 < p \<and> p < 30 then Some (p - 1) else None),
     nHeight := (if p < 30 then p else 0), nTime := of_nat (600 * (if p < 30 then p else 0))\<rparr>"

definition line_params :: deployment_params where
  "line_params = \<lparr>nRuleChangeActivationThreshold = 3, nMinerConfirmationWindow = 4,
     vDeployments = (\<lambda>_. \<lparr>dep_bit = 0, nStartTime = 600, nTimeout = 9000, nWindowSize = 0, nThreshold = 0\<rparr>)\<rparr>"

lemma GetMedianTimePast_le:
  assumes "\<And>x. x \<in> set (median_times S nMedianTimeSpan (Some p)) \<Longrightarrow> x \<le> m"
  shows "GetMedianTimePast S p \<le> m"
proof -
  let ?ts = "median_times S nMedianTimeSpan (Some p)"
  have "sort ?ts ! (length ?ts div 2) \<in> set (sort ?ts)" using median_times_nonempty [of S p] by (intro nth_mem) simp
  then show ?thesis using assms by (simp add: GetMedianTimePast_def Let_def)
qed

lemma line_simps [simp]:
  "pprev (line_store p) = (if 0 < p \<and> p < 30 then Some (p - 1) else None)" "nHeight (line_store p) = (if p < 30 then p else 0)"
  "pskip (line_store p) = None" "GetBlockTime (line_store p) = 600 * int (if p < 30 then p else 0)"
  by (simp_all add: line_store_def CBlockIndex_SetNull_def GetBlockTime_def unat_of_nat del: of_nat_mult)

lemma line_times: "x \<in> set (median_times line_store n (Some p)) \<Longrightarrow> x \<le> 600 * int (if p < 30 then p else 0)"
proof (induction n arbitrary: p)
  case (Suc n)
  then show ?case using Suc.IH [of "p - 1"] by (cases "0 < p \<and> p < 30"; cases n) (auto split: if_splits)
qed simp

interpretation line: deployment line_store "VersionBitsConditionChecker line_params DEPLOYMENT_CSV"
proof
  show "block_tree line_store" by (auto simp: block_tree_def)
  show "skips_ok line_store" by (simp add: skips_ok_def)
  show "times_ok line_store" unfolding times_ok_def
  proof (intro allI impI)
    fix p q assume "pprev (line_store p) = Some q"
    then have p: "0 < p" "p < 30" "q = p - 1" by (auto split: if_splits)
    have "q < 30" using p by simp
    then have "GetMedianTimePast line_store q \<le> 600 * int q" using line_times [of _ nMedianTimeSpan q] by (intro GetMedianTimePast_le) simp
    then show "GetMedianTimePast line_store q < GetBlockTime (line_store p)" using p by simp
  qed
qed (simp_all add: VersionBitsConditionChecker_def line_params_def Let_def)

lemma empty_cache_ok: "cache_ok S c (VersionBitsCache_Clear pos)"
  by (simp add: cache_ok_def VersionBitsCache_Clear_def)

theorem VersionBitsState_is_bip9_witness:
  "\<exists>st caches. VersionBitsState line_store line_params DEPLOYMENT_CSV (Some 29) VersionBitsCache_Clear = Some (Inr (st, caches))"
  using VersionBitsState_is_bip9 [OF line.deployment_axioms, of VersionBitsCache_Clear "Some 29"] empty_cache_ok by blast

lemma median_times_numeral: "median_times S (numeral k) (Some p) = GetBlockTime (S p) # median_times S (pred_numeral k) (pprev (S p))"
  by (simp add: numeral_eq_Suc)

lemma line_median: "GetMedianTimePast line_store 27 = 13200"
  by (simp add: GetMedianTimePast_def Let_def nMedianTimeSpan_def median_times_numeral)

lemma line_boundary: "boundary line_store (VersionBitsConditionChecker line_params DEPLOYMENT_CSV) (Some 29) = Some 27"
  by (simp add: boundary_def VersionBitsConditionChecker_def line_params_def Let_def numeral_2_eq_2)

theorem deployment_decided_witness:
  "\<exists>st cache'. GetStateFor line_store (VersionBitsConditionChecker line_params DEPLOYMENT_CSV) (Some 29) Map.empty = Some (Inr (st, cache')) \<and>
     st \<in> {THRESHOLD_FAILED, THRESHOLD_ACTIVE}"
proof -
  have "cache_ok line_store (VersionBitsConditionChecker line_params DEPLOYMENT_CSV) Map.empty" by (simp add: cache_ok_def)
  moreover have "EndTime (VersionBitsConditionChecker line_params DEPLOYMENT_CSV) \<le> GetMedianTimePast line_store 27"
    by (simp add: line_median VersionBitsConditionChecker_def line_params_def Let_def)
  ultimately show ?thesis using deployment_decided [OF line.deployment_axioms _ line_boundary] by blast
qed

theorem GetStateSinceHeightFor_run_start_witness:
  "\<exists>h cache'. GetStateSinceHeightFor line_store (VersionBitsConditionChecker line_params DEPLOYMENT_CSV) (Some 29) (VersionBitsCache_Clear DEPLOYMENT_CSV) = Some (Inr (h, cache'))"
  using GetStateSinceHeightFor_run_start [OF line.deployment_axioms empty_cache_ok, of "Some 29"] by blast

theorem VersionBits_never_locks_in_witness:
  "\<exists>st caches'. VersionBitsState line_store line_params DEPLOYMENT_CSV (Some 29) VersionBitsCache_Clear = Some (Inr (st, caches')) \<and>
     st \<in> {THRESHOLD_DEFINED, THRESHOLD_STARTED, THRESHOLD_FAILED}"
proof -
  have "0 < Threshold (VersionBitsConditionChecker line_params DEPLOYMENT_CSV)"
    by (simp add: VersionBitsConditionChecker_def line_params_def Let_def)
  from VersionBits_never_locks_in [OF line.deployment_axioms this, of VersionBitsCache_Clear "Some 29"] empty_cache_ok show ?thesis by blast
qed

end
