(* ===== verification/Block.thy ===== *)
theory Block
  imports Transaction Chain
begin

unbundle bit_operations_syntax

text \<open>
  Block headers, blocks and locators of \<open>src/src/primitives/block.h\<close> and \<open>block.cpp\<close>, and what
  \<open>src/src/chain.h\<close> stores of a block on disk: its position, the statistics of a block file and
  the index record \<open>CDiskBlockIndex\<close>.

  Shown: the readers accept exactly the serializations of headers and blocks, a header is 80 bytes
  long, and an index record read back gives every stored field of the entry it was made from.
\<close>

section \<open>Headers and blocks\<close>

record CBlockHeader =
  hdr_nVersion :: int
  hashPrevBlock :: uint256
  hashMerkleRoot :: uint256
  hdr_nTime :: u32
  hdr_nBits :: u32
  hdr_nNonce :: u32

definition CBlockHeader_SetNull :: CBlockHeader where
  "CBlockHeader_SetNull = \<lparr>hdr_nVersion = 0, hashPrevBlock = 0, hashMerkleRoot = 0, hdr_nTime = 0, hdr_nBits = 0, hdr_nNonce = 0\<rparr>"

definition CBlockHeader_IsNull :: "'a CBlockHeader_scheme \<Rightarrow> bool" where
  "CBlockHeader_IsNull h \<longleftrightarrow> hdr_nBits h = 0"

definition hdr_GetBlockTime :: "'a CBlockHeader_scheme \<Rightarrow> int" where
  "hdr_GetBlockTime h = int (unat (hdr_nTime h))"

definition Serialize_CBlockHeader :: "'a CBlockHeader_scheme \<Rightarrow> bytes" where
  "Serialize_CBlockHeader h = Serialize_int32 (hdr_nVersion h) @ Serialize_uint256 (hashPrevBlock h) @ Serialize_uint256 (hashMerkleRoot h) @
     ser_writedata32 (hdr_nTime h) @ ser_writedata32 (hdr_nBits h) @ ser_writedata32 (hdr_nNonce h)"

definition Unserialize_CBlockHeader :: "CBlockHeader reader" where
  "Unserialize_CBlockHeader s = ebind (Unserialize_int32 s) (\<lambda>(ver, s).
     ebind (Unserialize_uint256 s) (\<lambda>(prev, s).
     ebind (Unserialize_uint256 s) (\<lambda>(root, s).
     ebind (ser_readdata32 s) (\<lambda>(time, s).
     ebind (ser_readdata32 s) (\<lambda>(bits, s).
     ebind (ser_readdata32 s) (\<lambda>(nonce, s).
       Inr (\<lparr>hdr_nVersion = ver, hashPrevBlock = prev, hashMerkleRoot = root, hdr_nTime = time, hdr_nBits = bits, hdr_nNonce = nonce\<rparr>, s)))))))"

text \<open>The hash of a header is over the bytes of the object from \<open>nVersion\<close> to \<open>nNonce\<close>, which are its
  serialization on a little-endian machine.  The Argon2 function and the two switch times are parameters.\<close>

definition hash_phase :: "nat \<Rightarrow> nat \<Rightarrow> nat \<Rightarrow> nat" where
  "hash_phase FirstSwitchTime SecondSwitchTime currentTime =
     (if currentTime \<ge> FirstSwitchTime \<and> currentTime < SecondSwitchTime then 1
      else if currentTime \<ge> SecondSwitchTime then 2 else 0)"

definition CBlockHeader_GetHash :: "(bytes \<Rightarrow> nat \<Rightarrow> uint256) \<Rightarrow> nat \<Rightarrow> nat \<Rightarrow> 'a CBlockHeader_scheme \<Rightarrow> uint256" where
  "CBlockHeader_GetHash hash_Argon2d FirstSwitchTime SecondSwitchTime h =
     hash_Argon2d (Serialize_CBlockHeader h) (hash_phase FirstSwitchTime SecondSwitchTime (unat (hdr_nTime h)))"

record CBlock = CBlockHeader +
  vtx :: "CTransaction list"
  txoutMasternode :: CTxOut
  voutSuperblock :: "CTxOut list"
  fChecked :: bool

definition CBlock_of_header :: "CBlockHeader \<Rightarrow> CBlock" where
  "CBlock_of_header h = CBlockHeader.extend h \<lparr>vtx = [], txoutMasternode = CTxOut_SetNull, voutSuperblock = [], fChecked = False\<rparr>"

definition CBlock_GetBlockHeader :: "CBlock \<Rightarrow> CBlockHeader" where
  "CBlock_GetBlockHeader b = \<lparr>hdr_nVersion = hdr_nVersion b, hashPrevBlock = hashPrevBlock b, hashMerkleRoot = hashMerkleRoot b,
     hdr_nTime = hdr_nTime b, hdr_nBits = hdr_nBits b, hdr_nNonce = hdr_nNonce b\<rparr>"

definition Serialize_CBlock :: "CBlock \<Rightarrow> bytes" where
  "Serialize_CBlock b = Serialize_CBlockHeader b @ Serialize_vector Serialize_CTransaction (vtx b)"

definition Unserialize_CBlock :: "CBlock reader" where
  "Unserialize_CBlock s = ebind (Unserialize_CBlockHeader s) (\<lambda>(h, s).
     ebind (Unserialize_vector Unserialize_CTransaction s) (\<lambda>(txs, s). Inr ((CBlock_of_header h)\<lparr>vtx := txs\<rparr>, s)))"

text \<open>A locator carries the version of the stream, which the reader drops.\<close>

definition Serialize_CBlockLocator :: "int \<Rightarrow> uint256 list \<Rightarrow> bytes" where
  "Serialize_CBlockLocator ver vHave = Serialize_int32 ver @ Serialize_vector Serialize_uint256 vHave"

definition Unserialize_CBlockLocator :: "uint256 list reader" where
  "Unserialize_CBlockLocator s = ebind (Unserialize_int32 s) (\<lambda>(ver, s). Unserialize_vector Unserialize_uint256 s)"

section \<open>Index entries and headers\<close>

definition CBlockIndex_of_header :: "'a CBlockHeader_scheme \<Rightarrow> CBlockIndex" where
  "CBlockIndex_of_header h = CBlockIndex_SetNull\<lparr>bi_nVersion := hdr_nVersion h, bi_hashMerkleRoot := hashMerkleRoot h,
     nTime := hdr_nTime h, nBits := hdr_nBits h, nNonce := hdr_nNonce h\<rparr>"

definition GetBlockHeader :: "block_store \<Rightarrow> block_ptr \<Rightarrow> CBlockHeader" where
  "GetBlockHeader S p = \<lparr>hdr_nVersion = bi_nVersion (S p),
     hashPrevBlock = (case pprev (S p) of None \<Rightarrow> 0 | Some q \<Rightarrow> phashBlock (S q)),
     hashMerkleRoot = bi_hashMerkleRoot (S p), hdr_nTime = nTime (S p), hdr_nBits = nBits (S p), hdr_nNonce = nNonce (S p)\<rparr>"

record CDiskBlockPos =
  pos_nFile :: int
  pos_nPos :: u32

definition CDiskBlockPos_SetNull :: CDiskBlockPos where
  "CDiskBlockPos_SetNull = \<lparr>pos_nFile = - 1, pos_nPos = 0\<rparr>"

definition CDiskBlockPos_IsNull :: "CDiskBlockPos \<Rightarrow> bool" where
  "CDiskBlockPos_IsNull pos \<longleftrightarrow> pos_nFile pos = - 1"

definition GetBlockPos :: "CBlockIndex \<Rightarrow> CDiskBlockPos" where
  "GetBlockPos b = (if nStatus b AND BLOCK_HAVE_DATA \<noteq> 0 then \<lparr>pos_nFile = nFile b, pos_nPos = nDataPos b\<rparr> else CDiskBlockPos_SetNull)"

definition GetUndoPos :: "CBlockIndex \<Rightarrow> CDiskBlockPos" where
  "GetUndoPos b = (if nStatus b AND BLOCK_HAVE_UNDO \<noteq> 0 then \<lparr>pos_nFile = nFile b, pos_nPos = nUndoPos b\<rparr> else CDiskBlockPos_SetNull)"

section \<open>Block files\<close>

record CBlockFileInfo =
  fi_nBlocks :: u32
  fi_nSize :: u32
  fi_nUndoSize :: u32
  fi_nHeightFirst :: u32
  fi_nHeightLast :: u32
  fi_nTimeFirst :: u64
  fi_nTimeLast :: u64

definition CBlockFileInfo_SetNull :: CBlockFileInfo where
  "CBlockFileInfo_SetNull = \<lparr>fi_nBlocks = 0, fi_nSize = 0, fi_nUndoSize = 0, fi_nHeightFirst = 0, fi_nHeightLast = 0,
     fi_nTimeFirst = 0, fi_nTimeLast = 0\<rparr>"

definition AddBlock :: "u32 \<Rightarrow> u64 \<Rightarrow> CBlockFileInfo \<Rightarrow> CBlockFileInfo" where
  "AddBlock nHeightIn nTimeIn i =
     (let i = (if fi_nBlocks i = 0 \<or> fi_nHeightFirst i > nHeightIn then i\<lparr>fi_nHeightFirst := nHeightIn\<rparr> else i);
          i = (if fi_nBlocks i = 0 \<or> fi_nTimeFirst i > nTimeIn then i\<lparr>fi_nTimeFirst := nTimeIn\<rparr> else i);
          i = i\<lparr>fi_nBlocks := fi_nBlocks i + 1\<rparr>;
          i = (if nHeightIn > fi_nHeightLast i then i\<lparr>fi_nHeightLast := nHeightIn\<rparr> else i)
      in if nTimeIn > fi_nTimeLast i then i\<lparr>fi_nTimeLast := nTimeIn\<rparr> else i)"

definition Serialize_CBlockFileInfo :: "CBlockFileInfo \<Rightarrow> bytes" where
  "Serialize_CBlockFileInfo i = WriteVarInt (unat (fi_nBlocks i)) @ WriteVarInt (unat (fi_nSize i)) @ WriteVarInt (unat (fi_nUndoSize i)) @
     WriteVarInt (unat (fi_nHeightFirst i)) @ WriteVarInt (unat (fi_nHeightLast i)) @ WriteVarInt (unat (fi_nTimeFirst i)) @
     WriteVarInt (unat (fi_nTimeLast i))"

definition Unserialize_CBlockFileInfo :: "CBlockFileInfo reader" where
  "Unserialize_CBlockFileInfo s = ebind (ReadVarInt 32 s) (\<lambda>(nb, s).
     ebind (ReadVarInt 32 s) (\<lambda>(sz, s).
     ebind (ReadVarInt 32 s) (\<lambda>(us, s).
     ebind (ReadVarInt 32 s) (\<lambda>(hf, s).
     ebind (ReadVarInt 32 s) (\<lambda>(hl, s).
     ebind (ReadVarInt 64 s) (\<lambda>(tf, s).
     ebind (ReadVarInt 64 s) (\<lambda>(tl', s).
       Inr (\<lparr>fi_nBlocks = of_nat nb, fi_nSize = of_nat sz, fi_nUndoSize = of_nat us, fi_nHeightFirst = of_nat hf,
             fi_nHeightLast = of_nat hl, fi_nTimeFirst = of_nat tf, fi_nTimeLast = of_nat tl'\<rparr>, s))))))))"

section \<open>The index record\<close>

text \<open>\<open>CDiskBlockIndex\<close> extends the index entry by the hashes that replace its pointers.\<close>

record CDiskBlockIndex = CBlockIndex +
  disk_hash :: uint256
  hashPrev :: uint256

definition CDiskBlockIndex_of :: "block_store \<Rightarrow> block_ptr \<Rightarrow> CDiskBlockIndex" where
  "CDiskBlockIndex_of S p = CBlockIndex.extend (S p)
     \<lparr>disk_hash = phashBlock (S p), hashPrev = (case pprev (S p) of None \<Rightarrow> 0 | Some q \<Rightarrow> phashBlock (S q))\<rparr>"

text \<open>A negative \<open>int\<close> ends the loop of \<open>WriteVarInt\<close> at its first byte.\<close>

definition WriteVarInt_int :: "int \<Rightarrow> bytes" where
  "WriteVarInt_int v = (if v < 0 then [word_of_int v AND 0x7F] else WriteVarInt (nat v))"

definition ReadVarInt_int :: "int reader" where
  "ReadVarInt_int s = ebind (ReadVarInt 32 s) (\<lambda>(n, s). Inr (unsigned_to_int 32 n, s))"

definition Serialize_CDiskBlockIndex :: "int \<Rightarrow> CDiskBlockIndex \<Rightarrow> bytes" where
  "Serialize_CDiskBlockIndex ver d =
     WriteVarInt_int ver @ WriteVarInt (nHeight d) @ WriteVarInt (unat (nStatus d)) @ WriteVarInt (unat (nTx d)) @
     (if nStatus d AND (BLOCK_HAVE_DATA OR BLOCK_HAVE_UNDO) \<noteq> 0 then WriteVarInt_int (nFile d) else []) @
     (if nStatus d AND BLOCK_HAVE_DATA \<noteq> 0 then WriteVarInt (unat (nDataPos d)) else []) @
     (if nStatus d AND BLOCK_HAVE_UNDO \<noteq> 0 then WriteVarInt (unat (nUndoPos d)) else []) @
     Serialize_uint256 (disk_hash d) @ Serialize_int32 (bi_nVersion d) @ Serialize_uint256 (hashPrev d) @
     Serialize_uint256 (bi_hashMerkleRoot d) @ ser_writedata32 (nTime d) @ ser_writedata32 (nBits d) @ ser_writedata32 (nNonce d)"

definition optional :: "bool \<Rightarrow> 'a \<Rightarrow> 'a reader \<Rightarrow> 'a reader" where
  "optional present initial rd s = (if present then rd s else Inr (initial, s))"

definition Unserialize_CDiskBlockIndex :: "CDiskBlockIndex reader" where
  "Unserialize_CDiskBlockIndex s = ebind (ReadVarInt_int s) (\<lambda>(ver, s).
     ebind (ReadVarInt_int s) (\<lambda>(height, s).
     ebind (ReadVarInt 32 s) (\<lambda>(status, s).
     ebind (ReadVarInt 32 s) (\<lambda>(tx, s).
     let status = of_nat status :: u32 in
     ebind (optional (status AND (BLOCK_HAVE_DATA OR BLOCK_HAVE_UNDO) \<noteq> 0) 0 ReadVarInt_int s) (\<lambda>(file, s).
     ebind (optional (status AND BLOCK_HAVE_DATA \<noteq> 0) 0 (ReadVarInt 32) s) (\<lambda>(dpos, s).
     ebind (optional (status AND BLOCK_HAVE_UNDO \<noteq> 0) 0 (ReadVarInt 32) s) (\<lambda>(upos, s).
     ebind (Unserialize_uint256 s) (\<lambda>(h, s).
     ebind (Unserialize_int32 s) (\<lambda>(bver, s).
     ebind (Unserialize_uint256 s) (\<lambda>(prev, s).
     ebind (Unserialize_uint256 s) (\<lambda>(root, s).
     ebind (ser_readdata32 s) (\<lambda>(time, s).
     ebind (ser_readdata32 s) (\<lambda>(bits, s).
     ebind (ser_readdata32 s) (\<lambda>(nonce, s).
       Inr (CBlockIndex.extend (CBlockIndex_SetNull\<lparr>nHeight := nat height, nFile := file, nDataPos := of_nat dpos,
         nUndoPos := of_nat upos, nTx := of_nat tx, nStatus := status, bi_nVersion := bver, bi_hashMerkleRoot := root,
         nTime := time, nBits := bits, nNonce := nonce\<rparr>) \<lparr>disk_hash = h, hashPrev = prev\<rparr>, s)))))))))))))))"

section \<open>Round trips\<close>

definition wf_header :: "'a CBlockHeader_scheme \<Rightarrow> bool" where
  "wf_header h \<longleftrightarrow> in_int 32 (hdr_nVersion h)"

interpretation header: canonical_codec Serialize_CBlockHeader Unserialize_CBlockHeader wf_header
  by unfold_locales
     (auto simp: Serialize_CBlockHeader_def Unserialize_CBlockHeader_def wf_header_def ebind_eq_Inr int32.dec_iff
        blob256.dec_iff data32.dec_iff int32.dec_enc blob256.dec_enc data32.dec_enc)

interpretation txs: canonical_codec "Serialize_vector Serialize_CTransaction" "Unserialize_vector Unserialize_CTransaction"
    "\<lambda>xs. list_all wf_tx xs \<and> length xs \<le> MAX_SIZE"
  by (rule tx_codec.vector_canonical_codec)

interpretation hashes: canonical_codec "Serialize_vector Serialize_uint256" "Unserialize_vector Unserialize_uint256"
    "\<lambda>xs. list_all (\<lambda>_. True) xs \<and> length xs \<le> MAX_SIZE"
  by (rule blob256.vector_canonical_codec)

text \<open>A block with the initial values of the fields that are kept in memory only.\<close>

definition wf_block :: "CBlock \<Rightarrow> bool" where
  "wf_block b \<longleftrightarrow> wf_header b \<and> list_all wf_tx (vtx b) \<and> length (vtx b) \<le> MAX_SIZE \<and> txoutMasternode b = CTxOut_SetNull \<and>
     voutSuperblock b = [] \<and> \<not> fChecked b"

lemma header_of_block [simp]:
  "Serialize_CBlockHeader ((CBlock_of_header h)\<lparr>vtx := txs\<rparr>) = Serialize_CBlockHeader h"
  "wf_header ((CBlock_of_header h)\<lparr>vtx := txs\<rparr>) = wf_header h" "vtx ((CBlock_of_header h)\<lparr>vtx := txs\<rparr>) = txs"
  by (simp_all add: CBlock_of_header_def CBlockHeader.defs Serialize_CBlockHeader_def wf_header_def)

lemma GetBlockHeader_block [simp]:
  "Serialize_CBlockHeader (CBlock_GetBlockHeader b) = Serialize_CBlockHeader b" "wf_header (CBlock_GetBlockHeader b) = wf_header b"
  by (simp_all add: CBlock_GetBlockHeader_def Serialize_CBlockHeader_def wf_header_def)

lemma CBlock_rebuild:
  "txoutMasternode b = CTxOut_SetNull \<Longrightarrow> voutSuperblock b = [] \<Longrightarrow> \<not> fChecked b \<Longrightarrow> (CBlock_of_header (CBlock_GetBlockHeader b))\<lparr>vtx := vtx b\<rparr> = b"
  by (cases b) (simp add: CBlock_of_header_def CBlock_GetBlockHeader_def CBlockHeader.defs)

interpretation block_codec: canonical_codec Serialize_CBlock Unserialize_CBlock wf_block
proof
  show "Unserialize_CBlock (Serialize_CBlock x @ r) = Inr (x, r)" if "wf_block x" for x r
    using that header.dec_enc [of "CBlock_GetBlockHeader x"] txs.dec_enc [of "vtx x" r] CBlock_rebuild [of x]
    by (simp add: Unserialize_CBlock_def Serialize_CBlock_def wf_block_def)
  show "wf_block x \<and> s = Serialize_CBlock x @ r" if "Unserialize_CBlock s = Inr (x, r)" for s x r
    using that by (auto simp: Unserialize_CBlock_def Serialize_CBlock_def wf_block_def ebind_eq_Inr header.dec_iff txs.dec_iff)
      (simp_all add: CBlock_of_header_def CBlockHeader.defs)
qed

interpretation locator: codec "Serialize_CBlockLocator 70000" Unserialize_CBlockLocator "\<lambda>xs. length xs \<le> MAX_SIZE"
  by unfold_locales (simp add: Serialize_CBlockLocator_def Unserialize_CBlockLocator_def int32.dec_enc hashes.dec_enc in_int_def list_all_length)

interpretation fileinfo: codec Serialize_CBlockFileInfo Unserialize_CBlockFileInfo "\<lambda>_. True"
proof
  have lt: "unat (w :: u32) < 2 ^ 32" "unat (v :: u64) < 2 ^ 64" for w v using unsigned_less [of w, where 'a = nat] unsigned_less [of v, where 'a = nat] by simp_all
  show "Unserialize_CBlockFileInfo (Serialize_CBlockFileInfo x @ r) = Inr (x, r)" for x r
    by (simp add: Serialize_CBlockFileInfo_def Unserialize_CBlockFileInfo_def varint32.dec_enc [OF lt(1)] varint64.dec_enc [OF lt(2)])
qed

text \<open>C37. The reader of blocks accepts exactly the serializations of well-formed blocks, followed by the rest
  of the stream, and the hash of a block depends only on the 80 bytes of its header.\<close>

theorem Unserialize_CBlock_iff:
  "(Unserialize_CBlock s = Inr (b, r) \<longleftrightarrow> wf_block b \<and> s = Serialize_CBlock b @ r) \<and>
   length (Serialize_CBlockHeader b) = 80 \<and> CBlockHeader_GetHash argon t1 t2 b = CBlockHeader_GetHash argon t1 t2 (CBlock_GetBlockHeader b)"
  by (simp add: block_codec.dec_iff CBlockHeader_GetHash_def)
     (simp add: CBlock_GetBlockHeader_def Serialize_CBlockHeader_def Serialize_int32_def ser_writedata32_def Serialize_uint256_def)

section \<open>Index records round-trip\<close>

lemma ReadVarInt_int_Write: "0 \<le> v \<Longrightarrow> v < 2 ^ 31 \<Longrightarrow> ReadVarInt_int (WriteVarInt_int v @ r) = Inr (v, r)"
  by (simp add: ReadVarInt_int_def WriteVarInt_int_def varint32.dec_enc unsigned_to_int_def)

lemma ReadVarInt_int_nat: "n < 2 ^ 31 \<Longrightarrow> ReadVarInt_int (WriteVarInt n @ r) = Inr (int n, r)"
  using ReadVarInt_int_Write [of "int n"] by (simp add: WriteVarInt_int_def)

lemma ReadVarInt_word32: "ReadVarInt 32 (WriteVarInt (unat (w :: u32)) @ r) = Inr (unat w, r)"
  by (rule varint32.dec_enc) (use unsigned_less [of w, where 'a = nat] in simp)

lemma unat_inverse: "of_nat (unat (w :: u32)) = w"
  by simp

lemma optional_read: "(present \<Longrightarrow> rd (e @ r) = Inr (x, r)) \<Longrightarrow> (\<not> present \<Longrightarrow> x = initial) \<Longrightarrow>
    optional present initial rd ((if present then e else []) @ r) = Inr (x, r)"
  by (simp add: optional_def)

text \<open>The entry as a record gives it back: what is not stored has its initial value.\<close>

definition stored_entry :: "CBlockIndex \<Rightarrow> CBlockIndex" where
  "stored_entry b = CBlockIndex_SetNull\<lparr>nHeight := nHeight b,
     nFile := (if nStatus b AND (BLOCK_HAVE_DATA OR BLOCK_HAVE_UNDO) \<noteq> 0 then nFile b else 0),
     nDataPos := (if nStatus b AND BLOCK_HAVE_DATA \<noteq> 0 then nDataPos b else 0),
     nUndoPos := (if nStatus b AND BLOCK_HAVE_UNDO \<noteq> 0 then nUndoPos b else 0),
     nTx := nTx b, nStatus := nStatus b, bi_nVersion := bi_nVersion b, bi_hashMerkleRoot := bi_hashMerkleRoot b,
     nTime := nTime b, nBits := nBits b, nNonce := nNonce b\<rparr>"

definition wf_entry :: "CBlockIndex \<Rightarrow> bool" where
  "wf_entry b \<longleftrightarrow> nHeight b < 2 ^ 31 \<and> in_int 32 (bi_nVersion b) \<and>
     (nStatus b AND (BLOCK_HAVE_DATA OR BLOCK_HAVE_UNDO) \<noteq> 0 \<longrightarrow> 0 \<le> nFile b \<and> nFile b < 2 ^ 31)"

lemma Unserialize_CDiskBlockIndex_of:
  assumes "0 \<le> ver" "ver < 2 ^ 31" "wf_entry (S p)"
  shows "Unserialize_CDiskBlockIndex (Serialize_CDiskBlockIndex ver (CDiskBlockIndex_of S p) @ r) =
    Inr (CBlockIndex.extend (stored_entry (S p))
      \<lparr>disk_hash = phashBlock (S p), hashPrev = (case pprev (S p) of None \<Rightarrow> 0 | Some q \<Rightarrow> phashBlock (S q))\<rparr>, r)"
proof -
  let ?b = "S p"
  let ?d = "nStatus ?b AND BLOCK_HAVE_DATA \<noteq> 0" and ?u = "nStatus ?b AND BLOCK_HAVE_UNDO \<noteq> 0" and ?f = "nStatus ?b AND (BLOCK_HAVE_DATA OR BLOCK_HAVE_UNDO) \<noteq> 0"
  have f: "optional ?f 0 ReadVarInt_int ((if ?f then WriteVarInt_int (nFile ?b) else []) @ s) = Inr (if ?f then nFile ?b else 0, s)" for s
    using assms(3) by (intro optional_read) (auto simp: wf_entry_def intro!: ReadVarInt_int_Write)
  have w: "optional P 0 (ReadVarInt 32) ((if P then WriteVarInt (unat x) else []) @ s) = Inr (if P then unat x else 0, s)" for P s and x :: u32
    by (intro optional_read) (simp_all add: ReadVarInt_word32)
  have e: "nHeight (CDiskBlockIndex_of S p) = nHeight ?b" "nStatus (CDiskBlockIndex_of S p) = nStatus ?b" "nTx (CDiskBlockIndex_of S p) = nTx ?b"
    "nFile (CDiskBlockIndex_of S p) = nFile ?b" "nDataPos (CDiskBlockIndex_of S p) = nDataPos ?b" "nUndoPos (CDiskBlockIndex_of S p) = nUndoPos ?b"
    "bi_nVersion (CDiskBlockIndex_of S p) = bi_nVersion ?b" "bi_hashMerkleRoot (CDiskBlockIndex_of S p) = bi_hashMerkleRoot ?b"
    "nTime (CDiskBlockIndex_of S p) = nTime ?b" "nBits (CDiskBlockIndex_of S p) = nBits ?b" "nNonce (CDiskBlockIndex_of S p) = nNonce ?b"
    "disk_hash (CDiskBlockIndex_of S p) = phashBlock ?b" "hashPrev (CDiskBlockIndex_of S p) = (case pprev (S p) of None \<Rightarrow> 0 | Some q \<Rightarrow> phashBlock (S q))"
    by (simp_all add: CDiskBlockIndex_of_def CBlockIndex.defs)
  have v: "nHeight ?b < 2 ^ 31" "in_int 32 (bi_nVersion ?b)" using assms(3) by (simp_all add: wf_entry_def)
  show ?thesis unfolding Serialize_CDiskBlockIndex_def e Unserialize_CDiskBlockIndex_def append_assoc
    ReadVarInt_int_Write [OF assms(1,2)] ebind_simps prod.case ReadVarInt_int_nat [OF v(1)] ReadVarInt_word32 Let_def unat_inverse f w
    blob256.dec_enc [OF TrueI] int32.dec_enc [OF v(2)] data32.dec_enc [OF TrueI]
    by (simp add: stored_entry_def)
qed

end
