(* ===== verification/Tx_Checks.thy ===== *)
theory Tx_Checks
  imports Utxo Chain "HOL-Library.Multiset"
begin

unbundle bit_operations_syntax

text \<open>
  The checks of single transactions in \<open>src/src/validation.cpp\<close>: \<open>IsFinalTx\<close>, the relative lock times
  (\<open>CalculateSequenceLocks\<close>, \<open>EvaluateSequenceLocks\<close>, \<open>SequenceLocks\<close>), the counts of signature
  operations, \<open>CheckTransaction\<close> with \<open>CheckBDAPTxCreditUsage\<close>, and \<open>CheckTxInputs\<close>; with the
  class \<open>CValidationState\<close> of \<open>src/src/consensus/validation.h\<close> and the parts of
  \<open>src/src/fluid/fluid.cpp\<close> that look at the scripts of outputs.

  What the fluid protocol asks of its records, its signatures and its text format is an argument of the
  model, as is the address that a script pays to.
\<close>

section \<open>The state of a validation\<close>

datatype mode_state = MODE_VALID | MODE_INVALID | MODE_ERROR

text \<open>The debug message only goes to the log and is left out.\<close>

record CValidationState =
  vs_mode :: mode_state
  vs_nDoS :: int
  vs_strRejectReason :: string
  vs_chRejectCode :: nat
  vs_corruptionPossible :: bool

definition CValidationState_init :: CValidationState where
  "CValidationState_init = \<lparr>vs_mode = MODE_VALID, vs_nDoS = 0, vs_strRejectReason = '''', vs_chRejectCode = 0, vs_corruptionPossible = False\<rparr>"

definition state_DoS :: "int \<Rightarrow> nat \<Rightarrow> string \<Rightarrow> bool \<Rightarrow> CValidationState \<Rightarrow> CValidationState" where
  "state_DoS level code reason corruption state =
     (let state = state\<lparr>vs_chRejectCode := code, vs_strRejectReason := reason, vs_corruptionPossible := corruption\<rparr>
      in if vs_mode state = MODE_ERROR then state
         else state\<lparr>vs_nDoS := vs_nDoS state + level, vs_mode := MODE_INVALID\<rparr>)"

definition state_Invalid :: "nat \<Rightarrow> string \<Rightarrow> CValidationState \<Rightarrow> CValidationState" where
  "state_Invalid code reason = state_DoS 0 code reason False"

definition state_Error :: "string \<Rightarrow> CValidationState \<Rightarrow> CValidationState" where
  "state_Error reason state =
     (if vs_mode state = MODE_VALID then state\<lparr>vs_strRejectReason := reason, vs_mode := MODE_ERROR\<rparr> else state\<lparr>vs_mode := MODE_ERROR\<rparr>)"

definition state_IsInvalid :: "CValidationState \<Rightarrow> bool" where
  "state_IsInvalid state \<longleftrightarrow> vs_mode state = MODE_INVALID"

definition REJECT_INVALID :: nat where "REJECT_INVALID = 0x10"

text \<open>The result of a check that goes on with a value, or returns false with the state that says why.\<close>

type_synonym 'a checked = "CValidationState + 'a"

section \<open>Fluid scripts\<close>

definition IsTransactionFluid :: "bytes \<Rightarrow> bool" where
  "IsTransactionFluid script \<longleftrightarrow> IsProtocolInstruction script MINT_TX = Inr True \<or> IsProtocolInstruction script MASTERNODE_MODFIY_TX = Inr True \<or>
     IsProtocolInstruction script MINING_MODIFY_TX = Inr True \<or> IsProtocolInstruction script BDAP_REVOKE_TX = Inr True"

fun IsTransactionFluid_tx :: "CTxOut list \<Rightarrow> bytes option" where
  "IsTransactionFluid_tx [] = None"
| "IsTransactionFluid_tx (txout # outs) =
     (if IsTransactionFluid (scriptPubKey txout) then Some (scriptPubKey txout) else IsTransactionFluid_tx outs)"

definition GetFluidOpCode :: "bytes \<Rightarrow> nat" where
  "GetFluidOpCode script =
     (if IsProtocolInstruction script MINT_TX = Inr True then OP_MINT
      else if IsProtocolInstruction script MASTERNODE_MODFIY_TX = Inr True then OP_REWARD_MASTERNODE
      else if IsProtocolInstruction script MINING_MODIFY_TX = Inr True then OP_REWARD_MINING
      else if IsProtocolInstruction script BDAP_REVOKE_TX = Inr True then OP_BDAP_REVOKE
      else 0)"

text \<open>The answers of the rest of the fluid protocol: the records of executed scripts, up to a block or in
  general; the check of the text of a script at a time; the signatures; and the parsers of the amounts.\<close>

record fluid_env =
  CheckTransactionInRecord :: "bytes \<Rightarrow> block_ptr option \<Rightarrow> bool"
  CheckFluidOperationScript :: "bytes \<Rightarrow> int \<Rightarrow> bool"
  CheckIfQuorumExists :: "bytes \<Rightarrow> bool"
  ParseMintKey :: "bytes \<Rightarrow> bool"
  GenericParseNumber :: "bytes \<Rightarrow> bool"

definition FLUID_ACTIVATE_HEIGHT :: int where "FLUID_ACTIVATE_HEIGHT = 10"

definition FLUID_TRANSACTION_COST :: int where "FLUID_TRANSACTION_COST = 1000000 * COIN"

definition ProvisionalCheckTransaction :: "fluid_env \<Rightarrow> CTransaction \<Rightarrow> bool" where
  "ProvisionalCheckTransaction fl tx \<longleftrightarrow>
     \<not> list_ex (\<lambda>txout. IsTransactionFluid (scriptPubKey txout) \<and> CheckTransactionInRecord fl (scriptPubKey txout) None) (vout tx)"

definition CheckTransactionToBlock :: "fluid_env \<Rightarrow> (uint256 \<times> block_ptr) list \<Rightarrow> CTransaction \<Rightarrow> uint256 \<Rightarrow> bool" where
  "CheckTransactionToBlock fl index tx hash =
     (case map_of index hash of
        None \<Rightarrow> True
      | Some p \<Rightarrow> \<not> list_ex (\<lambda>txout. IsTransactionFluid (scriptPubKey txout) \<and> CheckTransactionInRecord fl (scriptPubKey txout) (Some p)) (vout tx))"

definition ValidationProcesses :: "fluid_env \<Rightarrow> bytes \<Rightarrow> CValidationState \<Rightarrow> unit checked" where
  "ValidationProcesses fl script state =
     (if \<not> IsTransactionFluid script then Inr ()
      else if \<not> CheckIfQuorumExists fl script then Inl (state_DoS 100 REJECT_INVALID ''bad-txns-fluid-auth-failure'' False state)
      else if IsProtocolInstruction script MINT_TX = Inr True \<and> \<not> ParseMintKey fl script
      then Inl (state_DoS 100 REJECT_INVALID ''bad-txns-fluid-mint-auth-failure'' False state)
      else if (IsProtocolInstruction script MASTERNODE_MODFIY_TX = Inr True \<or> IsProtocolInstruction script MINING_MODIFY_TX = Inr True) \<and>
              \<not> GenericParseNumber fl script
      then Inl (state_DoS 100 REJECT_INVALID ''bad-txns-fluid-modify-parse-failure'' False state)
      else Inr ())"

section \<open>Lock times\<close>

definition LOCKTIME_VERIFY_SEQUENCE :: u32 where "LOCKTIME_VERIFY_SEQUENCE = 1"

definition LOCKTIME_MEDIAN_TIME_PAST :: u32 where "LOCKTIME_MEDIAN_TIME_PAST = 2"

definition SEQUENCE_LOCKTIME_GRANULARITY :: nat where "SEQUENCE_LOCKTIME_GRANULARITY = 9"

definition IsFinalTx :: "fluid_env \<Rightarrow> CTransaction \<Rightarrow> int \<Rightarrow> int \<Rightarrow> bool" where
  "IsFinalTx fl tx nBlockHeight nBlockTime =
     (if nLockTime tx = 0 then True
      else if uint (nLockTime tx) < (if uint (nLockTime tx) < int LOCKTIME_THRESHOLD then nBlockHeight else nBlockTime) then True
      else if nBlockHeight \<ge> FLUID_ACTIVATE_HEIGHT \<and>
              (\<not> ProvisionalCheckTransaction fl tx \<or>
               (case IsTransactionFluid_tx (vout tx) of None \<Rightarrow> False | Some script \<Rightarrow> \<not> CheckFluidOperationScript fl script nBlockTime)) then False
      else list_all (\<lambda>txin. nSequence txin = SEQUENCE_FINAL) (vin tx))"

datatype lock_error = LockAssert | LockNull | LockSkip chain_error

definition from_skip :: "chain_error + 'a \<Rightarrow> lock_error + 'a" where
  "from_skip r = (case r of Inl e \<Rightarrow> Inl (LockSkip e) | Inr x \<Rightarrow> Inr x)"

text \<open>The loop over the inputs and the heights of their coins; the heights of inputs without a lock become 0.\<close>

fun sequence_loop :: "block_store \<Rightarrow> block_ptr \<Rightarrow> CTxIn list \<Rightarrow> int list \<Rightarrow> int \<Rightarrow> int \<Rightarrow> lock_error + (int \<times> int) \<times> int list" where
  "sequence_loop S block (txin # ins) (nCoinHeight # hs) nMinHeight nMinTime =
     (if nSequence txin AND SEQUENCE_LOCKTIME_DISABLE_FLAG \<noteq> 0 then
        ebind (sequence_loop S block ins hs nMinHeight nMinTime) (\<lambda>(lp, hs). Inr (lp, 0 # hs))
      else if nSequence txin AND SEQUENCE_LOCKTIME_TYPE_FLAG \<noteq> 0 then
        ebind (from_skip (GetAncestor S block (max (nCoinHeight - 1) 0))) (\<lambda>a.
          case a of
            None \<Rightarrow> Inl LockNull
          | Some b \<Rightarrow>
              let nCoinTime = GetMedianTimePast S b;
                  lock = uint (push_bit SEQUENCE_LOCKTIME_GRANULARITY (nSequence txin AND SEQUENCE_LOCKTIME_MASK))
              in ebind (sequence_loop S block ins hs nMinHeight (max nMinTime (nCoinTime + lock - 1))) (\<lambda>(lp, hs). Inr (lp, nCoinHeight # hs)))
      else
        ebind (sequence_loop S block ins hs (max nMinHeight (nCoinHeight + uint (nSequence txin AND SEQUENCE_LOCKTIME_MASK) - 1)) nMinTime)
          (\<lambda>(lp, hs). Inr (lp, nCoinHeight # hs)))"
| "sequence_loop S block _ hs nMinHeight nMinTime = Inr ((nMinHeight, nMinTime), hs)"

definition CalculateSequenceLocks :: "block_store \<Rightarrow> block_ptr \<Rightarrow> CTransaction \<Rightarrow> u32 \<Rightarrow> int list \<Rightarrow> lock_error + (int \<times> int) \<times> int list" where
  "CalculateSequenceLocks S block tx lockFlags prevHeights =
     (if length prevHeights \<noteq> length (vin tx) then Inl LockAssert
      else if \<not> ((word_of_int (nVersion tx) :: u32) \<ge> 2 \<and> lockFlags AND LOCKTIME_VERIFY_SEQUENCE \<noteq> 0) then Inr ((- 1, - 1), prevHeights)
      else sequence_loop S block (vin tx) prevHeights (- 1) (- 1))"

definition EvaluateSequenceLocks :: "block_store \<Rightarrow> block_ptr \<Rightarrow> int \<times> int \<Rightarrow> lock_error + bool" where
  "EvaluateSequenceLocks S block lockPair =
     (case pprev (S block) of
        None \<Rightarrow> Inl LockAssert
      | Some q \<Rightarrow> Inr (\<not> (fst lockPair \<ge> int (nHeight (S block)) \<or> snd lockPair \<ge> GetMedianTimePast S q)))"

definition SequenceLocks :: "block_store \<Rightarrow> block_ptr \<Rightarrow> CTransaction \<Rightarrow> u32 \<Rightarrow> int list \<Rightarrow> lock_error + bool" where
  "SequenceLocks S block tx lockFlags prevHeights =
     ebind (CalculateSequenceLocks S block tx lockFlags prevHeights) (\<lambda>(lockPair, hs). EvaluateSequenceLocks S block lockPair)"

section \<open>Signature operations\<close>

definition GetLegacySigOpCount :: "CTransaction \<Rightarrow> u32" where
  "GetLegacySigOpCount tx = of_nat (sum_list (map (\<lambda>txin. GetSigOpCount (scriptSig txin) False) (vin tx)) +
     sum_list (map (\<lambda>txout. GetSigOpCount (scriptPubKey txout) False) (vout tx)))"

fun p2sh_sigops :: "'v CCoinsView \<Rightarrow> CTxIn list \<Rightarrow> u32 \<Rightarrow> 'v CCoinsViewCache \<Rightarrow> amount_error + u32 \<times> 'v CCoinsViewCache" where
  "p2sh_sigops V [] nSigOps c = Inr (nSigOps, c)"
| "p2sh_sigops V (txin # ins) nSigOps c =
     (case AccessCoin V (prevout txin) c of (cn, c) \<Rightarrow>
        if IsSpent cn then Inl amount_error.AssertFailed
        else p2sh_sigops V ins
          (if IsPayToScriptHash (scriptPubKey (out cn)) then nSigOps + of_nat (GetSigOpCount_p2sh (scriptPubKey (out cn)) (scriptSig txin)) else nSigOps) c)"

definition GetP2SHSigOpCount :: "'v CCoinsView \<Rightarrow> CTransaction \<Rightarrow> 'v CCoinsViewCache \<Rightarrow> amount_error + u32 \<times> 'v CCoinsViewCache" where
  "GetP2SHSigOpCount V tx c = (if IsCoinBase tx then Inr (0, c) else p2sh_sigops V (vin tx) 0 c)"

section \<open>The use of BDAP credits\<close>

record CServiceCredit =
  OpType :: string
  credit_nValue :: int
  vParameters :: "bytes list"

text \<open>The operands that \<open>DecodeBDAPScript\<close> leaves in its reference arguments, which start at \<open>- 1\<close>, whether or
  not it returns true.\<close>

function bdap_seen :: "bytes \<Rightarrow> bytes list \<Rightarrow> bytes list" where
  "bdap_seen pc vvch =
     (case GetOp pc of
        None \<Rightarrow> vvch
      | Some (opcode, vch, pc') \<Rightarrow>
         if opcode = OP_DROP \<or> opcode = OP_2DROP \<or> opcode > OP_PUSHDATA4 then vvch else bdap_seen pc' (vvch @ [vch]))"
  by pat_completeness auto
termination by (relation "measure (\<lambda>(pc, v). length pc)") (auto dest: GetOp_shorter)

declare bdap_seen.simps [simp del]

definition bdap_operands :: "bytes \<Rightarrow> int \<times> int \<times> bytes list" where
  "bdap_operands script =
     (case GetOp script of None \<Rightarrow> (- 1, - 1, []) | Some (opcode, vch, pc) \<Rightarrow>
       if opcode < OP_1 \<or> opcode > OP_16 then (- 1, - 1, [])
       else let opCode1 = DecodeOP_N opcode in
         if opCode1 \<noteq> OP_BDAP_NEW \<and> opCode1 \<noteq> OP_BDAP_DELETE \<and> opCode1 \<noteq> OP_BDAP_EXPIRE \<and> opCode1 \<noteq> OP_BDAP_REVOKE \<and>
            opCode1 \<noteq> OP_BDAP_MODIFY \<and> opCode1 \<noteq> OP_BDAP_MOVE then (int opCode1, - 1, [])
         else case GetOp pc of None \<Rightarrow> (int opCode1, - 1, []) | Some (opcode, vch, pc) \<Rightarrow>
           if opcode < OP_1 \<or> opcode > OP_16 then (int opCode1, - 1, [])
           else let opCode2 = DecodeOP_N opcode in
             (int opCode1, int opCode2, if IsBDAPOp opCode2 then bdap_seen pc [] else []))"

definition GetBDAPOpTypeString :: "int \<Rightarrow> int \<Rightarrow> string" where
  "GetBDAPOpTypeString opCode1 opCode2 =
     (if opCode1 = int OP_BDAP_NEW \<and> opCode2 = int OP_BDAP_ACCOUNT_ENTRY then ''bdap_new_account''
      else if opCode1 = int OP_BDAP_DELETE \<and> opCode2 = int OP_BDAP_ACCOUNT_ENTRY then ''bdap_delete_account''
      else if opCode1 = int OP_BDAP_REVOKE \<and> opCode2 = int OP_BDAP_ACCOUNT_ENTRY then ''bdap_revoke_account''
      else if opCode1 = int OP_BDAP_MODIFY \<and> opCode2 = int OP_BDAP_ACCOUNT_ENTRY then ''bdap_update_account''
      else if opCode1 = int OP_BDAP_MOVE \<and> opCode2 = int OP_BDAP_ACCOUNT_ENTRY then ''bdap_move_account''
      else if opCode1 = int OP_BDAP_NEW \<and> opCode2 = int OP_BDAP_LINK_REQUEST then ''bdap_new_link_request''
      else if opCode1 = int OP_BDAP_DELETE \<and> opCode2 = int OP_BDAP_LINK_REQUEST then ''bdap_delete_link_request''
      else if opCode1 = int OP_BDAP_MODIFY \<and> opCode2 = int OP_BDAP_LINK_REQUEST then ''bdap_update_link_request''
      else if opCode1 = int OP_BDAP_NEW \<and> opCode2 = int OP_BDAP_LINK_ACCEPT then ''bdap_new_link_accept''
      else if opCode1 = int OP_BDAP_DELETE \<and> opCode2 = int OP_BDAP_LINK_ACCEPT then ''bdap_delete_link_accept''
      else if opCode1 = int OP_BDAP_MODIFY \<and> opCode2 = int OP_BDAP_LINK_ACCEPT then ''bdap_update_link_accept''
      else if opCode1 = int OP_BDAP_MOVE \<and> opCode2 = int OP_BDAP_ASSET then ''bdap_move_asset''
      else if opCode1 = int OP_BDAP_NEW \<and> opCode2 = int OP_BDAP_AUDIT then ''bdap_new_audit''
      else if opCode1 = int OP_BDAP_NEW \<and> opCode2 = int OP_BDAP_CERTIFICATE then ''bdap_new_certificate''
      else if opCode1 = int OP_BDAP_MODIFY \<and> opCode2 = int OP_BDAP_CERTIFICATE then ''bdap_approve_certificate''
      else if opCode1 = int OP_BDAP_EXPIRE \<and> opCode2 = int OP_BDAP_CERTIFICATE then ''bdap_revoke_certificate''
      else ''unknown'')"

definition bdap_credit :: "CTxOut \<Rightarrow> CServiceCredit" where
  "bdap_credit txout = (case bdap_operands (scriptPubKey txout) of (opCode1, opCode2, vvch) \<Rightarrow>
     \<lparr>OpType = GetBDAPOpTypeString opCode1 opCode2, credit_nValue = nValue txout, vParameters = vvch\<rparr>)"

text \<open>A \<open>std::multimap\<close> keeps its entries in the order of the keys, and equal keys in the order of their
  insertion; an iteration from \<open>find\<close> to the end visits every entry from the first one with the key on.\<close>

definition multimap_insert :: "('a :: linorder) \<times> 'b \<Rightarrow> ('a \<times> 'b) list \<Rightarrow> ('a \<times> 'b) list" where
  "multimap_insert e m = takeWhile (\<lambda>x. fst x \<le> fst e) m @ e # dropWhile (\<lambda>x. fst x \<le> fst e) m"

definition multimap_find :: "'a \<Rightarrow> ('a \<times> 'b) list \<Rightarrow> ('a \<times> 'b) list" where
  "multimap_find k m = dropWhile (\<lambda>x. fst x \<noteq> k) m"

fun sum_credits :: "CServiceCredit list \<Rightarrow> int \<Rightarrow> amount_error + int" where
  "sum_credits [] n = Inr n"
| "sum_credits (c # cs) n = ebind (int64 (n + credit_nValue c)) (sum_credits cs)"

definition output_credit :: "(bytes \<Rightarrow> 'a) \<Rightarrow> 'a \<Rightarrow> CTxOut \<Rightarrow> 'a \<times> CServiceCredit" where
  "output_credit GetScriptAddress noAddress txout =
     (if IsBDAP txout then (GetScriptAddress (scriptPubKey txout), bdap_credit txout)
      else if IsData txout then (noAddress, \<lparr>OpType = ''data'', credit_nValue = nValue txout, vParameters = []\<rparr>)
      else (GetScriptAddress (scriptPubKey txout), \<lparr>OpType = ''standard'', credit_nValue = nValue txout, vParameters = []\<rparr>))"

text \<open>The comparison of the amounts of an address; its failure counts only when the use of credits is enforced.\<close>

definition credit_address_ok ::
    "bool \<Rightarrow> ('a \<times> CServiceCredit) list \<Rightarrow> ('a \<times> CServiceCredit) list \<Rightarrow> 'a \<Rightarrow> int \<Rightarrow> int \<Rightarrow> amount_error + bool" where
  "credit_address_ok ENFORCE mapInputs mapOutputs inputAddress nCreditsIn nCreditsOut =
     (if multimap_find inputAddress mapOutputs = [] then Inr (\<not> ENFORCE)
      else ebind (sum_credits (map snd (multimap_find inputAddress mapInputs)) 0) (\<lambda>nInputAmount.
           ebind (sum_credits (map snd (multimap_find inputAddress mapOutputs)) 0) (\<lambda>nOutputAmount.
           ebind (int64 (nInputAmount - nOutputAmount)) (\<lambda>used.
           ebind (int64 (nCreditsIn - nCreditsOut)) (\<lambda>total. Inr (used = total \<or> \<not> ENFORCE))))))"

definition credit_ok ::
    "bool \<Rightarrow> ('a \<times> CServiceCredit) list \<Rightarrow> ('a \<times> CServiceCredit) list \<Rightarrow> int \<Rightarrow> int \<Rightarrow> 'a \<times> CServiceCredit \<Rightarrow> amount_error + bool" where
  "credit_ok ENFORCE mapInputs mapOutputs nCreditsIn nCreditsOut e =
     (case e of (inputAddress, credit) \<Rightarrow>
        if OpType credit = ''bdap_move_asset'' then
          (if vParameters credit = [map of_char ''0DYNC'', map of_char ''BDAP'']
           then credit_address_ok ENFORCE mapInputs mapOutputs inputAddress nCreditsIn nCreditsOut else Inr False)
        else if OpType credit \<in> {''bdap_new_account'', ''bdap_update_account'', ''bdap_new_link_request'', ''bdap_new_link_accept'',
                  ''bdap_new_audit'', ''bdap_new_certificate'', ''bdap_approve_certificate''}
        then credit_address_ok ENFORCE mapInputs mapOutputs inputAddress nCreditsIn nCreditsOut
        else Inr True)"

fun all_ok :: "('b \<Rightarrow> amount_error + bool) \<Rightarrow> 'b list \<Rightarrow> amount_error + bool" where
  "all_ok f [] = Inr True"
| "all_ok f (x # xs) = ebind (f x) (\<lambda>ok. if ok then all_ok f xs else Inr False)"

text \<open>\<open>GetScriptAddress\<close> gives the address that a script pays to, and \<open>noAddress\<close> is the address of a
  \<open>CDebitAddress\<close> that is not set.\<close>

definition CheckBDAPTxCreditUsage ::
    "bool \<Rightarrow> (bytes \<Rightarrow> 'a :: linorder) \<Rightarrow> 'a \<Rightarrow> CTransaction \<Rightarrow> Coin list \<Rightarrow> int \<Rightarrow> int \<Rightarrow> int \<Rightarrow> int \<Rightarrow> amount_error + bool" where
  "CheckBDAPTxCreditUsage ENFORCE GetScriptAddress noAddress tx vBdapCoins nStandardIn nCreditsIn nStandardOut nCreditsOut =
     (if vBdapCoins = [] \<or> nCreditsIn = 0 then Inr True
      else if nStandardIn > 0 \<and> nStandardOut > 0 \<and> nStandardOut \<ge> nStandardIn \<and> ENFORCE then Inr False
      else if nCreditsOut \<ge> nCreditsIn \<and> ENFORCE then Inr False
      else let vInputInfo = map (\<lambda>cn. (GetScriptAddress (scriptPubKey (out cn)), bdap_credit (out cn))) vBdapCoins;
               mapInputs = fold multimap_insert vInputInfo [];
               mapOutputs = fold multimap_insert (map (output_credit GetScriptAddress noAddress) (vout tx)) []
           in all_ok (credit_ok ENFORCE mapInputs mapOutputs nCreditsIn nCreditsOut) vInputInfo)"

section \<open>Transactions without context\<close>

definition MAX_TX_SIZE :: nat where "MAX_TX_SIZE = 786432"

definition BDAP_TX_VERSION :: int where "BDAP_TX_VERSION = 0x3500"

definition ENFORCE_BDAP_CREDIT_USE :: bool where "ENFORCE_BDAP_CREDIT_USE = False"

text \<open>The totals over the outputs: all, standard, credits, and whether there is a BDAP output.\<close>

record out_totals =
  nValueOut :: int
  nStandardOut :: int
  nCreditsOut :: int
  outIsBDAP :: bool

definition reject :: "int \<Rightarrow> string \<Rightarrow> CValidationState \<Rightarrow> 'a checked" where
  "reject level reason state = Inl (state_DoS level REJECT_INVALID reason False state)"

fun check_outputs :: "fluid_env \<Rightarrow> CValidationState \<Rightarrow> CTxOut list \<Rightarrow> out_totals \<Rightarrow> amount_error + out_totals checked" where
  "check_outputs fl state [] t = Inr (Inr t)"
| "check_outputs fl state (txout # outs) t =
     (if nValue txout < 0 then Inr (reject 100 ''bad-txns-vout-negative'' state)
      else if nValue txout > MAX_MONEY then Inr (reject 100 ''bad-txns-vout-toolarge'' state)
      else ebind (int64 (nValueOut t + nValue txout)) (\<lambda>total.
        if \<not> MoneyRange total then Inr (reject 100 ''bad-txns-txouttotal-toolarge'' state)
        else if IsTransactionFluid (scriptPubKey txout) \<and> FLUID_TRANSACTION_COST > nValue txout
        then Inr (reject 100 ''bad-txns-fluid-vout-amount-toolow'' state)
        else case (if IsTransactionFluid (scriptPubKey txout) then ValidationProcesses fl (scriptPubKey txout) state else Inr ()) of
          Inl state \<Rightarrow> Inr (reject 100 ''bad-txns-fluid-validate-failure'' state)
        | Inr _ \<Rightarrow>
            check_outputs fl state outs
              (let t = t\<lparr>nValueOut := total\<rparr> in
               if IsBDAP txout then t\<lparr>outIsBDAP := True, nCreditsOut := nCreditsOut t + nValue txout\<rparr>
               else if IsData txout then t
               else t\<lparr>nStandardOut := nStandardOut t + nValue txout\<rparr>)))"

text \<open>The totals over the coins of the inputs, read through a new cache over the tip.\<close>

record in_totals =
  nStandardIn :: int
  nCreditsIn :: int
  vBdapCoins :: "Coin list"
  inIsBDAP :: bool

fun check_prevouts :: "'v CCoinsView \<Rightarrow> CValidationState \<Rightarrow> CTxIn list \<Rightarrow> in_totals \<Rightarrow> 'v CCoinsViewCache \<Rightarrow>
    (amount_error + in_totals checked) \<times> 'v CCoinsViewCache" where
  "check_prevouts V state [] t pcoinsTip = (Inr (Inr t), pcoinsTip)"
| "check_prevouts V state (txin # ins) t pcoinsTip =
     (if COutPoint_IsNull (prevout txin) then (Inr (reject 10 ''bad-txns-prevout-null'' state), pcoinsTip)
      else case AccessCoin (cache_view V) (prevout txin) (mk_CCoinsViewCache pcoinsTip) of (cn, view) \<Rightarrow>
        if IsBDAP (out cn) then
          (case int64 (nCreditsIn t + nValue (out cn)) of
             Inl e \<Rightarrow> (Inl e, base view)
           | Inr n \<Rightarrow> check_prevouts V state ins (t\<lparr>vBdapCoins := vBdapCoins t @ [cn], inIsBDAP := True, nCreditsIn := n\<rparr>) (base view))
        else
          (case int64 (nStandardIn t + nValue (out cn)) of
             Inl e \<Rightarrow> (Inl e, base view)
           | Inr n \<Rightarrow> check_prevouts V state ins (t\<lparr>nStandardIn := n\<rparr>) (base view)))"

text \<open>The checks after the loops.\<close>

definition check_bdap :: "(bytes \<Rightarrow> 'a :: linorder) \<Rightarrow> 'a \<Rightarrow> CTransaction \<Rightarrow> CValidationState \<Rightarrow> in_totals \<Rightarrow> out_totals \<Rightarrow> amount_error + unit checked" where
  "check_bdap GetScriptAddress noAddress tx state i t =
     (if IsCoinBase tx \<and> nVersion tx = BDAP_TX_VERSION then Inr (reject 100 ''bdap-tx-can-not-be-coinbase'' state)
      else if (inIsBDAP i \<or> outIsBDAP t) \<and> nVersion tx \<noteq> BDAP_TX_VERSION then Inr (reject 100 ''incorrect-bdap-tx-version'' state)
      else if inIsBDAP i \<or> outIsBDAP t then
        ebind (CheckBDAPTxCreditUsage ENFORCE_BDAP_CREDIT_USE GetScriptAddress noAddress tx (vBdapCoins i) (nStandardIn i) (nCreditsIn i) (nStandardOut t) (nCreditsOut t))
          (\<lambda>ok. Inr (if ok then Inr () else reject 100 ''bad-bdap-credit-use'' state))
      else Inr (Inr ()))"

definition CheckTransaction :: "(bytes \<Rightarrow> 'a :: linorder) \<Rightarrow> 'a \<Rightarrow> fluid_env \<Rightarrow> 'v CCoinsView \<Rightarrow> CTransaction \<Rightarrow> CValidationState \<Rightarrow>
    'v CCoinsViewCache \<Rightarrow> (amount_error + unit checked) \<times> 'v CCoinsViewCache" where
  "CheckTransaction GetScriptAddress noAddress fl V tx state pcoinsTip =
     (if vin tx = [] then (Inr (reject 10 ''bad-txns-vin-empty'' state), pcoinsTip)
      else if vout tx = [] then (Inr (reject 10 ''bad-txns-vout-empty'' state), pcoinsTip)
      else if GetTotalSize tx > MAX_TX_SIZE then (Inr (reject 100 ''bad-txns-oversize'' state), pcoinsTip)
      else case check_outputs fl state (vout tx) \<lparr>nValueOut = 0, nStandardOut = 0, nCreditsOut = 0, outIsBDAP = False\<rparr> of
        Inl e \<Rightarrow> (Inl e, pcoinsTip)
      | Inr (Inl state) \<Rightarrow> (Inr (Inl state), pcoinsTip)
      | Inr (Inr t) \<Rightarrow>
          if \<not> distinct (map prevout (vin tx)) then (Inr (reject 100 ''bad-txns-inputs-duplicate'' state), pcoinsTip)
          else if IsCoinBase tx \<and> (length (scriptSig (hd (vin tx))) < 2 \<or> length (scriptSig (hd (vin tx))) > 100)
          then (Inr (reject 100 ''bad-cb-length'' state), pcoinsTip)
          else let i0 = \<lparr>nStandardIn = 0, nCreditsIn = 0, vBdapCoins = [], inIsBDAP = False\<rparr> in
            case (if IsCoinBase tx then (Inr (Inr i0), pcoinsTip) else check_prevouts V state (vin tx) i0 pcoinsTip) of
              (Inl e, pcoinsTip) \<Rightarrow> (Inl e, pcoinsTip)
            | (Inr (Inl state), pcoinsTip) \<Rightarrow> (Inr (Inl state), pcoinsTip)
            | (Inr (Inr i), pcoinsTip) \<Rightarrow> (check_bdap GetScriptAddress noAddress tx state i t, pcoinsTip))"

section \<open>The inputs of a transaction\<close>

definition COINBASE_MATURITY :: int where "COINBASE_MATURITY = 40"

fun check_values :: "'v CCoinsView \<Rightarrow> CValidationState \<Rightarrow> int \<Rightarrow> CTxIn list \<Rightarrow> int \<Rightarrow> 'v CCoinsViewCache \<Rightarrow> (amount_error + int checked) \<times> 'v CCoinsViewCache" where
  "check_values V state nSpendHeight [] nValueIn c = (Inr (Inr nValueIn), c)"
| "check_values V state nSpendHeight (txin # ins) nValueIn c =
     (case AccessCoin V (prevout txin) c of (cn, c) \<Rightarrow>
        if IsSpent cn then (Inl amount_error.AssertFailed, c)
        else if fCoinBase cn \<and> nSpendHeight - int (coin_nHeight cn) < COINBASE_MATURITY
        then (Inr (Inl (state_Invalid REJECT_INVALID ''bad-txns-premature-spend-of-coinbase'' state)), c)
        else case int64 (nValueIn + nValue (out cn)) of
          Inl e \<Rightarrow> (Inl e, c)
        | Inr nValueIn \<Rightarrow>
            if \<not> MoneyRange (nValue (out cn)) \<or> \<not> MoneyRange nValueIn
            then (Inr (reject 100 ''bad-txns-inputvalues-outofrange'' state), c)
            else check_values V state nSpendHeight ins nValueIn c)"

definition CheckTxInputs :: "'v CCoinsView \<Rightarrow> CTransaction \<Rightarrow> CValidationState \<Rightarrow> int \<Rightarrow> 'v CCoinsViewCache \<Rightarrow> (amount_error + unit checked) \<times> 'v CCoinsViewCache" where
  "CheckTxInputs V tx state nSpendHeight inputs =
     (case HaveInputs V tx inputs of
        (False, inputs) \<Rightarrow> (Inr (Inl (state_Invalid 0 '''' state)), inputs)
      | (True, inputs) \<Rightarrow>
          (case check_values V state nSpendHeight (vin tx) 0 inputs of
             (Inl e, inputs) \<Rightarrow> (Inl e, inputs)
           | (Inr (Inl state), inputs) \<Rightarrow> (Inr (Inl state), inputs)
           | (Inr (Inr nValueIn), inputs) \<Rightarrow>
               (ebind (GetValueOut tx) (\<lambda>nValueOut.
                  if nValueIn < nValueOut then Inr (reject 100 ''bad-txns-in-belowout'' state)
                  else ebind (int64 (nValueIn - nValueOut)) (\<lambda>nTxFee.
                    if nTxFee < 0 then Inr (reject 100 ''bad-txns-fee-negative'' state)
                    else if \<not> MoneyRange nTxFee then Inr (reject 100 ''bad-txns-fee-outofrange'' state)
                    else Inr (Inr ()))), inputs)))"

section \<open>Relative lock times\<close>

text \<open>What BIP 68 asks of an input whose coin has height \<open>h\<close>: the median time past of the parent of the block
  is at least the one before the coin plus the lock in units of 512 seconds, or the height of the block
  is at least that of the coin plus the lock.\<close>

definition relative_lock :: "CTxIn \<Rightarrow> int" where
  "relative_lock txin = uint (nSequence txin AND SEQUENCE_LOCKTIME_MASK)"

definition lock_passed :: "block_store \<Rightarrow> block_ptr \<Rightarrow> block_ptr \<Rightarrow> CTxIn \<Rightarrow> int \<Rightarrow> bool" where
  "lock_passed S block q txin h =
     (if nSequence txin AND SEQUENCE_LOCKTIME_DISABLE_FLAG \<noteq> 0 then True
      else if nSequence txin AND SEQUENCE_LOCKTIME_TYPE_FLAG \<noteq> 0
      then GetMedianTimePast S (the (back_by S (nHeight (S block) - nat (max (h - 1) 0)) block)) + 512 * relative_lock txin \<le> GetMedianTimePast S q
      else h + relative_lock txin \<le> int (nHeight (S block)))"

lemma lock_units: "uint (push_bit SEQUENCE_LOCKTIME_GRANULARITY (s AND SEQUENCE_LOCKTIME_MASK)) = 512 * uint (s AND SEQUENCE_LOCKTIME_MASK)" for s :: u32
proof -
  have "uint s AND 65535 = take_bit 16 (uint s)" by (simp add: take_bit_eq_mask mask_eq_exp_minus_1)
  then have "uint (s AND SEQUENCE_LOCKTIME_MASK) = uint s mod 2 ^ 16" by (simp add: SEQUENCE_LOCKTIME_MASK_def uint_and take_bit_eq_mod)
  then have "uint (s AND SEQUENCE_LOCKTIME_MASK) < 2 ^ 16" by simp
  then show ?thesis by (simp add: SEQUENCE_LOCKTIME_GRANULARITY_def push_bit_eq_mult uint_word_ariths)
qed

lemma GetMedianTimePast_nonneg: "0 \<le> GetMedianTimePast S p"
proof -
  let ?ts = "median_times S nMedianTimeSpan (Some p)"
  have "0 \<le> t" if "t \<in> set (median_times S n q)" for n q t
    using that by (induction S n q rule: median_times.induct) (auto simp: GetBlockTime_def)
  moreover have "length ?ts div 2 < length (sort ?ts)" using median_times_nonempty [of S p] by simp
  ultimately show ?thesis using nth_mem [of "length ?ts div 2" "sort ?ts"] by (simp add: GetMedianTimePast_def Let_def)
qed

lemma sequence_loop_locks:
  assumes tree: "block_tree S" "skips_ok S" and "length hs = length ins" "\<And>h. h \<in> set hs \<Longrightarrow> h \<le> int (nHeight (S block)) + 1"
  shows "\<exists>mh' mt' hs'. sequence_loop S block ins hs mh mt = Inr ((mh', mt'), hs') \<and>
    (mh' < int (nHeight (S block)) \<and> mt' < GetMedianTimePast S q \<longleftrightarrow>
     mh < int (nHeight (S block)) \<and> mt < GetMedianTimePast S q \<and> (\<forall>(i, h) \<in> set (zip ins hs). lock_passed S block q i h))"
  using assms(3,4)
proof (induction ins hs arbitrary: mh mt rule: list_induct2')
  case (4 i ins h hs)
  let ?H = "int (nHeight (S block))" and ?T = "GetMedianTimePast S q"
  have ih: "\<exists>mh' mt' hs'. sequence_loop S block ins hs mh mt = Inr ((mh', mt'), hs') \<and>
      (mh' < ?H \<and> mt' < ?T \<longleftrightarrow> mh < ?H \<and> mt < ?T \<and> (\<forall>(i, h) \<in> set (zip ins hs). lock_passed S block q i h))" for mh mt
    using 4 by simp
  consider (off) "nSequence i AND SEQUENCE_LOCKTIME_DISABLE_FLAG \<noteq> 0"
    | (time) "nSequence i AND SEQUENCE_LOCKTIME_DISABLE_FLAG = 0" "nSequence i AND SEQUENCE_LOCKTIME_TYPE_FLAG \<noteq> 0"
    | (height) "nSequence i AND SEQUENCE_LOCKTIME_DISABLE_FLAG = 0" "nSequence i AND SEQUENCE_LOCKTIME_TYPE_FLAG = 0" by blast
  then show ?case
  proof cases
    case off
    moreover from off have "lock_passed S block q i h" by (simp add: lock_passed_def)
    ultimately show ?thesis using ih [of mh mt] by auto
  next
    case time
    let ?h = "max (h - 1) 0"
    have hb: "?h \<le> ?H" using "4.prems"(2) [of h] by simp
    then obtain b where b: "back_by S (nHeight (S block) - nat ?h) block = Some b" using back_by_height [OF tree(1), of "nHeight (S block) - nat ?h" block] by auto
    then have "from_skip (GetAncestor S block ?h) = Inr (Some b)" using hb by (simp add: GetAncestor_back_by [OF tree] from_skip_def)
    moreover have "lock_passed S block q i h \<longleftrightarrow> GetMedianTimePast S b + 512 * relative_lock i - 1 < ?T" using time b by (auto simp: lock_passed_def)
    ultimately show ?thesis using time ih [of mh "max mt (GetMedianTimePast S b + 512 * relative_lock i - 1)"]
      by (auto simp: Let_def lock_units relative_lock_def simp del: push_bit_and)
  next
    case height
    then have "lock_passed S block q i h \<longleftrightarrow> h + relative_lock i - 1 < ?H" by (auto simp: lock_passed_def)
    then show ?thesis using height ih [of "max mh (h + relative_lock i - 1)" mt] by (auto simp: relative_lock_def)
  qed
qed auto

text \<open>C16. The relative lock times of a transaction are those of BIP 68: for a transaction of version 2 or more, read as
  unsigned, and with the flag set, \<open>SequenceLocks\<close> holds exactly when every input that does not disable
  its lock has passed it; otherwise it always holds.\<close>

theorem SequenceLocks_bip68:
  assumes "block_tree S" "skips_ok S" "pprev (S block) = Some q" "length prevHeights = length (vin tx)"
    "\<And>h. h \<in> set prevHeights \<Longrightarrow> h \<le> int (nHeight (S block)) + 1"
  shows "SequenceLocks S block tx lockFlags prevHeights = Inr ((2 :: u32) \<le> word_of_int (nVersion tx) \<and> lockFlags AND LOCKTIME_VERIFY_SEQUENCE \<noteq> 0 \<longrightarrow>
    (\<forall>(i, h) \<in> set (zip (vin tx) prevHeights). lock_passed S block q i h))"
proof (cases "(2 :: u32) \<le> word_of_int (nVersion tx) \<and> lockFlags AND LOCKTIME_VERIFY_SEQUENCE \<noteq> 0")
  case True
  have start: "- 1 < int (nHeight (S block))" "- 1 < GetMedianTimePast S q" using GetMedianTimePast_nonneg [of S q] by simp_all
  from sequence_loop_locks [OF assms(1,2,4,5), of "- 1" "- 1" q] obtain mh mt hs where
    r: "sequence_loop S block (vin tx) prevHeights (- 1) (- 1) = Inr ((mh, mt), hs)"
      "mh < int (nHeight (S block)) \<and> mt < GetMedianTimePast S q \<longleftrightarrow> (\<forall>(i, h) \<in> set (zip (vin tx) prevHeights). lock_passed S block q i h)"
    using start by blast
  have "SequenceLocks S block tx lockFlags prevHeights = Inr (mh < int (nHeight (S block)) \<and> mt < GetMedianTimePast S q)"
    using True assms(3,4) r(1) by (auto simp: SequenceLocks_def CalculateSequenceLocks_def EvaluateSequenceLocks_def)
  then show ?thesis using True r(2) by simp
next
  case False
  then show ?thesis using assms(3,4) GetMedianTimePast_nonneg [of S q]
    by (auto simp: SequenceLocks_def CalculateSequenceLocks_def EvaluateSequenceLocks_def)
qed

section \<open>Credits that are not enforced\<close>

lemma int64_ok [simp]: "0 \<le> v \<Longrightarrow> v < 2 ^ 63 \<Longrightarrow> int64 v = Inr v"
  by (simp add: int64_def in_int_def)

lemma sum_credits_exact:
  "(\<And>c. c \<in> set cs \<Longrightarrow> 0 \<le> credit_nValue c) \<Longrightarrow> 0 \<le> n \<Longrightarrow> n + sum_list (map credit_nValue cs) < 2 ^ 63 \<Longrightarrow>
   sum_credits cs n = Inr (n + sum_list (map credit_nValue cs))"
proof (induction cs arbitrary: n)
  case (Cons c cs)
  have "0 \<le> sum_list (map credit_nValue cs)" using Cons.prems(1) by (intro sum_list_nonneg) auto
  then have "int64 (n + credit_nValue c) = Inr (n + credit_nValue c)" using Cons.prems by (intro int64_ok) auto
  then show ?case using Cons.IH [of "n + credit_nValue c"] Cons.prems by (simp add: add.assoc)
qed simp

lemma mset_multimap_insert: "mset (multimap_insert e m) = add_mset e (mset m)"
proof -
  have "mset m = mset (takeWhile (\<lambda>x. fst x \<le> fst e) m) + mset (dropWhile (\<lambda>x. fst x \<le> fst e) m)"
    by (simp flip: mset_append)
  then show ?thesis by (simp add: multimap_insert_def)
qed

lemma mset_multimap_fold: "mset (fold multimap_insert es m) = mset es + mset m"
  by (induction es arbitrary: m) (simp_all add: mset_multimap_insert)

text \<open>What an iteration from \<open>find\<close> on adds up is at most the total.\<close>

lemma multimap_find_sum:
  assumes "\<And>e. e \<in> set es \<Longrightarrow> 0 \<le> credit_nValue (snd e)" "sum_list (map (\<lambda>e. credit_nValue (snd e)) es) < 2 ^ 63"
  shows "\<exists>v. sum_credits (map snd (multimap_find k (fold multimap_insert es []))) 0 = Inr v \<and> 0 \<le> v \<and> v < 2 ^ 63"
proof -
  let ?m = "fold multimap_insert es []" let ?v = "\<lambda>e. credit_nValue (snd e)"
  have m: "mset ?m = mset es" by (simp add: mset_multimap_fold)
  have nn: "0 \<le> ?v e" if "e \<in> set ?m" for e using assms(1) that mset_eq_setD [OF m] by blast
  have "sum_mset (image_mset ?v (mset ?m)) = sum_mset (image_mset ?v (mset es))" by (simp only: m)
  then have "sum_list (map ?v ?m) = sum_list (map ?v es)" by (simp only: mset_map [symmetric] sum_mset_sum_list)
  moreover have split: "sum_list (map ?v ?m) = sum_list (map ?v (takeWhile (\<lambda>x. fst x \<noteq> k) ?m)) + sum_list (map ?v (multimap_find k ?m))"
    unfolding multimap_find_def by (simp only: sum_list_append [symmetric] map_append [symmetric] takeWhile_dropWhile_id)
  moreover have "0 \<le> sum_list (map ?v (takeWhile (\<lambda>x. fst x \<noteq> k) ?m))" using nn by (intro sum_list_nonneg) (auto dest: set_takeWhileD)
  moreover have "0 \<le> ?v e" if "e \<in> set (multimap_find k ?m)" for e using nn [OF set_dropWhileD] that unfolding multimap_find_def by blast
  moreover from this have "0 \<le> sum_list (map ?v (multimap_find k ?m))" by (intro sum_list_nonneg) auto
  ultimately show ?thesis using assms(2) by (subst sum_credits_exact) (auto simp: comp_def)
qed

lemma credit_address_unenforced:
  assumes "\<And>e. e \<in> set ins \<Longrightarrow> 0 \<le> credit_nValue (snd e)" "sum_list (map (\<lambda>e. credit_nValue (snd e)) ins) < 2 ^ 63"
    "\<And>e. e \<in> set outs \<Longrightarrow> 0 \<le> credit_nValue (snd e)" "sum_list (map (\<lambda>e. credit_nValue (snd e)) outs) < 2 ^ 63"
    "0 \<le> nIn" "nIn < 2 ^ 63" "0 \<le> nOut" "nOut < 2 ^ 63"
  shows "credit_address_ok False (fold multimap_insert ins []) (fold multimap_insert outs []) a nIn nOut = Inr True"
proof -
  obtain v w where v: "sum_credits (map snd (multimap_find a (fold multimap_insert ins []))) 0 = Inr v" "0 \<le> v" "v < 2 ^ 63"
    and w: "sum_credits (map snd (multimap_find a (fold multimap_insert outs []))) 0 = Inr w" "0 \<le> w" "w < 2 ^ 63"
    using multimap_find_sum [OF assms(1,2), of a] multimap_find_sum [OF assms(3,4), of a] by auto
  have "int64 (v - w) = Inr (v - w)" "int64 (nIn - nOut) = Inr (nIn - nOut)" using v w assms(5-8) by (simp_all add: int64_def in_int_def)
  then show ?thesis using v w by (simp add: credit_address_ok_def)
qed

text \<open>A coin that moves an asset names the chain and BDAP as source and destination.\<close>

definition credit_named :: "Coin \<Rightarrow> bool" where
  "credit_named cn \<longleftrightarrow> (OpType (bdap_credit (out cn)) = ''bdap_move_asset'' \<longrightarrow>
     vParameters (bdap_credit (out cn)) = [map of_char ''0DYNC'', map of_char ''BDAP''])"

lemma all_ok_Inr: "(\<And>x. x \<in> set xs \<Longrightarrow> f x = Inr (P x)) \<Longrightarrow> all_ok f xs = Inr (\<forall>x \<in> set xs. P x)"
  by (induction xs) auto

lemma credit_nValue_simps [simp]: "credit_nValue (bdap_credit txout) = nValue txout" "credit_nValue (snd (output_credit g n txout)) = nValue txout"
  by (simp_all add: bdap_credit_def output_credit_def split: prod.split)

lemma CheckBDAPTxCreditUsage_off:
  assumes coins: "\<And>cn. cn \<in> set cs \<Longrightarrow> 0 \<le> nValue (out cn)" "sum_list (map (\<lambda>cn. nValue (out cn)) cs) < 2 ^ 63"
    and outs: "\<And>txout. txout \<in> set (vout tx) \<Longrightarrow> 0 \<le> nValue txout" "sum_list (map nValue (vout tx)) < 2 ^ 63"
    and amounts: "0 \<le> nIn" "nIn < 2 ^ 63" "0 \<le> nOut" "nOut < 2 ^ 63"
  shows "CheckBDAPTxCreditUsage False g a tx cs nStd nIn nStdOut nOut = Inr (cs = [] \<or> nIn = 0 \<or> (\<forall>cn \<in> set cs. credit_named cn))"
proof -
  let ?in = "\<lambda>cn. (g (scriptPubKey (out cn)), bdap_credit (out cn))" and ?out = "output_credit g a"
  let ?ins = "map ?in cs" and ?outs = "map ?out (vout tx)"
  have addr: "credit_address_ok False (fold multimap_insert ?ins []) (fold multimap_insert ?outs []) k nIn nOut = Inr True" for k
    by (rule credit_address_unenforced) (use coins outs amounts in \<open>auto simp: comp_def\<close>)
  have "credit_ok False (fold multimap_insert ?ins []) (fold multimap_insert ?outs []) nIn nOut (?in cn) = Inr (credit_named cn)" for cn
    by (auto simp: credit_ok_def addr credit_named_def)
  then have "all_ok (credit_ok False (fold multimap_insert ?ins []) (fold multimap_insert ?outs []) nIn nOut) ?ins = Inr (\<forall>e \<in> set ?ins. \<exists>cn. e = ?in cn \<and> credit_named cn)"
    by (intro all_ok_Inr) (auto simp: credit_named_def)
  moreover have "(\<forall>e \<in> set ?ins. \<exists>cn. e = ?in cn \<and> credit_named cn) \<longleftrightarrow> (\<forall>cn \<in> set cs. credit_named cn)" by (auto simp: credit_named_def)
  ultimately show ?thesis by (simp add: CheckBDAPTxCreditUsage_def Let_def)
qed

section \<open>Which transactions pass\<close>

definition fluid_valid :: "fluid_env \<Rightarrow> bytes \<Rightarrow> bool" where
  "fluid_valid fl script \<longleftrightarrow> CheckIfQuorumExists fl script \<and> (IsProtocolInstruction script MINT_TX = Inr True \<longrightarrow> ParseMintKey fl script) \<and>
     (IsProtocolInstruction script MASTERNODE_MODFIY_TX = Inr True \<or> IsProtocolInstruction script MINING_MODIFY_TX = Inr True \<longrightarrow>
        GenericParseNumber fl script)"

definition output_ok :: "fluid_env \<Rightarrow> CTxOut \<Rightarrow> bool" where
  "output_ok fl txout \<longleftrightarrow> 0 \<le> nValue txout \<and>
     (IsTransactionFluid (scriptPubKey txout) \<longrightarrow> FLUID_TRANSACTION_COST \<le> nValue txout \<and> fluid_valid fl (scriptPubKey txout))"

text \<open>A check that goes on with \<open>v\<close> exactly when \<open>P\<close> holds, and otherwise rejects.\<close>

definition passes :: "bool \<Rightarrow> 'a \<Rightarrow> 'e + 'a checked \<Rightarrow> bool" where
  "passes P v r \<longleftrightarrow> (if P then r = Inr (Inr v) else \<exists>state. r = Inr (Inl state))"

lemma passes_reject [simp]: "passes P v (Inr (reject level reason state)) \<longleftrightarrow> \<not> P"
  by (simp add: passes_def reject_def)

lemma ValidationProcesses_iff:
  "IsTransactionFluid script \<Longrightarrow> \<exists>state'. ValidationProcesses fl script state = (if fluid_valid fl script then Inr () else Inl state')"
  by (auto simp: ValidationProcesses_def fluid_valid_def)

definition sum_out :: "(CTxOut \<Rightarrow> bool) \<Rightarrow> CTxOut list \<Rightarrow> int" where
  "sum_out P outs = sum_list (map nValue (filter P outs))"

definition out_sums :: "CTxOut list \<Rightarrow> out_totals \<Rightarrow> out_totals" where
  "out_sums outs t = \<lparr>nValueOut = nValueOut t + sum_list (map nValue outs),
     nStandardOut = nStandardOut t + sum_out (\<lambda>o'. \<not> IsBDAP o' \<and> \<not> IsData o') outs,
     nCreditsOut = nCreditsOut t + sum_out IsBDAP outs, outIsBDAP = (outIsBDAP t \<or> (\<exists>o' \<in> set outs. IsBDAP o'))\<rparr>"

lemma check_outputs_spec:
  assumes "0 \<le> nValueOut t" "nValueOut t + sum_list (map (\<lambda>o'. max (nValue o') 0) outs) < 2 ^ 63"
  shows "passes (\<forall>o' \<in> set outs. output_ok fl o') (out_sums outs t) (check_outputs fl state outs t)"
  using assms
proof (induction outs arbitrary: t)
  case Nil
  then show ?case by (simp add: passes_def out_sums_def sum_out_def)
next
  case (Cons txout outs)
  show ?case
  proof (cases "0 \<le> nValue txout")
    case False
    then show ?thesis by (simp add: output_ok_def)
  next
    case pos: True
    have nn: "0 \<le> sum_list (map (\<lambda>o'. max (nValue o') 0) outs)" by (intro sum_list_nonneg) auto
    have total: "int64 (nValueOut t + nValue txout) = Inr (nValueOut t + nValue txout)" "MoneyRange (nValueOut t + nValue txout)" "\<not> nValue txout > MAX_MONEY"
      using Cons.prems pos nn by (auto simp: MoneyRange_def MAX_MONEY_def int64_def in_int_def)
    show ?thesis
    proof (cases "output_ok fl txout")
      case True
      define t1 where "t1 = (let t = t\<lparr>nValueOut := nValueOut t + nValue txout\<rparr> in
               if IsBDAP txout then t\<lparr>outIsBDAP := True, nCreditsOut := nCreditsOut t + nValue txout\<rparr>
               else if IsData txout then t
               else t\<lparr>nStandardOut := nStandardOut t + nValue txout\<rparr>)"
      have fluid: "(if IsTransactionFluid (scriptPubKey txout) then ValidationProcesses fl (scriptPubKey txout) state else Inr ()) = Inr ()"
        "\<not> (IsTransactionFluid (scriptPubKey txout) \<and> FLUID_TRANSACTION_COST > nValue txout)"
        using True ValidationProcesses_iff [of "scriptPubKey txout" fl state] by (auto simp: output_ok_def)
      have eq: "check_outputs fl state (txout # outs) t = check_outputs fl state outs t1"
        using pos total fluid unfolding t1_def by (cases "IsTransactionFluid (scriptPubKey txout)") simp_all
      have "nValueOut t1 = nValueOut t + nValue txout" by (simp add: t1_def Let_def)
      then have "passes (\<forall>o' \<in> set outs. output_ok fl o') (out_sums outs t1) (check_outputs fl state outs t1)" using Cons.IH [of t1] Cons.prems pos by simp
      moreover have "out_sums outs t1 = out_sums (txout # outs) t" by (simp add: t1_def out_sums_def sum_out_def Let_def)
      ultimately show ?thesis unfolding eq using True by simp
    next
      case False
      then have "\<not> (\<forall>o' \<in> set (txout # outs). output_ok fl o')" by simp
      then show ?thesis using False pos total ValidationProcesses_iff [of "scriptPubKey txout" fl state]
        by (auto simp: passes_def reject_def output_ok_def split: sum.splits)
    qed
  qed
qed

text \<open>The coins that the inputs spend, and their totals.\<close>

definition coin_at :: "(COutPoint \<Rightarrow> Coin option) \<Rightarrow> CTxIn \<Rightarrow> Coin" where
  "coin_at u i = the (u (prevout i))"

definition coin_value :: "(COutPoint \<Rightarrow> Coin option) \<Rightarrow> CTxIn \<Rightarrow> int" where
  "coin_value u i = (case u (prevout i) of None \<Rightarrow> 0 | Some cn \<Rightarrow> nValue (out cn))"

definition bdap_coins :: "Coin list \<Rightarrow> Coin list" where
  "bdap_coins cs = filter (\<lambda>cn. IsBDAP (out cn)) cs"

definition in_sums :: "Coin list \<Rightarrow> in_totals \<Rightarrow> in_totals" where
  "in_sums cs t = \<lparr>nStandardIn = nStandardIn t + sum_list (map (\<lambda>cn. nValue (out cn)) (filter (\<lambda>cn. \<not> IsBDAP (out cn)) cs)),
     nCreditsIn = nCreditsIn t + sum_list (map (\<lambda>cn. nValue (out cn)) (bdap_coins cs)), vBdapCoins = vBdapCoins t @ bdap_coins cs,
     inIsBDAP = (inIsBDAP t \<or> bdap_coins cs \<noteq> [])\<rparr>"

definition tx_ok :: "fluid_env \<Rightarrow> (COutPoint \<Rightarrow> Coin option) \<Rightarrow> CTransaction \<Rightarrow> bool" where
  "tx_ok fl u tx \<longleftrightarrow> vin tx \<noteq> [] \<and> vout tx \<noteq> [] \<and> GetTotalSize tx \<le> MAX_TX_SIZE \<and> (\<forall>o' \<in> set (vout tx). output_ok fl o') \<and> distinct (map prevout (vin tx)) \<and>
     (if IsCoinBase tx
      then length (scriptSig (hd (vin tx))) \<in> {2..100} \<and> nVersion tx \<noteq> BDAP_TX_VERSION \<and> \<not> (\<exists>o' \<in> set (vout tx). IsBDAP o')
      else (\<forall>i \<in> set (vin tx). \<not> COutPoint_IsNull (prevout i)) \<and>
           (let cs = bdap_coins (map (coin_at u) (vin tx)) in
            cs \<noteq> [] \<or> (\<exists>o' \<in> set (vout tx). IsBDAP o') \<longrightarrow>
            nVersion tx = BDAP_TX_VERSION \<and> (sum_list (map (\<lambda>cn. nValue (out cn)) cs) = 0 \<or> (\<forall>cn \<in> set cs. credit_named cn))))"

text \<open>The amounts of a transaction that no sum of them leaves 64 bits, and whose coins exist.\<close>

definition amounts_fit :: "(COutPoint \<Rightarrow> Coin option) \<Rightarrow> CTransaction \<Rightarrow> bool" where
  "amounts_fit u tx \<longleftrightarrow> sum_list (map (\<lambda>o'. max (nValue o') 0) (vout tx)) < 2 ^ 63 \<and> (\<forall>o' cn. u o' = Some cn \<longrightarrow> 0 \<le> nValue (out cn)) \<and>
     (\<not> IsCoinBase tx \<longrightarrow> sum_list (map (coin_value u) (vin tx)) < 2 ^ 63 \<and> (\<forall>i \<in> set (vin tx). \<not> COutPoint_IsNull (prevout i) \<longrightarrow> u (prevout i) \<noteq> None))"

lemma sum_filter_le:
  "(\<And>x. x \<in> set xs \<Longrightarrow> (0 :: int) \<le> f x) \<Longrightarrow> 0 \<le> sum_list (map f (filter P xs)) \<and> sum_list (map f (filter P xs)) \<le> sum_list (map f xs)"
  by (induction xs) (auto, fastforce+)

lemma check_bdap_spec:
  assumes cs: "\<And>cn. cn \<in> set cs \<Longrightarrow> 0 \<le> nValue (out cn)" "sum_list (map (\<lambda>cn. nValue (out cn)) cs) < 2 ^ 63"
    and outs: "\<And>o'. o' \<in> set (vout tx) \<Longrightarrow> 0 \<le> nValue o'" "sum_list (map nValue (vout tx)) < 2 ^ 63"
    and t: "nCreditsOut t = sum_out IsBDAP (vout tx)" "outIsBDAP t \<longleftrightarrow> (\<exists>o' \<in> set (vout tx). IsBDAP o')"
    and i: "vBdapCoins i = bdap_coins cs" "inIsBDAP i \<longleftrightarrow> bdap_coins cs \<noteq> []" "nCreditsIn i = sum_list (map (\<lambda>cn. nValue (out cn)) (bdap_coins cs))"
  shows "passes ((IsCoinBase tx \<longrightarrow> nVersion tx \<noteq> BDAP_TX_VERSION) \<and>
     (bdap_coins cs \<noteq> [] \<or> (\<exists>o' \<in> set (vout tx). IsBDAP o') \<longrightarrow> nVersion tx = BDAP_TX_VERSION \<and>
        (sum_list (map (\<lambda>cn. nValue (out cn)) (bdap_coins cs)) = 0 \<or> (\<forall>cn \<in> set (bdap_coins cs). credit_named cn)))) () (check_bdap g a tx state i t)"
proof -
  have in_le: "0 \<le> nCreditsIn i" "nCreditsIn i < 2 ^ 63"
    using sum_filter_le [of cs "\<lambda>cn. nValue (out cn)" "\<lambda>cn. IsBDAP (out cn)"] cs unfolding i(3) bdap_coins_def by auto
  have out_le: "0 \<le> nCreditsOut t" "nCreditsOut t < 2 ^ 63" using sum_filter_le [of "vout tx" nValue IsBDAP] outs unfolding t(1) sum_out_def by auto
  have cr: "CheckBDAPTxCreditUsage False g a tx (bdap_coins cs) (nStandardIn i) (nCreditsIn i) (nStandardOut t) (nCreditsOut t) =
      Inr (bdap_coins cs = [] \<or> nCreditsIn i = 0 \<or> (\<forall>cn \<in> set (bdap_coins cs). credit_named cn))"
    by (rule CheckBDAPTxCreditUsage_off) (use cs(1) outs in_le out_le i(3) in \<open>auto simp: bdap_coins_def\<close>)
  show ?thesis using cr by (auto simp: passes_def check_bdap_def reject_def t(2) i ENFORCE_BDAP_CREDIT_USE_def)
qed

text \<open>The inputs of a transaction whose outputs are worth \<open>v\<close>: every coin exists, a coin of a coinbase is 40 blocks deep,
  and together they are worth at least \<open>v\<close>.\<close>

definition mature :: "int \<Rightarrow> Coin \<Rightarrow> bool" where
  "mature h cn \<longleftrightarrow> (fCoinBase cn \<longrightarrow> COINBASE_MATURITY \<le> h - int (coin_nHeight cn))"

definition inputs_ok :: "(COutPoint \<Rightarrow> Coin option) \<Rightarrow> int \<Rightarrow> CTransaction \<Rightarrow> int \<Rightarrow> bool" where
  "inputs_ok u h tx v \<longleftrightarrow> (\<forall>i \<in> set (vin tx). u (prevout i) \<noteq> None \<and> mature h (coin_at u i)) \<and> v \<le> sum_list (map (coin_value u) (vin tx))"

lemma GetValueOut_loop_range: "GetValueOut_loop outs n = Inr v \<Longrightarrow> MoneyRange n \<Longrightarrow> MoneyRange v"
  by (induction outs arbitrary: n) (auto simp: ebind_eq_Inr split: if_splits)

lemma GetValueOut_range: "GetValueOut tx = Inr v \<Longrightarrow> MoneyRange v"
  using GetValueOut_loop_range [of "vout tx" 0 v] by (simp add: GetValueOut_def MoneyRange_def MAX_MONEY_def)

context coins_view
begin

lemma tip_access:
  assumes "cinv c" "AccessCoin (cache_view V) o' (mk_CCoinsViewCache c) = (cn, view)"
  shows "cinv (base view) \<and> coins (base view) = coins c \<and> coin_opt cn = coins c o'"
proof -
  obtain ok tmp b where g: "GetCoin V o' c = (ok, tmp, b)" by (rule prod_cases3)
  have "base view = b" "cn = (if ok then tmp else coinEmpty)" using assms(2) g
    by (auto simp: AccessCoin_def FetchCoin_def mk_CCoinsViewCache_def cache_view_def cache_ops Let_def split: if_splits)
  then show ?thesis using GetCoin_spec [OF assms(1) g] coins_unspent [OF assms(1), of o' tmp] by (auto simp: coin_opt_def coinEmpty_def)
qed

lemma check_prevouts_spec:
  assumes "cinv c" "\<forall>o' cn. coins c o' = Some cn \<longrightarrow> 0 \<le> nValue (out cn)" "\<forall>i \<in> set ins. \<not> COutPoint_IsNull (prevout i) \<longrightarrow> coins c (prevout i) \<noteq> None"
    "0 \<le> nStandardIn t" "0 \<le> nCreditsIn t" "nStandardIn t + nCreditsIn t + sum_list (map (coin_value (coins c)) ins) < 2 ^ 63"
  shows "\<exists>r c'. check_prevouts V state ins t c = (r, c') \<and>
    passes (\<forall>i \<in> set ins. \<not> COutPoint_IsNull (prevout i)) (in_sums (map (coin_at (coins c)) ins) t) r \<and> cinv c' \<and> coins c' = coins c"
  using assms
proof (induction ins arbitrary: t c)
  case Nil
  then show ?case by (simp add: passes_def in_sums_def bdap_coins_def)
next
  case (Cons i ins)
  show ?case
  proof (cases "COutPoint_IsNull (prevout i)")
    case True
    then show ?thesis using Cons.prems(1) by simp
  next
    case False
    obtain cn view where a: "AccessCoin (cache_view V) (prevout i) (mk_CCoinsViewCache c) = (cn, view)" by fastforce
    note t = tip_access [OF Cons.prems(1) a]
    have cn: "coins c (prevout i) = Some cn" using t Cons.prems(3) False by (auto simp: coin_opt_def split: if_splits)
    then have v: "coin_at (coins c) i = cn" "coin_value (coins c) i = nValue (out cn)" "0 \<le> nValue (out cn)"
      using Cons.prems(2) by (auto simp: coin_at_def coin_value_def)
    have "0 \<le> sum_list (map (coin_value (coins c)) ins)"
      using Cons.prems(2) by (intro sum_list_nonneg) (auto simp: coin_value_def split: option.split)
    then have ok: "int64 (nCreditsIn t + nValue (out cn)) = Inr (nCreditsIn t + nValue (out cn))" "int64 (nStandardIn t + nValue (out cn)) = Inr (nStandardIn t + nValue (out cn))"
      using Cons.prems(4-6) v by (simp_all add: int64_def in_int_def)
    define t1 where "t1 = (if IsBDAP (out cn) then t\<lparr>vBdapCoins := vBdapCoins t @ [cn], inIsBDAP := True, nCreditsIn := nCreditsIn t + nValue (out cn)\<rparr>
      else t\<lparr>nStandardIn := nStandardIn t + nValue (out cn)\<rparr>)"
    have eq: "check_prevouts V state (i # ins) t c = check_prevouts V state ins t1 (base view)" using False a ok by (simp add: t1_def)
    have same: "coins (base view) = coins c" "cinv (base view)" using t by simp_all
    have b: "0 \<le> nStandardIn t1" "0 \<le> nCreditsIn t1" "nStandardIn t1 + nCreditsIn t1 + sum_list (map (coin_value (coins c)) ins) < 2 ^ 63"
      using Cons.prems(4-6) v by (simp_all add: t1_def)
    have "\<forall>i \<in> set ins. \<not> COutPoint_IsNull (prevout i) \<longrightarrow> coins c (prevout i) \<noteq> None" using Cons.prems(3) by simp
    from Cons.IH [of "base view" t1, unfolded same(1), OF same(2) Cons.prems(2) this b] obtain r c' where
      r: "check_prevouts V state ins t1 (base view) = (r, c')" "passes (\<forall>i \<in> set ins. \<not> COutPoint_IsNull (prevout i)) (in_sums (map (coin_at (coins c)) ins) t1) r"
        "cinv c'" "coins c' = coins c" by blast
    have "in_sums (map (coin_at (coins c)) ins) t1 = in_sums (map (coin_at (coins c)) (i # ins)) t" by (simp add: in_sums_def bdap_coins_def t1_def v(1))
    then show ?thesis unfolding eq r(1) using r(2-4) False by simp
  qed
qed

lemma CheckTransaction_spec:
  assumes c: "cinv c" and fit: "amounts_fit (coins c) tx"
  shows "\<exists>r c'. CheckTransaction g a fl V tx state c = (r, c') \<and> passes (tx_ok fl (coins c) tx) () r \<and> cinv c' \<and> coins c' = coins c"
proof -
  let ?t0 = "\<lparr>nValueOut = 0, nStandardOut = 0, nCreditsOut = 0, outIsBDAP = False\<rparr>" and ?i0 = "\<lparr>nStandardIn = 0, nCreditsIn = 0, vBdapCoins = [], inIsBDAP = False\<rparr>"
  define t1 where "t1 = out_sums (vout tx) ?t0"
  have t1: "nCreditsOut t1 = sum_out IsBDAP (vout tx)" "outIsBDAP t1 \<longleftrightarrow> (\<exists>o' \<in> set (vout tx). IsBDAP o')" by (simp_all add: t1_def out_sums_def)
  have o: "passes (\<forall>o' \<in> set (vout tx). output_ok fl o') t1 (check_outputs fl state (vout tx) ?t0)"
    unfolding t1_def using check_outputs_spec [of ?t0 "vout tx" fl state] fit by (simp add: amounts_fit_def)
  show ?thesis
  proof (cases "vin tx = [] \<or> vout tx = [] \<or> GetTotalSize tx > MAX_TX_SIZE \<or> \<not> (\<forall>o' \<in> set (vout tx). output_ok fl o') \<or> \<not> distinct (map prevout (vin tx))")
    case True
    then have "\<not> tx_ok fl (coins c) tx" by (auto simp: tx_ok_def)
    then show ?thesis using True c o by (auto simp: CheckTransaction_def passes_def reject_def split: if_splits)
  next
    case ok: False
    then have nn: "0 \<le> nValue o'" if "o' \<in> set (vout tx)" for o' using that by (auto simp: output_ok_def)
    have same: "map (\<lambda>o'. max (nValue o') 0) (vout tx) = map nValue (vout tx)" using nn by auto
    have outs: "sum_list (map nValue (vout tx)) < 2 ^ 63" using fit unfolding amounts_fit_def same by blast
    note bdap = check_bdap_spec [OF _ _ nn outs t1, where g = g and a = a and state = state]
    have o': "check_outputs fl state (vout tx) ?t0 = Inr (Inr t1)" using o ok by (simp add: passes_def)
    show ?thesis
    proof (cases "IsCoinBase tx")
      case True
      have "passes (nVersion tx \<noteq> BDAP_TX_VERSION \<and> \<not> (\<exists>o' \<in> set (vout tx). IsBDAP o')) () (check_bdap g a tx state ?i0 t1)"
        using bdap [of "[]" ?i0] True by (auto simp: bdap_coins_def passes_def split: if_splits)
      then show ?thesis using ok True o' c by (auto simp: CheckTransaction_def tx_ok_def Let_def passes_def reject_def)
    next
      case False
      let ?cs = "map (coin_at (coins c)) (vin tx)"
      have fits: "\<forall>o' cn. coins c o' = Some cn \<longrightarrow> 0 \<le> nValue (out cn)" "sum_list (map (coin_value (coins c)) (vin tx)) < 2 ^ 63"
        "\<forall>i \<in> set (vin tx). \<not> COutPoint_IsNull (prevout i) \<longrightarrow> coins c (prevout i) \<noteq> None" using fit False by (simp_all add: amounts_fit_def)
      obtain r c' where p: "check_prevouts V state (vin tx) ?i0 c = (r, c')"
          "passes (\<forall>i \<in> set (vin tx). \<not> COutPoint_IsNull (prevout i)) (in_sums ?cs ?i0) r" "cinv c'" "coins c' = coins c"
        using check_prevouts_spec [OF c fits(1,3), of ?i0 state] fits(2) by auto
      have eq: "CheckTransaction g a fl V tx state c = (case r of Inl e \<Rightarrow> (Inl e, c') | Inr (Inl state) \<Rightarrow> (Inr (Inl state), c')
          | Inr (Inr i) \<Rightarrow> (check_bdap g a tx state i t1, c'))"
        using ok False o' p(1) by (simp add: CheckTransaction_def Let_def split: sum.split)
      show ?thesis
      proof (cases "\<forall>i \<in> set (vin tx). \<not> COutPoint_IsNull (prevout i)")
        case nonnull: True
        have val: "coin_value (coins c) i = nValue (out (coin_at (coins c) i))" "0 \<le> nValue (out (coin_at (coins c) i))" if "i \<in> set (vin tx)" for i
          using that nonnull fits(1,3) by (auto simp: coin_value_def coin_at_def)
        have vals: "map (coin_value (coins c)) (vin tx) = map (\<lambda>cn. nValue (out cn)) ?cs" using val by simp
        have sum: "sum_list (map (\<lambda>cn. nValue (out cn)) ?cs) < 2 ^ 63" using fits(2) unfolding vals .
        have nncs: "0 \<le> nValue (out cn)" if "cn \<in> set ?cs" for cn using that val(2) by auto
        have "r = Inr (Inr (in_sums ?cs ?i0))" using p(2) nonnull by (simp add: passes_def)
        moreover have "passes (tx_ok fl (coins c) tx) () (check_bdap g a tx state (in_sums ?cs ?i0) t1)"
          using bdap [OF nncs sum, of "in_sums ?cs ?i0"] ok False nonnull by (simp add: in_sums_def tx_ok_def Let_def)
        ultimately show ?thesis using eq p(3,4) by simp
      next
        case null: False
        then have "\<not> tx_ok fl (coins c) tx" using False by (auto simp: tx_ok_def)
        then show ?thesis using eq p(2-4) null by (auto simp: passes_def)
      qed
    qed
  qed
qed

lemma check_values_spec:
  assumes "cinv c" "\<forall>i \<in> set ins. \<exists>cn. coins c (prevout i) = Some cn \<and> 0 \<le> nValue (out cn)" "0 \<le> n" "n + sum_list (map (coin_value (coins c)) ins) < 2 ^ 63"
  shows "\<exists>r c'. check_values V state h ins n c = (r, c') \<and>
    passes (\<forall>i \<in> set ins. mature h (coin_at (coins c) i)) (n + sum_list (map (coin_value (coins c)) ins)) r \<and> cinv c' \<and> coins c' = coins c"
  using assms
proof (induction ins arbitrary: n c)
  case Nil
  then show ?case by (simp add: passes_def)
next
  case (Cons i ins)
  obtain cn c1 where a: "AccessCoin V (prevout i) c = (cn, c1)" by fastforce
  note as = AccessCoin_spec [OF Cons.prems(1) a]
  then have cn: "coins c (prevout i) = Some cn" "\<not> IsSpent cn" "0 \<le> nValue (out cn)"
    using Cons.prems(2) by (auto simp: coin_opt_def split: if_splits)
  then have v: "coin_at (coins c) i = cn" "coin_value (coins c) i = nValue (out cn)" by (simp_all add: coin_at_def coin_value_def)
  have "0 \<le> sum_list (map (coin_value (coins c)) ins)"
    using Cons.prems(2) by (intro sum_list_nonneg) (auto simp: coin_value_def)
  then have ok: "int64 (n + nValue (out cn)) = Inr (n + nValue (out cn))" "MoneyRange (nValue (out cn))" "MoneyRange (n + nValue (out cn))"
    using Cons.prems(3,4) v cn(3) by (simp_all add: int64_def in_int_def MoneyRange_def MAX_MONEY_def)
  show ?case
  proof (cases "mature h cn")
    case False
    then show ?thesis using a cn as v by (simp add: passes_def mature_def)
  next
    case True
    have same: "coins c1 = coins c" "cinv c1" using as by simp_all
    have "\<forall>i \<in> set ins. \<exists>cn. coins c (prevout i) = Some cn \<and> 0 \<le> nValue (out cn)" "0 \<le> n + nValue (out cn)"
      "n + nValue (out cn) + sum_list (map (coin_value (coins c)) ins) < 2 ^ 63" using Cons.prems v cn(3) by simp_all
    from Cons.IH [of c1 "n + nValue (out cn)", unfolded same(1), OF same(2) this] show ?thesis
      using a cn(2) ok True v by (auto simp: mature_def add.assoc)
  qed
qed

lemma CheckTxInputs_spec:
  assumes c: "cinv c" and tx: "\<not> IsCoinBase tx" "GetValueOut tx = Inr v"
    and vals: "\<forall>o' cn. coins c o' = Some cn \<longrightarrow> 0 \<le> nValue (out cn)" "sum_list (map (coin_value (coins c)) (vin tx)) < 2 ^ 63"
  shows "\<exists>r c'. CheckTxInputs V tx state h c = (r, c') \<and> cinv c' \<and> coins c' = coins c \<and>
    passes (inputs_ok (coins c) h tx v) () r"
proof -
  obtain ok c1 where h: "HaveInputs_loop V (vin tx) c = (ok, c1)" by fastforce
  note hs = HaveInputs_loop_spec [OF c h]
  show ?thesis
  proof (cases ok)
    case False
    then have "CheckTxInputs V tx state h c = (Inr (Inl (state_Invalid 0 '''' state)), c1)" using h tx(1) by (simp add: CheckTxInputs_def HaveInputs_def)
    moreover have "\<not> inputs_ok (coins c) h tx v" using hs False unfolding inputs_ok_def by blast
    ultimately show ?thesis using hs by (simp add: passes_def)
  next
    case True
    then have all: "\<forall>i \<in> set (vin tx). \<exists>cn. coins c (prevout i) = Some cn \<and> 0 \<le> nValue (out cn)" using hs vals(1) by auto
    have same: "coins c1 = coins c" "cinv c1" using hs by simp_all
    let ?n = "sum_list (map (coin_value (coins c)) (vin tx))"
    have nn: "0 \<le> ?n" using vals(1) by (intro sum_list_nonneg) (auto simp: coin_value_def split: option.split)
    from check_values_spec [of c1 "vin tx" 0 state h, unfolded same(1), OF same(2) all] vals(2) obtain r c' where
      r: "check_values V state h (vin tx) 0 c1 = (r, c')" "passes (\<forall>i \<in> set (vin tx). mature h (coin_at (coins c) i)) ?n r" "cinv c'" "coins c' = coins c" by auto
    have v: "0 \<le> v" using GetValueOut_range [OF tx(2)] by (simp add: MoneyRange_def)
    have fee: "int64 (?n - v) = Inr (?n - v)" "\<not> ?n - v < 0" "MoneyRange (?n - v)" if "\<not> ?n < v"
      using that v nn vals(2) by (simp_all add: int64_def in_int_def MoneyRange_def MAX_MONEY_def)
    have eq: "CheckTxInputs V tx state h c = (case r of Inl e \<Rightarrow> (Inl e, c') | Inr (Inl state) \<Rightarrow> (Inr (Inl state), c')
        | Inr (Inr n) \<Rightarrow> (if n < v then Inr (reject 100 ''bad-txns-in-belowout'' state) else ebind (int64 (n - v)) (\<lambda>nTxFee.
             if nTxFee < 0 then Inr (reject 100 ''bad-txns-fee-negative'' state)
             else if \<not> MoneyRange nTxFee then Inr (reject 100 ''bad-txns-fee-outofrange'' state) else Inr (Inr ())), c'))"
      using True h tx r(1) by (simp add: CheckTxInputs_def HaveInputs_def split: sum.split)
    have cond: "inputs_ok (coins c) h tx v \<longleftrightarrow> (\<forall>i \<in> set (vin tx). mature h (coin_at (coins c) i)) \<and> \<not> ?n < v" using all by (auto simp: inputs_ok_def)
    show ?thesis using eq r(2-4) fee unfolding cond by (cases "\<forall>i \<in> set (vin tx). mature h (coin_at (coins c) i)") (auto simp: passes_def reject_def)
  qed
qed

end



section \<open>Examples\<close>

definition open_fluid :: fluid_env where
  "open_fluid = \<lparr>CheckTransactionInRecord = (\<lambda>_ _. False), CheckFluidOperationScript = (\<lambda>_ _. True), CheckIfQuorumExists = (\<lambda>_. True),
     ParseMintKey = (\<lambda>_. True), GenericParseNumber = (\<lambda>_. True)\<rparr>"

lemma spending_tx_fits: "amounts_fit [op1 \<mapsto> sample_coin] spending_tx" "tx_ok open_fluid [op1 \<mapsto> sample_coin] spending_tx"
proof -
  have size: "GetTotalSize spending_tx \<le> MAX_TX_SIZE"
    by (simp add: GetTotalSize_def spending_tx_def MAX_TX_SIZE_def Serialize_CTransaction_def Serialize_vector_def Serialize_CTxIn_def Serialize_CTxOut_def
        Serialize_COutPoint_def Serialize_uint256_def Serialize_bytes_def ser_writedata32_def Serialize_int32_def Serialize_int64_def ser_writedata64_def
        length_WriteCompactSize GetSizeOfCompactSize_def)
  show "amounts_fit [op1 \<mapsto> sample_coin] spending_tx" "tx_ok open_fluid [op1 \<mapsto> sample_coin] spending_tx"
    using size block_ok(2) by (auto simp: amounts_fit_def tx_ok_def spending_tx_def sample_coin_def coin_value_def coin_at_def output_ok_def IsTransactionFluid_def
        COutPoint_IsNull_def bdap_coins_def IsBDAP_def)
qed



definition locked_tx :: CTransaction where
  "locked_tx = spending_tx\<lparr>nVersion := 2, vin := [\<lparr>prevout = op1, scriptSig = [], nSequence = 3\<rparr>]\<rparr>"

theorem SequenceLocks_bip68_witness: "SequenceLocks sample_store 5 locked_tx LOCKTIME_VERIFY_SEQUENCE [2] = Inr True"
  using SequenceLocks_bip68 [OF sample_tree sample_skips, of 5 4 "[2]" locked_tx LOCKTIME_VERIFY_SEQUENCE]
  by (simp add: locked_tx_def spending_tx_def lock_passed_def relative_lock_def SEQUENCE_LOCKTIME_DISABLE_FLAG_def SEQUENCE_LOCKTIME_TYPE_FLAG_def
      SEQUENCE_LOCKTIME_MASK_def)

end
