(* ===== verification/Block_Files.thy ===== *)
theory Block_Files
  imports Block Tx_Checks
begin

text \<open>
  Places for blocks and undo data in the block files: \<open>FindBlockPos\<close> and \<open>FindUndoPos\<close> of
  \<open>src/src/validation.cpp\<close>, with the statistics that the node keeps of the files.

  Whether there is space on the disk is an argument of the model; opening, flushing and extending the files is
  left out.

  Shown: \<open>FindBlockPos\<close> returns, and the places that it gives to a sequence of blocks never overlap and
  stay within the size limit of a file.
\<close>

section \<open>Files\<close>

definition MAX_BLOCKFILE_SIZE :: u32 where "MAX_BLOCKFILE_SIZE = 0x30000000"

definition BLOCKFILE_CHUNK_SIZE :: u32 where "BLOCKFILE_CHUNK_SIZE = 0x6000000"

definition UNDOFILE_CHUNK_SIZE :: u32 where "UNDOFILE_CHUNK_SIZE = 0x600000"

record block_files =
  vinfoBlockFile :: "CBlockFileInfo list"
  nLastBlockFile :: nat
  setDirtyFileInfo :: "nat set"
  fCheckForPruning :: bool

record files_env =
  fPruneMode :: bool
  CheckDiskSpace :: "u32 \<Rightarrow> bool"

text \<open>Room for the file with number \<open>file\<close> in the vector.\<close>

definition grow_files :: "nat \<Rightarrow> CBlockFileInfo list \<Rightarrow> CBlockFileInfo list" where
  "grow_files file vinfo = vinfo @ replicate (file + 1 - length vinfo) CBlockFileInfo_SetNull"

partial_function (option) find_file :: "u32 \<Rightarrow> nat \<Rightarrow> CBlockFileInfo list \<Rightarrow> (nat \<times> CBlockFileInfo list) option" where
  [code]: "find_file nAddSize file vinfo =
     (if MAX_BLOCKFILE_SIZE \<le> fi_nSize (vinfo ! file) + nAddSize
      then find_file nAddSize (file + 1) (grow_files (file + 1) vinfo)
      else Some (file, vinfo))"

text \<open>The end of both functions: when the data reaches into a new chunk, the space on the disk is checked.\<close>

definition take_chunks :: "files_env \<Rightarrow> u32 \<Rightarrow> u32 \<Rightarrow> u32 \<Rightarrow> CValidationState \<Rightarrow> block_files \<Rightarrow> unit checked \<times> block_files" where
  "take_chunks env chunk nPos nNewSize state fs =
     (let nOldChunks = (nPos + chunk - 1) div chunk;
          nNewChunks = (nNewSize + chunk - 1) div chunk
      in if nNewChunks > nOldChunks then
           let fs = (if fPruneMode env then fs\<lparr>fCheckForPruning := True\<rparr> else fs) in
           if CheckDiskSpace env (nNewChunks * chunk - nPos) then (Inr (), fs)
           else (Inl (state_Error ''out of disk space'' state), fs)
         else (Inr (), fs))"

definition FindBlockPos ::
    "files_env \<Rightarrow> CValidationState \<Rightarrow> CDiskBlockPos \<Rightarrow> u32 \<Rightarrow> u32 \<Rightarrow> u64 \<Rightarrow> bool \<Rightarrow> block_files \<Rightarrow> (CDiskBlockPos checked \<times> block_files) option" where
  "FindBlockPos env state pos nAddSize height time fKnown fs =
     (let file = (if fKnown then nat (pos_nFile pos) else nLastBlockFile fs);
          vinfo = grow_files file (vinfoBlockFile fs)
      in if fKnown then
           let i = AddBlock height time (vinfo ! file);
               i = i\<lparr>fi_nSize := max (pos_nPos pos + nAddSize) (fi_nSize i)\<rparr>
           in Some (Inr pos, fs\<lparr>vinfoBlockFile := vinfo[file := i], nLastBlockFile := file, setDirtyFileInfo := insert file (setDirtyFileInfo fs)\<rparr>)
         else case find_file nAddSize file vinfo of
           None \<Rightarrow> None
         | Some (file, vinfo) \<Rightarrow>
             let pos = \<lparr>pos_nFile = int file, pos_nPos = fi_nSize (vinfo ! file)\<rparr>;
                 i = AddBlock height time (vinfo ! file);
                 i = i\<lparr>fi_nSize := fi_nSize i + nAddSize\<rparr>;
                 (r, fs) = take_chunks env BLOCKFILE_CHUNK_SIZE (pos_nPos pos) (fi_nSize i) state
                   (fs\<lparr>vinfoBlockFile := vinfo[file := i], nLastBlockFile := file\<rparr>)
             in Some (case r of
                  Inl state \<Rightarrow> (Inl state, fs)
                | Inr _ \<Rightarrow> (Inr pos, fs\<lparr>setDirtyFileInfo := insert file (setDirtyFileInfo fs)\<rparr>)))"

text \<open>\<open>None\<close> stands for an access outside the vector.\<close>

definition FindUndoPos :: "files_env \<Rightarrow> CValidationState \<Rightarrow> nat \<Rightarrow> u32 \<Rightarrow> block_files \<Rightarrow> (CDiskBlockPos checked \<times> block_files) option" where
  "FindUndoPos env state file nAddSize fs =
     (if length (vinfoBlockFile fs) \<le> file then None
      else
        let i = vinfoBlockFile fs ! file;
            pos = \<lparr>pos_nFile = int file, pos_nPos = fi_nUndoSize i\<rparr>;
            i = i\<lparr>fi_nUndoSize := fi_nUndoSize i + nAddSize\<rparr>;
            (r, fs) = take_chunks env UNDOFILE_CHUNK_SIZE (pos_nPos pos) (fi_nUndoSize i) state
              (fs\<lparr>vinfoBlockFile := (vinfoBlockFile fs)[file := i], setDirtyFileInfo := insert file (setDirtyFileInfo fs)\<rparr>)
        in Some (case r of Inl state \<Rightarrow> (Inl state, fs) | Inr _ \<Rightarrow> (Inr pos, fs)))"

section \<open>Places do not overlap\<close>

text \<open>The used part of a file, and the limit on every file.\<close>

definition used :: "block_files \<Rightarrow> int \<Rightarrow> nat" where
  "used fs f = (if nat f < length (vinfoBlockFile fs) then unat (fi_nSize (vinfoBlockFile fs ! nat f)) else 0)"

definition files_ok :: "block_files \<Rightarrow> bool" where
  "files_ok fs \<longleftrightarrow> (\<forall>i \<in> set (vinfoBlockFile fs). fi_nSize i < MAX_BLOCKFILE_SIZE)"

lemma null_size [simp]: "fi_nSize CBlockFileInfo_SetNull = 0"
  by (simp add: CBlockFileInfo_SetNull_def)

lemma AddBlock_size [simp]: "fi_nSize (AddBlock height time i) = fi_nSize i"
  by (simp add: AddBlock_def Let_def)

lemma sum_below_limit:
  assumes "a < MAX_BLOCKFILE_SIZE" "n < MAX_BLOCKFILE_SIZE"
  shows "unat (a + n) = unat a + unat n"
  using assms by (simp add: word_less_nat_alt MAX_BLOCKFILE_SIZE_def unat_word_ariths)

lemma find_file_returns:
  assumes "nf < length vinfo" "\<And>i. i \<in> set vinfo \<Longrightarrow> fi_nSize i < MAX_BLOCKFILE_SIZE" "n < MAX_BLOCKFILE_SIZE"
  shows "\<exists>f k. find_file n nf vinfo = Some (f, vinfo @ replicate k CBlockFileInfo_SetNull) \<and> f < length vinfo + k \<and>
    fi_nSize ((vinfo @ replicate k CBlockFileInfo_SetNull) ! f) + n < MAX_BLOCKFILE_SIZE"
  using assms(1,2)
proof (induction "length vinfo - nf" arbitrary: nf vinfo rule: less_induct)
  case less
  show ?case
  proof (cases "MAX_BLOCKFILE_SIZE \<le> fi_nSize (vinfo ! nf) + n")
    case False
    then show ?thesis using less.prems(1) by (subst find_file.simps) (intro exI [of _ nf] exI [of _ 0], simp)
  next
    case full: True
    show ?thesis
    proof (cases "nf + 1 < length vinfo")
      case True
      then have g: "grow_files (nf + 1) vinfo = vinfo" by (simp add: grow_files_def)
      have "length vinfo - (nf + 1) < length vinfo - nf" using True by arith
      from less.hyps [OF this True less.prems(2)] show ?thesis using full g by (subst find_file.simps) simp
    next
      case False
      then have e: "length vinfo = nf + 1" using less.prems(1) by arith
      then have g: "grow_files (nf + 1) vinfo = vinfo @ [CBlockFileInfo_SetNull]" by (simp add: grow_files_def)
      have "find_file n (nf + 1) (vinfo @ [CBlockFileInfo_SetNull]) = Some (nf + 1, vinfo @ [CBlockFileInfo_SetNull])"
        using assms(3) [folded not_le] e by (subst find_file.simps) (auto simp: nth_append)
      then have "find_file n nf vinfo = Some (nf + 1, vinfo @ replicate 1 CBlockFileInfo_SetNull)" using full g by (subst find_file.simps) simp
      then show ?thesis using assms(3) e by (intro exI [of _ "nf + 1"] exI [of _ 1]) (simp add: nth_append)
    qed
  qed
qed

lemma take_chunks_keeps:
  "take_chunks env chunk nPos nNewSize state fs = (r, fs') \<Longrightarrow> vinfoBlockFile fs' = vinfoBlockFile fs \<and> (\<forall>e. r = Inl e \<longrightarrow> vs_mode e = MODE_ERROR)"
  by (auto simp: take_chunks_def Let_def state_Error_def split: if_splits)

text \<open>One block.\<close>

lemma FindBlockPos_place:
  assumes ok: "files_ok fs" and n: "n < MAX_BLOCKFILE_SIZE"
  shows "\<exists>r fs'. FindBlockPos env state pos0 n height time False fs = Some (r, fs') \<and> files_ok fs' \<and>
    (case r of Inl e \<Rightarrow> vs_mode e = MODE_ERROR
     | Inr pos \<Rightarrow> unat (pos_nPos pos) = used fs (pos_nFile pos) \<and> unat (pos_nPos pos) + unat n < unat MAX_BLOCKFILE_SIZE \<and>
         (\<forall>f. 0 \<le> f \<longrightarrow> used fs' f = (if f = pos_nFile pos then unat (pos_nPos pos) + unat n else used fs f)) \<and> 0 \<le> pos_nFile pos)"
proof -
  define v where "v = grow_files (nLastBlockFile fs) (vinfoBlockFile fs)"
  obtain j where j: "v = vinfoBlockFile fs @ replicate j CBlockFileInfo_SetNull" "nLastBlockFile fs < length v" by (auto simp: v_def grow_files_def)
  have "fi_nSize i < MAX_BLOCKFILE_SIZE" if "i \<in> set v" for i using that ok j(1) by (auto simp: files_ok_def MAX_BLOCKFILE_SIZE_def)
  from find_file_returns [OF j(2) this n] obtain f k where
    f: "find_file n (nLastBlockFile fs) v = Some (f, v @ replicate k CBlockFileInfo_SetNull)" "f < length v + k"
      "fi_nSize ((v @ replicate k CBlockFileInfo_SetNull) ! f) + n < MAX_BLOCKFILE_SIZE" by blast
  define u where "u = v @ replicate k CBlockFileInfo_SetNull"
  let ?i = "(AddBlock height time (u ! f))\<lparr>fi_nSize := fi_nSize (u ! f) + n\<rparr>" and ?pos = "\<lparr>pos_nFile = int f, pos_nPos = fi_nSize (u ! f)\<rparr>"
  have fu: "f < length u" "fi_nSize (u ! f) < MAX_BLOCKFILE_SIZE"
  proof -
    show "f < length u" using f(2) by (simp add: u_def)
    then have "u ! f \<in> set u" by (rule nth_mem)
    then show "fi_nSize (u ! f) < MAX_BLOCKFILE_SIZE" using ok by (auto simp: u_def j(1) files_ok_def MAX_BLOCKFILE_SIZE_def)
  qed
  have sz: "used fs (int x) = (if x < length u then unat (fi_nSize (u ! x)) else 0)" for x
    by (auto simp: used_def u_def j(1) nth_append)
  obtain r fs1 where t: "take_chunks env BLOCKFILE_CHUNK_SIZE (fi_nSize (u ! f)) (fi_nSize (u ! f) + n) state
      (fs\<lparr>vinfoBlockFile := u[f := ?i], nLastBlockFile := f\<rparr>) = (r, fs1)" by (rule prod.exhaust)
  note keep = take_chunks_keeps [OF t]
  define fs' where "fs' = (case r of Inl e \<Rightarrow> fs1 | Inr _ \<Rightarrow> fs1\<lparr>setDirtyFileInfo := insert f (setDirtyFileInfo fs1)\<rparr>)"
  have eq: "FindBlockPos env state pos0 n height time False fs = Some (case r of Inl e \<Rightarrow> Inl e | Inr _ \<Rightarrow> Inr ?pos, fs')"
    using f(1) t by (cases r) (simp_all add: FindBlockPos_def v_def [symmetric] u_def [symmetric] fs'_def Let_def)
  have v': "vinfoBlockFile fs' = u[f := ?i]" using keep by (cases r) (simp_all add: fs'_def)
  have lim: "fi_nSize (u ! f) + n < MAX_BLOCKFILE_SIZE" "unat (fi_nSize (u ! f) + n) = unat (fi_nSize (u ! f)) + unat n"
    using f(3) sum_below_limit [OF fu(2) n] by (simp_all add: u_def)
  have "files_ok fs'" using ok lim(1) unfolding files_ok_def v'
    by (auto simp: u_def j(1) MAX_BLOCKFILE_SIZE_def dest!: subsetD [OF set_update_subset_insert])
  moreover have "used fs' (int x) = (if x = f then unat (fi_nSize (u ! f)) + unat n else used fs (int x))" for x
    using fu(1) lim(2) by (simp add: sz) (simp add: used_def v')
  then have "used fs' x = (if x = int f then unat (fi_nSize (u ! f)) + unat n else used fs x)" if "0 \<le> x" for x using that by (metis nonneg_int_cases of_nat_eq_iff)
  moreover have "unat (fi_nSize (u ! f)) + unat n < unat MAX_BLOCKFILE_SIZE" using lim by (metis word_less_nat_alt)
  ultimately show ?thesis using eq keep sz [of f] fu(1) by (cases r) auto
qed

text \<open>A sequence of blocks, each with its size, height and time.\<close>

fun store_blocks :: "files_env \<Rightarrow> CValidationState \<Rightarrow> (u32 \<times> u32 \<times> u64) list \<Rightarrow> block_files \<Rightarrow> ((CDiskBlockPos \<times> u32) list checked \<times> block_files) option" where
  "store_blocks env state [] fs = Some (Inr [], fs)"
| "store_blocks env state ((n, height, time) # bs) fs =
     (case FindBlockPos env state CDiskBlockPos_SetNull n height time False fs of
        None \<Rightarrow> None
      | Some (Inl e, fs) \<Rightarrow> Some (Inl e, fs)
      | Some (Inr pos, fs) \<Rightarrow>
          (case store_blocks env state bs fs of
             Some (Inr ps, fs) \<Rightarrow> Some (Inr ((pos, n) # ps), fs)
           | r \<Rightarrow> r))"

text \<open>The first place ends before the second one starts, if they are in the same file.\<close>

definition before :: "CDiskBlockPos \<times> u32 \<Rightarrow> CDiskBlockPos \<times> u32 \<Rightarrow> bool" where
  "before a b \<longleftrightarrow> (pos_nFile (fst a) = pos_nFile (fst b) \<longrightarrow> unat (pos_nPos (fst a)) + unat (snd a) \<le> unat (pos_nPos (fst b)))"

text \<open>C24. Blocks stored one after the other get places that do not overlap: in every file each place starts behind the part used at
  the start and behind every earlier place, and ends below the size limit of a file.  Every call returns; it fails only when the disk is full.\<close>

theorem FindBlockPos_disjoint:
  assumes "files_ok fs" "\<And>b. b \<in> set bs \<Longrightarrow> fst b < MAX_BLOCKFILE_SIZE"
  shows "\<exists>r fs'. store_blocks env state bs fs = Some (r, fs') \<and> files_ok fs' \<and>
    (case r of Inl e \<Rightarrow> vs_mode e = MODE_ERROR
     | Inr ps \<Rightarrow> map snd ps = map fst bs \<and> sorted_wrt before ps \<and>
         (\<forall>(pos, n) \<in> set ps. 0 \<le> pos_nFile pos \<and> used fs (pos_nFile pos) \<le> unat (pos_nPos pos) \<and> unat (pos_nPos pos) + unat n < unat MAX_BLOCKFILE_SIZE))"
  using assms
proof (induction bs arbitrary: fs)
  case (Cons b bs)
  obtain n height time where b: "b = (n, height, time)" by (rule prod_cases3)
  have n: "n < MAX_BLOCKFILE_SIZE" using Cons.prems(2) [of b] by (simp add: b)
  obtain r fs1 where r: "FindBlockPos env state CDiskBlockPos_SetNull n height time False fs = Some (r, fs1)" "files_ok fs1"
    and place: "case r of Inl e \<Rightarrow> vs_mode e = MODE_ERROR
     | Inr pos \<Rightarrow> unat (pos_nPos pos) = used fs (pos_nFile pos) \<and> unat (pos_nPos pos) + unat n < unat MAX_BLOCKFILE_SIZE \<and>
         (\<forall>f. 0 \<le> f \<longrightarrow> used fs1 f = (if f = pos_nFile pos then unat (pos_nPos pos) + unat n else used fs f)) \<and> 0 \<le> pos_nFile pos"
    using FindBlockPos_place [OF Cons.prems(1) n, of env state CDiskBlockPos_SetNull height time] by blast
  show ?case
  proof (cases r)
    case (Inl e)
    then show ?thesis using r place by (simp add: b)
  next
    case (Inr pos)
    note p = place [unfolded Inr, simplified]
    from Cons.IH [OF r(2)] Cons.prems(2) obtain r' fs' where r': "store_blocks env state bs fs1 = Some (r', fs')" "files_ok fs'"
      and rest: "case r' of Inl e \<Rightarrow> vs_mode e = MODE_ERROR
        | Inr ps \<Rightarrow> map snd ps = map fst bs \<and> sorted_wrt before ps \<and>
            (\<forall>(pos, n) \<in> set ps. 0 \<le> pos_nFile pos \<and> used fs1 (pos_nFile pos) \<le> unat (pos_nPos pos) \<and> unat (pos_nPos pos) + unat n < unat MAX_BLOCKFILE_SIZE)"
      by auto
    have grows: "used fs f \<le> used fs1 f" if "0 \<le> f" for f using p that by auto
    show ?thesis
    proof (cases r')
      case (Inl e)
      then show ?thesis using r r' rest \<open>r = Inr pos\<close> by (simp add: b)
    next
      case (Inr ps)
      have "before (pos, n) q" if "q \<in> set ps" for q using rest [unfolded Inr] that p by (auto simp: before_def)
      moreover have "0 \<le> pos_nFile q \<and> used fs (pos_nFile q) \<le> unat (pos_nPos q) \<and> unat (pos_nPos q) + unat m < unat MAX_BLOCKFILE_SIZE"
        if "(q, m) \<in> set ps" for q m using rest [unfolded Inr] that le_trans [OF grows] by fastforce
      ultimately show ?thesis using r r' rest [unfolded Inr] p \<open>r = Inr pos\<close> Inr by (auto simp: b)
    qed
  qed
qed simp

text \<open>Three blocks that do not fit into one file.\<close>

theorem FindBlockPos_disjoint_witness:
  "\<exists>r fs'. store_blocks \<lparr>fPruneMode = False, CheckDiskSpace = (\<lambda>_. True)\<rparr> CValidationState_init [(400000000, 1, 5), (300000000, 2, 6), (200000000, 3, 7)]
     \<lparr>vinfoBlockFile = [], nLastBlockFile = 0, setDirtyFileInfo = {}, fCheckForPruning = False\<rparr> = Some (r, fs') \<and>
     (case r of Inl e \<Rightarrow> False | Inr ps \<Rightarrow> length ps = 3 \<and> sorted_wrt before ps)"
proof -
  let ?fs = "\<lparr>vinfoBlockFile = [], nLastBlockFile = 0, setDirtyFileInfo = {}, fCheckForPruning = False\<rparr>" and ?bs = "[(400000000, 1, 5), (300000000, 2, 6), (200000000, 3, 7)]"
  have "files_ok ?fs" by (simp add: files_ok_def)
  moreover have "fst b < MAX_BLOCKFILE_SIZE" if "b \<in> set ?bs" for b :: "u32 \<times> u32 \<times> u64" using that by (auto simp: MAX_BLOCKFILE_SIZE_def)
  moreover have "\<not> isl (fst (the (store_blocks \<lparr>fPruneMode = False, CheckDiskSpace = (\<lambda>_. True)\<rparr> CValidationState_init ?bs ?fs)))" by code_simp
  ultimately show ?thesis using FindBlockPos_disjoint [of ?fs ?bs "\<lparr>fPruneMode = False, CheckDiskSpace = (\<lambda>_. True)\<rparr>" CValidationState_init]
    by (fastforce split: sum.splits dest: map_eq_imp_length_eq)
qed

end
