(* ===== verification/Pow.thy ===== *)
theory Pow
  imports Chain "HOL-Library.Signed_Division"
begin

unbundle bit_operations_syntax

text \<open>
  Proof of work: \<open>src/src/pow.cpp\<close>, and the work of a block from \<open>src/src/chain.cpp\<close>.
  Targets are 256-bit numbers on limbs, with the conversions of the source at each call.

  Shown: the work of a block is \<open>2 ^ 256\<close> divided by its target plus one; a hash passes the check
  exactly when its number is at most a target in the range of the parameters; and the difficulty rule
  returns the compact form of the averaged and scaled target, never above the limit, when the chain is
  longer than the averaging window.  On a shorter chain the rule follows a null pointer.
\<close>

section \<open>Work\<close>

datatype pow_error = DivisionError | CompactAssert | NullBlock | AssertLast

definition from_uint :: "uint_error + 'a \<Rightarrow> pow_error + 'a" where
  "from_uint r = (case r of Inl e \<Rightarrow> Inl DivisionError | Inr x \<Rightarrow> Inr x)"

definition GetBlockProof :: "CBlockIndex \<Rightarrow> pow_error + arith_uint256" where
  "GetBlockProof block =
     (case SetCompact (nBits block) of (bnTarget, fNegative, fOverflow) \<Rightarrow>
        if fNegative \<or> fOverflow \<or> EqualTo bnTarget 0 then Inr (base_uint_u64 0)
        else ebind (from_uint (uint_div (uint_not bnTarget) (uint_add bnTarget (base_uint_u64 1)))) (\<lambda>q.
          Inr (uint_add q (base_uint_u64 1))))"

text \<open>The fields of \<open>Consensus::Params\<close> that the difficulty uses.\<close>

record pow_params =
  powLimit :: uint256
  nPowTargetSpacing :: int
  nPowTargetTimespan :: int
  nPowAveragingWindow :: int
  nPowMaxAdjustUp :: int
  nPowMaxAdjustDown :: int
  nUpdateDiffAlgoHeight :: int

definition AveragingWindowTimespan :: "pow_params \<Rightarrow> int" where
  "AveragingWindowTimespan params = nPowAveragingWindow params * nPowTargetSpacing params"

definition MinActualTimespan :: "pow_params \<Rightarrow> int" where
  "MinActualTimespan params = AveragingWindowTimespan params * (100 - nPowMaxAdjustUp params) sdiv 100"

definition MaxActualTimespan :: "pow_params \<Rightarrow> int" where
  "MaxActualTimespan params = AveragingWindowTimespan params * (100 + nPowMaxAdjustDown params) sdiv 100"

definition DifficultyAdjustmentInterval :: "pow_params \<Rightarrow> int" where
  "DifficultyAdjustmentInterval params = nPowTargetTimespan params sdiv nPowTargetSpacing params"

definition GetBlockProofEquivalentTime :: "CBlockIndex \<Rightarrow> CBlockIndex \<Rightarrow> CBlockIndex \<Rightarrow> pow_params \<Rightarrow> pow_error + int" where
  "GetBlockProofEquivalentTime to from' tip params =
     (let (r, sign) = (if CompareTo (nChainWork to) (nChainWork from') > 0
                       then (uint_sub (nChainWork to) (nChainWork from'), 1)
                       else (uint_sub (nChainWork from') (nChainWork to), - 1))
      in ebind (GetBlockProof tip) (\<lambda>proof'.
         ebind (from_uint (uint_div (uint_mul r (base_uint_u64 (word_of_int (nPowTargetSpacing params)))) proof')) (\<lambda>r.
           if uint_bits r > 63 then Inr (sign * (2 ^ 63 - 1)) else Inr (sign * int (unat (GetLow64 r))))))"

section \<open>The check of a hash\<close>

definition CheckProofOfWork :: "uint256 \<Rightarrow> u32 \<Rightarrow> pow_params \<Rightarrow> bool" where
  "CheckProofOfWork hash bits params =
     (case SetCompact bits of (bnTarget, fNegative, fOverflow) \<Rightarrow>
        if fNegative \<or> EqualTo bnTarget 0 \<or> fOverflow \<or> CompareTo bnTarget (UintToArith256 (powLimit params)) > 0 then False
        else if CompareTo (UintToArith256 hash) bnTarget > 0 then False
        else True)"

section \<open>The next target\<close>

partial_function (option) GetLastBlockIndex :: "block_store \<Rightarrow> block_ptr option \<Rightarrow> block_ptr option option" where
  [code]: "GetLastBlockIndex S pindex =
     (case pindex of
        None \<Rightarrow> Some None
      | Some p \<Rightarrow> if pprev (S p) \<noteq> None then GetLastBlockIndex S (pprev (S p)) else Some (Some p))"

text \<open>The loop over the averaging window: the sum of the targets, and the block before the window.\<close>

fun window_sum :: "block_store \<Rightarrow> nat \<Rightarrow> block_ptr option \<Rightarrow> arith_uint256 \<Rightarrow> arith_uint256 \<times> block_ptr option" where
  "window_sum S (Suc n) (Some p) bnTot = window_sum S n (pprev (S p)) (uint_add bnTot (fst (SetCompact (nBits (S p)))))"
| "window_sum S n p bnTot = (bnTot, p)"

definition clamp_timespan :: "int \<Rightarrow> int \<Rightarrow> int \<Rightarrow> int" where
  "clamp_timespan min' max' nActualTimespan =
     (let n = (if nActualTimespan < 0 then max' else nActualTimespan);
          n = (if n < min' then min' else n)
      in if n > max' then max' else n)"

definition DigiShield :: "block_store \<Rightarrow> block_ptr \<Rightarrow> int \<Rightarrow> int \<Rightarrow> int \<Rightarrow> int \<Rightarrow> pow_params \<Rightarrow> pow_error + u32" where
  "DigiShield S pindexLast window timespan minTimespan maxTimespan params =
     (case window_sum S (nat window) (Some pindexLast) (base_uint_u64 0) of (bnTot, pindexFirst) \<Rightarrow>
        ebind (from_uint (uint_div bnTot (base_uint_u64 (word_of_int window)))) (\<lambda>bnAvg.
        case pindexFirst of
          None \<Rightarrow> Inl NullBlock
        | Some first \<Rightarrow>
            let nActualTimespan = GetMedianTimePast S pindexLast - GetMedianTimePast S first;
                nActualTimespan = timespan + (nActualTimespan - timespan) sdiv 4;
                nActualTimespan = clamp_timespan minTimespan maxTimespan nActualTimespan;
                bnPowLimit = UintToArith256 (powLimit params)
            in ebind (from_uint (uint_div bnAvg (base_uint_u64 (word_of_int timespan)))) (\<lambda>bnNew.
               let bnNew = uint_mul32 bnNew (word_of_int nActualTimespan);
                   bnNew = (if CompareTo bnNew bnPowLimit > 0 then bnPowLimit else bnNew)
               in case GetCompact bnNew False of None \<Rightarrow> Inl CompactAssert | Some c \<Rightarrow> Inr c)))"

text \<open>The conversion of a 64-bit integer to \<open>int\<close>.\<close>

definition to_int :: "int \<Rightarrow> int" where
  "to_int v = unsigned_to_int 32 (int_to_unsigned 32 v)"

text \<open>The floating-point factors of the adjusted timespans are parameters: \<open>fmin\<close> and \<open>fmax\<close> take
  the adjusted timespan to the products computed with \<open>std::sin\<close> and truncated.  What follows the
  third return statement of the source is not reached.\<close>

definition GetNextWorkRequired ::
    "(int \<Rightarrow> int) \<Rightarrow> (int \<Rightarrow> int) \<Rightarrow> int \<Rightarrow> block_store \<Rightarrow> block_ptr option \<Rightarrow> pow_params \<Rightarrow> pow_error + u32" where
  "GetNextWorkRequired fmin fmax firstSwitchDifficultyBlock S pindexLast params =
     (case pindexLast of
        None \<Rightarrow> Inl AssertLast
      | Some p \<Rightarrow>
          let nextHeight = int (nHeight (S p)) + 1 in
          if nextHeight \<le> to_int (nUpdateDiffAlgoHeight params)
          then (case GetCompact (UintToArith256 (powLimit params)) False of None \<Rightarrow> Inl CompactAssert | Some c \<Rightarrow> Inr c)
          else let averagingWindow = to_int (nPowAveragingWindow params); windowTimespan = to_int (AveragingWindowTimespan params) in
          if nextHeight \<le> to_int firstSwitchDifficultyBlock
          then DigiShield S p averagingWindow windowTimespan (to_int (MinActualTimespan params)) (to_int (MaxActualTimespan params)) params
          else let adjustedWindow = averagingWindow * 10 sdiv 35; adjustedTimespan = windowTimespan * 10 sdiv 35 in
            DigiShield S p adjustedWindow adjustedTimespan (fmin adjustedTimespan) (fmax adjustedTimespan) params)"

section \<open>The work of a block\<close>

definition target_of :: "u32 \<Rightarrow> nat" where
  "target_of bits = nval (fst (SetCompact bits))"

lemma from_uint_simps [simp]: "from_uint (Inl e) = Inl DivisionError" "from_uint (Inr x) = Inr x"
  by (simp_all add: from_uint_def)

lemma list8E:
  assumes "length xs = 8"
  obtains a b ys where "xs = a # b # ys" "length ys = 6"
  using assms by (cases xs; cases "tl xs") auto

lemma nval_eq_0: "nval xs = 0 \<longleftrightarrow> (\<forall>x\<in>set xs. x = 0)"
  by (induction xs) (auto simp: unat_eq_0)

lemma ucast_limb_0: "(ucast (x :: u32) :: u64) = 0 \<longleftrightarrow> x = 0"
  by (metis unat_eq_0 unat_ucast_limb)

lemma EqualTo_zero: "length t = 8 \<Longrightarrow> EqualTo t 0 \<longleftrightarrow> nval t = 0"
  by (erule list8E) (auto simp: EqualTo_def nval_eq_0 unat_eq_0 ucast_limb_0)

lemma target_not_max: "target_of bits + 1 < 2 ^ 256"
proof -
  have v: "target_of bits = compact_value (compact_size bits) (compact_word bits) mod 2 ^ 256"
    by (simp add: target_of_def nval_SetCompact compact_value_def compact_size_def compact_word_def)
  show ?thesis
  proof (cases "compact_size bits \<le> 3")
    case True
    have "compact_value (compact_size bits) (compact_word bits) \<le> compact_word bits" using True by (simp add: compact_value_def)
    also have "\<dots> < 2 ^ 23" by (simp add: compact_word_def)
    finally show ?thesis unfolding v by simp
  next
    case False
    then have "256 dvd compact_value (compact_size bits) (compact_word bits)" by (simp add: compact_value_def dvd_power)
    moreover have "(256 :: nat) dvd 2 ^ 256" by simp
    ultimately have "256 dvd target_of bits" unfolding v by (simp only: dvd_mod)
    moreover have "target_of bits < 2 ^ 256" unfolding v by simp
    moreover have "\<not> (256 :: nat) dvd 2 ^ 256 - 1" by simp
    ultimately have "target_of bits \<noteq> 2 ^ 256 - 1" "target_of bits < 2 ^ 256" by metis+
    then show ?thesis by linarith
  qed
qed

lemma GetBlockProof_val:
  "\<exists>w. GetBlockProof b = Inr w \<and> length w = 8 \<and>
     nval w = (case SetCompact (nBits b) of (t, neg, ovf) \<Rightarrow> if neg \<or> ovf \<or> nval t = 0 then 0 else 2 ^ 256 div (nval t + 1))"
proof -
  obtain t neg ovf where t: "SetCompact (nBits b) = (t, neg, ovf)" by (cases "SetCompact (nBits b)")
  have len: "length t = 8" using length_SetCompact [of "nBits b"] by (simp add: t)
  have val: "nval t + 1 < 2 ^ 256" using target_not_max [of "nBits b"] by (simp add: target_of_def t)
  let ?d = "uint_add t (base_uint_u64 1)"
  have d: "length ?d = 8" "nval ?d = nval t + 1" using len val by (simp_all add: nval_uint_add nval_u64 WIDTH_def)
  have n: "length (uint_not t) = 8" "nval (uint_not t) = 2 ^ 256 - (nval t + 1)"
    using len nval_not [of t] by (simp_all add: uint_not_def)
  obtain q where q: "uint_div (uint_not t) ?d = Inr q" "length q = 8" "nval q = (2 ^ 256 - (nval t + 1)) div (nval t + 1)"
    using uint_div_nval [OF n(1) d(1)] d(2) n(2) by auto
  have "2 ^ 256 div (nval t + 1) = (2 ^ 256 - (nval t + 1) + (nval t + 1)) div (nval t + 1)" using val by simp
  also have "\<dots> = nval q + 1" by (simp only: q(3)) (rule div_add_self2, simp)
  finally have work: "nval q + 1 = 2 ^ 256 div (nval t + 1)" by simp
  have "2 ^ 256 div (nval t + 1) < 2 ^ 256" if "nval t \<noteq> 0" using that by (intro div_less_dividend) simp_all
  then have "nval (uint_add q (base_uint_u64 1)) = 2 ^ 256 div (nval t + 1)" if "nval t \<noteq> 0"
    using that work q(2) by (simp add: nval_uint_add nval_u64 WIDTH_def)
  then show ?thesis using t len q by (auto simp: GetBlockProof_def EqualTo_zero nval_u64 WIDTH_def)
qed

text \<open>The work counted for a block is \<open>2 ^ 256\<close> divided by its target plus one, rounded down, as the
  comment in the source derives, and zero for a target that is negative, too large or zero; the
  division never fails.\<close>

theorem GetBlockProof_work:
  "\<exists>w. GetBlockProof b = Inr w \<and> length w = 8 \<and>
     nval w = (case SetCompact (nBits b) of (t, neg, ovf) \<Rightarrow> if neg \<or> ovf \<or> nval t = 0 then 0 else 2 ^ 256 div (nval t + 1))"
  by (rule GetBlockProof_val)

text \<open>C31. A hash passes the proof-of-work check exactly when the compact target is neither negative, too
  large nor zero, the target is at most the limit of the parameters, and the hash is at most the target.\<close>

theorem CheckProofOfWork_iff:
  "CheckProofOfWork hash bits params \<longleftrightarrow>
     (case SetCompact bits of (t, neg, ovf) \<Rightarrow> \<not> neg \<and> \<not> ovf \<and> 0 < nval t \<and> nval t \<le> unat (powLimit params) \<and> unat hash \<le> nval t)"
proof -
  obtain t neg ovf where t: "SetCompact bits = (t, neg, ovf)" by (cases "SetCompact bits")
  have "length t = 8" using length_SetCompact [of bits] by (simp add: t)
  then show ?thesis by (auto simp: CheckProofOfWork_def t EqualTo_zero CompareTo_nval)
qed

section \<open>The difficulty rule\<close>

definition window_targets :: "block_store \<Rightarrow> nat \<Rightarrow> block_ptr \<Rightarrow> nat" where
  "window_targets S n p = (\<Sum>i<n. target_of (nBits (S (the (back_by S i p)))))"

lemma window_sum_spec:
  assumes tree: "block_tree S"
  shows "n \<le> nHeight (S p) \<Longrightarrow> length tot = 8 \<Longrightarrow>
    \<exists>tot'. window_sum S n (Some p) tot = (tot', back_by S n p) \<and> length tot' = 8 \<and> nval tot' = (nval tot + window_targets S n p) mod 2 ^ 256"
proof (induction n arbitrary: p tot)
  case 0
  then show ?case using nval_less [of tot] by (simp add: window_targets_def)
next
  case (Suc n)
  obtain q where q: "pprev (S p) = Some q" using block_tree_has_parent [OF tree, of p] Suc.prems(1) by auto
  let ?tot = "uint_add tot (fst (SetCompact (nBits (S p))))"
  have len: "length ?tot = 8" using Suc.prems(2) by simp
  have val: "nval ?tot = (nval tot + target_of (nBits (S p))) mod 2 ^ 256" using Suc.prems(2) by (simp add: nval_uint_add target_of_def)
  have "n \<le> nHeight (S q)" using block_tree_parent [OF tree q] Suc.prems(1) by simp
  from Suc.IH [OF this len] obtain tot' where tot': "window_sum S n (Some q) ?tot = (tot', back_by S n q)" "length tot' = 8"
    "nval tot' = (nval ?tot + window_targets S n q) mod 2 ^ 256" by blast
  have "window_targets S (Suc n) p = target_of (nBits (S p)) + window_targets S n q"
    unfolding window_targets_def using q by (simp add: sum.lessThan_Suc_shift del: sum.lessThan_Suc)
  then have "nval tot' = (nval tot + window_targets S (Suc n) p) mod 2 ^ 256"
    using tot'(3) val by (simp add: mod_add_left_eq add.assoc)
  then show ?case using tot' q by simp
qed

lemma window_sum_short:
  assumes tree: "block_tree S"
  shows "nHeight (S p) < n \<Longrightarrow> snd (window_sum S n (Some p) tot) = None"
proof (induction n arbitrary: p tot)
  case (Suc n)
  show ?case
  proof (cases "pprev (S p)")
    case None
    then show ?thesis by (cases n) simp_all
  next
    case (Some q)
    then show ?thesis using Suc.IH [of q] block_tree_parent [OF tree Some] Suc.prems by simp
  qed
qed simp

lemma unat_word_of_int64: "0 \<le> v \<Longrightarrow> v < 2 ^ 64 \<Longrightarrow> unat (word_of_int v :: u64) = nat v"
  by (simp add: unat_eq_nat_uint uint_word_of_int)

lemma unat_word_of_int32: "0 \<le> v \<Longrightarrow> v < 2 ^ 32 \<Longrightarrow> unat (word_of_int v :: u32) = nat v"
  by (simp add: unat_eq_nat_uint uint_word_of_int)

lemma clamp_timespan_range: "lo \<le> hi \<Longrightarrow> lo \<le> clamp_timespan lo hi t \<and> clamp_timespan lo hi t \<le> hi"
  by (simp add: clamp_timespan_def Let_def)

text \<open>The target that the difficulty rule aims at.\<close>

definition digishield_target :: "block_store \<Rightarrow> block_ptr \<Rightarrow> block_ptr \<Rightarrow> int \<Rightarrow> int \<Rightarrow> int \<Rightarrow> int \<Rightarrow> pow_params \<Rightarrow> nat" where
  "digishield_target S p first window timespan lo hi params =
     min (unat (powLimit params))
       (window_targets S (nat window) p div nat window div nat timespan *
        nat (clamp_timespan lo hi (timespan + (GetMedianTimePast S p - GetMedianTimePast S first - timespan) sdiv 4)))"

lemma uint_div_u64:
  assumes "length a = 8" "0 < v" "v < 2 ^ 63"
  shows "\<exists>q. uint_div a (base_uint_u64 (word_of_int v)) = Inr q \<and> length q = 8 \<and> nval q = nval a div nat v"
  using uint_div_nval [OF assms(1), of "base_uint_u64 (word_of_int v)"] assms(2,3)
  by (simp add: nval_u64 unat_word_of_int64 WIDTH_def)

text \<open>C27. On a chain longer than the averaging window, whose window does not overflow 256 bits, the
  difficulty rule returns a compact target that decodes without flags, is never above the limit, and is
  the average target of the window scaled by the clamped timespan, up to the rounding of the compact form.\<close>

theorem DigiShield_target:
  assumes tree: "block_tree S" and first: "back_by S (nat window) p = Some first" and window: "0 < window" "window < 2 ^ 63"
    and timespan: "0 < timespan" "timespan < 2 ^ 63" and range: "0 \<le> lo" "lo \<le> hi" "hi < 2 ^ 32"
    and sum: "window_targets S (nat window) p < 2 ^ 256"
    and scaled: "window_targets S (nat window) p div nat window div nat timespan * nat hi < 2 ^ 256"
  shows "\<exists>c t. DigiShield S p window timespan lo hi params = Inr c \<and> SetCompact c = (t, False, False) \<and>
    nval t \<le> digishield_target S p first window timespan lo hi params \<and>
    digishield_target S p first window timespan lo hi params \<le> unat (powLimit params) \<and>
    2 ^ 15 * (digishield_target S p first window timespan lo hi params - nval t) \<le> digishield_target S p first window timespan lo hi params"
proof -
  let ?tg = "digishield_target S p first window timespan lo hi params" and ?lim = "UintToArith256 (powLimit params)"
  let ?act = "clamp_timespan lo hi (timespan + (GetMedianTimePast S p - GetMedianTimePast S first - timespan) sdiv 4)"
  have "nat window \<le> nHeight (S p)" using back_by_Some_height [OF tree first] by simp
  from window_sum_spec [OF tree this, of "base_uint_u64 0"] obtain tot where
    tot: "window_sum S (nat window) (Some p) (base_uint_u64 0) = (tot, Some first)" "length tot = 8" "nval tot = window_targets S (nat window) p"
    using sum first by (auto simp: nval_u64 WIDTH_def)
  obtain avg where avg: "uint_div tot (base_uint_u64 (word_of_int window)) = Inr avg" "length avg = 8" "nval avg = nval tot div nat window"
    using uint_div_u64 [OF tot(2) window] by blast
  obtain q where q: "uint_div avg (base_uint_u64 (word_of_int timespan)) = Inr q" "length q = 8" "nval q = nval avg div nat timespan"
    using uint_div_u64 [OF avg(2) timespan] by blast
  have act: "0 \<le> ?act" "?act \<le> hi" using clamp_timespan_range [OF range(2)] range(1) by (meson order.trans)+
  define new where "new = uint_mul32 q (word_of_int ?act)"
  have "nval q * nat ?act \<le> nval q * nat hi" using act by (intro mult_le_mono2 nat_mono)
  also have "\<dots> < 2 ^ 256" using scaled by (simp only: q(3) avg(3) tot(3))
  finally have new: "nval new = nval q * nat ?act" "length new = 8"
    using q(2) act range(3) by (simp_all add: new_def nval_uint_mul32 unat_word_of_int32)
  define fin where "fin = (if CompareTo new ?lim > 0 then ?lim else new)"
  have fin: "length fin = 8" "nval fin = ?tg"
    using new by (auto simp: fin_def CompareTo_nval digishield_target_def q(3) avg(3) tot(3))
  obtain c t where c: "GetCompact fin False = Some c" "SetCompact c = (t, False, False)" "nval t \<le> nval fin" "2 ^ 15 * (nval fin - nval t) \<le> nval fin"
    using GetCompact_rounds [OF fin(1)] by blast
  have "DigiShield S p window timespan lo hi params = Inr c"
    using c(1) unfolding DigiShield_def tot(1) by (auto simp: avg(1) q(1) Let_def new_def [symmetric] fin_def)
  then show ?thesis using c(2,3,4) fin(2) by (auto simp: digishield_target_def)
qed

text \<open>When the chain is not longer than the averaging window the rule reads the median time of a null
  block: with the main network parameters this is every block from height 121 to the window of 10080.\<close>

theorem DigiShield_short_chain:
  assumes "block_tree S" "int (nHeight (S p)) < window" "window < 2 ^ 63"
  shows "DigiShield S p window timespan lo hi params = Inl NullBlock"
proof -
  obtain tot where tot: "window_sum S (nat window) (Some p) (base_uint_u64 0) = (tot, None)"
    using window_sum_short [OF assms(1), of p "nat window" "base_uint_u64 0"] assms(2) by (cases "window_sum S (nat window) (Some p) (base_uint_u64 0)") auto
  have "nval (base_uint_u64 (word_of_int window)) \<noteq> 0" using assms(2,3) by (simp add: nval_u64 unat_word_of_int64)
  then show ?thesis using uint_div_zero [of tot "base_uint_u64 (word_of_int window)"]
    by (cases "uint_div tot (base_uint_u64 (word_of_int window))") (auto simp: DigiShield_def tot intro: uint_error.exhaust)
qed

section \<open>Witnesses\<close>

definition work_store :: block_store where
  "work_store p = (sample_store p)\<lparr>nBits := 0x1D00FFFF\<rparr>"

definition work_params :: pow_params where
  "work_params = \<lparr>powLimit = 2 ^ 236 - 1, nPowTargetSpacing = 120, nPowTargetTimespan = 1200, nPowAveragingWindow = 4,
     nPowMaxAdjustUp = 8, nPowMaxAdjustDown = 13, nUpdateDiffAlgoHeight = 3\<rparr>"

lemma work_store_simps [simp]: "pprev (work_store p) = pprev (sample_store p)" "nHeight (work_store p) = nHeight (sample_store p)"
  "nBits (work_store p) = 0x1D00FFFF"
  by (simp_all add: work_store_def)

lemma work_tree: "block_tree work_store"
  by (auto simp: block_tree_def)

lemma work_target: "target_of 0x1D00FFFF = 65535 * 2 ^ 208"
  by (simp add: target_of_def nval_SetCompact compact_value_def compact_size_def compact_word_def)

theorem DigiShield_target_witness:
  "\<exists>c t. DigiShield work_store 10 4 480 440 540 work_params = Inr c \<and> SetCompact c = (t, False, False) \<and> nval t \<le> 2 ^ 236"
proof -
  have "back_by work_store (nat 4) 10 = Some 6" by (simp add: numeral_eq_Suc)
  moreover have "window_targets work_store (nat 4) 10 = 4 * (65535 * 2 ^ 208)" by (simp add: window_targets_def work_target)
  ultimately show ?thesis using DigiShield_target [OF work_tree, of 4 10 6 480 440 540 work_params]
    by (fastforce simp: work_params_def)
qed

theorem DigiShield_short_chain_witness: "DigiShield work_store 5 10 480 440 540 work_params = Inl NullBlock"
  using DigiShield_short_chain [OF work_tree, of 5 10] by simp

end
