(* ===== verification/Block_Tree.thy ===== *)
theory Block_Tree
  imports Block Pow
begin

unbundle bit_operations_syntax

text \<open>
  The tree of known blocks of \<open>src/src/validation.cpp\<close>: the index by hash, the candidates for the tip in
  the order of \<open>CBlockIndexWorkComparator\<close>, the blocks that wait for an ancestor, and the operations
  that add headers and block data.

  An index entry is allocated at an address that the caller supplies, so that the tie-breaking by
  address is not fixed by the model.  \<open>std::set\<close> is a list in the order of its comparator.

  Shown: adding a header keeps the tree, the skip list, the latest times and the accumulated work;
  and linking a block and the blocks that wait for it keeps what the index says of linked blocks and candidates.
\<close>

section \<open>State\<close>

record chainstate =
  store :: block_store
  mapBlockIndex :: "(uint256 \<times> block_ptr) list"
  chainActive :: CChain
  setBlockIndexCandidates :: "block_ptr list"
  mapBlocksUnlinked :: "(block_ptr \<times> block_ptr) list"
  nBlockSequenceId :: int
  nBlockReverseSequenceId :: int
  nLastPreciousChainwork :: arith_uint256
  pindexBestHeader :: "block_ptr option"
  pindexBestInvalid :: "block_ptr option"
  setDirtyBlockIndex :: "block_ptr set"

datatype tree_error = TreeAssert | TreeNull | TreeSkip chain_error | TreeWork pow_error

definition from_chain :: "chain_error + 'a \<Rightarrow> tree_error + 'a" where
  "from_chain r = (case r of Inl e \<Rightarrow> Inl (TreeSkip e) | Inr x \<Rightarrow> Inr x)"

definition from_pow :: "pow_error + 'a \<Rightarrow> tree_error + 'a" where
  "from_pow r = (case r of Inl e \<Rightarrow> Inl (TreeWork e) | Inr x \<Rightarrow> Inr x)"

definition CBlockIndexWorkComparator :: "block_store \<Rightarrow> block_ptr \<Rightarrow> block_ptr \<Rightarrow> bool" where
  "CBlockIndexWorkComparator S pa pb =
     (if CompareTo (nChainWork (S pa)) (nChainWork (S pb)) > 0 then False
      else if CompareTo (nChainWork (S pa)) (nChainWork (S pb)) < 0 then True
      else if nSequenceId (S pa) < nSequenceId (S pb) then False
      else if nSequenceId (S pa) > nSequenceId (S pb) then True
      else if pa < pb then False
      else if pa > pb then True
      else False)"

text \<open>Insertion and removal of a \<open>std::set\<close> with the comparator \<open>lt\<close>: an equivalent element is not inserted twice.\<close>

fun set_insert :: "('a \<Rightarrow> 'a \<Rightarrow> bool) \<Rightarrow> 'a \<Rightarrow> 'a list \<Rightarrow> 'a list" where
  "set_insert lt x [] = [x]"
| "set_insert lt x (y # ys) = (if lt x y then x # y # ys else if lt y x then y # set_insert lt x ys else y # ys)"

fun set_erase :: "('a \<Rightarrow> 'a \<Rightarrow> bool) \<Rightarrow> 'a \<Rightarrow> 'a list \<Rightarrow> 'a list" where
  "set_erase lt x [] = []"
| "set_erase lt x (y # ys) = (if lt x y then y # ys else if lt y x then y # set_erase lt x ys else ys)"

definition insert_candidate :: "block_ptr \<Rightarrow> chainstate \<Rightarrow> chainstate" where
  "insert_candidate p st = st\<lparr>setBlockIndexCandidates := set_insert (CBlockIndexWorkComparator (store st)) p (setBlockIndexCandidates st)\<rparr>"

definition erase_candidate :: "block_ptr \<Rightarrow> chainstate \<Rightarrow> chainstate" where
  "erase_candidate p st = st\<lparr>setBlockIndexCandidates := set_erase (CBlockIndexWorkComparator (store st)) p (setBlockIndexCandidates st)\<rparr>"

definition update_block :: "block_ptr \<Rightarrow> (CBlockIndex \<Rightarrow> CBlockIndex) \<Rightarrow> chainstate \<Rightarrow> chainstate" where
  "update_block p f st = st\<lparr>store := (store st)(p := f (store st p))\<rparr>"

definition mark_dirty :: "block_ptr \<Rightarrow> chainstate \<Rightarrow> chainstate" where
  "mark_dirty p st = st\<lparr>setDirtyBlockIndex := insert p (setDirtyBlockIndex st)\<rparr>"

definition is_valid :: "CBlockIndex \<Rightarrow> u32 \<Rightarrow> tree_error + bool" where
  "is_valid b nUpTo = (case IsValid b nUpTo of None \<Rightarrow> Inl TreeAssert | Some v \<Rightarrow> Inr v)"

definition raise_validity :: "block_ptr \<Rightarrow> u32 \<Rightarrow> chainstate \<Rightarrow> tree_error + chainstate" where
  "raise_validity p nUpTo st =
     (case RaiseValidity (store st p) nUpTo of None \<Rightarrow> Inl TreeAssert | Some (changed, b) \<Rightarrow> Inr (update_block p (\<lambda>_. b) st))"

section \<open>Headers\<close>

text \<open>The work up to the block at \<open>p\<close>.\<close>

definition chain_work :: "block_store \<Rightarrow> block_ptr \<Rightarrow> tree_error + arith_uint256" where
  "chain_work S p = ebind (from_pow (GetBlockProof (S p))) (\<lambda>w.
     Inr (uint_add (case pprev (S p) of None \<Rightarrow> base_uint_u64 0 | Some q \<Rightarrow> nChainWork (S q)) w))"

definition time_max :: "block_store \<Rightarrow> block_ptr \<Rightarrow> u32" where
  "time_max S p = (case pprev (S p) of None \<Rightarrow> nTime (S p) | Some q \<Rightarrow> max (nTimeMax (S q)) (nTime (S p)))"

text \<open>The parent of a new entry at \<open>p\<close>, with the height and the skip pointer that follow from it.\<close>

definition attach_parent :: "block_ptr \<Rightarrow> uint256 \<Rightarrow> chainstate \<Rightarrow> tree_error + chainstate" where
  "attach_parent p prev st =
     (case map_of (mapBlockIndex st) prev of
        None \<Rightarrow> Inr st
      | Some q \<Rightarrow>
          let st = update_block p (\<lambda>b. b\<lparr>pprev := Some q, nHeight := nHeight (store st q) + 1\<rparr>) st
          in ebind (from_chain (BuildSkip p (store st))) (\<lambda>S. Inr (st\<lparr>store := S\<rparr>)))"

text \<open>The accumulated fields of a new entry, and the best header.\<close>

definition finish_entry :: "block_ptr \<Rightarrow> chainstate \<Rightarrow> tree_error + block_ptr \<times> chainstate" where
  "finish_entry p st =
     (let st = update_block p (\<lambda>b. b\<lparr>nTimeMax := time_max (store st) p\<rparr>) st
      in ebind (chain_work (store st) p) (\<lambda>w.
         let st = update_block p (\<lambda>b. b\<lparr>nChainWork := w\<rparr>) st
         in ebind (raise_validity p BLOCK_VALID_TREE st) (\<lambda>st.
            let st = (case pindexBestHeader st of
                        None \<Rightarrow> st\<lparr>pindexBestHeader := Some p\<rparr>
                      | Some h \<Rightarrow> if CompareTo (nChainWork (store st h)) (nChainWork (store st p)) < 0
                                  then st\<lparr>pindexBestHeader := Some p\<rparr> else st)
            in Inr (p, mark_dirty p st))))"

text \<open>\<open>hash\<close> is the hash of the header and \<open>p\<close> the address of a new entry.\<close>

definition AddToBlockIndex :: "uint256 \<Rightarrow> block_ptr \<Rightarrow> 'a CBlockHeader_scheme \<Rightarrow> chainstate \<Rightarrow> tree_error + block_ptr \<times> chainstate" where
  "AddToBlockIndex hash p block st =
     (case map_of (mapBlockIndex st) hash of
        Some q \<Rightarrow> Inr (q, st)
      | None \<Rightarrow>
          let st = update_block p (\<lambda>_. (CBlockIndex_of_header block)\<lparr>nSequenceId := 0\<rparr>) st;
              st = st\<lparr>mapBlockIndex := (hash, p) # mapBlockIndex st\<rparr>;
              st = update_block p (\<lambda>b. b\<lparr>phashBlock := hash\<rparr>) st
          in ebind (attach_parent p (hashPrevBlock block) st) (finish_entry p))"

section \<open>Block data\<close>

text \<open>The body of the loop over the queue: the counters of the block, and the candidates.\<close>

definition link_block :: "block_ptr \<Rightarrow> chainstate \<Rightarrow> chainstate" where
  "link_block p st =
     (let st = update_block p (\<lambda>b. b\<lparr>nChainTx := (case pprev b of None \<Rightarrow> 0 | Some q \<Rightarrow> nChainTx (store st q)) + nTx b\<rparr>) st;
          st = (update_block p (\<lambda>b. b\<lparr>nSequenceId := nBlockSequenceId st\<rparr>) st)\<lparr>nBlockSequenceId := nBlockSequenceId st + 1\<rparr>
      in case Tip (chainActive st) of
           None \<Rightarrow> insert_candidate p st
         | Some tip \<Rightarrow> if \<not> CBlockIndexWorkComparator (store st) p tip then insert_candidate p st else st)"

text \<open>The blocks waiting for \<open>p\<close>, in the order of the multimap, and the others.\<close>

definition waiting :: "block_ptr \<Rightarrow> chainstate \<Rightarrow> block_ptr list" where
  "waiting p st = map snd (filter (\<lambda>e. fst e = p) (mapBlocksUnlinked st))"

definition erase_waiting :: "block_ptr \<Rightarrow> chainstate \<Rightarrow> chainstate" where
  "erase_waiting p st = st\<lparr>mapBlocksUnlinked := filter (\<lambda>e. fst e \<noteq> p) (mapBlocksUnlinked st)\<rparr>"

lemma update_block_simps [simp]:
  "store (update_block p f st) = (store st)(p := f (store st p))" "mapBlocksUnlinked (update_block p f st) = mapBlocksUnlinked st"
  "chainActive (update_block p f st) = chainActive st" "mapBlockIndex (update_block p f st) = mapBlockIndex st"
  "setBlockIndexCandidates (update_block p f st) = setBlockIndexCandidates st" "nBlockSequenceId (update_block p f st) = nBlockSequenceId st"
  "pindexBestHeader (update_block p f st) = pindexBestHeader st" "pindexBestInvalid (update_block p f st) = pindexBestInvalid st"
  by (simp_all add: update_block_def)

lemma insert_candidate_simps [simp]:
  "mapBlocksUnlinked (insert_candidate p st) = mapBlocksUnlinked st" "store (insert_candidate p st) = store st"
  "chainActive (insert_candidate p st) = chainActive st" "mapBlockIndex (insert_candidate p st) = mapBlockIndex st"
  "nBlockSequenceId (insert_candidate p st) = nBlockSequenceId st"
  by (simp_all add: insert_candidate_def)

lemma link_block_simps [simp]:
  "store (link_block p st) = (store st)(p := (store st p)\<lparr>nChainTx := (case pprev (store st p) of None \<Rightarrow> 0 | Some q \<Rightarrow> nChainTx (store st q)) +
     nTx (store st p), nSequenceId := nBlockSequenceId st\<rparr>)"
  "mapBlocksUnlinked (link_block p st) = mapBlocksUnlinked st" "chainActive (link_block p st) = chainActive st"
  "mapBlockIndex (link_block p st) = mapBlockIndex st" "nBlockSequenceId (link_block p st) = nBlockSequenceId st + 1"
  by (auto simp: link_block_def Let_def split: option.split)

lemma erase_waiting_simps [simp]:
  "store (erase_waiting p st) = store st" "mapBlocksUnlinked (erase_waiting p st) = filter (\<lambda>e. fst e \<noteq> p) (mapBlocksUnlinked st)"
  "chainActive (erase_waiting p st) = chainActive st" "mapBlockIndex (erase_waiting p st) = mapBlockIndex st"
  "setBlockIndexCandidates (erase_waiting p st) = setBlockIndexCandidates st" "nBlockSequenceId (erase_waiting p st) = nBlockSequenceId st"
  by (simp_all add: erase_waiting_def)

function link_loop :: "block_ptr list \<Rightarrow> chainstate \<Rightarrow> chainstate" where
  "link_loop [] st = st"
| "link_loop (p # queue) st =
     (let st = link_block p st in link_loop (queue @ waiting p st) (erase_waiting p st))"
  by pat_completeness auto
termination
proof (relation "measure (\<lambda>(queue, st). length queue + length (mapBlocksUnlinked st))")
  show "((queue @ waiting p st, erase_waiting p st), p # queue, st') \<in> measure (\<lambda>(queue, st). length queue + length (mapBlocksUnlinked st))"
    if "st = link_block p st'" for p queue st' st
    using that sum_length_filter_compl [of "\<lambda>e. fst e = p" "mapBlocksUnlinked st'"] by (simp add: waiting_def)
qed simp

declare link_loop.simps(2) [simp del]

definition ReceivedBlockTransactions :: "nat \<Rightarrow> CDiskBlockPos \<Rightarrow> block_ptr \<Rightarrow> chainstate \<Rightarrow> tree_error + chainstate" where
  "ReceivedBlockTransactions vtx_size pos p st =
     (let st = update_block p (\<lambda>b. b\<lparr>nTx := of_nat vtx_size, nChainTx := 0, nFile := pos_nFile pos, nDataPos := pos_nPos pos,
                 nUndoPos := 0, nStatus := nStatus b OR BLOCK_HAVE_DATA\<rparr>) st
      in ebind (raise_validity p BLOCK_VALID_TRANSACTIONS st) (\<lambda>st.
         let st = mark_dirty p st in
         case pprev (store st p) of
           None \<Rightarrow> Inr (link_loop [p] st)
         | Some q \<Rightarrow>
             if nChainTx (store st q) \<noteq> 0 then Inr (link_loop [p] st)
             else ebind (is_valid (store st q) BLOCK_VALID_TREE) (\<lambda>v.
               Inr (if v then st\<lparr>mapBlocksUnlinked := mapBlocksUnlinked st @ [(q, p)]\<rparr> else st))))"

section \<open>The invariant of the index\<close>

definition blocks_of :: "chainstate \<Rightarrow> block_ptr set" where
  "blocks_of st = snd ` set (mapBlockIndex st)"

text \<open>Every hash has one entry and every entry one hash; parents are in the index, and so is what they say of
  their children: height, skip pointer, latest time and accumulated work.  Nothing is stored elsewhere.\<close>

definition index_ok :: "chainstate \<Rightarrow> bool" where
  "index_ok st \<longleftrightarrow> distinct (map fst (mapBlockIndex st)) \<and> distinct (map snd (mapBlockIndex st)) \<and>
     (\<forall>(h, p) \<in> set (mapBlockIndex st). phashBlock (store st p) = h) \<and>
     (\<forall>p. p \<notin> blocks_of st \<longrightarrow> store st p = CBlockIndex_SetNull) \<and>
     (\<forall>p q. pprev (store st p) = Some q \<longrightarrow> q \<in> blocks_of st \<and> pskip (store st p) \<noteq> None) \<and>
     block_tree (store st) \<and> skips_ok (store st) \<and> time_max_ok (store st) \<and>
     (\<forall>p. length (nChainWork (store st p)) = 8) \<and>
     (\<forall>p \<in> blocks_of st. chain_work (store st) p = Inr (nChainWork (store st p)))"

lemma index_okD:
  assumes "index_ok st"
  shows "distinct (map fst (mapBlockIndex st))" "distinct (map snd (mapBlockIndex st))"
    "(h, p) \<in> set (mapBlockIndex st) \<Longrightarrow> phashBlock (store st p) = h"
    "p \<notin> blocks_of st \<Longrightarrow> store st p = CBlockIndex_SetNull" "pprev (store st p) = Some q \<Longrightarrow> q \<in> blocks_of st"
    "pprev (store st p) = Some q \<Longrightarrow> pskip (store st p) \<noteq> None"
    "block_tree (store st)" "skips_ok (store st)" "time_max_ok (store st)" "length (nChainWork (store st p)) = 8"
    "p \<in> blocks_of st \<Longrightarrow> chain_work (store st) p = Inr (nChainWork (store st p))"
  using assms unfolding index_ok_def by blast+

lemma index_okI:
  assumes "distinct (map fst (mapBlockIndex st))" "distinct (map snd (mapBlockIndex st))"
    "\<And>h p. (h, p) \<in> set (mapBlockIndex st) \<Longrightarrow> phashBlock (store st p) = h"
    "\<And>p. p \<notin> blocks_of st \<Longrightarrow> store st p = CBlockIndex_SetNull" "\<And>p q. pprev (store st p) = Some q \<Longrightarrow> q \<in> blocks_of st"
    "\<And>p q. pprev (store st p) = Some q \<Longrightarrow> pskip (store st p) \<noteq> None"
    "block_tree (store st)" "skips_ok (store st)" "time_max_ok (store st)" "\<And>p. length (nChainWork (store st p)) = 8"
    "\<And>p. p \<in> blocks_of st \<Longrightarrow> chain_work (store st) p = Inr (nChainWork (store st p))"
  shows "index_ok st"
  using assms unfolding index_ok_def by blast

lemma parent_in_index: "index_ok st \<Longrightarrow> pprev (store st p) \<noteq> None \<Longrightarrow> p \<in> blocks_of st"
  using index_okD(4) [of st p] by (cases "p \<in> blocks_of st") (auto simp: CBlockIndex_SetNull_def)

lemma not_parent: "index_ok st \<Longrightarrow> p \<notin> blocks_of st \<Longrightarrow> pprev (store st x) \<noteq> Some p"
  using index_okD(5) by blast

text \<open>Changing an entry that no other has as its parent.\<close>

lemma back_by_upd:
  assumes "\<And>x. pprev (S x) \<noteq> Some p"
  shows "x \<noteq> p \<Longrightarrow> back_by (S(p := b)) n x = back_by S n x"
proof (induction n arbitrary: x)
  case (Suc n)
  then show ?case using assms [of x] by (auto split: option.splits)
qed simp

lemma block_tree_upd:
  assumes "block_tree S" "\<And>x. pprev (S x) \<noteq> Some p" "pprev b \<noteq> Some p"
    "case pprev b of None \<Rightarrow> nHeight b = 0 | Some q \<Rightarrow> nHeight b = nHeight (S q) + 1"
  shows "block_tree (S(p := b))"
  unfolding block_tree_def
proof
  fix x
  show "case pprev ((S(p := b)) x) of None \<Rightarrow> nHeight ((S(p := b)) x) = 0 | Some q \<Rightarrow> nHeight ((S(p := b)) x) = nHeight ((S(p := b)) q) + 1"
    using assms(3,4) assms(2) [of x] block_tree_parent [OF assms(1), of x] block_tree_root [OF assms(1), of x]
    by (auto split: option.splits)
qed

lemma skips_ok_upd:
  assumes "skips_ok S" "\<And>x. pprev (S x) \<noteq> Some p" "pskip b = None"
  shows "skips_ok (S(p := b))"
  using assms by (auto simp: skips_ok_def back_by_upd)

lemma time_max_ok_upd:
  assumes "time_max_ok S" "\<And>x. pprev (S x) \<noteq> Some p" "pprev b \<noteq> Some p"
    "nTimeMax b = (case pprev b of None \<Rightarrow> nTime b | Some q \<Rightarrow> max (nTimeMax (S q)) (nTime b))"
  shows "time_max_ok (S(p := b))"
  unfolding time_max_ok_def
proof
  fix x
  show "nTimeMax ((S(p := b)) x) = (case pprev ((S(p := b)) x) of None \<Rightarrow> nTime ((S(p := b)) x)
      | Some q \<Rightarrow> max (nTimeMax ((S(p := b)) q)) (nTime ((S(p := b)) x)))"
    using assms(3,4) assms(2) [of x] assms(1) [unfolded time_max_ok_def, rule_format, of x] by (auto split: option.splits)
qed

lemma chain_work_Inr: "\<exists>w. chain_work S p = Inr w \<and> length w = 8"
  if "\<And>q. pprev (S p) = Some q \<Longrightarrow> length (nChainWork (S q)) = 8"
proof -
  obtain w where "GetBlockProof (S p) = Inr w" "length w = 8" using GetBlockProof_val [of "S p"] by blast
  then show ?thesis using that by (auto simp: chain_work_def from_pow_def length_u64 WIDTH_def split: option.split)
qed

lemma chain_work_cong:
  "pprev (S p) = pprev (T p) \<Longrightarrow> nBits (S p) = nBits (T p) \<Longrightarrow> (\<And>q. pprev (S p) = Some q \<Longrightarrow> nChainWork (S q) = nChainWork (T q)) \<Longrightarrow>
    chain_work S p = chain_work T p"
  by (simp add: chain_work_def GetBlockProof_def split: option.split)

section \<open>Adding a header\<close>

text \<open>The entry that a new header gets.\<close>

definition entry_for :: "uint256 \<Rightarrow> 'a CBlockHeader_scheme \<Rightarrow> chainstate \<Rightarrow> CBlockIndex \<Rightarrow> bool" where
  "entry_for hash block st b \<longleftrightarrow> phashBlock b = hash \<and> pprev b = map_of (mapBlockIndex st) (hashPrevBlock block) \<and>
     bi_nVersion b = hdr_nVersion block \<and> bi_hashMerkleRoot b = hashMerkleRoot block \<and> nTime b = hdr_nTime block \<and>
     nBits b = hdr_nBits block \<and> nNonce b = hdr_nNonce block \<and> nTx b = 0 \<and> nChainTx b = 0 \<and> nStatus b = BLOCK_VALID_TREE \<and> nSequenceId b = 0"

definition same_but_index :: "chainstate \<Rightarrow> chainstate \<Rightarrow> bool" where
  "same_but_index st st' \<longleftrightarrow> chainActive st' = chainActive st \<and> setBlockIndexCandidates st' = setBlockIndexCandidates st \<and>
     mapBlocksUnlinked st' = mapBlocksUnlinked st \<and> nBlockSequenceId st' = nBlockSequenceId st \<and> pindexBestInvalid st' = pindexBestInvalid st"

lemma linked_entry:
  assumes ok: "index_ok st" and new: "p \<notin> blocks_of st" and q: "map_of (mapBlockIndex st) h = q"
    and b: "pprev b = None" "nHeight b = 0" "pskip b = None"
  shows "\<exists>b'. (case q of None \<Rightarrow> Inr ((store st)(p := b))
      | Some q \<Rightarrow> from_chain (BuildSkip p ((store st)(p := b\<lparr>pprev := Some q, nHeight := nHeight (store st q) + 1\<rparr>)))) = Inr ((store st)(p := b')) \<and>
    (\<exists>s. b' = b\<lparr>pprev := q, nHeight := (case q of None \<Rightarrow> 0 | Some q \<Rightarrow> nHeight (store st q) + 1), pskip := s\<rparr>) \<and>
    (q \<noteq> None \<longrightarrow> pskip b' \<noteq> None) \<and> block_tree ((store st)(p := b')) \<and> skips_ok ((store st)(p := b'))"
proof (cases q)
  case None
  have "block_tree ((store st)(p := b))" "skips_ok ((store st)(p := b))"
    using b not_parent [OF ok new] by (auto intro!: block_tree_upd skips_ok_upd index_okD [OF ok])
  then show ?thesis using None b by (intro exI [of _ b]) (auto intro: exI [of _ None])
next
  case (Some q')
  then have q': "q' \<in> blocks_of st" "q' \<noteq> p" using q new by (auto simp: blocks_of_def dest!: map_of_SomeD intro: rev_image_eqI)
  let ?b = "b\<lparr>pprev := Some q', nHeight := nHeight (store st q') + 1\<rparr>" and ?S = "(store st)(p := b\<lparr>pprev := Some q', nHeight := nHeight (store st q') + 1\<rparr>)"
  have S: "block_tree ?S" "skips_ok ?S"
    using b q' not_parent [OF ok new] by (auto intro!: block_tree_upd skips_ok_upd index_okD [OF ok])
  from BuildSkip_ok [OF S, of p] obtain s where "BuildSkip p ?S = Inr (?S(p := (?S p)\<lparr>pskip := s\<rparr>))" "s \<noteq> None"
    "block_tree (?S(p := (?S p)\<lparr>pskip := s\<rparr>))" "skips_ok (?S(p := (?S p)\<lparr>pskip := s\<rparr>))" by auto
  then show ?thesis using Some by (intro exI [of _ "?b\<lparr>pskip := s\<rparr>"]) (auto simp: from_chain_def intro: exI [of _ s])
qed

lemma index_ok_insert:
  assumes ok: "index_ok st" and new: "p \<notin> blocks_of st" "map_of (mapBlockIndex st) hash = None"
    and st': "store st' = (store st)(p := b)" "mapBlockIndex st' = (hash, p) # mapBlockIndex st"
    and b: "phashBlock b = hash" "pprev b = map_of (mapBlockIndex st) h" "pprev b \<noteq> None \<longrightarrow> pskip b \<noteq> None"
      "nTimeMax b = time_max (store st') p" "chain_work (store st') p = Inr (nChainWork b)" "length (nChainWork b) = 8"
    and tree: "block_tree (store st')" "skips_ok (store st')"
  shows "index_ok st'"
proof -
  have blocks: "blocks_of st' = insert p (blocks_of st)" using st'(2) by (auto simp: blocks_of_def)
  have parent: "q \<in> blocks_of st \<and> q \<noteq> p" if "pprev b = Some q" for q
    using that b(2) new(1) by (auto simp: blocks_of_def dest!: map_of_SomeD intro: rev_image_eqI)
  show ?thesis
  proof (rule index_okI)
    show "distinct (map fst (mapBlockIndex st'))" "distinct (map snd (mapBlockIndex st'))"
      using new index_okD(1,2) [OF ok] by (simp_all add: st'(2) map_of_eq_None_iff blocks_of_def)
    show "phashBlock (store st' x) = h" if "(h, x) \<in> set (mapBlockIndex st')" for h x
      using that st' b(1) index_okD(3) [OF ok, of h x] new(1) by (auto simp: blocks_of_def intro: rev_image_eqI)
    show "store st' x = CBlockIndex_SetNull" if "x \<notin> blocks_of st'" for x
      using that blocks st'(1) index_okD(4) [OF ok] by auto
    show "q \<in> blocks_of st'" "pskip (store st' x) \<noteq> None" if "pprev (store st' x) = Some q" for x q
      using that blocks st'(1) parent b(3) index_okD(5,6) [OF ok, of x q] by (auto split: if_splits)
    show "time_max_ok (store st')" unfolding st'(1)
      using b(4) parent not_parent [OF ok new(1)] by (intro time_max_ok_upd index_okD [OF ok]) (auto simp: time_max_def st'(1) split: option.split)
    show "length (nChainWork (store st' x)) = 8" for x using b(6) st'(1) index_okD(10) [OF ok] by simp
    show "chain_work (store st') x = Inr (nChainWork (store st' x))" if "x \<in> blocks_of st'" for x
    proof (cases "x = p")
      case False
      have "chain_work (store st') x = chain_work (store st) x"
        by (rule chain_work_cong) (use False st'(1) not_parent [OF ok new(1)] in auto)
      then show ?thesis using that False blocks st'(1) index_okD(11) [OF ok, of x] by simp
    qed (use b(5) st'(1) in simp)
  qed (rule tree)+
qed

lemma raise_new: "nStatus (store st p) = 0 \<Longrightarrow> raise_validity p BLOCK_VALID_TREE st = Inr (update_block p (\<lambda>b. b\<lparr>nStatus := BLOCK_VALID_TREE\<rparr>) st)"
  by (simp add: raise_validity_def RaiseValidity_def block_status_defs update_block_def)

lemma attach_parent_new:
  assumes ok: "index_ok st" and new: "p \<notin> blocks_of st" and prev: "prev \<noteq> hash"
    and st1: "store st1 = (store st)(p := b)" "mapBlockIndex st1 = (hash, p) # mapBlockIndex st"
    and b: "pprev b = None" "nHeight b = 0" "pskip b = None"
  shows "\<exists>b' s. attach_parent p prev st1 = Inr (st1\<lparr>store := (store st)(p := b')\<rparr>) \<and>
    b' = b\<lparr>pprev := map_of (mapBlockIndex st) prev,
      nHeight := (case map_of (mapBlockIndex st) prev of None \<Rightarrow> 0 | Some q \<Rightarrow> nHeight (store st q) + 1), pskip := s\<rparr> \<and>
    (pprev b' \<noteq> None \<longrightarrow> pskip b' \<noteq> None) \<and> block_tree ((store st)(p := b')) \<and> skips_ok ((store st)(p := b'))"
proof -
  let ?q = "map_of (mapBlockIndex st) prev"
  obtain b' s where b': "(case ?q of None \<Rightarrow> Inr ((store st)(p := b))
      | Some q \<Rightarrow> from_chain (BuildSkip p ((store st)(p := b\<lparr>pprev := Some q, nHeight := nHeight (store st q) + 1\<rparr>)))) = Inr ((store st)(p := b'))"
    "b' = b\<lparr>pprev := ?q, nHeight := (case ?q of None \<Rightarrow> 0 | Some q \<Rightarrow> nHeight (store st q) + 1), pskip := s\<rparr>"
    "?q \<noteq> None \<longrightarrow> pskip b' \<noteq> None" "block_tree ((store st)(p := b'))" "skips_ok ((store st)(p := b'))"
    using linked_entry [OF ok new refl b, of prev] by blast
  have "attach_parent p prev st1 = Inr (st1\<lparr>store := (store st)(p := b')\<rparr>)"
  proof (cases ?q)
    case None
    then show ?thesis using b'(1) st1 prev by (simp add: attach_parent_def)
  next
    case (Some q)
    then have "q \<noteq> p" using new by (auto simp: blocks_of_def dest!: map_of_SomeD intro: rev_image_eqI)
    then show ?thesis using b'(1) st1 prev Some by (simp add: attach_parent_def Let_def update_block_def)
  qed
  moreover have "pprev b' \<noteq> None \<longrightarrow> pskip b' \<noteq> None" using b'(2,3) by simp
  ultimately show ?thesis using b'(2,4,5) by blast
qed

lemma finish_entry_eq:
  assumes "chain_work (store st) p = Inr w" "nStatus (store st p) = 0"
  shows "\<exists>st'. finish_entry p st = Inr (p, st') \<and>
    store st' = (store st)(p := (store st p)\<lparr>nTimeMax := time_max (store st) p, nChainWork := w, nStatus := BLOCK_VALID_TREE\<rparr>) \<and>
    mapBlockIndex st' = mapBlockIndex st \<and> same_but_index st st'"
proof -
  have "chain_work ((store st)(p := (store st p)\<lparr>nTimeMax := time_max (store st) p\<rparr>)) p = Inr w"
    using assms(1) by (subst chain_work_cong [of _ _ "store st"]) auto
  then show ?thesis using assms(2)
    by (simp add: finish_entry_def Let_def raise_new same_but_index_def mark_dirty_def split: option.split)
qed

lemma AddToBlockIndex_new:
  assumes ok: "index_ok st" and new: "p \<notin> blocks_of st" "map_of (mapBlockIndex st) hash = None" and prev: "hashPrevBlock block \<noteq> hash"
  shows "\<exists>b st'. AddToBlockIndex hash p block st = Inr (p, st') \<and> store st' = (store st)(p := b) \<and>
    mapBlockIndex st' = (hash, p) # mapBlockIndex st \<and> same_but_index st st' \<and> entry_for hash block st b \<and> index_ok st'"
proof -
  let ?b = "(CBlockIndex_of_header block)\<lparr>nSequenceId := 0, phashBlock := hash\<rparr>" and ?q = "map_of (mapBlockIndex st) (hashPrevBlock block)"
  let ?st1 = "update_block p (\<lambda>b. b\<lparr>phashBlock := hash\<rparr>) ((update_block p (\<lambda>_. (CBlockIndex_of_header block)\<lparr>nSequenceId := 0\<rparr>) st)
    \<lparr>mapBlockIndex := (hash, p) # mapBlockIndex st\<rparr>)"
  have b0: "pprev ?b = None" "nHeight ?b = 0" "pskip ?b = None" by (simp_all add: CBlockIndex_of_header_def CBlockIndex_SetNull_def)
  have st1: "store ?st1 = (store st)(p := ?b)" "mapBlockIndex ?st1 = (hash, p) # mapBlockIndex st" by simp_all
  obtain b' s where b': "attach_parent p (hashPrevBlock block) ?st1 = Inr (?st1\<lparr>store := (store st)(p := b')\<rparr>)"
    "b' = ?b\<lparr>pprev := ?q, nHeight := (case ?q of None \<Rightarrow> 0 | Some q \<Rightarrow> nHeight (store st q) + 1), pskip := s\<rparr>"
    "pprev b' \<noteq> None \<longrightarrow> pskip b' \<noteq> None" "block_tree ((store st)(p := b'))" "skips_ok ((store st)(p := b'))"
    using attach_parent_new [OF ok new(1) prev st1 b0] by blast
  let ?st2 = "?st1\<lparr>store := (store st)(p := b')\<rparr>"
  have q: "q \<noteq> p" if "?q = Some q" for q using that new(1) by (auto simp: blocks_of_def dest!: map_of_SomeD intro: rev_image_eqI)
  obtain w where w: "chain_work (store ?st2) p = Inr w" "length w = 8"
    using chain_work_Inr [of "store ?st2" p] index_okD(10) [OF ok] q b'(2) by auto
  define b where "b = b'\<lparr>nTimeMax := time_max (store ?st2) p, nChainWork := w, nStatus := BLOCK_VALID_TREE\<rparr>"
  have "nStatus (store ?st2 p) = 0" using b'(2) by (simp add: CBlockIndex_of_header_def CBlockIndex_SetNull_def)
  from finish_entry_eq [OF w(1) this] obtain st' where st': "finish_entry p ?st2 = Inr (p, st')" "store st' = (store st)(p := b)"
    "mapBlockIndex st' = (hash, p) # mapBlockIndex st" "same_but_index ?st2 st'" by (auto simp: b_def)
  have "AddToBlockIndex hash p block st = Inr (p, st')" using st'(1) b'(1) new(2) by (simp add: AddToBlockIndex_def Let_def)
  moreover have "same_but_index st st'" using st'(4) by (simp add: same_but_index_def)
  moreover have "entry_for hash block st b" using b'(2) by (simp add: b_def entry_for_def CBlockIndex_of_header_def CBlockIndex_SetNull_def)
  moreover have "index_ok st'"
  proof (rule index_ok_insert [OF ok new st'(2,3), of "hashPrevBlock block"])
    have e: "pprev (store st' x) = pprev (store ?st2 x)" "nTime (store st' x) = nTime (store ?st2 x)" "nBits (store st' x) = nBits (store ?st2 x)"
      "nHeight (store st' x) = nHeight (store ?st2 x)" "pskip (store st' x) = pskip (store ?st2 x)" for x by (simp_all add: st'(2) b_def)
    show "phashBlock b = hash" "pprev b = ?q" "pprev b \<noteq> None \<longrightarrow> pskip b \<noteq> None" "length (nChainWork b) = 8"
      using b'(2,3) w(2) by (simp_all add: b_def)
    show "nTimeMax b = time_max (store st') p" using q b'(2) by (simp add: b_def st'(2) time_max_def split: option.split)
    show "chain_work (store st') p = Inr (nChainWork b)"
      using w(1) q b'(2) by (subst chain_work_cong [of _ _ "store ?st2"]) (auto simp: e(3) st'(2) b_def)
    show "block_tree (store st')" using b'(4) e(1,4) by (subst block_tree_cong [of _ "store ?st2"]) simp_all
    have "back_by (store st') n x = back_by (store ?st2) n x" for n x by (rule back_by_cong) (rule e(1))
    then show "skips_ok (store st')" using b'(5) e(4,5) by (simp add: skips_ok_def)
  qed
  ultimately show ?thesis using st'(2,3) by blast
qed

section \<open>Order of the candidates\<close>

definition wf_works :: "block_store \<Rightarrow> bool" where
  "wf_works S \<longleftrightarrow> (\<forall>p. length (nChainWork (S p)) = 8)"

lemma work_less_iff:
  assumes "wf_works S"
  shows "CBlockIndexWorkComparator S a b \<longleftrightarrow> nval (nChainWork (S a)) < nval (nChainWork (S b)) \<or>
    nval (nChainWork (S a)) = nval (nChainWork (S b)) \<and>
      (nSequenceId (S b) < nSequenceId (S a) \<or> nSequenceId (S b) = nSequenceId (S a) \<and> b < a)"
  using assms by (auto simp: CBlockIndexWorkComparator_def CompareTo_nval wf_works_def)

lemma work_irrefl: "wf_works S \<Longrightarrow> \<not> CBlockIndexWorkComparator S a a"
  by (simp add: work_less_iff)

lemma work_trans: "wf_works S \<Longrightarrow> CBlockIndexWorkComparator S a b \<Longrightarrow> CBlockIndexWorkComparator S b c \<Longrightarrow> CBlockIndexWorkComparator S a c"
  by (auto simp: work_less_iff)

lemma work_total: "wf_works S \<Longrightarrow> CBlockIndexWorkComparator S a b \<or> a = b \<or> CBlockIndexWorkComparator S b a"
  by (auto simp: work_less_iff)

lemma work_asym: "wf_works S \<Longrightarrow> CBlockIndexWorkComparator S a b \<Longrightarrow> \<not> CBlockIndexWorkComparator S b a"
  by (auto simp: work_less_iff)

text \<open>The operations of a set whose comparator is a strict linear order.\<close>

locale set_order =
  fixes lt :: "'a \<Rightarrow> 'a \<Rightarrow> bool"
  assumes irrefl: "\<not> lt a a" and trans: "lt a b \<Longrightarrow> lt b c \<Longrightarrow> lt a c" and total: "lt a b \<or> a = b \<or> lt b a"
begin

lemma asym: "lt a b \<Longrightarrow> \<not> lt b a"
  using irrefl trans by blast

lemma set_set_insert: "set (set_insert lt x ys) = insert x (set ys)"
proof (induction ys)
  case (Cons y ys)
  then show ?case using total [of x y] by (auto simp: insert_commute)
qed simp

lemma sorted_set_insert: "sorted_wrt lt ys \<Longrightarrow> sorted_wrt lt (set_insert lt x ys)"
proof (induction ys)
  case (Cons y ys)
  have "lt x z" if "lt x y" "z \<in> set ys" for z using that Cons.prems trans [of x y z] by auto
  then show ?case using Cons by (auto simp: set_set_insert)
qed simp

lemma set_set_erase: "sorted_wrt lt ys \<Longrightarrow> set (set_erase lt x ys) = set ys - {x}"
proof (induction ys)
  case (Cons y ys)
  have "y \<notin> set ys" using Cons.prems irrefl by auto
  moreover have "x \<notin> set ys" if "lt x y" using that Cons.prems asym [of x y] by auto
  moreover have "lt x y \<or> x = y \<or> lt y x" "\<not> lt y y" by (rule total, rule irrefl)
  ultimately show ?case using Cons asym [of x y] by auto
qed simp

lemma sorted_set_erase: "sorted_wrt lt ys \<Longrightarrow> sorted_wrt lt (set_erase lt x ys)"
proof (induction ys)
  case (Cons y ys)
  then show ?case using set_set_erase [of ys x] by auto
qed simp

lemma sorted_distinct: "sorted_wrt lt ys \<Longrightarrow> distinct ys"
  using irrefl by (induction ys) auto

lemma sorted_last: "sorted_wrt lt ys \<Longrightarrow> ys \<noteq> [] \<Longrightarrow> y \<in> set ys \<Longrightarrow> y = last ys \<or> lt y (last ys)"
  by (induction ys) auto

lemma set_dropWhile_worse: "sorted_wrt lt ys \<Longrightarrow> set (dropWhile (\<lambda>c. lt c t) ys) = {c \<in> set ys. \<not> lt c t}"
proof (induction ys)
  case (Cons y ys)
  have "\<not> lt z t" if "\<not> lt y t" "z \<in> set ys" for z using that Cons.prems trans [of y z t] by auto
  then show ?case using Cons by auto
qed simp

lemma sorted_dropWhile: "sorted_wrt lt ys \<Longrightarrow> sorted_wrt lt (dropWhile P ys)"
  by (induction ys) auto

end

lemma work_set_order: "wf_works S \<Longrightarrow> set_order (CBlockIndexWorkComparator S)"
  by unfold_locales (erule work_irrefl, erule (2) work_trans, erule work_total)

text \<open>The candidates of a store whose entries all have their work.\<close>

locale worked_store =
  fixes S :: block_store
  assumes works: "wf_works S"

sublocale worked_store \<subseteq> candidates: set_order "CBlockIndexWorkComparator S"
  by (rule work_set_order [OF works])

interpretation sample: worked_store sample_store
  by unfold_locales (simp add: wf_works_def sample_store_def CBlockIndex_SetNull_def base_uint_zero_def WIDTH_def)

section \<open>Changes that keep the index\<close>

text \<open>The fields of an entry that the tree, the skip list, the latest times and the work depend on.\<close>

definition core :: "CBlockIndex \<Rightarrow> uint256 \<times> block_ptr option \<times> block_ptr option \<times> nat \<times> u32 \<times> u32 \<times> u32 \<times> arith_uint256" where
  "core b = (phashBlock b, pprev b, pskip b, nHeight b, nTimeMax b, nTime b, nBits b, nChainWork b)"

definition same_tree :: "chainstate \<Rightarrow> chainstate \<Rightarrow> bool" where
  "same_tree st st' \<longleftrightarrow> mapBlockIndex st' = mapBlockIndex st \<and> (\<forall>p. core (store st' p) = core (store st p)) \<and>
     (\<forall>p. p \<notin> blocks_of st \<longrightarrow> store st' p = store st p)"

lemma same_treeD:
  assumes "same_tree st st'"
  shows "phashBlock (store st' p) = phashBlock (store st p)" "pprev (store st' p) = pprev (store st p)" "pskip (store st' p) = pskip (store st p)"
    "nHeight (store st' p) = nHeight (store st p)" "nTimeMax (store st' p) = nTimeMax (store st p)" "nTime (store st' p) = nTime (store st p)"
    "nBits (store st' p) = nBits (store st p)" "nChainWork (store st' p) = nChainWork (store st p)" "mapBlockIndex st' = mapBlockIndex st"
    "blocks_of st' = blocks_of st" "back_by (store st') n p = back_by (store st) n p" "is_ancestor (store st') q p = is_ancestor (store st) q p"
    "block_tree (store st') = block_tree (store st)"
proof -
  have core: "core (store st' p) = core (store st p)" for p using assms by (simp add: same_tree_def)
  show "phashBlock (store st' p) = phashBlock (store st p)" "pskip (store st' p) = pskip (store st p)"
    "nTimeMax (store st' p) = nTimeMax (store st p)" "nTime (store st' p) = nTime (store st p)"
    "nBits (store st' p) = nBits (store st p)" "nChainWork (store st' p) = nChainWork (store st p)"
    using core [of p] by (simp_all add: core_def)
  have parents: "pprev (store st' p) = pprev (store st p)" and heights: "nHeight (store st' p) = nHeight (store st p)" for p
    using core [of p] by (simp_all add: core_def)
  show "pprev (store st' p) = pprev (store st p)" "nHeight (store st' p) = nHeight (store st p)" by (rule parents, rule heights)
  show "mapBlockIndex st' = mapBlockIndex st" "blocks_of st' = blocks_of st" using assms by (simp_all add: same_tree_def blocks_of_def)
  have walk: "back_by (store st') n p = back_by (store st) n p" for n p by (rule back_by_cong) (rule parents)
  show "back_by (store st') n p = back_by (store st) n p" by (rule walk)
  show "is_ancestor (store st') q p = is_ancestor (store st) q p" by (simp add: is_ancestor_def walk)
  show "block_tree (store st') = block_tree (store st)" by (rule block_tree_cong) (rule parents, rule heights)
qed

lemma same_tree_refl [simp]: "same_tree st st"
  by (simp add: same_tree_def)

lemma same_tree_trans: "same_tree st st' \<Longrightarrow> same_tree st' st'' \<Longrightarrow> same_tree st st''"
  by (simp add: same_tree_def blocks_of_def)

lemma same_tree_index_ok:
  assumes "index_ok st" "same_tree st st'"
  shows "index_ok st'"
proof (rule index_okI)
  note same = same_treeD [OF assms(2)]
  show "chain_work (store st') p = Inr (nChainWork (store st' p))" if "p \<in> blocks_of st'" for p
  proof -
    have "chain_work (store st') p = chain_work (store st) p" by (rule chain_work_cong) (simp_all only: same(2,7,8))
    then show ?thesis using that index_okD(11) [OF assms(1), of p] by (simp only: same(8,10))
  qed
  show "time_max_ok (store st')" unfolding time_max_ok_def same(2,5,6) by (rule index_okD(9) [OF assms(1), unfolded time_max_ok_def])
  show "skips_ok (store st')" unfolding skips_ok_def same(3,4,11) by (rule index_okD(8) [OF assms(1), unfolded skips_ok_def])
  show "store st' p = CBlockIndex_SetNull" if "p \<notin> blocks_of st'" for p
    using that index_okD(4) [OF assms(1), of p] assms(2) by (simp add: same_tree_def same(10))
  show "q \<in> blocks_of st'" "pskip (store st' p) \<noteq> None" if "pprev (store st' p) = Some q" for p q
    using that index_okD(5,6) [OF assms(1), of p q] by (simp_all add: same(2,3,10))
  show "phashBlock (store st' p) = h" if "(h, p) \<in> set (mapBlockIndex st')" for h p
    using that index_okD(3) [OF assms(1), of h p] by (simp only: same(1,9))
  show "distinct (map fst (mapBlockIndex st'))" "distinct (map snd (mapBlockIndex st'))" "block_tree (store st')"
    using index_okD(1,2,7) [OF assms(1)] by (simp_all only: same(9,13))
  show "length (nChainWork (store st' p)) = 8" for p using index_okD(10) [OF assms(1), of p] by (simp only: same(8))
qed

section \<open>Linked blocks\<close>

definition failed :: "CBlockIndex \<Rightarrow> bool" where
  "failed b \<longleftrightarrow> nStatus b AND BLOCK_FAILED_MASK \<noteq> 0"

definition has_data :: "CBlockIndex \<Rightarrow> bool" where
  "has_data b \<longleftrightarrow> nStatus b AND BLOCK_HAVE_DATA \<noteq> 0"

definition is_linked :: "block_store \<Rightarrow> block_ptr \<Rightarrow> bool" where
  "is_linked S p \<longleftrightarrow> nChainTx (S p) \<noteq> 0"

text \<open>The number of transactions from the root to a block.\<close>

definition chain_txs :: "block_store \<Rightarrow> block_ptr \<Rightarrow> nat" where
  "chain_txs S p = (\<Sum>i<nHeight (S p) + 1. unat (nTx (S (the (back_by S i p)))))"

lemma chain_txs_parent: "block_tree S \<Longrightarrow> pprev (S p) = Some q \<Longrightarrow> chain_txs S p = unat (nTx (S p)) + chain_txs S q"
  by (simp add: chain_txs_def block_tree_parent sum.lessThan_Suc_shift del: sum.lessThan_Suc)

lemma chain_txs_root: "block_tree S \<Longrightarrow> pprev (S p) = None \<Longrightarrow> chain_txs S p = unat (nTx (S p))"
  by (simp add: chain_txs_def block_tree_root)

text \<open>The invariant while the blocks of \<open>queue\<close> wait to be linked.  A block whose parent has failed may be
  left out of the waiting blocks.\<close>

definition linking :: "block_ptr list \<Rightarrow> chainstate \<Rightarrow> bool" where
  "linking queue st \<longleftrightarrow>
     (\<forall>p. is_linked (store st) p \<longrightarrow> nTx (store st p) \<noteq> 0 \<and> unat (nChainTx (store st p)) = chain_txs (store st) p \<and>
        (\<forall>q. pprev (store st p) = Some q \<longrightarrow> is_linked (store st) q)) \<and>
     (\<forall>p. nTx (store st p) \<noteq> 0 \<longrightarrow> has_data (store st p)) \<and>
     (\<forall>p. nTx (store st p) \<noteq> 0 \<longrightarrow> \<not> is_linked (store st) p \<longrightarrow> p \<in> set queue \<or>
        (\<exists>q. pprev (store st p) = Some q \<and> (failed (store st q) \<or> (q, p) \<in> set (mapBlocksUnlinked st)))) \<and>
     (\<forall>q p. (q, p) \<in> set (mapBlocksUnlinked st) \<longrightarrow> pprev (store st p) = Some q \<and> nTx (store st p) \<noteq> 0 \<and> \<not> is_linked (store st) p \<and>
        \<not> is_linked (store st) q \<and> p \<notin> set queue) \<and>
     distinct (mapBlocksUnlinked st) \<and> distinct queue \<and>
     (\<forall>p \<in> set queue. nTx (store st p) \<noteq> 0 \<and> \<not> is_linked (store st) p \<and> (\<forall>q. pprev (store st p) = Some q \<longrightarrow> is_linked (store st) q)) \<and>
     (\<forall>p. \<not> is_linked (store st) p \<longrightarrow> nSequenceId (store st p) \<le> 0)"

lemma linkingD:
  assumes "linking queue st"
  shows "is_linked (store st) p \<Longrightarrow> nTx (store st p) \<noteq> 0" "is_linked (store st) p \<Longrightarrow> unat (nChainTx (store st p)) = chain_txs (store st) p"
    "is_linked (store st) p \<Longrightarrow> pprev (store st p) = Some q \<Longrightarrow> is_linked (store st) q"
    "nTx (store st p) \<noteq> 0 \<Longrightarrow> has_data (store st p)"
    "nTx (store st p) \<noteq> 0 \<Longrightarrow> \<not> is_linked (store st) p \<Longrightarrow> p \<in> set queue \<or>
        (\<exists>q. pprev (store st p) = Some q \<and> (failed (store st q) \<or> (q, p) \<in> set (mapBlocksUnlinked st)))"
    "(q, p) \<in> set (mapBlocksUnlinked st) \<Longrightarrow> pprev (store st p) = Some q \<and> nTx (store st p) \<noteq> 0 \<and> \<not> is_linked (store st) p \<and>
        \<not> is_linked (store st) q \<and> p \<notin> set queue"
    "distinct (mapBlocksUnlinked st)" "distinct queue"
    "p \<in> set queue \<Longrightarrow> nTx (store st p) \<noteq> 0 \<and> \<not> is_linked (store st) p" "p \<in> set queue \<Longrightarrow> pprev (store st p) = Some q \<Longrightarrow> is_linked (store st) q"
    "\<not> is_linked (store st) p \<Longrightarrow> nSequenceId (store st p) \<le> 0"
  using assms unfolding linking_def by simp_all

lemma linkingI:
  assumes "\<And>p. is_linked (store st) p \<Longrightarrow> nTx (store st p) \<noteq> 0 \<and> unat (nChainTx (store st p)) = chain_txs (store st) p"
    "\<And>p q. is_linked (store st) p \<Longrightarrow> pprev (store st p) = Some q \<Longrightarrow> is_linked (store st) q"
    "\<And>p. nTx (store st p) \<noteq> 0 \<Longrightarrow> has_data (store st p)"
    "\<And>p. nTx (store st p) \<noteq> 0 \<Longrightarrow> \<not> is_linked (store st) p \<Longrightarrow> p \<in> set queue \<or>
        (\<exists>q. pprev (store st p) = Some q \<and> (failed (store st q) \<or> (q, p) \<in> set (mapBlocksUnlinked st)))"
    "\<And>q p. (q, p) \<in> set (mapBlocksUnlinked st) \<Longrightarrow> pprev (store st p) = Some q \<and> nTx (store st p) \<noteq> 0 \<and> \<not> is_linked (store st) p \<and>
        \<not> is_linked (store st) q \<and> p \<notin> set queue"
    "distinct (mapBlocksUnlinked st)" "distinct queue"
    "\<And>p. p \<in> set queue \<Longrightarrow> nTx (store st p) \<noteq> 0 \<and> \<not> is_linked (store st) p"
    "\<And>p q. p \<in> set queue \<Longrightarrow> pprev (store st p) = Some q \<Longrightarrow> is_linked (store st) q"
    "\<And>p. \<not> is_linked (store st) p \<Longrightarrow> nSequenceId (store st p) \<le> 0"
  shows "linking queue st"
  using assms unfolding linking_def by simp

lemma word_sum_nonzero:
  assumes "unat (a :: u32) + unat b < 2 ^ 32" "b \<noteq> 0"
  shows "unat (a + b) = unat a + unat b" "a + b \<noteq> 0"
proof -
  show "unat (a + b) = unat a + unat b" using assms(1) by (simp add: unat_word_ariths)
  moreover have "unat b \<noteq> 0" using assms(2) by (simp add: unat_eq_zero)
  ultimately show "a + b \<noteq> 0" by (metis add_is_0 unat_0)
qed

text \<open>Counters and flags that the link loop does not change.\<close>

definition same_tx :: "block_store \<Rightarrow> block_store \<Rightarrow> bool" where
  "same_tx S T \<longleftrightarrow> (\<forall>p. pprev (T p) = pprev (S p) \<and> nHeight (T p) = nHeight (S p) \<and> nTx (T p) = nTx (S p) \<and> nStatus (T p) = nStatus (S p))"

lemma same_txD:
  assumes "same_tx S T"
  shows "pprev (T p) = pprev (S p)" "nHeight (T p) = nHeight (S p)" "nTx (T p) = nTx (S p)" "nStatus (T p) = nStatus (S p)"
    "chain_txs T p = chain_txs S p" "failed (T p) = failed (S p)" "has_data (T p) = has_data (S p)" "block_tree T = block_tree S"
proof -
  have e: "pprev (T p) = pprev (S p)" "nHeight (T p) = nHeight (S p)" "nTx (T p) = nTx (S p)" "nStatus (T p) = nStatus (S p)" for p
    using assms by (simp_all add: same_tx_def)
  show "pprev (T p) = pprev (S p)" "nHeight (T p) = nHeight (S p)" "nTx (T p) = nTx (S p)" "nStatus (T p) = nStatus (S p)" by (rule e)+
  have "back_by T n p = back_by S n p" for n p by (rule back_by_cong) (rule e(1))
  then show "chain_txs T p = chain_txs S p" by (simp add: chain_txs_def e)
  show "failed (T p) = failed (S p)" "has_data (T p) = has_data (S p)" by (simp_all add: failed_def has_data_def e)
  show "block_tree T = block_tree S" by (rule block_tree_cong) (rule e)+
qed

lemma link_block_same_tx: "same_tx (store st) (store (erase_waiting p (link_block p st)))"
  by (simp add: same_tx_def)

lemma link_block_linked:
  assumes tree: "block_tree (store st)" and bound: "chain_txs (store st) p < 2 ^ 32" and linking: "linking (p # queue) st"
  defines "st' \<equiv> erase_waiting p (link_block p st)"
  shows "is_linked (store st') x \<longleftrightarrow> x = p \<or> is_linked (store st) x" "unat (nChainTx (store st' p)) = chain_txs (store st) p"
proof -
  have p: "nTx (store st p) \<noteq> 0" "\<And>q. pprev (store st p) = Some q \<Longrightarrow> is_linked (store st) q" using linkingD(9,10) [OF linking, of p] by auto
  show count: "unat (nChainTx (store st' p)) = chain_txs (store st) p"
  proof (cases "pprev (store st p)")
    case None
    then show ?thesis by (simp add: st'_def chain_txs_root [OF tree])
  next
    case (Some q)
    then have "unat (nChainTx (store st q)) = chain_txs (store st) q" using p(2) linkingD(2) [OF linking] by blast
    then show ?thesis using Some bound word_sum_nonzero(1) [of "nChainTx (store st q)" "nTx (store st p)"] p(1)
      by (simp add: st'_def chain_txs_parent [OF tree])
  qed
  have "chain_txs (store st) p \<noteq> 0"
    using p(1) by (cases "pprev (store st p)") (simp_all add: chain_txs_parent [OF tree] chain_txs_root [OF tree] unat_eq_zero)
  then have "nChainTx (store st' p) \<noteq> 0" using count by (metis unat_0)
  moreover have "x \<noteq> p \<Longrightarrow> store st' x = store st x" by (simp add: st'_def)
  ultimately show "is_linked (store st') x \<longleftrightarrow> x = p \<or> is_linked (store st) x" by (cases "x = p") (simp_all add: is_linked_def)
qed

lemma waiting_iff: "c \<in> set (waiting p st) \<longleftrightarrow> (p, c) \<in> set (mapBlocksUnlinked st)"
  by (auto simp: waiting_def intro: rev_image_eqI)

lemma linking_step:
  assumes tree: "block_tree (store st)" and bound: "\<And>x. chain_txs (store st) x < 2 ^ 32" and linking: "linking (p # queue) st"
  shows "linking (queue @ waiting p st) (erase_waiting p (link_block p st))"
proof -
  let ?st = "erase_waiting p (link_block p st)"
  note same = same_txD [OF link_block_same_tx [of st p]]
  note lnk = link_block_linked [OF tree bound linking]
  note old = linkingD [OF linking]
  have other: "x \<noteq> p \<Longrightarrow> store ?st x = store st x" for x by simp
  have unl: "(q, x) \<in> set (mapBlocksUnlinked ?st) \<longleftrightarrow> (q, x) \<in> set (mapBlocksUnlinked st) \<and> q \<noteq> p" for q x by auto
  show ?thesis
  proof (rule linkingI)
    show "nTx (store ?st x) \<noteq> 0 \<and> unat (nChainTx (store ?st x)) = chain_txs (store ?st) x" if "is_linked (store ?st) x" for x
      using that lnk(2) old(1,2) [of x] old(9) [of p] arg_cong [OF other, of x nChainTx] by (cases "x = p") (simp_all only: same lnk(1) list.set, simp_all)
    show "is_linked (store ?st) q" if "is_linked (store ?st) x" "pprev (store ?st x) = Some q" for x q
      using that old(3) [of x q] old(10) [of p q] by (auto simp only: same lnk(1) list.set)
    show "has_data (store ?st x)" if "nTx (store ?st x) \<noteq> 0" for x using that old(4) [of x] unfolding same by blast
    show "x \<in> set (queue @ waiting p st) \<or> (\<exists>q. pprev (store ?st x) = Some q \<and> (failed (store ?st q) \<or> (q, x) \<in> set (mapBlocksUnlinked ?st)))"
      if "nTx (store ?st x) \<noteq> 0" "\<not> is_linked (store ?st) x" for x
      using that old(5) [of x] unfolding same lnk(1) unl set_append by (auto simp: waiting_iff)
    show "pprev (store ?st x) = Some q \<and> nTx (store ?st x) \<noteq> 0 \<and> \<not> is_linked (store ?st) x \<and> \<not> is_linked (store ?st) q \<and> x \<notin> set (queue @ waiting p st)"
      if "(q, x) \<in> set (mapBlocksUnlinked ?st)" for q x
      using that old(6) [of q x] old(6) [of p x] unfolding same lnk(1) unl set_append by (auto simp: waiting_iff)
    show "distinct (mapBlocksUnlinked ?st)" using old(7) by simp
    have "distinct (waiting p st)" using old(7) by (auto simp: waiting_def distinct_map inj_on_def)
    moreover have "x \<notin> set (waiting p st)" if "x \<in> set queue" for x using that old(6) [of p x] by (auto simp: waiting_iff)
    ultimately show "distinct (queue @ waiting p st)" using old(8) by auto
    show "nTx (store ?st x) \<noteq> 0 \<and> \<not> is_linked (store ?st) x" if "x \<in> set (queue @ waiting p st)" for x
      using that old(8) old(9) [of x] old(6) [of p x] unfolding same lnk(1) set_append by (auto simp: waiting_iff)
    show "is_linked (store ?st) q" if "x \<in> set (queue @ waiting p st)" "pprev (store ?st x) = Some q" for x q
      using that old(10) [of x q] old(6) [of p x] unfolding same lnk(1) set_append by (auto simp: waiting_iff)
    show "nSequenceId (store ?st x) \<le> 0" if "\<not> is_linked (store ?st) x" for x
      using that old(11) [of x] arg_cong [OF other, of x nSequenceId] unfolding lnk(1) by auto
  qed
qed

lemma link_loop_linking:
  assumes "block_tree (store st)" "\<And>x. chain_txs (store st) x < 2 ^ 32" "linking queue st"
  shows "linking [] (link_loop queue st) \<and> same_tx (store st) (store (link_loop queue st))"
  using assms
proof (induction queue st rule: link_loop.induct)
  case (2 p queue st)
  let ?st = "erase_waiting p (link_block p st)"
  have w: "waiting p (link_block p st) = waiting p st" by (simp add: waiting_def)
  note same = same_txD [OF link_block_same_tx [of st p]]
  have "linking (queue @ waiting p st) ?st" using linking_step [OF "2.prems"] .
  with "2.IH" [OF refl] "2.prems"(1,2) have "linking [] (link_loop (queue @ waiting p st) ?st) \<and> same_tx (store ?st) (store (link_loop (queue @ waiting p st) ?st))"
    by (simp only: same w)
  then show ?case using link_block_same_tx [of st p] by (simp add: link_loop.simps(2) w same_tx_def)
qed (simp_all add: same_tx_def)


section \<open>The candidates while blocks are linked\<close>

definition tainted :: "block_store \<Rightarrow> block_ptr \<Rightarrow> bool" where
  "tainted S p \<longleftrightarrow> (\<exists>a. is_ancestor S a p \<and> failed (S a))"

text \<open>The candidates are in order and linked; every linked block without a failed ancestor that is not worse than
  the block \<open>F\<close> is one of them.  Between operations \<open>F\<close> is the tip.\<close>

definition cands_above :: "block_ptr option \<Rightarrow> chainstate \<Rightarrow> bool" where
  "cands_above F st \<longleftrightarrow> sorted_wrt (CBlockIndexWorkComparator (store st)) (setBlockIndexCandidates st) \<and>
     (\<forall>c \<in> set (setBlockIndexCandidates st). is_linked (store st) c) \<and> (\<forall>t. F = Some t \<longrightarrow> is_linked (store st) t) \<and>
     (\<forall>p. is_linked (store st) p \<longrightarrow> \<not> tainted (store st) p \<longrightarrow>
        (\<forall>t. F = Some t \<longrightarrow> \<not> CBlockIndexWorkComparator (store st) p t) \<longrightarrow> p \<in> set (setBlockIndexCandidates st))"

abbreviation cands_ok :: "chainstate \<Rightarrow> bool" where
  "cands_ok st \<equiv> cands_above (Tip (chainActive st)) st"

lemma cands_okD:
  assumes "cands_above F st"
  shows "sorted_wrt (CBlockIndexWorkComparator (store st)) (setBlockIndexCandidates st)" "c \<in> set (setBlockIndexCandidates st) \<Longrightarrow> is_linked (store st) c"
    "F = Some t \<Longrightarrow> is_linked (store st) t"
    "is_linked (store st) p \<Longrightarrow> \<not> tainted (store st) p \<Longrightarrow>
      (\<And>t. F = Some t \<Longrightarrow> \<not> CBlockIndexWorkComparator (store st) p t) \<Longrightarrow> p \<in> set (setBlockIndexCandidates st)"
  using assms unfolding cands_above_def by simp_all

lemma comparator_cong: "S a = T a \<Longrightarrow> S b = T b \<Longrightarrow> CBlockIndexWorkComparator S a b = CBlockIndexWorkComparator T a b"
  by (simp add: CBlockIndexWorkComparator_def)

lemma link_block_candidates:
  "setBlockIndexCandidates (link_block p st) =
     (if \<exists>t. Tip (chainActive st) = Some t \<and> CBlockIndexWorkComparator (store (link_block p st)) p t then setBlockIndexCandidates st
      else set_insert (CBlockIndexWorkComparator (store (link_block p st))) p (setBlockIndexCandidates st))"
  by (cases "Tip (chainActive st)") (simp_all add: link_block_def Let_def insert_candidate_def)

lemma tainted_same_tx: "same_tx S T \<Longrightarrow> tainted T p = tainted S p"
proof -
  assume same: "same_tx S T"
  have "back_by T n x = back_by S n x" for n x by (rule back_by_cong) (rule same_txD(1) [OF same])
  then show ?thesis by (simp add: tainted_def is_ancestor_def same_txD(6) [OF same])
qed

lemma cands_step:
  assumes tree: "block_tree (store st)" and bound: "\<And>x. chain_txs (store st) x < 2 ^ 32" and linking: "linking (p # queue) st"
    and works: "wf_works (store st)" and ok: "cands_ok st"
  shows "cands_ok (erase_waiting p (link_block p st)) \<and> wf_works (store (erase_waiting p (link_block p st)))"
proof -
  define st' where "st' = erase_waiting p (link_block p st)"
  let ?c = "setBlockIndexCandidates st" and ?lt = "CBlockIndexWorkComparator (store st')"
  have works': "wf_works (store st')" using works by (simp add: wf_works_def st'_def)
  note ord = work_set_order [OF works']
  have lnk: "is_linked (store st') x \<longleftrightarrow> x = p \<or> is_linked (store st) x" for x unfolding st'_def by (rule link_block_linked [OF tree bound linking])
  have np: "\<not> is_linked (store st) p" using linkingD(9) [OF linking, of p] by simp
  have lt: "?lt x y = CBlockIndexWorkComparator (store st) x y" if "x \<noteq> p" "y \<noteq> p" for x y
    using that by (intro comparator_cong) (simp_all add: st'_def)
  have nc: "c \<noteq> p" if "c \<in> set ?c" for c using that np cands_okD(2) [OF ok] by blast
  have tip: "t \<noteq> p" if "Tip (chainActive st) = Some t" for t using that np cands_okD(3) [OF ok] by blast
  have sorted: "sorted_wrt ?lt ?c" using cands_okD(1) [OF ok] by (rule sorted_wrt_mono_rel [rotated]) (simp add: lt nc)
  have same: "chainActive st' = chainActive st" "setBlockIndexCandidates st' = setBlockIndexCandidates (link_block p st)"
    "store (link_block p st) = store st'" by (simp_all add: st'_def)
  define worse where "worse \<longleftrightarrow> (\<exists>t. Tip (chainActive st) = Some t \<and> ?lt p t)"
  have e: "setBlockIndexCandidates st' = (if worse then ?c else set_insert ?lt p ?c)"
    using link_block_candidates [of p st] by (simp only: same worse_def)
  have cands: "set (setBlockIndexCandidates st') = (if worse then set ?c else insert p (set ?c))"
    "sorted_wrt ?lt (setBlockIndexCandidates st')"
    using sorted by (simp_all add: e set_order.set_set_insert [OF ord] set_order.sorted_set_insert [OF ord])
  have taint: "tainted (store st') x = tainted (store st) x" for x unfolding st'_def by (rule tainted_same_tx [OF link_block_same_tx])
  have "x \<in> set (setBlockIndexCandidates st')"
    if "is_linked (store st') x" "\<not> tainted (store st') x" "\<And>t. Tip (chainActive st) = Some t \<Longrightarrow> \<not> ?lt x t" for x
  proof (cases "x = p")
    case False
    then have "x \<in> set ?c" using that(1,2) lt [OF False tip] that(3) by (intro cands_okD(4) [OF ok]) (auto simp: lnk taint)
    then show ?thesis by (simp add: cands)
  qed (use that(3) cands worse_def in auto)
  then have "cands_ok st'" using cands lnk cands_okD(2,3) [OF ok] by (auto simp: cands_above_def same(1) split: if_splits)
  then show ?thesis using works' by (simp add: st'_def)
qed

lemma link_loop_cands:
  assumes "block_tree (store st)" "\<And>x. chain_txs (store st) x < 2 ^ 32" "linking queue st" "wf_works (store st)" "cands_ok st"
  shows "cands_ok (link_loop queue st)"
  using assms
proof (induction queue st rule: link_loop.induct)
  case (2 p queue st)
  let ?st = "erase_waiting p (link_block p st)"
  have w: "waiting p (link_block p st) = waiting p st" by (simp add: waiting_def)
  note same = same_txD [OF link_block_same_tx [of st p]]
  have "linking (queue @ waiting p st) ?st" using linking_step [OF "2.prems"(1-3)] .
  with "2.IH" [OF refl] "2.prems"(1,2) cands_step [OF "2.prems"] have "cands_ok (link_loop (queue @ waiting p st) ?st)"
    by (simp only: same w)
  then show ?case by (simp add: link_loop.simps(2) w)
qed simp

end
