(* ===== verification/Block_Checks.thy ===== *)
theory Block_Checks
  imports Block_Files Merkle Versionbits Block_Tree
begin

unbundle bit_operations_syntax

text \<open>
  The checks of headers and blocks in \<open>src/src/validation.cpp\<close>: \<open>CheckBlockHeader\<close>, \<open>CheckBlock\<close>,
  \<open>CheckIndexAgainstCheckpoint\<close> with \<open>GetLastCheckpoint\<close> of \<open>src/src/checkpoints.cpp\<close>,
  \<open>ContextualCheckBlockHeader\<close>, \<open>IsSuperMajority\<close> and \<open>ContextualCheckBlock\<close>.

  The hash functions, the locks of InstantSend, the minting instruction of the fluid protocol and the address of
  a script are arguments of the model.  The map of rejected blocks, which only the reprocessing of blocks reads, is
  left out.
\<close>

section \<open>What the checks read\<close>

text \<open>Consensus parameters, hash functions, checkpoints in the order of their heights, and the rest of the node.
  \<open>mint\<close> is the script and the amount that the fluid protocol asks of a block on top of another.\<close>

record 'a block_env =
  hash_Argon2d :: "bytes \<Rightarrow> nat \<Rightarrow> uint256"
  FirstSwitchTime :: nat
  SecondSwitchTime :: nat
  hash_tx :: "bytes \<Rightarrow> uint256"
  hash_pair :: "uint256 \<Rightarrow> uint256 \<Rightarrow> uint256"
  pow :: pow_params
  min_product :: "int \<Rightarrow> int"
  max_product :: "int \<Rightarrow> int"
  firstSwitchDifficultyBlock :: int
  hashGenesisBlock :: uint256
  nMajorityEnforceBlockUpgrade :: nat
  nMajorityWindow :: nat
  deployments :: deployment_params
  fCheckpointsEnabled :: bool
  mapCheckpoints :: "(nat \<times> uint256) list"
  nAdjustedTime :: int
  fluid :: fluid_env
  mint :: "block_ptr option \<Rightarrow> (bytes \<times> int) option"
  fBlockFiltering :: bool
  GetLockedOutPointTxHash :: "COutPoint \<Rightarrow> uint256 option"
  GetScriptAddress :: "bytes \<Rightarrow> 'a"
  noAddress :: 'a

definition block_hash :: "'a block_env \<Rightarrow> 'b CBlockHeader_scheme \<Rightarrow> uint256" where
  "block_hash env h = CBlockHeader_GetHash (hash_Argon2d env) (FirstSwitchTime env) (SecondSwitchTime env) h"

definition MAX_BLOCK_SIGOPS :: u32 where "MAX_BLOCK_SIGOPS = of_nat (MAX_BLOCK_SIZE div 50)"

definition MAX_FUTURE_BLOCK_TIME :: int where "MAX_FUTURE_BLOCK_TIME = 480 * 30 div 20"

section \<open>Headers\<close>

definition CheckBlockHeader :: "'a block_env \<Rightarrow> 'b CBlockHeader_scheme \<Rightarrow> CValidationState \<Rightarrow> bool \<Rightarrow> unit checked" where
  "CheckBlockHeader env block state fCheckPOW =
     (if fCheckPOW \<and> \<not> CheckProofOfWork (block_hash env block) (hdr_nBits block) (pow env) then reject 50 ''high-hash'' state else Inr ())"

fun GetLastCheckpoint_loop :: "(uint256 \<times> block_ptr) list \<Rightarrow> (nat \<times> uint256) list \<Rightarrow> block_ptr option" where
  "GetLastCheckpoint_loop index [] = None"
| "GetLastCheckpoint_loop index ((_, hash) # cs) =
     (case map_of index hash of Some p \<Rightarrow> Some p | None \<Rightarrow> GetLastCheckpoint_loop index cs)"

definition GetLastCheckpoint :: "(uint256 \<times> block_ptr) list \<Rightarrow> (nat \<times> uint256) list \<Rightarrow> block_ptr option" where
  "GetLastCheckpoint index checkpoints = GetLastCheckpoint_loop index (rev checkpoints)"

definition CheckIndexAgainstCheckpoint :: "'a block_env \<Rightarrow> chainstate \<Rightarrow> block_ptr \<Rightarrow> CValidationState \<Rightarrow> unit checked" where
  "CheckIndexAgainstCheckpoint env st pindexPrev state =
     (if phashBlock (store st pindexPrev) = hashGenesisBlock env then Inr ()
      else case GetLastCheckpoint (mapBlockIndex st) (mapCheckpoints env) of
        None \<Rightarrow> Inr ()
      | Some c \<Rightarrow> if nHeight (store st pindexPrev) + 1 < nHeight (store st c) then Inl (state_DoS 100 0 '''' False state) else Inr ())"

definition ContextualCheckBlockHeader ::
    "'a block_env \<Rightarrow> block_store \<Rightarrow> 'b CBlockHeader_scheme \<Rightarrow> CValidationState \<Rightarrow> block_ptr \<Rightarrow> tree_error + unit checked" where
  "ContextualCheckBlockHeader env S block state pindexPrev =
     (if block_hash env block = hashGenesisBlock env then Inr (Inr ())
      else ebind (from_pow (GetNextWorkRequired (min_product env) (max_product env) (firstSwitchDifficultyBlock env) S (Some pindexPrev) (pow env))) (\<lambda>bits.
        if hdr_nBits block \<noteq> bits then Inr (reject 100 ''bad-diffbits'' state)
        else if hdr_GetBlockTime block \<le> GetMedianTimePast S pindexPrev then Inr (Inl (state_Invalid REJECT_INVALID ''time-too-old'' state))
        else if hdr_GetBlockTime block > nAdjustedTime env + MAX_FUTURE_BLOCK_TIME then Inr (Inl (state_Invalid REJECT_INVALID ''time-too-new'' state))
        else Inr (Inr ())))"

section \<open>Blocks without context\<close>

text \<open>Whether a transaction spends an output that InstantSend has locked for another one.\<close>

definition conflicts_lock :: "'a block_env \<Rightarrow> CTransaction \<Rightarrow> bool" where
  "conflicts_lock env tx \<longleftrightarrow> \<not> IsCoinBase tx \<and>
     list_ex (\<lambda>txin. case GetLockedOutPointTxHash env (prevout txin) of None \<Rightarrow> False | Some h \<Rightarrow> h \<noteq> GetHash (hash_tx env) tx) (vin tx)"

definition fluid_scripts_ok :: "fluid_env \<Rightarrow> int \<Rightarrow> CTransaction \<Rightarrow> bool" where
  "fluid_scripts_ok fl time tx \<longleftrightarrow> list_all (\<lambda>txout. IsTransactionFluid (scriptPubKey txout) \<longrightarrow> CheckFluidOperationScript fl (scriptPubKey txout) time) (vout tx)"

text \<open>The loop over the transactions.  A fluid script that fails its check leaves the state as it is.\<close>

fun check_transactions :: "('a :: linorder) block_env \<Rightarrow> 'v CCoinsView \<Rightarrow> (uint256 \<times> block_ptr) list \<Rightarrow> uint256 \<Rightarrow> int \<Rightarrow> CValidationState \<Rightarrow> CTransaction list \<Rightarrow>
    'v CCoinsViewCache \<Rightarrow> (amount_error + unit checked) \<times> 'v CCoinsViewCache" where
  "check_transactions env V index hash time state [] c = (Inr (Inr ()), c)"
| "check_transactions env V index hash time state (tx # txs) c =
     (case CheckTransaction (GetScriptAddress env) (noAddress env) (fluid env) V tx state c of
        (Inl e, c) \<Rightarrow> (Inl e, c)
      | (Inr (Inl state), c) \<Rightarrow> (Inr (Inl (state_Invalid (vs_chRejectCode state) (vs_strRejectReason state) state)), c)
      | (Inr (Inr _), c) \<Rightarrow>
          if \<not> fluid_scripts_ok (fluid env) time tx then (Inr (Inl state), c)
          else if \<not> CheckTransactionToBlock (fluid env) index tx hash then (Inr (Inl state), c)
          else check_transactions env V index hash time state txs c)"

definition block_sigops :: "CTransaction list \<Rightarrow> u32" where
  "block_sigops txs = fold (\<lambda>tx n. n + GetLegacySigOpCount tx) txs 0"

definition CheckBlock :: "('a :: linorder) block_env \<Rightarrow> 'v CCoinsView \<Rightarrow> (uint256 \<times> block_ptr) list \<Rightarrow> CBlock \<Rightarrow> CValidationState \<Rightarrow> bool \<Rightarrow> bool \<Rightarrow>
    'v CCoinsViewCache \<Rightarrow> (amount_error + CBlock checked) \<times> 'v CCoinsViewCache" where
  "CheckBlock env V index block state fCheckPOW fCheckMerkleRoot c =
     (if fChecked block then (Inr (Inr block), c)
      else case CheckBlockHeader env block state fCheckPOW of
        Inl state \<Rightarrow> (Inr (Inl state), c)
      | Inr _ \<Rightarrow>
          let (hashMerkleRoot2, mutated) = BlockMerkleRoot (hash_pair env) (GetHash (hash_tx env)) (vtx block) in
          if fCheckMerkleRoot \<and> hashMerkleRoot block \<noteq> hashMerkleRoot2 then (Inr (Inl (state_DoS 100 REJECT_INVALID ''bad-txnmrklroot'' True state)), c)
          else if fCheckMerkleRoot \<and> mutated then (Inr (Inl (state_DoS 100 REJECT_INVALID ''bad-txns-duplicate'' True state)), c)
          else if vtx block = [] \<or> length (vtx block) > MAX_BLOCK_SIZE \<or> length (Serialize_CBlock block) > MAX_BLOCK_SIZE
          then (Inr (reject 100 ''bad-blk-length'' state), c)
          else if \<not> IsCoinBase (hd (vtx block)) then (Inr (reject 100 ''bad-cb-missing'' state), c)
          else if list_ex IsCoinBase (tl (vtx block)) then (Inr (reject 100 ''bad-cb-multiple'' state), c)
          else if fBlockFiltering env \<and> list_ex (conflicts_lock env) (vtx block) then (Inr (reject 0 ''conflict-tx-lock'' state), c)
          else case check_transactions env V index (block_hash env block) (uint (hdr_nTime block)) state (vtx block) c of
            (Inl e, c) \<Rightarrow> (Inl e, c)
          | (Inr (Inl state), c) \<Rightarrow> (Inr (Inl state), c)
          | (Inr (Inr _), c) \<Rightarrow>
              if block_sigops (vtx block) > MAX_BLOCK_SIGOPS then (Inr (reject 100 ''bad-blk-sigops'' state), c)
              else (Inr (Inr (if fCheckPOW \<and> fCheckMerkleRoot then block\<lparr>fChecked := True\<rparr> else block)), c))"

section \<open>Blocks in their place\<close>

fun majority_loop :: "block_store \<Rightarrow> int \<Rightarrow> nat \<Rightarrow> nat \<Rightarrow> block_ptr option \<Rightarrow> nat \<Rightarrow> nat" where
  "majority_loop S minVersion nRequired 0 pstart nFound = nFound"
| "majority_loop S minVersion nRequired (Suc i) pstart nFound =
     (if nFound < nRequired then
        case pstart of
          None \<Rightarrow> nFound
        | Some p \<Rightarrow> majority_loop S minVersion nRequired i (pprev (S p)) (if bi_nVersion (S p) \<ge> minVersion then nFound + 1 else nFound)
      else nFound)"

definition IsSuperMajority :: "block_store \<Rightarrow> int \<Rightarrow> block_ptr option \<Rightarrow> nat \<Rightarrow> nat \<Rightarrow> bool" where
  "IsSuperMajority S minVersion pstart nRequired window \<longleftrightarrow> majority_loop S minVersion nRequired window pstart 0 \<ge> nRequired"

text \<open>The transactions of a block on top of \<open>pindexPrev\<close>: the fluid filter, then the lock time.\<close>

fun check_final :: "'a block_env \<Rightarrow> chainstate \<Rightarrow> block_ptr option \<Rightarrow> int \<Rightarrow> int \<Rightarrow> CValidationState \<Rightarrow> CTransaction list \<Rightarrow> unit checked" where
  "check_final env st pindexPrev height cutoff state [] = Inr ()"
| "check_final env st pindexPrev height cutoff state (tx # txs) =
     (if (case pindexPrev of None \<Rightarrow> False
          | Some q \<Rightarrow> \<not> CheckTransactionToBlock (fluid env) (mapBlockIndex st) tx (block_hash env (GetBlockHeader (store st) q)))
      then reject 10 ''invalid-fluid-txns'' state
      else if \<not> IsFinalTx (fluid env) tx height cutoff then reject 10 ''bad-txns-nonfinal'' state
      else check_final env st pindexPrev height cutoff state txs)"

definition ContextualCheckBlock ::
    "'a block_env \<Rightarrow> chainstate \<Rightarrow> CBlock \<Rightarrow> CValidationState \<Rightarrow> block_ptr option \<Rightarrow> VersionBitsCache \<Rightarrow> (tree_error + unit checked \<times> VersionBitsCache) option" where
  "ContextualCheckBlock env st block state pindexPrev versionbitscache =
     (let height = (case pindexPrev of None \<Rightarrow> 0 | Some q \<Rightarrow> int (nHeight (store st q)) + 1) in
      case VersionBitsState (store st) (deployments env) DEPLOYMENT_CSV pindexPrev versionbitscache of
        None \<Rightarrow> None
      | Some r \<Rightarrow> Some (ebind (from_chain r) (\<lambda>(csv, versionbitscache).
          ebind (if csv = THRESHOLD_ACTIVE
                 then (case pindexPrev of None \<Rightarrow> Inl TreeNull | Some q \<Rightarrow> Inr (GetMedianTimePast (store st) q))
                 else Inr (hdr_GetBlockTime block)) (\<lambda>cutoff.
          Inr (case check_final env st pindexPrev height cutoff state (vtx block) of
              Inl state \<Rightarrow> Inl state
            | Inr _ \<Rightarrow>
                let expect = push_int64 [] height; scriptSig0 = scriptSig (hd (vin (hd (vtx block)))) in
                if hdr_nVersion block \<ge> 2 \<and> IsSuperMajority (store st) 2 pindexPrev (nMajorityEnforceBlockUpgrade env) (nMajorityWindow env) \<and>
                   (length scriptSig0 < length expect \<or> take (length expect) scriptSig0 \<noteq> expect)
                then reject 100 ''bad-cb-height'' state
                else case mint env pindexPrev of
                  None \<Rightarrow> Inr ()
                | Some (script, fluidIssuance) \<Rightarrow>
                    if list_ex (\<lambda>output. scriptPubKey output = script \<and> nValue output = fluidIssuance) (vout (hd (vtx block))) then Inr ()
                    else reject 100 ''cb-no-fluid-mint'' state, versionbitscache)))))"

section \<open>Correctness\<close>

text \<open>The blocks of a version or above among the last \<open>window\<close> ones.\<close>

definition versions_found :: "block_store \<Rightarrow> int \<Rightarrow> block_ptr option \<Rightarrow> nat \<Rightarrow> nat" where
  "versions_found S minVersion pstart window =
     length (filter (\<lambda>i. case Option.bind pstart (back_by S i) of None \<Rightarrow> False | Some q \<Rightarrow> bi_nVersion (S q) \<ge> minVersion) [0..<window])"

lemma versions_found_Suc:
  "versions_found S v (Some p) (Suc n) = (if bi_nVersion (S p) \<ge> v then 1 else 0) + versions_found S v (pprev (S p)) n"
proof -
  have "back_by S (Suc i) p = Option.bind (pprev (S p)) (back_by S i)" for i by (simp split: option.split)
  then show ?thesis unfolding versions_found_def upt_conv_Cons [OF zero_less_Suc] map_Suc_upt [symmetric] filter_map by (simp add: comp_def del: back_by.simps(2))
qed

lemma versions_found_None: "versions_found S v None n = 0"
  by (simp add: versions_found_def)

lemma majority_loop_ge:
  "nRequired \<le> majority_loop S v nRequired n pstart nFound \<longleftrightarrow> nRequired \<le> nFound + versions_found S v pstart n"
proof (induction S v nRequired n pstart nFound rule: majority_loop.induct)
  case (2 S v nRequired i pstart nFound)
  show ?case
  proof (cases "nFound < nRequired")
    case True
    then show ?thesis using 2 by (cases pstart) (simp_all add: versions_found_Suc versions_found_None add.assoc [symmetric])
  qed simp
qed (simp add: versions_found_def)

text \<open>What the two checks that come first say of the header and the Merkle tree of a block.\<close>

lemma CheckBlock_merkle:
  assumes "fst (CheckBlock env V index block state True True c) = Inr r" "\<not> fChecked block" "CheckBlockHeader env block state True = Inr ()"
    and "\<And>s. r = Inl s \<Longrightarrow> \<not> vs_corruptionPossible s"
  shows "BlockMerkleRoot (hash_pair env) (GetHash (hash_tx env)) (vtx block) = (hashMerkleRoot block, False)"
proof -
  obtain root mutated where m: "BlockMerkleRoot (hash_pair env) (GetHash (hash_tx env)) (vtx block) = (root, mutated)" by (rule prod.exhaust)
  have "vs_corruptionPossible (state_DoS level code reason True s)" for level code reason s
    by (simp add: state_DoS_def Let_def)
  then show ?thesis using assms m by (auto simp: CheckBlock_def split: if_splits)
qed

end
