(* ===== verification/Block_Data.thy ===== *)
theory Block_Data
  imports Block_Tree
begin

unbundle bit_operations_syntax

text \<open>
  What receiving the data of a block does to the block tree (\<open>ReceivedBlockTransactions\<close> of
  \<open>src/src/validation.cpp\<close>): the invariants of the index, of the linked blocks and of the candidates
  are kept, and the block and every descendant whose data was waiting are linked.
\<close>

section \<open>Status bits\<close>

lemma status_or_data:
  "((s :: u32) OR BLOCK_HAVE_DATA) AND BLOCK_FAILED_MASK = s AND BLOCK_FAILED_MASK" "(s OR BLOCK_HAVE_DATA) AND BLOCK_VALID_MASK = s AND BLOCK_VALID_MASK"
  "(s OR BLOCK_HAVE_DATA) AND BLOCK_HAVE_DATA = BLOCK_HAVE_DATA"
  by (simp_all add: block_status_defs word_ao_dist)

lemma status_raised:
  "((s :: u32) AND NOT BLOCK_VALID_MASK OR BLOCK_VALID_TRANSACTIONS) AND BLOCK_FAILED_MASK = s AND BLOCK_FAILED_MASK"
  "(s AND NOT BLOCK_VALID_MASK OR BLOCK_VALID_TRANSACTIONS) AND BLOCK_HAVE_DATA = s AND BLOCK_HAVE_DATA"
  "(s AND NOT BLOCK_VALID_MASK OR BLOCK_VALID_TRANSACTIONS) AND BLOCK_VALID_MASK = BLOCK_VALID_TRANSACTIONS"
  by (simp_all add: block_status_defs word_ao_dist and.assoc)

text \<open>The validity level of every entry is at least that of a header in the tree.\<close>

definition levels_ok :: "chainstate \<Rightarrow> bool" where
  "levels_ok st \<longleftrightarrow> (\<forall>p \<in> blocks_of st. BLOCK_VALID_TREE \<le> nStatus (store st p) AND BLOCK_VALID_MASK)"

text \<open>The entry of a block whose data has arrived.\<close>

definition received :: "nat \<Rightarrow> CDiskBlockPos \<Rightarrow> u32 \<Rightarrow> CBlockIndex \<Rightarrow> CBlockIndex" where
  "received n pos status b = b\<lparr>nTx := of_nat n, nChainTx := 0, nFile := pos_nFile pos, nDataPos := pos_nPos pos, nUndoPos := 0, nStatus := status\<rparr>"

lemma received_simps [simp]:
  "nTx (received n pos s b) = of_nat n" "nChainTx (received n pos s b) = 0" "nStatus (received n pos s b) = s"
  "pprev (received n pos s b) = pprev b" "nHeight (received n pos s b) = nHeight b" "nSequenceId (received n pos s b) = nSequenceId b"
  "nChainWork (received n pos s b) = nChainWork b" "core (received n pos s b) = core b"
  by (simp_all add: received_def core_def)

lemma raise_received:
  "\<exists>changed s. RaiseValidity (received n pos (nStatus b OR BLOCK_HAVE_DATA) b) BLOCK_VALID_TRANSACTIONS = Some (changed, received n pos s b) \<and>
     s AND BLOCK_FAILED_MASK = nStatus b AND BLOCK_FAILED_MASK \<and> s AND BLOCK_HAVE_DATA \<noteq> 0 \<and>
     nStatus b AND BLOCK_VALID_MASK \<le> s AND BLOCK_VALID_MASK"
proof -
  let ?s = "nStatus b OR BLOCK_HAVE_DATA" and ?b = "received n pos (nStatus b OR BLOCK_HAVE_DATA) b"
  have mask: "BLOCK_VALID_TRANSACTIONS AND NOT BLOCK_VALID_MASK = 0" and data: "BLOCK_HAVE_DATA \<noteq> 0" by (simp_all add: block_status_defs)
  show ?thesis
  proof (cases "nStatus b AND BLOCK_FAILED_MASK = 0 \<and> nStatus b AND BLOCK_VALID_MASK < BLOCK_VALID_TRANSACTIONS")
    case True
    then have "RaiseValidity ?b BLOCK_VALID_TRANSACTIONS = Some (True, received n pos (?s AND NOT BLOCK_VALID_MASK OR BLOCK_VALID_TRANSACTIONS) b)"
      by (simp add: RaiseValidity_def mask status_or_data) (simp add: received_def)
    then show ?thesis using True data by (intro exI conjI) (assumption, simp_all add: status_raised status_or_data less_imp_le)
  next
    case False
    then have "RaiseValidity ?b BLOCK_VALID_TRANSACTIONS = Some (False, received n pos ?s b)" by (simp add: RaiseValidity_def mask status_or_data)
    then show ?thesis using data by (intro exI conjI) (assumption, simp_all add: status_or_data)
  qed
qed

lemma is_valid_tree: "is_valid b BLOCK_VALID_TREE = Inr (\<not> failed b \<and> BLOCK_VALID_TREE \<le> nStatus b AND BLOCK_VALID_MASK)"
proof -
  have "BLOCK_VALID_TREE AND NOT BLOCK_VALID_MASK = 0" by (simp add: block_status_defs)
  then show ?thesis by (simp add: is_valid_def IsValid_def failed_def)
qed

lemma is_valid_transactions:
  "is_valid b BLOCK_VALID_TRANSACTIONS = Inr (\<not> failed b \<and> BLOCK_VALID_TRANSACTIONS \<le> nStatus b AND BLOCK_VALID_MASK)"
  by (simp add: is_valid_def IsValid_def block_status_defs failed_def)

lemma ReceivedBlockTransactions_eq:
  obtains s where "s AND BLOCK_FAILED_MASK = nStatus (store st p) AND BLOCK_FAILED_MASK" "s AND BLOCK_HAVE_DATA \<noteq> 0"
    "nStatus (store st p) AND BLOCK_VALID_MASK \<le> s AND BLOCK_VALID_MASK"
    "ReceivedBlockTransactions n pos p st =
       (let st1 = mark_dirty p (update_block p (received n pos s) st) in
        case pprev (store st p) of
          None \<Rightarrow> Inr (link_loop [p] st1)
        | Some q \<Rightarrow> if is_linked (store st1) q then Inr (link_loop [p] st1)
            else Inr (if \<not> failed (store st1 q) \<and> BLOCK_VALID_TREE \<le> nStatus (store st1 q) AND BLOCK_VALID_MASK
                      then st1\<lparr>mapBlocksUnlinked := mapBlocksUnlinked st @ [(q, p)]\<rparr> else st1))"
proof -
  from raise_received [of n pos "store st p"] obtain changed s where
    s: "RaiseValidity (received n pos (nStatus (store st p) OR BLOCK_HAVE_DATA) (store st p)) BLOCK_VALID_TRANSACTIONS = Some (changed, received n pos s (store st p))"
      "s AND BLOCK_FAILED_MASK = nStatus (store st p) AND BLOCK_FAILED_MASK" "s AND BLOCK_HAVE_DATA \<noteq> 0"
      "nStatus (store st p) AND BLOCK_VALID_MASK \<le> s AND BLOCK_VALID_MASK" by blast
  define st1 where "st1 = mark_dirty p (update_block p (received n pos s) st)"
  let ?st0 = "update_block p (\<lambda>b. b\<lparr>nTx := of_nat n, nChainTx := 0, nFile := pos_nFile pos, nDataPos := pos_nPos pos,
                 nUndoPos := 0, nStatus := nStatus b OR BLOCK_HAVE_DATA\<rparr>) st"
  have raise: "raise_validity p BLOCK_VALID_TRANSACTIONS ?st0 = Inr (update_block p (received n pos s) st)"
    using s(1) by (simp add: raise_validity_def received_def update_block_def)
  have st1: "pprev (store st1 p) = pprev (store st p)" "mapBlocksUnlinked st1 = mapBlocksUnlinked st" by (simp_all add: st1_def mark_dirty_def)
  show ?thesis
  proof (rule that [OF s(2-4)], fold st1_def)
    show "ReceivedBlockTransactions n pos p st = (let st1 = st1 in case pprev (store st p) of
          None \<Rightarrow> Inr (link_loop [p] st1)
        | Some q \<Rightarrow> if is_linked (store st1) q then Inr (link_loop [p] st1)
            else Inr (if \<not> failed (store st1 q) \<and> BLOCK_VALID_TREE \<le> nStatus (store st1 q) AND BLOCK_VALID_MASK
                      then st1\<lparr>mapBlocksUnlinked := mapBlocksUnlinked st @ [(q, p)]\<rparr> else st1))"
      unfolding ReceivedBlockTransactions_def Let_def raise ebind_simps st1_def [symmetric] st1
      by (cases "pprev (store st p)") (simp_all add: is_linked_def is_valid_tree)
  qed
qed

section \<open>The data of a block arrives\<close>

lemma linked_ancestor: "linking queue st \<Longrightarrow> is_linked (store st) x \<Longrightarrow> back_by (store st) n x = Some a \<Longrightarrow> is_linked (store st) a"
proof (induction n arbitrary: x)
  case (Suc n)
  then obtain q where q: "pprev (store st x) = Some q" "back_by (store st) n q = Some a" by (auto split: option.splits)
  then show ?case using Suc linkingD(3) [OF Suc.prems(1,2)] by blast
qed simp

lemma cands_ok_cong:
  assumes "cands_ok st" "setBlockIndexCandidates st' = setBlockIndexCandidates st" "chainActive st' = chainActive st"
    "\<And>p. is_linked (store st') p = is_linked (store st) p" "\<And>p. tainted (store st) p \<Longrightarrow> tainted (store st') p"
    "\<And>p. nChainWork (store st' p) = nChainWork (store st p)" "\<And>p. nSequenceId (store st' p) = nSequenceId (store st p)"
  shows "cands_ok st'"
proof -
  have "CBlockIndexWorkComparator (store st') = CBlockIndexWorkComparator (store st)"
    by (intro ext) (simp add: CBlockIndexWorkComparator_def assms(6,7))
  then show ?thesis using assms(1,5) unfolding cands_above_def assms(2,3,4) by metis
qed

text \<open>The invariants of the tree in one predicate.\<close>

definition tree_above :: "block_ptr option \<Rightarrow> chainstate \<Rightarrow> bool" where
  "tree_above F st \<longleftrightarrow> index_ok st \<and> levels_ok st \<and> linking [] st \<and> cands_above F st"

abbreviation tree_inv :: "chainstate \<Rightarrow> bool" where
  "tree_inv st \<equiv> tree_above (Tip (chainActive st)) st"

text \<open>Storing the data of a block that was not linked.\<close>

definition arrives :: "chainstate \<Rightarrow> block_ptr \<Rightarrow> nat \<Rightarrow> u32 \<Rightarrow> bool" where
  "arrives st p n s \<longleftrightarrow> tree_inv st \<and> p \<in> blocks_of st \<and> nTx (store st p) = 0 \<and> 0 < n \<and> n < 2 ^ 32 \<and>
     s AND BLOCK_FAILED_MASK = nStatus (store st p) AND BLOCK_FAILED_MASK \<and> s AND BLOCK_HAVE_DATA \<noteq> 0 \<and>
     nStatus (store st p) AND BLOCK_VALID_MASK \<le> s AND BLOCK_VALID_MASK"

lemma arrivesD:
  assumes "arrives st p n s"
  shows "tree_inv st" "p \<in> blocks_of st" "nTx (store st p) = 0" "0 < n" "n < 2 ^ 32"
    "s AND BLOCK_FAILED_MASK = nStatus (store st p) AND BLOCK_FAILED_MASK" "s AND BLOCK_HAVE_DATA \<noteq> 0"
    "nStatus (store st p) AND BLOCK_VALID_MASK \<le> s AND BLOCK_VALID_MASK"
    "linking [] st" "\<not> is_linked (store st) p" "(of_nat n :: u32) \<noteq> 0"
proof -
  show *: "tree_inv st" "p \<in> blocks_of st" "nTx (store st p) = 0" "0 < n" "n < 2 ^ 32"
    "s AND BLOCK_FAILED_MASK = nStatus (store st p) AND BLOCK_FAILED_MASK" "s AND BLOCK_HAVE_DATA \<noteq> 0"
    "nStatus (store st p) AND BLOCK_VALID_MASK \<le> s AND BLOCK_VALID_MASK" using assms by (simp_all add: arrives_def)
  then show l: "linking [] st" by (simp add: tree_above_def)
  show "\<not> is_linked (store st) p" using linkingD(1) [OF l] *(3) by blast
  have "unat (of_nat n :: u32) = n" using *(5) by (simp add: unat_of_nat)
  then show "(of_nat n :: u32) \<noteq> 0" using *(4) by (metis unat_0 less_irrefl)
qed

definition arrived :: "nat \<Rightarrow> CDiskBlockPos \<Rightarrow> u32 \<Rightarrow> block_ptr \<Rightarrow> chainstate \<Rightarrow> chainstate" where
  "arrived n pos s p st = mark_dirty p (update_block p (received n pos s) st)"

lemma arrived_simps:
  "store (arrived n pos s p st) = (store st)(p := received n pos s (store st p))" "mapBlocksUnlinked (arrived n pos s p st) = mapBlocksUnlinked st"
  "mapBlockIndex (arrived n pos s p st) = mapBlockIndex st" "chainActive (arrived n pos s p st) = chainActive st"
  "setBlockIndexCandidates (arrived n pos s p st) = setBlockIndexCandidates st" "blocks_of (arrived n pos s p st) = blocks_of st"
  by (simp_all add: arrived_def mark_dirty_def blocks_of_def)

lemma arrived_entry:
  fixes pos :: CDiskBlockPos
  assumes "arrives st p n s"
  defines "T \<equiv> store (arrived n pos s p st)"
  shows "pprev (T x) = pprev (store st x)" "nHeight (T x) = nHeight (store st x)" "nChainTx (T x) = (if x = p then 0 else nChainTx (store st x))"
    "nTx (T x) = (if x = p then of_nat n else nTx (store st x))" "failed (T x) = failed (store st x)"
    "has_data (T x) \<longleftrightarrow> x = p \<or> has_data (store st x)" "nSequenceId (T x) = nSequenceId (store st x)"
    "nChainWork (T x) = nChainWork (store st x)" "back_by T k x = back_by (store st) k x" "is_linked T x = is_linked (store st) x"
proof -
  have parents: "pprev (T x) = pprev (store st x)" for x by (simp add: T_def arrived_simps)
  then show "back_by T k x = back_by (store st) k x" by (rule back_by_cong)
  show "is_linked T x = is_linked (store st) x" using arrivesD(10) [OF assms(1)] by (auto simp: is_linked_def T_def arrived_simps)
qed (use arrivesD(6,7) [OF assms(1)] in \<open>simp_all add: T_def arrived_simps failed_def has_data_def\<close>)

lemma arrived_inv:
  assumes "arrives st p n s"
  shows "same_tree st (arrived n pos s p st)" "levels_ok (arrived n pos s p st)" "cands_ok (arrived n pos s p st)"
proof -
  show "same_tree st (arrived n pos s p st)" using arrivesD(2) [OF assms] by (simp add: same_tree_def arrived_simps)
  show "levels_ok (arrived n pos s p st)"
  proof -
    have old: "BLOCK_VALID_TREE \<le> nStatus (store st x) AND BLOCK_VALID_MASK" if "x \<in> blocks_of st" for x
      using arrivesD(1) [OF assms] that by (simp add: tree_above_def levels_ok_def)
    show ?thesis using old order.trans [OF old [OF arrivesD(2) [OF assms]] arrivesD(8) [OF assms]] by (simp add: levels_ok_def arrived_simps)
  qed
  show "cands_ok (arrived n pos s p st)"
  proof (rule cands_ok_cong)
    show "cands_ok st" using arrivesD(1) [OF assms] by (simp add: tree_above_def)
  qed (simp_all add: arrived_simps(4,5) arrived_entry(5,7-10) [OF assms] tainted_def is_ancestor_def)
qed

lemma arrived_counts:
  assumes arr: "arrives st p n s" and x: "is_linked (store st) x"
  shows "chain_txs (store (arrived n pos s p st)) x = chain_txs (store st) x"
proof -
  have tree: "block_tree (store st)" using arrivesD(1) [OF arr] by (simp add: tree_above_def index_okD)
  have "nTx (store (arrived n pos s p st) (the (back_by (store st) i x))) = nTx (store st (the (back_by (store st) i x)))"
    if i: "i < nHeight (store st x) + 1" for i
  proof -
    obtain a where a: "back_by (store st) i x = Some a" using back_by_height [OF tree, of i x] i by (metis Suc_eq_plus1 less_Suc_eq_le)
    then have "is_linked (store st) a" using linked_ancestor [OF arrivesD(9) [OF arr] x] by blast
    then show ?thesis using arrivesD(10) [OF arr] a by (auto simp: arrived_entry [OF arr])
  qed
  then show ?thesis by (simp add: chain_txs_def arrived_entry(2,9) [OF arr])
qed

lemma linking_arrived:
  assumes arr: "arrives st p n s" and parent: "\<And>q. pprev (store st p) = Some q \<Longrightarrow> is_linked (store st) q"
  shows "linking [p] (arrived n pos s p st)"
proof (rule linkingI)
  let ?st = "arrived n pos s p st"
  note old = linkingD [OF arrivesD(9) [OF arr]] and new = arrived_entry [OF arr]
  have unl: "x \<noteq> p" if "(q, x) \<in> set (mapBlocksUnlinked st)" for q x using old(6) [OF that] arrivesD(3) [OF arr] by auto
  show "nTx (store ?st x) \<noteq> 0 \<and> unat (nChainTx (store ?st x)) = chain_txs (store ?st) x" if "is_linked (store ?st) x" for x
    using that arrivesD(10) [OF arr] old(1,2) [of x] arrived_counts [OF arr, of x] by (auto simp: new(3,4,10))
  show "is_linked (store ?st) q" if "is_linked (store ?st) x" "pprev (store ?st x) = Some q" for x q
    using that old(3) [of x q] by (simp add: new(1,10))
  show "has_data (store ?st x)" if "nTx (store ?st x) \<noteq> 0" for x using that old(4) [of x] by (auto simp: new(4,6) split: if_splits)
  show "x \<in> set [p] \<or> (\<exists>q. pprev (store ?st x) = Some q \<and> (failed (store ?st q) \<or> (q, x) \<in> set (mapBlocksUnlinked ?st)))"
    if "nTx (store ?st x) \<noteq> 0" "\<not> is_linked (store ?st) x" for x
    using that old(5) [of x] by (cases "x = p") (auto simp: new(1,4,5,10) arrived_simps(2))
  show "pprev (store ?st x) = Some q \<and> nTx (store ?st x) \<noteq> 0 \<and> \<not> is_linked (store ?st) x \<and> \<not> is_linked (store ?st) q \<and> x \<notin> set [p]"
    if "(q, x) \<in> set (mapBlocksUnlinked ?st)" for q x
    using that old(6) [of q x] unl [of q x] by (auto simp: new(1,4,10) arrived_simps(2))
  show "nTx (store ?st x) \<noteq> 0 \<and> \<not> is_linked (store ?st) x" if "x \<in> set [p]" for x using that arrivesD(10,11) [OF arr] by (simp add: new(4,10))
  show "is_linked (store ?st) q" if "x \<in> set [p]" "pprev (store ?st x) = Some q" for x q using that parent [of q] by (simp add: new(1,10))
  show "nSequenceId (store ?st x) \<le> 0" if "\<not> is_linked (store ?st) x" for x using that old(11) [of x] by (simp add: new(7,10))
qed (simp_all add: arrived_simps(2) linkingD(7) [OF arrivesD(9) [OF arr]])

lemma linking_wait:
  assumes arr: "arrives st p n s" and q: "pprev (store st p) = Some q" "\<not> is_linked (store st) q"
    and st': "store st' = store (arrived n pos s p st)" "mapBlocksUnlinked st' = mapBlocksUnlinked st @ (if failed (store st q) then [] else [(q, p)])"
  shows "linking [] st'"
proof (rule linkingI, unfold st'(1))
  let ?T = "store (arrived n pos s p st)"
  note old = linkingD [OF arrivesD(9) [OF arr]] and new = arrived_entry [OF arr]
  have unl: "x \<noteq> p" if "(q, x) \<in> set (mapBlocksUnlinked st)" for q x using old(6) [OF that] arrivesD(3) [OF arr] by auto
  show "nTx (?T x) \<noteq> 0 \<and> unat (nChainTx (?T x)) = chain_txs ?T x" if "is_linked ?T x" for x
    using that arrivesD(10) [OF arr] old(1,2) [of x] arrived_counts [OF arr, of x] by (auto simp: new(3,4,10))
  show "is_linked ?T y" if "is_linked ?T x" "pprev (?T x) = Some y" for x y using that old(3) [of x y] by (simp add: new(1,10))
  show "has_data (?T x)" if "nTx (?T x) \<noteq> 0" for x using that old(4) [of x] by (auto simp: new(4,6) split: if_splits)
  show "x \<in> set [] \<or> (\<exists>y. pprev (?T x) = Some y \<and> (failed (?T y) \<or> (y, x) \<in> set (mapBlocksUnlinked st')))"
    if "nTx (?T x) \<noteq> 0" "\<not> is_linked ?T x" for x
    using that old(5) [of x] q by (cases "x = p") (auto simp: new(1,4,5,10) st'(2))
  show "pprev (?T x) = Some y \<and> nTx (?T x) \<noteq> 0 \<and> \<not> is_linked ?T x \<and> \<not> is_linked ?T y \<and> x \<notin> set []"
    if "(y, x) \<in> set (mapBlocksUnlinked st')" for y x
    using that old(6) [of y x] unl [of y x] q arrivesD(10,11) [OF arr] by (auto simp: new(1,4,10) st'(2) split: if_splits)
  show "distinct (mapBlocksUnlinked st')" using old(7) unl [of q p] by (auto simp: st'(2))
  show "nSequenceId (?T x) \<le> 0" if "\<not> is_linked ?T x" for x using that old(11) [of x] by (simp add: new(7,10))
qed simp_all

lemma link_loop_same_tree:
  assumes "set queue \<subseteq> blocks_of st" "snd ` set (mapBlocksUnlinked st) \<subseteq> blocks_of st"
  shows "same_tree st (link_loop queue st) \<and> chainActive (link_loop queue st) = chainActive st"
  using assms
proof (induction queue st rule: link_loop.induct)
  case (2 p queue st)
  let ?st = "erase_waiting p (link_block p st)"
  have tr: "same_tree st ?st" using "2.prems"(1) by (auto simp: same_tree_def core_def)
  have blocks: "blocks_of ?st = blocks_of st" by (simp add: blocks_of_def)
  have "set (queue @ waiting p (link_block p st)) \<subseteq> blocks_of ?st" "snd ` set (mapBlocksUnlinked ?st) \<subseteq> blocks_of ?st"
    using "2.prems" unfolding blocks by (auto simp: waiting_def)
  note ih = "2.IH" [OF refl this]
  have "link_loop (p # queue) st = link_loop (queue @ waiting p (link_block p st)) ?st" by (simp only: link_loop.simps(2) Let_def)
  then show ?case using ih same_tree_trans [OF tr conjunct1 [OF ih]] by simp
qed simp

lemma chain_txs_cong:
  "(\<And>x. pprev (S x) = pprev (T x)) \<Longrightarrow> nHeight (S p) = nHeight (T p) \<Longrightarrow> (\<And>x. nTx (S x) = nTx (T x)) \<Longrightarrow> chain_txs S p = chain_txs T p"
  using back_by_cong [of S T] by (simp add: chain_txs_def)

lemma ReceivedBlockTransactions_inv:
  assumes inv: "tree_inv st" "p \<in> blocks_of st" "nTx (store st p) = 0" and size: "0 < n" "n < 2 ^ 32"
    and bound: "\<And>x. chain_txs ((store st)(p := (store st p)\<lparr>nTx := of_nat n\<rparr>)) x < 2 ^ 32"
  shows "\<exists>st'. ReceivedBlockTransactions n pos p st = Inr st' \<and> tree_inv st' \<and> same_tree st st' \<and> chainActive st' = chainActive st \<and>
    (\<forall>x. nTx (store st' x) = (if x = p then of_nat n else nTx (store st x)) \<and> failed (store st' x) = failed (store st x))"
proof -
  obtain s where s: "s AND BLOCK_FAILED_MASK = nStatus (store st p) AND BLOCK_FAILED_MASK" "s AND BLOCK_HAVE_DATA \<noteq> 0"
    "nStatus (store st p) AND BLOCK_VALID_MASK \<le> s AND BLOCK_VALID_MASK"
    and eq: "ReceivedBlockTransactions n pos p st = (let st1 = arrived n pos s p st in
        case pprev (store st p) of None \<Rightarrow> Inr (link_loop [p] st1)
        | Some q \<Rightarrow> if is_linked (store st1) q then Inr (link_loop [p] st1)
            else Inr (if \<not> failed (store st1 q) \<and> BLOCK_VALID_TREE \<le> nStatus (store st1 q) AND BLOCK_VALID_MASK
                      then st1\<lparr>mapBlocksUnlinked := mapBlocksUnlinked st @ [(q, p)]\<rparr> else st1))"
    by (rule ReceivedBlockTransactions_eq [of st p n pos, folded arrived_def])
  have arr: "arrives st p n s" using inv size s by (simp add: arrives_def)
  let ?st1 = "arrived n pos s p st"
  note new = arrived_entry [OF arr] and keep = arrived_inv [OF arr]
  have idx: "index_ok ?st1" using inv(1) keep(1) by (auto simp: tree_above_def intro: same_tree_index_ok)
  have tree: "block_tree (store ?st1)" and works: "wf_works (store ?st1)" using index_okD(7,10) [OF idx] by (auto simp: wf_works_def)
  have txs: "chain_txs (store ?st1) x < 2 ^ 32" for x
    using bound [of x] by (subst chain_txs_cong [of _ "(store st)(p := (store st p)\<lparr>nTx := of_nat n\<rparr>)"]) (simp_all add: arrived_simps)
  show ?thesis
  proof (cases "\<exists>q. pprev (store st p) = Some q \<and> \<not> is_linked (store st) q")
    case False
    then have "linking [p] ?st1" using linking_arrived [OF arr] by blast
    note loop = link_loop_linking [OF tree txs this] link_loop_cands [OF tree txs this works keep(3)]
    have "snd ` set (mapBlocksUnlinked ?st1) \<subseteq> blocks_of ?st1"
      using linkingD(6) [OF arrivesD(9) [OF arr]] parent_in_index [of st] inv(1) by (auto simp: arrived_simps(2,6) tree_above_def)
    then have tr: "same_tree ?st1 (link_loop [p] ?st1)" "chainActive (link_loop [p] ?st1) = chainActive st"
      using link_loop_same_tree [of "[p]" ?st1] inv(2) by (auto simp: arrived_simps)
    have same: "same_tx (store ?st1) (store (link_loop [p] ?st1))" using loop by blast
    have "levels_ok (link_loop [p] ?st1)" using keep(2) same_txD(4) [OF same] same_treeD(10) [OF tr(1)] by (simp add: levels_ok_def)
    then have "tree_inv (link_loop [p] ?st1)" using loop same_tree_index_ok [OF idx tr(1)] by (simp add: tree_above_def)
    moreover have "ReceivedBlockTransactions n pos p st = Inr (link_loop [p] ?st1)" using eq False by (auto simp: Let_def new(10) split: option.split)
    ultimately show ?thesis using tr(2) same_tree_trans [OF keep(1) tr(1)] by (intro exI [of _ "link_loop [p] ?st1"]) (simp add: same_txD(3,6) [OF same] new(4,5))
  next
    case True
    then obtain q where q: "pprev (store st p) = Some q" "\<not> is_linked (store st) q" by blast
    have "q \<in> blocks_of ?st1" using index_okD(5) [of st p q] inv(1) q(1) by (simp add: tree_above_def arrived_simps)
    then have "BLOCK_VALID_TREE \<le> nStatus (store ?st1 q) AND BLOCK_VALID_MASK" using keep(2) by (simp add: levels_ok_def)
    then obtain st' where st': "ReceivedBlockTransactions n pos p st = Inr st'" "store st' = store ?st1" "mapBlockIndex st' = mapBlockIndex ?st1"
      "mapBlocksUnlinked st' = mapBlocksUnlinked st @ (if failed (store st q) then [] else [(q, p)])"
      "chainActive st' = chainActive ?st1" "setBlockIndexCandidates st' = setBlockIndexCandidates ?st1"
      using eq q by (auto simp: Let_def new(5,10) arrived_simps(2) split: if_splits)
    have tr: "same_tree ?st1 st'" using st'(2,3) by (simp add: same_tree_def)
    have "levels_ok st'" using keep(2) unfolding levels_ok_def blocks_of_def st'(2,3) .
    moreover have "cands_ok st'" using keep(3) unfolding cands_above_def st'(2,5,6) .
    ultimately have "tree_inv st'" using linking_wait [OF arr q st'(2,4)] same_tree_index_ok [OF idx tr] by (simp add: tree_above_def)
    then show ?thesis using st'(1,2,5) same_tree_trans [OF keep(1) tr] by (intro exI [of _ st']) (simp add: new(4,5) arrived_simps(4))
  qed
qed

end
