(* ===== verification/Best_Chain.thy ===== *)
theory Best_Chain
  imports Block_Data
begin

unbundle bit_operations_syntax

text \<open>
  The choice of the chain to follow (\<open>FindMostWorkChain\<close>, \<open>PruneBlockIndexCandidates\<close> and the
  handling of invalid blocks in \<open>src/src/validation.cpp\<close>).

  Shown: the search returns, and what it returns is the best of all linked blocks that have no failed
  ancestor, where best is the order of the candidates; it marks only descendants of failed blocks and keeps
  the invariants of the tree.
\<close>

section \<open>The search\<close>

text \<open>The walk from a candidate to the active chain: the first block that failed, or whose data is missing.\<close>

partial_function (option) test_chain :: "block_store \<Rightarrow> CChain \<Rightarrow> block_ptr option \<Rightarrow> (tree_error + (block_ptr \<times> bool) option) option" where
  [code]: "test_chain S active pindexTest =
     (case pindexTest of
        None \<Rightarrow> Some (Inr None)
      | Some p \<Rightarrow>
          if Contains S active p then Some (Inr None)
          else if \<not> (nChainTx (S p) \<noteq> 0 \<or> nHeight (S p) = 0) then Some (Inl TreeAssert)
          else let fFailedChain = (nStatus (S p) AND BLOCK_FAILED_MASK \<noteq> 0);
                   fMissingData = (nStatus (S p) AND BLOCK_HAVE_DATA = 0)
               in if fFailedChain \<or> fMissingData then Some (Inr (Some (p, fFailedChain)))
                  else test_chain S active (pprev (S p)))"

text \<open>The removal of the blocks from a candidate down to the block where the test failed.\<close>

partial_function (option) remove_chain :: "block_ptr \<Rightarrow> bool \<Rightarrow> block_ptr \<Rightarrow> chainstate \<Rightarrow> (tree_error + chainstate) option" where
  [code]: "remove_chain pindexTest fFailedChain p st =
     (if pindexTest \<noteq> p then
        (case pprev (store st p) of
           None \<Rightarrow> Some (Inl TreeNull)
         | Some q \<Rightarrow>
             let st = (if fFailedChain then update_block p (\<lambda>b. b\<lparr>nStatus := nStatus b OR BLOCK_FAILED_CHILD\<rparr>) st
                       else st\<lparr>mapBlocksUnlinked := mapBlocksUnlinked st @ [(q, p)]\<rparr>)
             in remove_chain pindexTest fFailedChain q (erase_candidate p st))
      else Some (Inr st))"

partial_function (option) FindMostWorkChain :: "chainstate \<Rightarrow> (tree_error + block_ptr option \<times> chainstate) option" where
  [code]: "FindMostWorkChain st =
     (if setBlockIndexCandidates st = [] then Some (Inr (None, st))
      else let pindexNew = last (setBlockIndexCandidates st) in
        case test_chain (store st) (chainActive st) (Some pindexNew) of
          None \<Rightarrow> None
        | Some (Inl e) \<Rightarrow> Some (Inl e)
        | Some (Inr None) \<Rightarrow> Some (Inr (Some pindexNew, st))
        | Some (Inr (Some (pindexTest, fFailedChain))) \<Rightarrow>
            let st = (if fFailedChain \<and> (case pindexBestInvalid st of None \<Rightarrow> True
                         | Some i \<Rightarrow> CompareTo (nChainWork (store st pindexNew)) (nChainWork (store st i)) > 0)
                      then st\<lparr>pindexBestInvalid := Some pindexNew\<rparr> else st)
            in case remove_chain pindexTest fFailedChain pindexNew st of
                 None \<Rightarrow> None
               | Some (Inl e) \<Rightarrow> Some (Inl e)
               | Some (Inr st) \<Rightarrow> FindMostWorkChain (erase_candidate pindexTest st))"

definition PruneBlockIndexCandidates :: "chainstate \<Rightarrow> tree_error + chainstate" where
  "PruneBlockIndexCandidates st =
     (case Tip (chainActive st) of
        None \<Rightarrow> if setBlockIndexCandidates st = [] then Inl TreeAssert else Inl TreeNull
      | Some tip \<Rightarrow>
          let cs = dropWhile (\<lambda>c. CBlockIndexWorkComparator (store st) c tip) (setBlockIndexCandidates st)
          in if cs = [] then Inl TreeAssert else Inr (st\<lparr>setBlockIndexCandidates := cs\<rparr>))"

section \<open>Marks of failed blocks\<close>

lemma tainted_iff: "tainted S p \<longleftrightarrow> failed (S p) \<or> (\<exists>q. pprev (S p) = Some q \<and> tainted S q)"
proof -
  have e: "(\<exists>n. back_by S n p = Some a) \<longleftrightarrow> a = p \<or> (\<exists>q. pprev (S p) = Some q \<and> (\<exists>n. back_by S n q = Some a))" for a
    by (subst ex_nat_split) (auto split: option.splits)
  show ?thesis unfolding tainted_def is_ancestor_def e by blast
qed

text \<open>Blocks are marked as failed by adding bits to their status.\<close>

definition marked :: "u32 \<Rightarrow> CBlockIndex \<Rightarrow> CBlockIndex" where
  "marked m b = b\<lparr>nStatus := nStatus b OR m\<rparr>"

definition marks :: "u32 \<Rightarrow> block_ptr set \<Rightarrow> chainstate \<Rightarrow> chainstate \<Rightarrow> bool" where
  "marks m D st st' \<longleftrightarrow> (m = BLOCK_FAILED_VALID \<or> m = BLOCK_FAILED_CHILD) \<and> mapBlockIndex st' = mapBlockIndex st \<and> chainActive st' = chainActive st \<and> mapBlocksUnlinked st' = mapBlocksUnlinked st \<and>
     pindexBestHeader st' = pindexBestHeader st \<and> (\<forall>x. store st' x = store st x \<or> x \<in> D \<and> store st' x = marked m (store st x))"

lemma marked_simps [simp]:
  "nTx (marked m b) = nTx b" "nChainTx (marked m b) = nChainTx b" "pprev (marked m b) = pprev b" "nHeight (marked m b) = nHeight b"
  "nSequenceId (marked m b) = nSequenceId b" "nChainWork (marked m b) = nChainWork b" "core (marked m b) = core b"
  "nStatus (marked m b) = nStatus b OR m"
  by (simp_all add: marked_def core_def)

lemma failed_marks:
  "failed (marked BLOCK_FAILED_VALID b)" "failed (marked BLOCK_FAILED_CHILD b)"
  "has_data (marked BLOCK_FAILED_VALID b) = has_data b" "has_data (marked BLOCK_FAILED_CHILD b) = has_data b"
  "nStatus (marked BLOCK_FAILED_VALID b) AND BLOCK_VALID_MASK = nStatus b AND BLOCK_VALID_MASK"
  "nStatus (marked BLOCK_FAILED_CHILD b) AND BLOCK_VALID_MASK = nStatus b AND BLOCK_VALID_MASK"
proof -
  have "(s OR 32) AND 96 \<noteq> 0" "(s OR 64) AND 96 \<noteq> 0" for s :: u32
  proof -
    have "bit ((s OR 32) AND 96) 5" "bit ((s OR 64) AND 96) 6" by (simp_all add: bit_simps)
    then show "(s OR 32) AND 96 \<noteq> 0" "(s OR 64) AND 96 \<noteq> 0" by auto
  qed
  then show "failed (marked BLOCK_FAILED_VALID b)" "failed (marked BLOCK_FAILED_CHILD b)" by (simp_all add: failed_def block_status_defs)
qed (simp_all add: failed_def has_data_def block_status_defs word_ao_dist)

lemma marksD:
  assumes "marks m D st st'"
  shows "mapBlockIndex st' = mapBlockIndex st" "chainActive st' = chainActive st" "mapBlocksUnlinked st' = mapBlocksUnlinked st"
    "pprev (store st' x) = pprev (store st x)" "nHeight (store st' x) = nHeight (store st x)" "nTx (store st' x) = nTx (store st x)"
    "nChainTx (store st' x) = nChainTx (store st x)" "nSequenceId (store st' x) = nSequenceId (store st x)"
    "nChainWork (store st' x) = nChainWork (store st x)" "core (store st' x) = core (store st x)" "has_data (store st' x) = has_data (store st x)"
    "nStatus (store st' x) AND BLOCK_VALID_MASK = nStatus (store st x) AND BLOCK_VALID_MASK" "failed (store st x) \<Longrightarrow> failed (store st' x)"
    "failed (store st' x) \<Longrightarrow> failed (store st x) \<or> x \<in> D" "is_linked (store st') x = is_linked (store st) x"
    "back_by (store st') n x = back_by (store st) n x" "CBlockIndexWorkComparator (store st') = CBlockIndexWorkComparator (store st)"
    "x \<notin> D \<Longrightarrow> store st' x = store st x" "pindexBestHeader st' = pindexBestHeader st"
proof -
  have c: "store st' x = store st x \<or> x \<in> D \<and> (store st' x = marked BLOCK_FAILED_VALID (store st x) \<or> store st' x = marked BLOCK_FAILED_CHILD (store st x))" for x
    using assms by (auto simp: marks_def)
  show "mapBlockIndex st' = mapBlockIndex st" "chainActive st' = chainActive st" "mapBlocksUnlinked st' = mapBlocksUnlinked st"
    "pindexBestHeader st' = pindexBestHeader st" using assms by (simp_all add: marks_def)
  show "nHeight (store st' x) = nHeight (store st x)" "nTx (store st' x) = nTx (store st x)"
    "nChainTx (store st' x) = nChainTx (store st x)"  "core (store st' x) = core (store st x)" "has_data (store st' x) = has_data (store st x)"
    "nStatus (store st' x) AND BLOCK_VALID_MASK = nStatus (store st x) AND BLOCK_VALID_MASK" "is_linked (store st') x = is_linked (store st) x"
    using c [of x] failed_marks [of "store st x"] by (auto simp: is_linked_def simp del: marked_simps(8))
  show "failed (store st x) \<Longrightarrow> failed (store st' x)" using c [of x] failed_marks(1,2) by metis
  show "failed (store st' x) \<Longrightarrow> failed (store st x) \<or> x \<in> D" "x \<notin> D \<Longrightarrow> store st' x = store st x" using c [of x] by auto
  have e: "pprev (store st' x) = pprev (store st x)" "nSequenceId (store st' x) = nSequenceId (store st x)" "nChainWork (store st' x) = nChainWork (store st x)" for x
    using c [of x] by auto
  show "pprev (store st' x) = pprev (store st x)" "nSequenceId (store st' x) = nSequenceId (store st x)" "nChainWork (store st' x) = nChainWork (store st x)"
    by (rule e)+
  show "back_by (store st') n x = back_by (store st) n x" by (rule back_by_cong) (rule e)
  show "CBlockIndexWorkComparator (store st') = CBlockIndexWorkComparator (store st)" by (intro ext) (simp add: CBlockIndexWorkComparator_def e)
qed

lemma marks_linking:
  assumes m: "marks m D st st'" and ok: "linking [] st"
  shows "linking [] st'"
proof (rule linkingI)
  note e = marksD [OF m] and old = linkingD [OF ok]
  have txs: "chain_txs (store st') x = chain_txs (store st) x" for x by (rule chain_txs_cong) (rule e)+
  show "nTx (store st' x) \<noteq> 0 \<and> unat (nChainTx (store st' x)) = chain_txs (store st') x" if "is_linked (store st') x" for x
    using that old(1,2) [of x] by (simp add: e(6,7,15) txs)
  show "is_linked (store st') q" if "is_linked (store st') x" "pprev (store st' x) = Some q" for x q using that old(3) [of x q] by (simp add: e(4,15))
  show "has_data (store st' x)" if "nTx (store st' x) \<noteq> 0" for x using that old(4) [of x] by (simp add: e(6,11))
  show "x \<in> set [] \<or> (\<exists>q. pprev (store st' x) = Some q \<and> (failed (store st' q) \<or> (q, x) \<in> set (mapBlocksUnlinked st')))"
    if "nTx (store st' x) \<noteq> 0" "\<not> is_linked (store st') x" for x
    using that old(5) [of x] e(13) by (auto simp: e(3,4,6,15))
  show "pprev (store st' x) = Some q \<and> nTx (store st' x) \<noteq> 0 \<and> \<not> is_linked (store st') x \<and> \<not> is_linked (store st') q \<and> x \<notin> set []"
    if "(q, x) \<in> set (mapBlocksUnlinked st')" for q x using that old(6) [of q x] by (simp add: e(3,4,6,15))
  show "nSequenceId (store st' x) \<le> 0" if "\<not> is_linked (store st') x" for x using that old(11) [of x] by (simp add: e(8,15))
qed (use linkingD(7) [OF ok] marksD(3) [OF m] in simp_all)

text \<open>Marking known blocks keeps the invariants, if the candidates that are dropped have a failed ancestor.\<close>

lemma marks_tree_inv:
  assumes inv: "tree_above F st" and m: "marks m D st st'" and D: "D \<subseteq> blocks_of st"
    and cands: "sorted_wrt (CBlockIndexWorkComparator (store st)) (setBlockIndexCandidates st')"
      "set (setBlockIndexCandidates st') \<subseteq> set (setBlockIndexCandidates st)"
      "\<And>c. c \<in> set (setBlockIndexCandidates st) \<Longrightarrow> c \<notin> set (setBlockIndexCandidates st') \<Longrightarrow> tainted (store st') c"
  shows "tree_above F st'"
proof -
  note e = marksD [OF m]
  have tr: "same_tree st st'" using D e(18) by (auto simp: same_tree_def e(1,10))
  have lv: "levels_ok st'" using inv by (simp add: tree_above_def levels_ok_def blocks_of_def e(1,12))
  have taint: "tainted (store st') x" if "tainted (store st) x" for x
    using that e(13) by (auto simp: tainted_def is_ancestor_def e(16))
  have ok: "cands_above F st" using inv by (simp add: tree_above_def)
  have "x \<in> set (setBlockIndexCandidates st')" if "is_linked (store st) x" "\<not> tainted (store st') x"
      "\<And>t. F = Some t \<Longrightarrow> \<not> CBlockIndexWorkComparator (store st) x t" for x
    using cands_okD(4) [OF ok that(1) _ that(3)] that(2) taint cands(3) by blast
  moreover have "is_linked (store st) c" if "c \<in> set (setBlockIndexCandidates st')" for c using that cands(2) cands_okD(2) [OF ok] by blast
  ultimately have "cands_above F st'" using cands(1) cands_okD(3) [OF ok] by (simp add: cands_above_def e(15,17))
  then show ?thesis using lv marks_linking [OF m] same_tree_index_ok [OF _ tr] inv by (simp add: tree_above_def)
qed

lemma marks_refl: "marks BLOCK_FAILED_CHILD {} st st"
  by (simp add: marks_def)

lemma marked_twice [simp]: "marked m (marked m b) = marked m b"
  by (simp add: marked_def or.assoc)

lemma marks_trans: "marks m D st st1 \<Longrightarrow> marks m E st1 st2 \<Longrightarrow> marks m (D \<union> E) st st2"
proof -
  assume "marks m D st st1" "marks m E st1 st2"
  then have "store st2 x = store st x \<or> x \<in> D \<union> E \<and> store st2 x = marked m (store st x)" for x
    by (auto simp: marks_def) (metis marked_twice)+
  then show ?thesis using \<open>marks m D st st1\<close> \<open>marks m E st1 st2\<close> by (simp add: marks_def)
qed

lemma marks_mono: "marks m D st st' \<Longrightarrow> D \<subseteq> E \<Longrightarrow> marks m E st st'"
  by (auto simp: marks_def)

section \<open>The walks of the search\<close>

lemma test_chain_linked:
  assumes inv: "tree_above F st" and active: "\<And>x. Contains (store st) (chainActive st) x \<Longrightarrow> \<not> tainted (store st) x"
  shows "is_linked (store st) p \<Longrightarrow>
    \<not> tainted (store st) p \<and> test_chain (store st) (chainActive st) (Some p) = Some (Inr None) \<or>
    (\<exists>t n. test_chain (store st) (chainActive st) (Some p) = Some (Inr (Some (t, True))) \<and> back_by (store st) n p = Some t \<and> failed (store st t))"
proof (induction "nHeight (store st p)" arbitrary: p rule: less_induct)
  case less
  have l: "linking [] st" and tree: "block_tree (store st)" using inv by (simp_all add: tree_above_def index_okD)
  let ?S = "store st"
  have data: "nStatus (?S p) AND BLOCK_HAVE_DATA \<noteq> 0" "nChainTx (?S p) \<noteq> 0"
    using linkingD(1,4) [OF l, of p] less(2) by (simp_all add: has_data_def is_linked_def)
  have step: "test_chain ?S (chainActive st) (Some p) = (if Contains ?S (chainActive st) p then Some (Inr None)
      else if failed (?S p) then Some (Inr (Some (p, True))) else test_chain ?S (chainActive st) (pprev (?S p)))"
    by (subst test_chain.simps) (use data in \<open>simp add: Let_def failed_def\<close>)
  show ?case
  proof (cases "Contains ?S (chainActive st) p \<or> failed (?S p)")
    case True
    then show ?thesis using active [of p] step by (auto intro!: exI [of _ p] exI [of _ 0])
  next
    case out: False
    show ?thesis
    proof (cases "pprev (?S p)")
      case None
      have "test_chain ?S (chainActive st) None = Some (Inr None)" by (subst test_chain.simps) simp
      moreover have "\<not> tainted ?S p" using None out by (subst tainted_iff) simp
      ultimately show ?thesis using None out step by simp
    next
      case (Some q)
      have "is_linked ?S q" "nHeight (?S q) < nHeight (?S p)" using linkingD(3) [OF l less(2) Some] block_tree_parent [OF tree Some] by simp_all
      from less(1) [OF this(2,1)] show ?thesis
      proof
        assume "\<not> tainted ?S q \<and> test_chain ?S (chainActive st) (Some q) = Some (Inr None)"
        moreover have "tainted ?S p = tainted ?S q" using Some out by (subst tainted_iff) simp
        ultimately show ?thesis using Some out step by simp
      next
        assume "\<exists>t n. test_chain ?S (chainActive st) (Some q) = Some (Inr (Some (t, True))) \<and> back_by ?S n q = Some t \<and> failed (?S t)"
        then obtain t n where t: "test_chain ?S (chainActive st) (Some q) = Some (Inr (Some (t, True)))" "back_by ?S (Suc n) p = Some t" "failed (?S t)"
          using Some by auto
        have "test_chain ?S (chainActive st) (Some p) = Some (Inr (Some (t, True)))" using t(1) Some out step by simp
        then show ?thesis using t(2,3) by blast
      qed
    qed
  qed
qed

lemma erase_candidate_simps [simp]:
  "store (erase_candidate p st) = store st" "mapBlockIndex (erase_candidate p st) = mapBlockIndex st" "chainActive (erase_candidate p st) = chainActive st"
  "mapBlocksUnlinked (erase_candidate p st) = mapBlocksUnlinked st" "pindexBestHeader (erase_candidate p st) = pindexBestHeader st"
  "setBlockIndexCandidates (erase_candidate p st) = set_erase (CBlockIndexWorkComparator (store st)) p (setBlockIndexCandidates st)"
  by (simp_all add: erase_candidate_def)

lemma remove_chain_marks:
  assumes "back_by (store st) n p = Some t" "block_tree (store st)" "wf_works (store st)"
    "sorted_wrt (CBlockIndexWorkComparator (store st)) (setBlockIndexCandidates st)"
  shows "\<exists>st'. remove_chain t True p st = Some (Inr st') \<and> marks BLOCK_FAILED_CHILD {x. \<exists>i<n. back_by (store st) i p = Some x} st st' \<and>
    sorted_wrt (CBlockIndexWorkComparator (store st)) (setBlockIndexCandidates st') \<and>
    set (setBlockIndexCandidates st') = set (setBlockIndexCandidates st) - {x. \<exists>i<n. back_by (store st) i p = Some x}"
  using assms
proof (induction n arbitrary: p st)
  case 0
  then show ?case by (subst remove_chain.simps) (simp add: marks_refl)
next
  case (Suc n)
  let ?S = "store st" and ?lt = "CBlockIndexWorkComparator (store st)"
  obtain q where q: "pprev (?S p) = Some q" "back_by ?S n q = Some t" using Suc.prems(1) by (auto split: option.splits)
  have "nHeight (?S t) < nHeight (?S p)" using back_by_Some_height [OF Suc.prems(2) q(2)] block_tree_parent [OF Suc.prems(2) q(1)] by simp
  then have ne: "t \<noteq> p" by auto
  let ?st = "erase_candidate p (update_block p (\<lambda>b. b\<lparr>nStatus := nStatus b OR BLOCK_FAILED_CHILD\<rparr>) st)"
  have m: "marks BLOCK_FAILED_CHILD {p} st ?st" by (simp add: marks_def marked_def)
  note e = marksD [OF m]
  have tree: "block_tree (store ?st)" using Suc.prems(2) block_tree_cong [of "store ?st" ?S] e(4,5) by blast
  have works: "wf_works (store ?st)" using Suc.prems(3) unfolding wf_works_def e(9) .
  note ord = work_set_order [OF Suc.prems(3)]
  have c: "setBlockIndexCandidates ?st = set_erase ?lt p (setBlockIndexCandidates st)" using e(17) by (simp only: erase_candidate_simps update_block_simps)
  have cands: "sorted_wrt (CBlockIndexWorkComparator (store ?st)) (setBlockIndexCandidates ?st)" "set (setBlockIndexCandidates ?st) = set (setBlockIndexCandidates st) - {p}"
    unfolding c e(17) using set_order.sorted_set_erase [OF ord Suc.prems(4)] set_order.set_set_erase [OF ord Suc.prems(4)] by simp_all
  obtain st' where st': "remove_chain t True q ?st = Some (Inr st')" "marks BLOCK_FAILED_CHILD {x. \<exists>i<n. back_by ?S i q = Some x} ?st st'"
      "sorted_wrt ?lt (setBlockIndexCandidates st')" "set (setBlockIndexCandidates st') = set (setBlockIndexCandidates ?st) - {x. \<exists>i<n. back_by ?S i q = Some x}"
    using Suc.IH [of ?st q, unfolded e(16,17), OF q(2) tree works cands(1) [unfolded e(17)]] by blast
  have D: "{x. \<exists>i<Suc n. back_by ?S i p = Some x} = insert p {x. \<exists>i<n. back_by ?S i q = Some x}"
    using q(1) by (auto simp: less_Suc_eq_0_disj)
  have "remove_chain t True p st = Some (Inr st')" using st'(1) ne q(1) by (subst remove_chain.simps) simp
  moreover have "marks BLOCK_FAILED_CHILD {x. \<exists>i<Suc n. back_by ?S i p = Some x} st st'" using marks_trans [OF m st'(2)] by (simp add: D)
  ultimately show ?case using st'(3,4) cands(2) unfolding D by blast
qed

lemma marks_tainted:
  assumes m: "marks m D st st'" and D: "\<And>x. x \<in> D \<Longrightarrow> tainted (store st) x"
  shows "tainted (store st') x = tainted (store st) x"
proof
  assume "tainted (store st') x"
  then obtain a where a: "is_ancestor (store st) a x" "failed (store st' a)" by (auto simp: tainted_def is_ancestor_def marksD(16) [OF m])
  then have "tainted (store st) a" using marksD(14) [OF m a(2)] D by (subst tainted_iff) (metis tainted_iff)
  then show "tainted (store st) x" using is_ancestor_trans a(1) unfolding tainted_def by blast
next
  assume "tainted (store st) x"
  then show "tainted (store st') x" using marksD(13) [OF m] by (auto simp: tainted_def is_ancestor_def marksD(16) [OF m])
qed

lemma path_tainted:
  assumes "back_by S n p = Some t" "failed (S t)" "i \<le> n" "back_by S i p = Some x"
  shows "tainted S x"
proof -
  have "back_by S (i + (n - i)) p = Some t" using assms(1,3) by simp
  then have "back_by S (n - i) x = Some t" using assms(4) unfolding back_by_add by simp
  then show ?thesis using assms(2) unfolding tainted_def is_ancestor_def by blast
qed

lemma linked_in_index: "tree_above F st \<Longrightarrow> is_linked (store st) x \<Longrightarrow> x \<in> blocks_of st"
  using index_okD(4) [of st x] by (cases "x \<in> blocks_of st") (auto simp: tree_above_def is_linked_def CBlockIndex_SetNull_def)

text \<open>One round of the search that finds a failed block under the best candidate.\<close>

lemma search_round:
  assumes inv: "tree_above F st" and new: "p \<in> set (setBlockIndexCandidates st)" and t: "back_by (store st) n p = Some t" "failed (store st t)"
    and st1: "st1 = st \<or> st1 = st\<lparr>pindexBestInvalid := Some p\<rparr>"
  shows "\<exists>st2. remove_chain t True p st1 = Some (Inr st2) \<and>
    (let st3 = erase_candidate t st2 in tree_above F st3 \<and> (\<exists>D. marks BLOCK_FAILED_CHILD D st st3 \<and> (\<forall>x \<in> D. tainted (store st) x)) \<and>
       (\<forall>c \<in> set (setBlockIndexCandidates st) - set (setBlockIndexCandidates st3). tainted (store st) c) \<and>
       set (setBlockIndexCandidates st3) \<subseteq> set (setBlockIndexCandidates st) \<and> length (setBlockIndexCandidates st3) < length (setBlockIndexCandidates st))"
proof -
  let ?S = "store st" and ?D = "{x. \<exists>i<n. back_by (store st) i p = Some x}" and ?lt = "CBlockIndexWorkComparator (store st)"
  have idx: "index_ok st" and ok: "cands_above F st" and l: "linking [] st" using inv by (simp_all add: tree_above_def)
  have works: "wf_works ?S" using index_okD(10) [OF idx] by (simp add: wf_works_def)
  note ord = work_set_order [OF works]
  have e1: "store st1 = ?S" "setBlockIndexCandidates st1 = setBlockIndexCandidates st" "mapBlockIndex st1 = mapBlockIndex st"
    "chainActive st1 = chainActive st" "mapBlocksUnlinked st1 = mapBlocksUnlinked st" "pindexBestHeader st1 = pindexBestHeader st" using st1 by auto
  obtain st2 where st2: "remove_chain t True p st1 = Some (Inr st2)" "marks BLOCK_FAILED_CHILD ?D st1 st2" "sorted_wrt ?lt (setBlockIndexCandidates st2)"
      "set (setBlockIndexCandidates st2) = set (setBlockIndexCandidates st) - ?D"
    using remove_chain_marks [of st1 n p t, unfolded e1, OF t(1) index_okD(7) [OF idx] works cands_okD(1) [OF ok]] by blast
  let ?st3 = "erase_candidate t st2"
  have m: "marks BLOCK_FAILED_CHILD ?D st ?st3" using st2(2) e1 by (simp add: marks_def)
  have lt: "CBlockIndexWorkComparator (store st2) = ?lt" using marksD(17) [OF m] by simp
  have cs: "sorted_wrt ?lt (setBlockIndexCandidates ?st3)" "set (setBlockIndexCandidates ?st3) = set (setBlockIndexCandidates st) - ?D - {t}"
    using set_order.sorted_set_erase [OF ord st2(3)] set_order.set_set_erase [OF ord st2(3)] st2(4) by (simp_all add: lt)
  have taint: "tainted ?S x" if "x \<in> ?D \<or> x = t" for x using that path_tainted [OF t, of _ x] path_tainted [OF t, of n t] t(1) less_imp_le by blast
  have same: "tainted (store ?st3) x = tainted ?S x" for x using marks_tainted [OF m] taint by blast
  have lp: "is_linked ?S p" using new cands_okD(2) [OF ok] by blast
  have "?D \<subseteq> blocks_of st" using linked_ancestor [OF l lp] linked_in_index [OF inv] by blast
  then have "tree_above F ?st3" by (rule marks_tree_inv [OF inv m _ cs(1)]) (auto simp: cs(2) same taint simp del: erase_candidate_simps)
  moreover have "p \<notin> set (setBlockIndexCandidates ?st3)" using t(1) by (cases n) (auto simp: cs(2) simp del: erase_candidate_simps)
  then have "card (set (setBlockIndexCandidates ?st3)) < card (set (setBlockIndexCandidates st))"
    using new by (intro psubset_card_mono) (auto simp: cs(2) simp del: erase_candidate_simps)
  then have "length (setBlockIndexCandidates ?st3) < length (setBlockIndexCandidates st)"
    using cs(1) cands_okD(1) [OF ok] distinct_card set_order.sorted_distinct [OF ord] by metis
  ultimately show ?thesis using st2(1) m taint by (auto simp: Let_def cs(2) simp del: erase_candidate_simps)
qed

text \<open>The active chain holds no failed block.\<close>

definition active_ok :: "chainstate \<Rightarrow> bool" where
  "active_ok st \<longleftrightarrow> (\<forall>x. Contains (store st) (chainActive st) x \<longrightarrow> \<not> tainted (store st) x)"

lemma marks_active_ok:
  assumes "active_ok st" "marks m D st st'" "\<And>x. x \<in> D \<Longrightarrow> tainted (store st) x"
  shows "active_ok st'"
proof -
  have "tainted (store st') x = tainted (store st) x" for x by (rule marks_tainted [OF assms(2)]) (rule assms(3))
  then show ?thesis using assms(1) by (simp add: active_ok_def Contains_def marksD(2,5) [OF assms(2)])
qed

definition best_of :: "chainstate \<Rightarrow> block_ptr set \<Rightarrow> block_ptr option \<Rightarrow> bool" where
  "best_of st C r \<longleftrightarrow>
     (case r of None \<Rightarrow> \<forall>c \<in> C. tainted (store st) c
      | Some p \<Rightarrow> p \<in> C \<and> \<not> tainted (store st) p \<and> (\<forall>c \<in> C. \<not> tainted (store st) c \<longrightarrow> \<not> CBlockIndexWorkComparator (store st) p c))"

lemma FindMostWorkChain_search:
  assumes "tree_above F st" "active_ok st"
  shows "\<exists>r st' D. FindMostWorkChain st = Some (Inr (r, st')) \<and> tree_above F st' \<and> marks BLOCK_FAILED_CHILD D st st' \<and>
    (\<forall>x \<in> D. tainted (store st) x) \<and> best_of st (set (setBlockIndexCandidates st)) r"
  using assms
proof (induction "length (setBlockIndexCandidates st)" arbitrary: st rule: less_induct)
  case less
  let ?c = "setBlockIndexCandidates st" and ?S = "store st"
  show ?case
  proof (cases "?c = []")
    case True
    then have "FindMostWorkChain st = Some (Inr (None, st))" by (subst FindMostWorkChain.simps) simp
    moreover have "best_of st (set ?c) None" using True by (simp add: best_of_def)
    ultimately show ?thesis using less.prems(1) marks_refl by fastforce
  next
    case ne: False
    define p where "p = last ?c"
    have ok: "cands_above F st" and works: "wf_works ?S" using less.prems(1) index_okD(10) [of st] by (simp_all add: tree_above_def wf_works_def)
    note ord = work_set_order [OF works]
    have p: "p \<in> set ?c" "is_linked ?S p" using ne cands_okD(2) [OF ok] by (simp_all add: p_def)
    have active: "\<And>x. Contains ?S (chainActive st) x \<Longrightarrow> \<not> tainted ?S x" using less.prems(2) by (simp add: active_ok_def)
    from test_chain_linked [OF less.prems(1) active p(2)] show ?thesis
    proof
      assume t: "\<not> tainted ?S p \<and> test_chain ?S (chainActive st) (Some p) = Some (Inr None)"
      then have "FindMostWorkChain st = Some (Inr (Some p, st))" using ne by (subst FindMostWorkChain.simps) (simp add: p_def)
      moreover have "best_of st (set ?c) (Some p)"
        using t p(1) set_order.sorted_last [OF ord cands_okD(1) [OF ok] ne] set_order.asym [OF ord] work_irrefl [OF works] by (auto simp: best_of_def p_def)
      ultimately show ?thesis using less.prems(1) marks_refl by fastforce
    next
      assume "\<exists>t n. test_chain ?S (chainActive st) (Some p) = Some (Inr (Some (t, True))) \<and> back_by ?S n p = Some t \<and> failed (?S t)"
      then obtain t n where t: "test_chain ?S (chainActive st) (Some p) = Some (Inr (Some (t, True)))" "back_by ?S n p = Some t" "failed (?S t)" by blast
      define st1 where "st1 = (if (case pindexBestInvalid st of None \<Rightarrow> True | Some i \<Rightarrow> CompareTo (nChainWork (?S p)) (nChainWork (?S i)) > 0)
        then st\<lparr>pindexBestInvalid := Some p\<rparr> else st)"
      have "st1 = st \<or> st1 = st\<lparr>pindexBestInvalid := Some p\<rparr>" by (simp add: st1_def)
      from search_round [OF less.prems(1) p(1) t(2,3) this] obtain st2 D where
        st2: "remove_chain t True p st1 = Some (Inr st2)" "tree_above F (erase_candidate t st2)"
          "marks BLOCK_FAILED_CHILD D st (erase_candidate t st2)" "\<And>x. x \<in> D \<Longrightarrow> tainted ?S x"
          "\<And>c. c \<in> set ?c \<Longrightarrow> c \<notin> set (setBlockIndexCandidates (erase_candidate t st2)) \<Longrightarrow> tainted ?S c"
          "set (setBlockIndexCandidates (erase_candidate t st2)) \<subseteq> set ?c" "length (setBlockIndexCandidates (erase_candidate t st2)) < length ?c"
        unfolding Let_def by blast
      let ?st3 = "erase_candidate t st2"
      have eq: "FindMostWorkChain st = FindMostWorkChain ?st3"
        using ne t(1) st2(1) by (subst FindMostWorkChain.simps) (simp add: p_def [symmetric] st1_def)
      have taint: "tainted (store ?st3) x = tainted ?S x" for x by (rule marks_tainted [OF st2(3)]) (rule st2(4))
      note lt = marksD(17) [OF st2(3)]
      from less.hyps [OF st2(7,2) marks_active_ok [OF less.prems(2) st2(3,4)]] obtain r st' E where
        r: "FindMostWorkChain ?st3 = Some (Inr (r, st'))" "tree_above F st'" "marks BLOCK_FAILED_CHILD E ?st3 st'" "\<And>x. x \<in> E \<Longrightarrow> tainted (store ?st3) x"
          "best_of ?st3 (set (setBlockIndexCandidates ?st3)) r" by blast
      have "best_of st (set ?c) r" using r(5) st2(5,6) unfolding best_of_def taint lt by (cases r) (auto simp del: erase_candidate_simps)
      moreover have "marks BLOCK_FAILED_CHILD (D \<union> E) st st'" by (rule marks_trans [OF st2(3) r(3)])
      ultimately show ?thesis using eq r(1,2,4) st2(4) taint by (metis Un_iff)
    qed
  qed
qed

end
