(* ===== verification/Invalid_Blocks.thy ===== *)
theory Invalid_Blocks
  imports Best_Chain
begin

unbundle bit_operations_syntax

text \<open>
  Blocks found to be invalid, and the warnings about forks with much work, in \<open>src/src/validation.cpp\<close>:
  \<open>IsInitialBlockDownload\<close>, \<open>CheckForkWarningConditions\<close>, \<open>CheckForkWarningConditionsOnNewFork\<close>,
  \<open>InvalidChainFound\<close>, \<open>InvalidBlockFound\<close>, \<open>ResetBlockFailureFlags\<close> and \<open>ReconsiderBlock\<close>.

  Shown: a block found invalid is marked and leaves the candidates, and the invariants of the tree and of the
  active chain are kept.
\<close>

section \<open>Warnings about forks\<close>

text \<open>The static variables of the warnings, and what the functions read of the rest of the node.\<close>

record fork_state =
  latchToFalse :: bool
  pindexBestForkTip :: "block_ptr option"
  pindexBestForkBase :: "block_ptr option"
  fLargeWorkForkFound :: bool
  fLargeWorkInvalidChainFound :: bool

record node_env =
  fImporting :: bool
  fReindex :: bool
  nMinimumChainWork :: int
  nMaxTipAge :: int
  GetTime :: int

definition IsInitialBlockDownload :: "node_env \<Rightarrow> chainstate \<Rightarrow> fork_state \<Rightarrow> tree_error + bool \<times> fork_state" where
  "IsInitialBlockDownload env st w =
     (if latchToFalse w then Inr (False, w)
      else if fImporting env \<or> fReindex env then Inr (True, w)
      else case Tip (chainActive st) of
        None \<Rightarrow> Inr (True, w)
      | Some tip \<Rightarrow>
          if CompareTo (nChainWork (store st tip)) (base_uint_u64 (word_of_int (nMinimumChainWork env))) < 0 then Inr (True, w)
          else case pindexBestHeader st of
            None \<Rightarrow> Inl TreeNull
          | Some h \<Rightarrow>
              let state = (Height (chainActive st) < int (nHeight (store st h)) - 96 * 6 \<or>
                           max (GetBlockTime (store st tip)) (GetBlockTime (store st h)) < GetTime env - nMaxTipAge env)
              in Inr (state, if \<not> state then w\<lparr>latchToFalse := True\<rparr> else w))"

text \<open>Whether the best invalid chain has the work of six blocks more than the active one.\<close>

definition invalid_ahead :: "chainstate \<Rightarrow> tree_error + bool" where
  "invalid_ahead st =
     (case pindexBestInvalid st of
        None \<Rightarrow> Inr False
      | Some i \<Rightarrow>
          (case Tip (chainActive st) of
             None \<Rightarrow> Inl TreeNull
           | Some tip \<Rightarrow> ebind (from_pow (GetBlockProof (store st tip))) (\<lambda>w.
               Inr (CompareTo (nChainWork (store st i)) (uint_add (nChainWork (store st tip)) (uint_mul32 w 6)) > 0))))"

definition CheckForkWarningConditions :: "node_env \<Rightarrow> chainstate \<Rightarrow> fork_state \<Rightarrow> tree_error + fork_state" where
  "CheckForkWarningConditions env st w = ebind (IsInitialBlockDownload env st w) (\<lambda>(ibd, w).
     if ibd then Inr w
     else let w = (case pindexBestForkTip w of
                     None \<Rightarrow> w
                   | Some f \<Rightarrow> if Height (chainActive st) - int (nHeight (store st f)) \<ge> 120 then w\<lparr>pindexBestForkTip := None\<rparr> else w)
          in ebind (if pindexBestForkTip w \<noteq> None then Inr True else invalid_ahead st) (\<lambda>warn.
             if warn then
               (if pindexBestForkTip w \<noteq> None \<and> pindexBestForkBase w \<noteq> None then Inr (w\<lparr>fLargeWorkForkFound := True\<rparr>)
                else case pindexBestInvalid st of None \<Rightarrow> Inl TreeNull | Some i \<Rightarrow> Inr (w\<lparr>fLargeWorkInvalidChainFound := True\<rparr>))
             else Inr (w\<lparr>fLargeWorkForkFound := False, fLargeWorkInvalidChainFound := False\<rparr>)))"

text \<open>The two loops that look for the base of a fork.\<close>

partial_function (option) lower_to :: "block_store \<Rightarrow> nat \<Rightarrow> block_ptr option \<Rightarrow> block_ptr option option" where
  [code]: "lower_to S h plonger =
     (case plonger of None \<Rightarrow> Some None | Some p \<Rightarrow> if nHeight (S p) > h then lower_to S h (pprev (S p)) else Some (Some p))"

partial_function (option) fork_base :: "block_store \<Rightarrow> block_ptr option \<Rightarrow> block_ptr option \<Rightarrow> block_ptr option option" where
  [code]: "fork_base S pfork plonger =
     (case pfork of
        None \<Rightarrow> Some None
      | Some f \<Rightarrow>
          if pfork = plonger then Some pfork
          else (case lower_to S (nHeight (S f)) plonger of
                  None \<Rightarrow> None
                | Some plonger \<Rightarrow> if pfork = plonger then Some pfork else fork_base S (pprev (S f)) plonger))"

definition CheckForkWarningConditionsOnNewFork ::
    "node_env \<Rightarrow> block_ptr \<Rightarrow> chainstate \<Rightarrow> fork_state \<Rightarrow> (tree_error + fork_state) option" where
  "CheckForkWarningConditionsOnNewFork env new st w =
     (case fork_base (store st) (Some new) (Tip (chainActive st)) of
        None \<Rightarrow> None
      | Some pfork \<Rightarrow> Some (
          ebind (case pfork of
                   None \<Rightarrow> Inr w
                 | Some f \<Rightarrow>
                     if (case pindexBestForkTip w of None \<Rightarrow> True | Some b \<Rightarrow> nHeight (store st new) > nHeight (store st b))
                     then ebind (from_pow (GetBlockProof (store st f))) (\<lambda>proof'.
                       Inr (if CompareTo (uint_sub (nChainWork (store st new)) (nChainWork (store st f))) (uint_mul32 proof' 12) > 0 \<and>
                               Height (chainActive st) - int (nHeight (store st new)) < 120
                            then w\<lparr>pindexBestForkTip := Some new, pindexBestForkBase := Some f\<rparr> else w))
                     else Inr w) (CheckForkWarningConditions env st)))"

section \<open>Invalid blocks\<close>

definition InvalidChainFound :: "node_env \<Rightarrow> block_ptr \<Rightarrow> chainstate \<Rightarrow> fork_state \<Rightarrow> tree_error + chainstate \<times> fork_state" where
  "InvalidChainFound env p st w =
     (let st = (case pindexBestInvalid st of
                  None \<Rightarrow> st\<lparr>pindexBestInvalid := Some p\<rparr>
                | Some i \<Rightarrow> if CompareTo (nChainWork (store st p)) (nChainWork (store st i)) > 0 then st\<lparr>pindexBestInvalid := Some p\<rparr> else st)
      in case Tip (chainActive st) of
           None \<Rightarrow> Inl TreeAssert
         | Some tip \<Rightarrow> ebind (CheckForkWarningConditions env st w) (\<lambda>w. Inr (st, w)))"

definition InvalidBlockFound :: "node_env \<Rightarrow> bool \<Rightarrow> block_ptr \<Rightarrow> chainstate \<Rightarrow> fork_state \<Rightarrow> tree_error + chainstate \<times> fork_state" where
  "InvalidBlockFound env corruptionPossible p st w =
     (if \<not> corruptionPossible then
        InvalidChainFound env p (erase_candidate p (mark_dirty p (update_block p (\<lambda>b. b\<lparr>nStatus := nStatus b OR BLOCK_FAILED_VALID\<rparr>) st))) w
      else Inr (st, w))"

section \<open>Reconsidering a block\<close>

text \<open>The body of the loop over the index, for one entry \<open>x\<close>.\<close>

definition reset_entry :: "block_ptr \<Rightarrow> nat \<Rightarrow> block_ptr \<Rightarrow> chainstate \<Rightarrow> tree_error + chainstate" where
  "reset_entry pindex height x st =
     ebind (is_valid (store st x) BLOCK_VALID_TRANSACTIONS) (\<lambda>v.
     if v then Inr st
     else ebind (from_chain (GetAncestor (store st) x (int height))) (\<lambda>a.
       if a = Some pindex then
         let st = mark_dirty x (update_block x (\<lambda>b. b\<lparr>nStatus := nStatus b AND NOT BLOCK_FAILED_MASK\<rparr>) st)
         in ebind (is_valid (store st x) BLOCK_VALID_TRANSACTIONS) (\<lambda>v.
            ebind (if v \<and> nChainTx (store st x) \<noteq> 0
                   then (case Tip (chainActive st) of
                           None \<Rightarrow> Inl TreeNull
                         | Some tip \<Rightarrow> Inr (if CBlockIndexWorkComparator (store st) tip x then insert_candidate x st else st))
                   else Inr st) (\<lambda>st.
            Inr (if pindexBestInvalid st = Some x then st\<lparr>pindexBestInvalid := None\<rparr> else st)))
       else Inr st))"

fun reset_entries :: "block_ptr \<Rightarrow> nat \<Rightarrow> (uint256 \<times> block_ptr) list \<Rightarrow> chainstate \<Rightarrow> tree_error + chainstate" where
  "reset_entries pindex height [] st = Inr st"
| "reset_entries pindex height ((h, x) # es) st = ebind (reset_entry pindex height x st) (reset_entries pindex height es)"

partial_function (option) reset_ancestors :: "block_ptr option \<Rightarrow> chainstate \<Rightarrow> chainstate option" where
  [code]: "reset_ancestors pindex st =
     (case pindex of
        None \<Rightarrow> Some st
      | Some p \<Rightarrow>
          let st = (if nStatus (store st p) AND BLOCK_FAILED_MASK \<noteq> 0
                    then mark_dirty p (update_block p (\<lambda>b. b\<lparr>nStatus := nStatus b AND NOT BLOCK_FAILED_MASK\<rparr>) st) else st)
          in reset_ancestors (pprev (store st p)) st)"

definition ResetBlockFailureFlags :: "block_ptr \<Rightarrow> chainstate \<Rightarrow> (tree_error + chainstate) option" where
  "ResetBlockFailureFlags p st =
     (case reset_entries p (nHeight (store st p)) (mapBlockIndex st) st of
        Inl e \<Rightarrow> Some (Inl e)
      | Inr st \<Rightarrow> map_option Inr (reset_ancestors (Some p) st))"

definition ReconsiderBlock :: "block_ptr \<Rightarrow> chainstate \<Rightarrow> (tree_error + chainstate) option" where
  "ReconsiderBlock p st =
     (case reset_entries p (nHeight (store st p)) (mapBlockIndex st) st of
        Inl e \<Rightarrow> Some (Inl e)
      | Inr st \<Rightarrow> map_option Inr (reset_ancestors (Some p) st))"

text \<open>The first block of a locator that is in the active chain.\<close>

fun FindForkInGlobalIndex :: "chainstate \<Rightarrow> uint256 list \<Rightarrow> block_ptr option" where
  "FindForkInGlobalIndex st [] = Genesis (chainActive st)"
| "FindForkInGlobalIndex st (hash # vHave) =
     (case map_of (mapBlockIndex st) hash of
        Some p \<Rightarrow> if Contains (store st) (chainActive st) p then Some p else FindForkInGlobalIndex st vHave
      | None \<Rightarrow> FindForkInGlobalIndex st vHave)"

section \<open>Invariants of the active chain\<close>

definition chain_above :: "block_ptr option \<Rightarrow> chainstate \<Rightarrow> bool" where
  "chain_above F st \<longleftrightarrow> tree_above F st \<and>
     (chainActive st = [] \<or> (\<exists>t. chainActive st = chain_of (store st) t \<and> is_linked (store st) t \<and> \<not> tainted (store st) t))"

abbreviation chain_inv :: "chainstate \<Rightarrow> bool" where
  "chain_inv st \<equiv> chain_above (Tip (chainActive st)) st"

lemma chain_invE:
  assumes "chain_above F st"
  obtains "chainActive st = []" | t where "chainActive st = chain_of (store st) t" "is_linked (store st) t" "\<not> tainted (store st) t"
  using assms by (auto simp: chain_above_def)

lemma tree_inv_tree: "tree_above F st \<Longrightarrow> block_tree (store st)"
  by (simp add: tree_above_def index_okD)

lemma chain_inv_active:
  assumes "chain_above F st"
  shows "active_ok st"
  using assms
proof (cases rule: chain_invE)
  case 1
  then show ?thesis by (simp add: active_ok_def Contains_def chain_at_def)
next
  case (2 t)
  have "\<not> tainted (store st) x" if "is_ancestor (store st) x t" for x
    using that 2(3) is_ancestor_trans unfolding tainted_def by blast
  then show ?thesis using 2(1) Contains_chain_of [OF tree_inv_tree, of F st t] assms by (auto simp: active_ok_def chain_above_def is_ancestor_def)
qed

lemma chain_of_cong:
  "(\<And>n. back_by S n t = back_by T n t) \<Longrightarrow> nHeight (S t) = nHeight (T t) \<Longrightarrow> chain_of S t = chain_of T t"
  by (simp add: chain_of_def)

text \<open>What a step keeps of the active chain: its blocks, their heights and their validity.\<close>

lemma chain_inv_keep:
  assumes "chain_above F st" "tree_above F st'" "chainActive st' = chainActive st"
    and keep: "\<And>t. is_linked (store st) t \<Longrightarrow> \<not> tainted (store st) t \<Longrightarrow> Tip (chainActive st) = Some t \<Longrightarrow> is_linked (store st') t \<and> \<not> tainted (store st') t \<and>
      nHeight (store st' t) = nHeight (store st t) \<and> (\<forall>n. back_by (store st') n t = back_by (store st) n t)"
  shows "chain_above F st'"
  using assms(1)
proof (cases rule: chain_invE)
  case 1
  then show ?thesis using assms(2,3) by (simp add: chain_above_def)
next
  case (2 t)
  then have "Tip (chainActive st) = Some t" by (simp add: Tip_chain_of)
  from keep [OF 2(2,3) this] have "chain_of (store st') t = chain_of (store st) t" by (intro chain_of_cong) auto
  then show ?thesis using assms(2,3) 2(1) keep [OF 2(2,3) \<open>Tip (chainActive st) = Some t\<close>] unfolding chain_above_def by metis
qed

lemma tainted_cong:
  "(\<And>x. pprev (S x) = pprev (T x)) \<Longrightarrow> (\<And>x. failed (S x) = failed (T x)) \<Longrightarrow> tainted S p = tainted T p"
  using back_by_cong [of S T] by (simp add: tainted_def is_ancestor_def)

text \<open>Marking blocks that are not below the tip.\<close>

lemma marks_chain_inv:
  assumes inv: "chain_above F st" and m: "marks m D st st'" and new: "tree_above F st'"
    and D: "\<And>t x. Tip (chainActive st) = Some t \<Longrightarrow> x \<in> D \<Longrightarrow> \<not> tainted (store st) t \<Longrightarrow> \<not> is_ancestor (store st) x t"
  shows "chain_above F st'"
proof (rule chain_inv_keep [OF inv new marksD(2) [OF m]])
  fix t assume t: "is_linked (store st) t" "\<not> tainted (store st) t" "Tip (chainActive st) = Some t"
  have "\<not> tainted (store st') t"
  proof
    assume "tainted (store st') t"
    then obtain a where a: "is_ancestor (store st) a t" "failed (store st' a)" by (auto simp: tainted_def is_ancestor_def marksD(16) [OF m])
    then show False using marksD(14) [OF m a(2)] t(2) D [OF t(3) _ t(2)] by (auto simp: tainted_def)
  qed
  then show "is_linked (store st') t \<and> \<not> tainted (store st') t \<and> nHeight (store st' t) = nHeight (store st t) \<and>
      (\<forall>n. back_by (store st') n t = back_by (store st) n t)"
    using t(1) by (simp add: marksD(5,15,16) [OF m])
qed

lemma InvalidChainFound_eq:
  "InvalidChainFound env p st w = Inr (st', w') \<Longrightarrow> st' = st \<or> st' = st\<lparr>pindexBestInvalid := Some p\<rparr>"
  by (auto simp: InvalidChainFound_def Let_def ebind_eq_Inr split: option.splits if_splits)

lemma InvalidBlockFound_marks:
  assumes inv: "tree_above F st" and p: "p \<in> blocks_of st" and st': "InvalidBlockFound env cp p st w = Inr (st', w')"
  shows "tree_above F st' \<and> (if cp then st' = st else marks BLOCK_FAILED_VALID {p} st st' \<and> failed (store st' p) \<and>
    set (setBlockIndexCandidates st') = set (setBlockIndexCandidates st) - {p})"
proof (cases cp)
  case True
  then show ?thesis using st' inv by (simp add: InvalidBlockFound_def)
next
  case False
  let ?st = "erase_candidate p (mark_dirty p (update_block p (\<lambda>b. b\<lparr>nStatus := nStatus b OR BLOCK_FAILED_VALID\<rparr>) st))"
  have "st' = ?st \<or> st' = ?st\<lparr>pindexBestInvalid := Some p\<rparr>" using st' False by (auto simp: InvalidBlockFound_def dest: InvalidChainFound_eq)
  then have e: "store st' = store ?st" "setBlockIndexCandidates st' = setBlockIndexCandidates ?st" "mapBlockIndex st' = mapBlockIndex st"
    "chainActive st' = chainActive st" "mapBlocksUnlinked st' = mapBlocksUnlinked st" "pindexBestHeader st' = pindexBestHeader st" by (auto simp: mark_dirty_def)
  have m: "marks BLOCK_FAILED_VALID {p} st st'" using e by (simp add: marks_def marked_def mark_dirty_def)
  have works: "wf_works (store st)" and ok: "cands_above F st" using inv index_okD(10) [of st] by (simp_all add: tree_above_def wf_works_def)
  note ord = work_set_order [OF works]
  have "CBlockIndexWorkComparator (store ?st) = CBlockIndexWorkComparator (store st)" using marksD(17) [OF m] e(1) by simp
  then have c: "setBlockIndexCandidates st' = set_erase (CBlockIndexWorkComparator (store st)) p (setBlockIndexCandidates st)"
    unfolding e(2) by (simp add: mark_dirty_def)
  have cs: "sorted_wrt (CBlockIndexWorkComparator (store st)) (setBlockIndexCandidates st')" "set (setBlockIndexCandidates st') = set (setBlockIndexCandidates st) - {p}"
    unfolding c using set_order.sorted_set_erase [OF ord cands_okD(1) [OF ok]] set_order.set_set_erase [OF ord cands_okD(1) [OF ok]] by simp_all
  have f: "failed (store st' p)" using failed_marks(1) [of "store st p"] e(1) by (simp add: marked_def mark_dirty_def)
  then have "tainted (store st') p" by (subst tainted_iff) simp
  then have "tree_above F st'" using p cs by (intro marks_tree_inv [OF inv m]) auto
  then show ?thesis using False m f cs(2) by simp
qed

end
