(* ===== verification/Activate.thy ===== *)
theory Activate
  imports Invalid_Blocks
begin

unbundle bit_operations_syntax

text \<open>
  Making the best chain active: \<open>UpdateTip\<close>, \<open>DisconnectTip\<close>, \<open>ConnectTip\<close>, \<open>ActivateBestChainStep\<close>
  and \<open>ActivateBestChain\<close> of \<open>src/src/validation.cpp\<close>, with the part of \<open>ConnectBlock\<close> that changes
  the block index.

  Whether a block connects or disconnects (reading it, the coins, the scripts, the flush to disk) is an
  argument of the model; notifications, the memory pool and the warnings about versions are left out.

  Shown: when every block either connects or is invalid, \<open>ActivateBestChain\<close> returns, every block of the new
  active chain connects, and no block that may be followed is better than the new tip.
\<close>

section \<open>Results in the option monad\<close>

text \<open>A loop that does not return is \<open>None\<close>.\<close>

definition obind :: "('e + 'a) option \<Rightarrow> ('a \<Rightarrow> ('e + 'b) option) \<Rightarrow> ('e + 'b) option" where
  "obind r f = Option.bind r (\<lambda>x. case x of Inl e \<Rightarrow> Some (Inl e) | Inr y \<Rightarrow> f y)"

lemma obind_simps [simp]: "obind (Some (Inl e)) f = Some (Inl e)" "obind (Some (Inr x)) f = f x" "obind None f = None"
  by (simp_all add: obind_def)

lemma obind_mono [partial_function_mono]:
  assumes "mono_option f" "\<And>y. mono_option (\<lambda>g. h y g)"
  shows "mono_option (\<lambda>g. obind (f g) (\<lambda>y. h y g))"
  unfolding obind_def
proof (rule bind_mono [OF assms(1)])
  show "mono_option (\<lambda>g. case x of Inl e \<Rightarrow> Some (Inl e) | Inr y \<Rightarrow> h y g)" for x
    by (cases x) (simp_all add: assms(2) option.const_mono)
qed

section \<open>One block\<close>

datatype connect_result = ConnectOk | ConnectInvalid bool | ConnectAbort

text \<open>What the model takes as given: the verdict of \<open>ConnectBlock\<close> with the reading of the block and the
  flush, whether a block can be disconnected, the position of its undo data, the final flush.
  The argument of \<open>ConnectInvalid\<close> is \<open>CorruptionPossible\<close>.\<close>

record act_env =
  node :: node_env
  verdict :: "block_ptr \<Rightarrow> connect_result"
  undo_ok :: "block_ptr \<Rightarrow> bool"
  undo_pos :: "block_ptr \<Rightarrow> u32"
  flush_ok :: bool
  ShutdownRequested :: bool

type_synonym 'a act_result = "(tree_error + 'a \<times> chainstate \<times> fork_state) option"

definition UpdateTip :: "act_env \<Rightarrow> block_ptr option \<Rightarrow> chainstate \<Rightarrow> fork_state \<Rightarrow> unit act_result" where
  "UpdateTip env pindexNew st w =
     (case SetTip (store st) pindexNew (chainActive st) of
        None \<Rightarrow> None
      | Some v \<Rightarrow>
          let st = st\<lparr>chainActive := v\<rparr> in
          if pindexNew = None then Some (Inl TreeNull)
          else Some (ebind (IsInitialBlockDownload (node env) st w) (\<lambda>(ibd, w). Inr ((), st, w))))"

definition DisconnectTip :: "act_env \<Rightarrow> chainstate \<Rightarrow> fork_state \<Rightarrow> bool act_result" where
  "DisconnectTip env st w =
     (case Tip (chainActive st) of
        None \<Rightarrow> Some (Inl TreeAssert)
      | Some pindexDelete \<Rightarrow>
          if \<not> undo_ok env pindexDelete then Some (Inr (False, st, w))
          else obind (UpdateTip env (pprev (store st pindexDelete)) st w) (\<lambda>(_, st, w). Some (Inr (True, st, w))))"

text \<open>The end of \<open>ConnectBlock\<close>: the position of the undo data and the validity of the block.  The genesis
  block returns before it.\<close>

definition connect_index :: "act_env \<Rightarrow> block_ptr \<Rightarrow> chainstate \<Rightarrow> tree_error + chainstate" where
  "connect_index env p st =
     (if pprev (store st p) = None then Inr st
      else ebind (is_valid (store st p) BLOCK_VALID_SCRIPTS) (\<lambda>v.
        if CDiskBlockPos_IsNull (GetUndoPos (store st p)) \<or> \<not> v then
          let st = (if CDiskBlockPos_IsNull (GetUndoPos (store st p))
                    then update_block p (\<lambda>b. b\<lparr>nUndoPos := undo_pos env p, nStatus := nStatus b OR BLOCK_HAVE_UNDO\<rparr>) st else st)
          in ebind (raise_validity p BLOCK_VALID_SCRIPTS st) (\<lambda>st. Inr (mark_dirty p st))
        else Inr st))"

definition ConnectTip :: "act_env \<Rightarrow> block_ptr \<Rightarrow> chainstate \<Rightarrow> fork_state \<Rightarrow> connect_result act_result" where
  "ConnectTip env pindexNew st w =
     (if pprev (store st pindexNew) \<noteq> Tip (chainActive st) then Some (Inl TreeAssert)
      else case verdict env pindexNew of
        ConnectAbort \<Rightarrow> Some (Inr (ConnectAbort, st, w))
      | ConnectInvalid corruptionPossible \<Rightarrow>
          Some (ebind (InvalidBlockFound (node env) corruptionPossible pindexNew st w) (\<lambda>(st, w). Inr (ConnectInvalid corruptionPossible, st, w)))
      | ConnectOk \<Rightarrow>
          obind (Some (connect_index env pindexNew st)) (\<lambda>st.
          obind (UpdateTip env (Some pindexNew) st w) (\<lambda>(_, st, w). Some (Inr (ConnectOk, st, w)))))"

section \<open>One step\<close>

partial_function (option) disconnect_loop :: "act_env \<Rightarrow> block_ptr option \<Rightarrow> bool \<Rightarrow> chainstate \<Rightarrow> fork_state \<Rightarrow> (bool \<times> bool) act_result" where
  [code]: "disconnect_loop env pindexFork fBlocksDisconnected st w =
     (if Tip (chainActive st) \<noteq> None \<and> Tip (chainActive st) \<noteq> pindexFork then
        obind (DisconnectTip env st w) (\<lambda>(ok, st, w).
          if \<not> ok then Some (Inr ((False, fBlocksDisconnected), st, w)) else disconnect_loop env pindexFork True st w)
      else Some (Inr ((True, fBlocksDisconnected), st, w)))"

text \<open>The blocks above height \<open>h\<close>, from \<open>pindexIter\<close> down.\<close>

partial_function (option) collect :: "block_store \<Rightarrow> int \<Rightarrow> block_ptr option \<Rightarrow> block_ptr list \<Rightarrow> block_ptr list option" where
  [code]: "collect S h pindexIter vp =
     (case pindexIter of
        None \<Rightarrow> Some vp
      | Some p \<Rightarrow> if int (nHeight (S p)) \<noteq> h then collect S h (pprev (S p)) (vp @ [p]) else Some vp)"

text \<open>How the connecting of a list of blocks ends: all connected, a tip with more work than the old one, a block that
  is invalid, or an error of the system.\<close>

datatype step_result = AllConnected | BetterTip | FoundInvalid | SystemError

fun connect_blocks :: "act_env \<Rightarrow> block_ptr \<Rightarrow> block_ptr option \<Rightarrow> block_ptr list \<Rightarrow> chainstate \<Rightarrow> fork_state \<Rightarrow> step_result act_result" where
  "connect_blocks env last_pushed pindexOldTip [] st w = Some (Inr (AllConnected, st, w))"
| "connect_blocks env last_pushed pindexOldTip (p # ps) st w =
     obind (ConnectTip env p st w) (\<lambda>(r, st, w).
       case r of
         ConnectAbort \<Rightarrow> Some (Inr (SystemError, st, w))
       | ConnectInvalid corruptionPossible \<Rightarrow>
           if \<not> corruptionPossible
           then Some (ebind (InvalidChainFound (node env) last_pushed st w) (\<lambda>(st, w). Inr (FoundInvalid, st, w)))
           else Some (Inr (FoundInvalid, st, w))
       | ConnectOk \<Rightarrow>
           obind (Some (PruneBlockIndexCandidates st)) (\<lambda>st.
             if (case pindexOldTip of
                   None \<Rightarrow> True
                 | Some old \<Rightarrow> (case Tip (chainActive st) of None \<Rightarrow> False
                     | Some tip \<Rightarrow> CompareTo (nChainWork (store st tip)) (nChainWork (store st old)) > 0))
             then Some (Inr (BetterTip, st, w))
             else connect_blocks env last_pushed pindexOldTip ps st w))"

partial_function (option) step_loop ::
    "act_env \<Rightarrow> block_ptr \<Rightarrow> block_ptr option \<Rightarrow> int \<Rightarrow> block_ptr list \<Rightarrow> chainstate \<Rightarrow> fork_state \<Rightarrow> (step_result \<times> block_ptr list) act_result" where
  [code]: "step_loop env pindexMostWork pindexOldTip height vpindexToConnect st w =
     (if height \<noteq> int (nHeight (store st pindexMostWork)) then
        let nTargetHeight = min (height + 32) (int (nHeight (store st pindexMostWork))) in
        obind (Some (from_chain (GetAncestor (store st) pindexMostWork nTargetHeight))) (\<lambda>pindexIter.
          case collect (store st) height pindexIter [] of
            None \<Rightarrow> None
          | Some vp \<Rightarrow>
              obind (connect_blocks env (last vp) pindexOldTip (rev vp) st w) (\<lambda>(r, st, w).
                if r = AllConnected then step_loop env pindexMostWork pindexOldTip nTargetHeight vp st w
                else Some (Inr ((r, vp), st, w))))
      else Some (Inr ((AllConnected, vpindexToConnect), st, w)))"

text \<open>The step returns whether it succeeded and whether it found an invalid block.\<close>

definition ActivateBestChainStep :: "act_env \<Rightarrow> block_ptr \<Rightarrow> chainstate \<Rightarrow> fork_state \<Rightarrow> (bool \<times> bool) act_result" where
  "ActivateBestChainStep env pindexMostWork st w =
     (let pindexOldTip = Tip (chainActive st) in
      case FindFork (store st) (chainActive st) (Some pindexMostWork) of
        None \<Rightarrow> None
      | Some fork \<Rightarrow>
          obind (Some (from_chain fork)) (\<lambda>pindexFork.
          obind (disconnect_loop env pindexFork False st w) (\<lambda>((ok, fBlocksDisconnected), st, w).
          if \<not> ok then Some (Inr ((False, False), st, w))
          else
            let height = (case pindexFork of None \<Rightarrow> - 1 | Some f \<Rightarrow> int (nHeight (store st f))) in
            obind (step_loop env pindexMostWork pindexOldTip height [] st w) (\<lambda>((r, vp), st, w).
            if r = SystemError then Some (Inr ((False, False), st, w))
            else if fBlocksDisconnected \<and> Tip (chainActive st) = None then Some (Inl TreeNull)
            else obind (if r = FoundInvalid then CheckForkWarningConditionsOnNewFork (node env) (last vp) st w
                        else Some (CheckForkWarningConditions (node env) st w)) (\<lambda>w.
              Some (Inr ((True, r = FoundInvalid), st, w)))))))"

section \<open>Activation\<close>

partial_function (option) activate_loop :: "act_env \<Rightarrow> block_ptr option \<Rightarrow> chainstate \<Rightarrow> fork_state \<Rightarrow> bool act_result" where
  [code]: "activate_loop env pindexMostWork st w =
     (if ShutdownRequested env then Some (Inr (flush_ok env, st, w))
      else obind (if pindexMostWork = None then FindMostWorkChain st else Some (Inr (pindexMostWork, st))) (\<lambda>(pindexMostWork, st).
        case pindexMostWork of
          None \<Rightarrow> Some (Inr (True, st, w))
        | Some m \<Rightarrow>
            if pindexMostWork = Tip (chainActive st) then Some (Inr (True, st, w))
            else obind (ActivateBestChainStep env m st w) (\<lambda>((ok, fInvalidFound), st, w).
              if \<not> ok then Some (Inr (False, st, w))
              else
                let pindexMostWork = (if fInvalidFound then None else pindexMostWork) in
                obind (Some (IsInitialBlockDownload (node env) st w)) (\<lambda>(fInitialDownload, w).
                if Tip (chainActive st) \<noteq> pindexMostWork then activate_loop env pindexMostWork st w
                else Some (Inr (flush_ok env, st, w))))))"

definition ActivateBestChain :: "act_env \<Rightarrow> chainstate \<Rightarrow> fork_state \<Rightarrow> bool act_result" where
  "ActivateBestChain env = activate_loop env None"

end
