(* ===== verification/Activate_Correct.thy ===== *)
theory Activate_Correct
  imports Activate
begin

unbundle bit_operations_syntax

text \<open>
  The correctness of \<open>ActivateBestChain\<close>: the walk over the steps of one activation, with the invariant that
  holds between them, the measure that makes the loop end, and the property of the tip that it leaves.
\<close>

section \<open>Changes of the status only\<close>

text \<open>Connecting a block changes the position of its undo data and its validity level.\<close>

definition quiet :: "chainstate \<Rightarrow> chainstate \<Rightarrow> bool" where
  "quiet st st' \<longleftrightarrow> mapBlockIndex st' = mapBlockIndex st \<and> mapBlocksUnlinked st' = mapBlocksUnlinked st \<and> pindexBestHeader st' = pindexBestHeader st \<and>
     (\<forall>x. core (store st' x) = core (store st x) \<and> nTx (store st' x) = nTx (store st x) \<and> nChainTx (store st' x) = nChainTx (store st x) \<and>
        nSequenceId (store st' x) = nSequenceId (store st x) \<and> failed (store st' x) = failed (store st x) \<and>
        has_data (store st' x) = has_data (store st x) \<and> nStatus (store st x) AND BLOCK_VALID_MASK \<le> nStatus (store st' x) AND BLOCK_VALID_MASK \<and>
        (x \<notin> blocks_of st \<longrightarrow> store st' x = store st x))"

lemma quiet_refl [simp]: "quiet st st"
  by (simp add: quiet_def)

lemma quiet_trans: "quiet st st' \<Longrightarrow> quiet st' st'' \<Longrightarrow> quiet st st''"
  unfolding quiet_def blocks_of_def by (elim conjE, intro conjI allI) ((drule_tac x = x in spec)+, auto)+

lemma quietD:
  assumes "quiet st st'"
  shows "mapBlockIndex st' = mapBlockIndex st" "mapBlocksUnlinked st' = mapBlocksUnlinked st" "pindexBestHeader st' = pindexBestHeader st"
    "pprev (store st' x) = pprev (store st x)" "nHeight (store st' x) = nHeight (store st x)" "nChainWork (store st' x) = nChainWork (store st x)"
    "nTx (store st' x) = nTx (store st x)" "nChainTx (store st' x) = nChainTx (store st x)" "nSequenceId (store st' x) = nSequenceId (store st x)"
    "failed (store st' x) = failed (store st x)" "has_data (store st' x) = has_data (store st x)"
    "nStatus (store st x) AND BLOCK_VALID_MASK \<le> nStatus (store st' x) AND BLOCK_VALID_MASK"
    "is_linked (store st') x = is_linked (store st) x" "tainted (store st') x = tainted (store st) x"
    "back_by (store st') n x = back_by (store st) n x" "is_ancestor (store st') a x = is_ancestor (store st) a x"
    "CBlockIndexWorkComparator (store st') = CBlockIndexWorkComparator (store st)" "blocks_of st' = blocks_of st"
    "chain_of (store st') x = chain_of (store st) x" "same_tree st st'"
proof -
  have e: "core (store st' x) = core (store st x)" "nTx (store st' x) = nTx (store st x)" "nChainTx (store st' x) = nChainTx (store st x)"
    "nSequenceId (store st' x) = nSequenceId (store st x)" "failed (store st' x) = failed (store st x)" "has_data (store st' x) = has_data (store st x)"
    "nStatus (store st x) AND BLOCK_VALID_MASK \<le> nStatus (store st' x) AND BLOCK_VALID_MASK" for x
    using assms unfolding quiet_def by blast+
  show i: "mapBlockIndex st' = mapBlockIndex st" "mapBlocksUnlinked st' = mapBlocksUnlinked st" "pindexBestHeader st' = pindexBestHeader st"
    using assms unfolding quiet_def by blast+
  have c: "pprev (store st' x) = pprev (store st x)" "nHeight (store st' x) = nHeight (store st x)" "nChainWork (store st' x) = nChainWork (store st x)" for x
    using e(1) [of x] by (simp_all add: core_def)
  show "pprev (store st' x) = pprev (store st x)" "nHeight (store st' x) = nHeight (store st x)" "nChainWork (store st' x) = nChainWork (store st x)" by (rule c)+
  show "nTx (store st' x) = nTx (store st x)" "nChainTx (store st' x) = nChainTx (store st x)" "nSequenceId (store st' x) = nSequenceId (store st x)"
    "failed (store st' x) = failed (store st x)" "has_data (store st' x) = has_data (store st x)"
    "nStatus (store st x) AND BLOCK_VALID_MASK \<le> nStatus (store st' x) AND BLOCK_VALID_MASK" by (rule e)+
  show "is_linked (store st') x = is_linked (store st) x" by (simp add: is_linked_def e(3))
  show "tainted (store st') x = tainted (store st) x" by (rule tainted_cong) (rule c(1), rule e(5))
  have walk: "back_by (store st') n x = back_by (store st) n x" for n x by (rule back_by_cong) (rule c(1))
  show "back_by (store st') n x = back_by (store st) n x" by (rule walk)
  show "is_ancestor (store st') a x = is_ancestor (store st) a x" by (simp add: is_ancestor_def walk)
  show "CBlockIndexWorkComparator (store st') = CBlockIndexWorkComparator (store st)" by (intro ext) (simp add: CBlockIndexWorkComparator_def c e(4))
  show "blocks_of st' = blocks_of st" by (simp add: blocks_of_def i)
  show "chain_of (store st') x = chain_of (store st) x" by (rule chain_of_cong) (rule walk, rule c(2))
  show "same_tree st st'" using e(1) i(1) assms unfolding same_tree_def quiet_def by blast
qed

lemma quiet_linking:
  assumes q: "quiet st st'" and ok: "linking [] st"
  shows "linking [] st'"
proof (rule linkingI)
  note e = quietD [OF q] and old = linkingD [OF ok]
  have txs: "chain_txs (store st') x = chain_txs (store st) x" for x by (rule chain_txs_cong) (rule e)+
  show "nTx (store st' x) \<noteq> 0 \<and> unat (nChainTx (store st' x)) = chain_txs (store st') x" if "is_linked (store st') x" for x
    using that old(1,2) [of x] by (simp add: e(7,8,13) txs)
  show "is_linked (store st') y" if "is_linked (store st') x" "pprev (store st' x) = Some y" for x y using that old(3) [of x y] by (simp add: e(4,13))
  show "has_data (store st' x)" if "nTx (store st' x) \<noteq> 0" for x using that old(4) [of x] by (simp add: e(7,11))
  show "x \<in> set [] \<or> (\<exists>y. pprev (store st' x) = Some y \<and> (failed (store st' y) \<or> (y, x) \<in> set (mapBlocksUnlinked st')))"
    if "nTx (store st' x) \<noteq> 0" "\<not> is_linked (store st') x" for x
    using that old(5) [of x] by (simp add: e(2,4,7,10,13))
  show "pprev (store st' x) = Some y \<and> nTx (store st' x) \<noteq> 0 \<and> \<not> is_linked (store st') x \<and> \<not> is_linked (store st') y \<and> x \<notin> set []"
    if "(y, x) \<in> set (mapBlocksUnlinked st')" for y x using that old(6) [of y x] by (simp add: e(2,4,7,13))
  show "nSequenceId (store st' x) \<le> 0" if "\<not> is_linked (store st') x" for x using that old(11) [of x] by (simp add: e(9,13))
qed (use linkingD(7) [OF ok] quietD(2) [OF q] in simp_all)

lemma quiet_tree_above:
  assumes inv: "tree_above F st" and q: "quiet st st'" and c: "cands_above F st \<Longrightarrow> cands_above F' st'"
  shows "tree_above F' st'"
proof -
  have "levels_ok st'" using inv quietD(12,18) [OF q] order.trans unfolding tree_above_def levels_ok_def by metis
  then show ?thesis using inv c quiet_linking [OF q] same_tree_index_ok [OF _ quietD(20) [OF q]] by (simp add: tree_above_def)
qed

lemma quiet_same_cands:
  assumes "quiet st st'" "setBlockIndexCandidates st' = setBlockIndexCandidates st" "cands_above F st"
  shows "cands_above F st'"
  using assms(3) by (simp add: cands_above_def quietD(13,14,17) [OF assms(1)] assms(2))

text \<open>The active chain may be replaced.\<close>

lemma tree_above_chain [simp]: "tree_above F (st\<lparr>chainActive := v\<rparr>) = tree_above F st"
  by (simp add: tree_above_def index_ok_def levels_ok_def linking_def cands_above_def blocks_of_def)

section \<open>The warnings return\<close>

definition forks_ok :: "fork_state \<Rightarrow> bool" where
  "forks_ok w \<longleftrightarrow> (pindexBestForkTip w \<noteq> None \<longrightarrow> pindexBestForkBase w \<noteq> None)"

lemma IsInitialBlockDownload_ok:
  assumes "pindexBestHeader st \<noteq> None" "forks_ok w"
  shows "\<exists>b w'. IsInitialBlockDownload env st w = Inr (b, w') \<and> forks_ok w'"
  using assms by (auto simp: IsInitialBlockDownload_def Let_def forks_ok_def split: option.split)

lemma CheckForkWarningConditions_ok:
  assumes "pindexBestHeader st \<noteq> None" "Tip (chainActive st) \<noteq> None" "forks_ok w"
  shows "\<exists>w'. CheckForkWarningConditions env st w = Inr w' \<and> forks_ok w'"
proof -
  obtain b w1 where w1: "IsInitialBlockDownload env st w = Inr (b, w1)" "forks_ok w1" using IsInitialBlockDownload_ok [OF assms(1,3)] by blast
  obtain t where t: "Tip (chainActive st) = Some t" using assms(2) by blast
  obtain wk where wk: "GetBlockProof (store st t) = Inr wk" using GetBlockProof_val [of "store st t"] by blast
  have "invalid_ahead st = Inr False \<or> (\<exists>i v. pindexBestInvalid st = Some i \<and> invalid_ahead st = Inr v)"
    by (cases "pindexBestInvalid st") (simp_all add: invalid_ahead_def t wk from_pow_def)
  then show ?thesis using w1 by (auto simp: CheckForkWarningConditions_def Let_def forks_ok_def split: option.splits if_splits)
qed

lemma lower_to_returns:
  assumes "block_tree S"
  shows "\<exists>r. lower_to S h (Some p) = Some r"
proof (induction "nHeight (S p)" arbitrary: p rule: less_induct)
  case less
  have none: "lower_to S h None = Some None" by (subst lower_to.simps) simp
  show ?case
  proof (cases "pprev (S p)")
    case None
    then show ?thesis using none by (subst lower_to.simps) simp
  next
    case (Some q)
    then show ?thesis using less [of q] block_tree_parent [OF assms Some] by (subst lower_to.simps) simp
  qed
qed

lemma fork_base_returns:
  assumes "block_tree S"
  shows "\<exists>r. fork_base S (Some f) pl = Some r"
proof (induction "nHeight (S f)" arbitrary: f pl rule: less_induct)
  case less
  have none: "fork_base S None pl = Some None" "lower_to S h None = Some None" for pl h by (subst fork_base.simps, simp) (subst lower_to.simps, simp)
  obtain l where l: "lower_to S (nHeight (S f)) pl = Some l" using lower_to_returns [OF assms] none(2) by (cases pl) blast+
  show ?case
  proof (cases "pprev (S f)")
    case None
    then show ?thesis using none(1) l by (subst fork_base.simps) simp
  next
    case (Some q)
    then show ?thesis using less [of q l] block_tree_parent [OF assms Some] l by (subst fork_base.simps) simp
  qed
qed

lemma CheckForkWarningConditionsOnNewFork_ok:
  assumes "block_tree (store st)" "pindexBestHeader st \<noteq> None" "Tip (chainActive st) \<noteq> None" "forks_ok w"
  shows "\<exists>w'. CheckForkWarningConditionsOnNewFork env p st w = Some (Inr w') \<and> forks_ok w'"
proof -
  obtain r where r: "fork_base (store st) (Some p) (Tip (chainActive st)) = Some r" using fork_base_returns [OF assms(1)] by blast
  have check: "\<exists>w''. CheckForkWarningConditions env st w' = Inr w'' \<and> forks_ok w''" if "forks_ok w'" for w'
    using CheckForkWarningConditions_ok [OF assms(2,3) that] .
  show ?thesis
  proof (cases r)
    case None
    then show ?thesis using r check [OF assms(4)] by (simp add: CheckForkWarningConditionsOnNewFork_def)
  next
    case (Some f)
    obtain wk where "GetBlockProof (store st f) = Inr wk" using GetBlockProof_val [of "store st f"] by blast
    moreover have "forks_ok (w\<lparr>pindexBestForkTip := Some p, pindexBestForkBase := Some f\<rparr>)" by (simp add: forks_ok_def)
    ultimately show ?thesis using r Some check [OF assms(4)] check
      by (auto simp: CheckForkWarningConditionsOnNewFork_def from_pow_def split: option.split)
  qed
qed

lemma InvalidChainFound_ok:
  assumes "pindexBestHeader st \<noteq> None" "Tip (chainActive st) \<noteq> None" "forks_ok w"
  shows "\<exists>st' w'. InvalidChainFound env p st w = Inr (st', w') \<and> forks_ok w'"
proof -
  define st1 where "st1 = (case pindexBestInvalid st of
                  None \<Rightarrow> st\<lparr>pindexBestInvalid := Some p\<rparr>
                | Some i \<Rightarrow> if CompareTo (nChainWork (store st p)) (nChainWork (store st i)) > 0 then st\<lparr>pindexBestInvalid := Some p\<rparr> else st)"
  have "pindexBestHeader st1 \<noteq> None" "Tip (chainActive st1) \<noteq> None" using assms(1,2) by (auto simp: st1_def split: option.split)
  from CheckForkWarningConditions_ok [OF this assms(3), of env] obtain w' where "CheckForkWarningConditions env st1 w = Inr w'" "forks_ok w'" by blast
  then show ?thesis using \<open>Tip (chainActive st1) \<noteq> None\<close> unfolding InvalidChainFound_def Let_def st1_def [symmetric] by auto
qed

section \<open>Connecting a block in the index\<close>

lemma status_connected:
  "((s :: u32) AND NOT BLOCK_VALID_MASK OR BLOCK_VALID_SCRIPTS) AND BLOCK_FAILED_MASK = s AND BLOCK_FAILED_MASK"
  "(s AND NOT BLOCK_VALID_MASK OR BLOCK_VALID_SCRIPTS) AND BLOCK_HAVE_DATA = s AND BLOCK_HAVE_DATA"
  "(s AND NOT BLOCK_VALID_MASK OR BLOCK_VALID_SCRIPTS) AND BLOCK_VALID_MASK = BLOCK_VALID_SCRIPTS"
  "(s OR BLOCK_HAVE_UNDO) AND BLOCK_FAILED_MASK = s AND BLOCK_FAILED_MASK" "(s OR BLOCK_HAVE_UNDO) AND BLOCK_HAVE_DATA = s AND BLOCK_HAVE_DATA"
  "(s OR BLOCK_HAVE_UNDO) AND BLOCK_VALID_MASK = s AND BLOCK_VALID_MASK"
  by (simp_all add: block_status_defs word_ao_dist and.assoc)

lemma quiet_update:
  assumes "p \<in> blocks_of st" "core (f (store st p)) = core (store st p)" "nTx (f (store st p)) = nTx (store st p)"
    "nChainTx (f (store st p)) = nChainTx (store st p)" "nSequenceId (f (store st p)) = nSequenceId (store st p)"
    "nStatus (f (store st p)) AND BLOCK_FAILED_MASK = nStatus (store st p) AND BLOCK_FAILED_MASK"
    "nStatus (f (store st p)) AND BLOCK_HAVE_DATA = nStatus (store st p) AND BLOCK_HAVE_DATA"
    "nStatus (store st p) AND BLOCK_VALID_MASK \<le> nStatus (f (store st p)) AND BLOCK_VALID_MASK"
  shows "quiet st (update_block p f st)"
  using assms by (auto simp: quiet_def failed_def has_data_def)

lemma raise_scripts:
  assumes "p \<in> blocks_of st"
  shows "\<exists>f. raise_validity p BLOCK_VALID_SCRIPTS st = Inr (update_block p f st) \<and> quiet st (update_block p f st)"
proof -
  have scripts: "BLOCK_VALID_SCRIPTS AND NOT BLOCK_VALID_MASK = 0" by (simp add: block_status_defs)
  let ?b = "store st p"
  have id: "quiet st (update_block p (\<lambda>_. ?b) st)" by (rule quiet_update [OF assms]) simp_all
  have up: "quiet st (update_block p (\<lambda>_. ?b\<lparr>nStatus := (nStatus ?b AND NOT BLOCK_VALID_MASK) OR BLOCK_VALID_SCRIPTS\<rparr>) st)"
    if "nStatus ?b AND BLOCK_VALID_MASK < BLOCK_VALID_SCRIPTS"
    by (rule quiet_update [OF assms]) (use that in \<open>simp_all add: status_connected core_def\<close>)
  show ?thesis using id up by (auto simp: raise_validity_def RaiseValidity_def scripts)
qed

lemma connect_index_quiet:
  assumes "p \<in> blocks_of st"
  shows "\<exists>st'. connect_index env p st = Inr st' \<and> quiet st st' \<and> setBlockIndexCandidates st' = setBlockIndexCandidates st \<and> chainActive st' = chainActive st"
proof -
  have scripts: "BLOCK_VALID_SCRIPTS AND NOT BLOCK_VALID_MASK = 0" by (simp add: block_status_defs)
  obtain v where v: "is_valid (store st p) BLOCK_VALID_SCRIPTS = Inr v"
    by (cases "failed (store st p)") (auto simp: is_valid_def IsValid_def scripts failed_def)
  define st1 where "st1 = (if CDiskBlockPos_IsNull (GetUndoPos (store st p))
                    then update_block p (\<lambda>b. b\<lparr>nUndoPos := undo_pos env p, nStatus := nStatus b OR BLOCK_HAVE_UNDO\<rparr>) st else st)"
  have q1: "quiet st st1" unfolding st1_def by (auto intro!: quiet_update simp: assms status_connected core_def)
  have e1: "setBlockIndexCandidates st1 = setBlockIndexCandidates st" "chainActive st1 = chainActive st" by (simp_all add: st1_def)
  have "p \<in> blocks_of st1" using assms quietD(18) [OF q1] by simp
  from raise_scripts [OF this] obtain f where f: "raise_validity p BLOCK_VALID_SCRIPTS st1 = Inr (update_block p f st1)" "quiet st1 (update_block p f st1)" by blast
  have "quiet (update_block p f st1) (mark_dirty p (update_block p f st1))" by (simp add: quiet_def mark_dirty_def)
  then have "quiet st (mark_dirty p (update_block p f st1))" using quiet_trans q1 f(2) by blast
  then show ?thesis using v f(1) e1 unfolding connect_index_def st1_def [symmetric] Let_def by (auto simp: mark_dirty_def)
qed

section \<open>The invariant between the steps\<close>

text \<open>A block whose chain connects up to it.\<close>

definition connects :: "act_env \<Rightarrow> block_store \<Rightarrow> block_ptr \<Rightarrow> bool" where
  "connects env S p \<longleftrightarrow> (\<forall>x. is_ancestor S x p \<longrightarrow> verdict env x = ConnectOk)"

definition work_grows :: "block_store \<Rightarrow> bool" where
  "work_grows S \<longleftrightarrow> (\<forall>p q. pprev (S p) = Some q \<longrightarrow> nval (nChainWork (S q)) < nval (nChainWork (S p)))"

definition one_root :: "chainstate \<Rightarrow> bool" where
  "one_root st \<longleftrightarrow> (\<forall>p \<in> blocks_of st. \<forall>q \<in> blocks_of st. pprev (store st p) = None \<longrightarrow> pprev (store st q) = None \<longrightarrow> p = q)"

text \<open>The block \<open>f\<close> is the best tip so far: the candidates are complete above it.\<close>

definition act_inv :: "act_env \<Rightarrow> block_ptr \<Rightarrow> chainstate \<Rightarrow> fork_state \<Rightarrow> bool" where
  "act_inv env f st w \<longleftrightarrow> chain_above (Some f) st \<and> (\<exists>t. Tip (chainActive st) = Some t \<and> connects env (store st) t) \<and>
     connects env (store st) f \<and> \<not> tainted (store st) f \<and> pindexBestHeader st \<noteq> None \<and> forks_ok w \<and> work_grows (store st) \<and> one_root st"

text \<open>A block that no block that may be followed beats.\<close>

definition unbeaten :: "chainstate \<Rightarrow> block_ptr \<Rightarrow> bool" where
  "unbeaten st m \<longleftrightarrow> is_linked (store st) m \<and> \<not> tainted (store st) m \<and>
     (\<forall>x. is_linked (store st) x \<longrightarrow> \<not> tainted (store st) x \<longrightarrow> \<not> CBlockIndexWorkComparator (store st) m x)"

lemma quiet_top: "quiet st st' \<Longrightarrow> unbeaten st' m = unbeaten st m"
  by (simp add: unbeaten_def quietD(13,14,17))

lemma connects_ancestor: "connects env S p \<Longrightarrow> is_ancestor S x p \<Longrightarrow> connects env S x"
  using is_ancestor_trans unfolding connects_def by blast

lemma connects_step: "connects env S a \<Longrightarrow> pprev (S p) = Some a \<Longrightarrow> verdict env p = ConnectOk \<Longrightarrow> connects env S p"
  unfolding connects_def is_ancestor_def by (subst ex_nat_split) auto

lemma not_tainted_ancestor: "\<not> tainted S p \<Longrightarrow> is_ancestor S x p \<Longrightarrow> \<not> tainted S x"
  using is_ancestor_trans unfolding tainted_def by blast

lemma work_grows_ancestor: "work_grows S \<Longrightarrow> is_ancestor S x p \<Longrightarrow> x = p \<or> nval (nChainWork (S x)) < nval (nChainWork (S p))"
proof -
  assume g: "work_grows S"
  have "x = p \<or> nval (nChainWork (S x)) < nval (nChainWork (S p))" if "back_by S n p = Some x" for n
    using that
  proof (induction n arbitrary: p)
    case (Suc n)
    then obtain q where q: "pprev (S p) = Some q" "back_by S n q = Some x" by (auto split: option.splits)
    then have "nval (nChainWork (S q)) < nval (nChainWork (S p))" using g by (simp add: work_grows_def)
    then show ?case using Suc.IH [OF q(2)] by auto
  qed simp
  then show "is_ancestor S x p \<Longrightarrow> ?thesis" by (auto simp: is_ancestor_def)
qed

lemma act_invD:
  assumes "act_inv env f st w"
  shows "chain_above (Some f) st" "tree_above (Some f) st" "index_ok st" "linking [] st" "cands_above (Some f) st" "block_tree (store st)" "skips_ok (store st)"
    "wf_works (store st)" "is_linked (store st) f" "connects env (store st) f" "\<not> tainted (store st) f" "pindexBestHeader st \<noteq> None" "forks_ok w"
    "work_grows (store st)" "one_root st" "Tip (chainActive st) \<noteq> None"
proof -
  show c: "chain_above (Some f) st" using assms by (simp add: act_inv_def)
  then show t: "tree_above (Some f) st" by (simp add: chain_above_def)
  then show i: "index_ok st" "linking [] st" "cands_above (Some f) st" by (simp_all add: tree_above_def)
  show "block_tree (store st)" "skips_ok (store st)" "wf_works (store st)" using index_okD(7,8,10) [OF i(1)] by (simp_all add: wf_works_def)
  show "is_linked (store st) f" using cands_okD(3) [OF i(3)] by simp
qed (use assms in \<open>auto simp: act_inv_def\<close>)

lemma act_inv_tip:
  assumes "act_inv env f st w" "Tip (chainActive st) = Some t"
  shows "chainActive st = chain_of (store st) t" "is_linked (store st) t" "\<not> tainted (store st) t" "connects env (store st) t" "is_chain (store st) (chainActive st)"
proof -
  from act_invD(1) [OF assms(1)] obtain u where u: "chainActive st = chain_of (store st) u" "is_linked (store st) u" "\<not> tainted (store st) u"
    by (cases rule: chain_invE) (use assms(2) in \<open>auto simp: Tip_def\<close>)
  then have "u = t" using assms(2) by simp
  then show "chainActive st = chain_of (store st) t" "is_linked (store st) t" "\<not> tainted (store st) t" "is_chain (store st) (chainActive st)"
    using u by (auto simp: is_chain_def)
  show "connects env (store st) t" using assms by (auto simp: act_inv_def)
qed

lemma top_ancestor:
  assumes "act_inv env f st w" "unbeaten st m" "is_ancestor (store st) x m"
  shows "is_linked (store st) x" "\<not> tainted (store st) x" "\<not> CBlockIndexWorkComparator (store st) m x"
    "m \<in> set (setBlockIndexCandidates st)" "x \<in> blocks_of st"
proof -
  note i = act_invD [OF assms(1)]
  have m: "is_linked (store st) m" "\<not> tainted (store st) m" "\<not> CBlockIndexWorkComparator (store st) m f" using assms(2) i(9,11) by (simp_all add: unbeaten_def)
  show l: "is_linked (store st) x" using assms(3) linked_ancestor [OF i(4) m(1)] by (auto simp: is_ancestor_def)
  show "\<not> tainted (store st) x" by (rule not_tainted_ancestor [OF m(2) assms(3)])
  show "\<not> CBlockIndexWorkComparator (store st) m x" using work_grows_ancestor [OF i(14) assms(3)] by (auto simp: work_less_iff [OF i(8)])
  show "m \<in> set (setBlockIndexCandidates st)" using cands_okD(4) [OF i(5) m(1,2)] m(3) by simp
  show "x \<in> blocks_of st" by (rule linked_in_index [OF i(2) l])
qed

section \<open>The tip moves\<close>

lemma UpdateTip_ok:
  assumes "block_tree (store st)" "is_chain (store st) (chainActive st)" "pindexBestHeader st \<noteq> None" "forks_ok w"
  shows "\<exists>w'. UpdateTip env (Some p) st w = Some (Inr ((), st\<lparr>chainActive := chain_of (store st) p\<rparr>, w')) \<and> forks_ok w'"
proof -
  let ?st = "st\<lparr>chainActive := chain_of (store st) p\<rparr>"
  obtain b w' where "IsInitialBlockDownload (node env) ?st w = Inr (b, w')" "forks_ok w'"
    using IsInitialBlockDownload_ok [of ?st w "node env"] assms(3,4) by auto
  then show ?thesis using SetTip_result [OF assms(1,2), of p] by (simp add: UpdateTip_def)
qed

lemma disconnect_loop_ok:
  assumes tree: "block_tree (store st)" and undo: "\<And>p. undo_ok env p"
  shows "back_by (store st) n t = Some k \<Longrightarrow> pindexBestHeader st \<noteq> None \<Longrightarrow> forks_ok w \<Longrightarrow> chainActive st = chain_of (store st) t \<Longrightarrow>
    \<exists>b' w'. disconnect_loop env (Some k) b st w = Some (Inr ((True, b'), st\<lparr>chainActive := chain_of (store st) k\<rparr>, w')) \<and> forks_ok w'"
  using tree
proof (induction n arbitrary: t st w b)
  case 0
  then have "st\<lparr>chainActive := chain_of (store st) k\<rparr> = st" by (cases st) simp
  then show ?case using 0 by (subst disconnect_loop.simps) simp
next
  case (Suc n)
  then obtain q where q: "pprev (store st t) = Some q" "back_by (store st) n q = Some k" by (auto split: option.splits)
  have "nHeight (store st k) < nHeight (store st t)" using back_by_Some_height [OF Suc.prems(5) q(2)] block_tree_parent [OF Suc.prems(5) q(1)] by simp
  then have ne: "t \<noteq> k" by auto
  let ?st = "st\<lparr>chainActive := chain_of (store st) q\<rparr>"
  obtain w1 where w1: "UpdateTip env (Some q) st w = Some (Inr ((), ?st, w1))" "forks_ok w1"
    using UpdateTip_ok [OF Suc.prems(5) _ Suc.prems(2,3), of env q] Suc.prems(4) by (auto simp: is_chain_def)
  then have d: "DisconnectTip env st w = Some (Inr (True, ?st, w1))" using Suc.prems(4) q(1) undo by (simp add: DisconnectTip_def)
  obtain b' w' where "disconnect_loop env (Some k) True ?st w1 = Some (Inr ((True, b'), ?st\<lparr>chainActive := chain_of (store ?st) k\<rparr>, w'))" "forks_ok w'"
    using Suc.IH [of ?st q w1 True] q(2) w1(2) Suc.prems(2,5) by auto
  then show ?case using d ne Suc.prems(4) by (subst disconnect_loop.simps) simp
qed

lemma tip_change:
  assumes "act_inv env f st w" "is_linked (store st) t" "\<not> tainted (store st) t" "connects env (store st) t" "forks_ok w'"
  shows "act_inv env f (st\<lparr>chainActive := chain_of (store st) t\<rparr>) w'"
  using assms by (auto simp: act_inv_def chain_above_def one_root_def blocks_of_def)

lemma prune_ok:
  assumes inv: "tree_above (Some f) st" and x: "Tip (chainActive st) = Some x" "is_linked (store st) x"
    and m: "m \<in> set (setBlockIndexCandidates st)" "\<not> CBlockIndexWorkComparator (store st) m x"
  shows "\<exists>cs. PruneBlockIndexCandidates st = Inr (st\<lparr>setBlockIndexCandidates := cs\<rparr>) \<and>
    tree_above (Some (if CBlockIndexWorkComparator (store st) f x then x else f)) (st\<lparr>setBlockIndexCandidates := cs\<rparr>)"
proof -
  let ?lt = "CBlockIndexWorkComparator (store st)" and ?f = "if CBlockIndexWorkComparator (store st) f x then x else f"
  have works: "wf_works (store st)" and ok: "cands_above (Some f) st" using inv index_okD(10) [of st] by (simp_all add: tree_above_def wf_works_def)
  note ord = work_set_order [OF works]
  define cs where "cs = dropWhile (\<lambda>c. ?lt c x) (setBlockIndexCandidates st)"
  have cs: "set cs = {c \<in> set (setBlockIndexCandidates st). \<not> ?lt c x}" "sorted_wrt ?lt cs"
    using set_order.set_dropWhile_worse [OF ord cands_okD(1) [OF ok]] set_order.sorted_dropWhile [OF ord cands_okD(1) [OF ok]] by (simp_all add: cs_def)
  have ne: "cs \<noteq> []" using m cs(1) by auto
  have mem: "p \<in> set cs" if "is_linked (store st) p" "\<not> tainted (store st) p" "\<not> ?lt p ?f" for p
  proof -
    have "\<not> ?lt p f" "\<not> ?lt p x" using that(3) work_trans [OF works, of p f x] work_trans [OF works, of p x f] work_total [OF works, of f x] by (auto split: if_splits)
    then show ?thesis using cands_okD(4) [OF ok that(1,2)] cs(1) by simp
  qed
  have "cands_above (Some ?f) (st\<lparr>setBlockIndexCandidates := cs\<rparr>)"
    using cs mem cands_okD(2) [OF ok] cands_okD(3) [OF ok, of f] x(2) by (simp add: cands_above_def)
  moreover have "quiet st (st\<lparr>setBlockIndexCandidates := cs\<rparr>)" by (simp add: quiet_def)
  ultimately have "tree_above (Some ?f) (st\<lparr>setBlockIndexCandidates := cs\<rparr>)" using quiet_tree_above [OF inv] by blast
  then show ?thesis using ne x(1) by (auto simp: PruneBlockIndexCandidates_def Let_def cs_def)
qed

lemma connects_quiet: "quiet st st' \<Longrightarrow> connects env (store st') p = connects env (store st) p"
  by (simp add: connects_def quietD(16))

text \<open>A block that connects becomes the tip, and the candidates that it beats are dropped.\<close>

lemma connect_tip_ok:
  assumes inv: "act_inv env f st w" and m: "unbeaten st m" "is_ancestor (store st) p m"
    and p: "pprev (store st p) = Tip (chainActive st)" "verdict env p = ConnectOk"
  shows "\<exists>st1 st2 w' f'. ConnectTip env p st w = Some (Inr (ConnectOk, st1, w')) \<and> PruneBlockIndexCandidates st1 = Inr st2 \<and>
    act_inv env f' st2 w' \<and> quiet st st2 \<and> Tip (chainActive st2) = Some p"
proof -
  note i = act_invD [OF inv] and a = top_ancestor [OF inv m]
  obtain t where t: "Tip (chainActive st) = Some t" using i(16) by blast
  note tip = act_inv_tip [OF inv t]
  from connect_index_quiet [OF a(5), of env] obtain st0 where
    st0: "connect_index env p st = Inr st0" "quiet st st0" "setBlockIndexCandidates st0 = setBlockIndexCandidates st" "chainActive st0 = chainActive st" by blast
  note q = quietD [OF st0(2)]
  let ?st1 = "st0\<lparr>chainActive := chain_of (store st0) p\<rparr>" and ?lt = "CBlockIndexWorkComparator (store st)"
  have "block_tree (store st0)" using i(6) same_treeD(13) [OF q(20)] by simp
  moreover have "is_chain (store st0) (chainActive st0)" using tip(1) st0(4) q(19) by (auto simp: is_chain_def)
  ultimately obtain w' where w': "UpdateTip env (Some p) st0 w = Some (Inr ((), ?st1, w'))" "forks_ok w'"
    using UpdateTip_ok [of st0 w env p] i(12,13) q(3) by auto
  have "tree_above (Some f) st0" using quiet_tree_above [OF i(2) st0(2)] quiet_same_cands [OF st0(2,3)] by blast
  then have "tree_above (Some f) ?st1" by simp
  then obtain cs where cs: "PruneBlockIndexCandidates ?st1 = Inr (?st1\<lparr>setBlockIndexCandidates := cs\<rparr>)"
      "tree_above (Some (if ?lt f p then p else f)) (?st1\<lparr>setBlockIndexCandidates := cs\<rparr>)"
    using prune_ok [of f ?st1 p m] a(1,3,4) by (auto simp: q(13,17) st0(3))
  let ?st2 = "?st1\<lparr>setBlockIndexCandidates := cs\<rparr>"
  have q2: "quiet st ?st2" using st0(2) by (simp add: quiet_def)
  have c: "connects env (store st) p" using connects_step [OF tip(4), of p] p t by simp
  have "act_inv env (if ?lt f p then p else f) ?st2 w'"
    using cs(2) a(1,2) c w'(2) i(10-15) quietD(4-6,13,14,16) [OF q2]
    by (auto simp: act_inv_def chain_above_def connects_quiet [OF st0(2)] q(3,14,13) work_grows_def one_root_def blocks_of_def q(1))
  then show ?thesis using st0(1) w'(1) p cs(1) q2 by (auto simp: ConnectTip_def)
qed

section \<open>What an activation changes\<close>

text \<open>Blocks are marked as failed only if their chain does not connect or had a failed block before.\<close>

definition follows :: "act_env \<Rightarrow> chainstate \<Rightarrow> chainstate \<Rightarrow> bool" where
  "follows env st st' \<longleftrightarrow> same_tree st st' \<and> CBlockIndexWorkComparator (store st') = CBlockIndexWorkComparator (store st) \<and>
     (\<forall>x. is_linked (store st') x = is_linked (store st) x \<and> (failed (store st x) \<longrightarrow> failed (store st' x)) \<and>
        (tainted (store st') x \<longrightarrow> tainted (store st) x \<or> \<not> connects env (store st) x))"

lemma followsD:
  assumes "follows env st st'"
  shows "same_tree st st'" "CBlockIndexWorkComparator (store st') = CBlockIndexWorkComparator (store st)" "is_linked (store st') x = is_linked (store st) x"
    "failed (store st x) \<Longrightarrow> failed (store st' x)" "tainted (store st') x \<Longrightarrow> \<not> tainted (store st) x \<Longrightarrow> \<not> connects env (store st) x"
    "connects env (store st') x = connects env (store st) x" "is_ancestor (store st') y x = is_ancestor (store st) y x" "blocks_of st' = blocks_of st"
proof -
  show s: "same_tree st st'" using assms by (simp add: follows_def)
  show "connects env (store st') x = connects env (store st) x" by (simp only: connects_def same_treeD(12) [OF s])
  show "is_ancestor (store st') y x = is_ancestor (store st) y x" "blocks_of st' = blocks_of st" by (rule same_treeD [OF s])+
  show "failed (store st x) \<Longrightarrow> failed (store st' x)" "tainted (store st') x \<Longrightarrow> \<not> tainted (store st) x \<Longrightarrow> \<not> connects env (store st) x"
    "is_linked (store st') x = is_linked (store st) x" "CBlockIndexWorkComparator (store st') = CBlockIndexWorkComparator (store st)"
    using assms unfolding follows_def by blast+
qed

lemma quiet_follows: "quiet st st' \<Longrightarrow> follows env st st'"
  using quietD(10,13,14,17,20) [of st st'] by (simp add: follows_def)

lemma follows_trans:
  assumes "follows env st st1" "follows env st1 st2"
  shows "follows env st st2"
proof -
  note a = followsD [OF assms(1)] and b = followsD [OF assms(2)]
  have "tainted (store st2) x \<longrightarrow> tainted (store st) x \<or> \<not> connects env (store st) x" for x using a(5,6) [of x] b(5) [of x] by blast
  then show ?thesis using same_tree_trans [OF a(1) b(1)] a(2-4) b(2-4) by (simp add: follows_def)
qed

text \<open>The number of blocks not marked as failed.\<close>

definition unfailed :: "chainstate \<Rightarrow> nat" where
  "unfailed st = card {x \<in> blocks_of st. \<not> failed (store st x)}"

lemma finite_blocks_of [simp]: "finite (blocks_of st)"
  by (simp add: blocks_of_def)

lemma unfailed_le: "follows env st st' \<Longrightarrow> unfailed st' \<le> unfailed st"
proof (unfold unfailed_def, rule card_mono)
  assume "follows env st st'"
  then show "{x \<in> blocks_of st'. \<not> failed (store st' x)} \<subseteq> {x \<in> blocks_of st. \<not> failed (store st x)}" using followsD(4,8) by blast
qed simp

lemma unfailed_less:
  assumes "follows env st st'" "p \<in> blocks_of st" "\<not> failed (store st p)" "failed (store st' p)"
  shows "unfailed st' < unfailed st"
  unfolding unfailed_def
proof (rule psubset_card_mono)
  show "{x \<in> blocks_of st'. \<not> failed (store st' x)} \<subset> {x \<in> blocks_of st. \<not> failed (store st x)}"
    using assms(2-4) followsD(4) [OF assms(1)] unfolding followsD(8) [OF assms(1)] by blast
qed simp

lemma best_invalid_quiet: "quiet st (st\<lparr>pindexBestInvalid := v\<rparr>)"
  by (simp add: quiet_def)

lemma act_inv_best_invalid: "act_inv env f st w \<Longrightarrow> forks_ok w' \<Longrightarrow> act_inv env f (st\<lparr>pindexBestInvalid := v\<rparr>) w'"
proof -
  have "tree_above (Some f) (st\<lparr>pindexBestInvalid := v\<rparr>)" if "tree_above (Some f) st"
    using quiet_tree_above [OF that best_invalid_quiet] quiet_same_cands [OF best_invalid_quiet, of v st] by simp
  then show "act_inv env f st w \<Longrightarrow> forks_ok w' \<Longrightarrow> ?thesis" by (auto simp: act_inv_def chain_above_def one_root_def blocks_of_def)
qed

text \<open>The forks of the warnings after marks.\<close>

lemma act_inv_marks:
  assumes inv: "act_inv env f st w" and m: "marks k D st st'" and new: "tree_above (Some f) st'" and w: "forks_ok w'"
    and D: "\<And>x. x \<in> D \<Longrightarrow> tainted (store st) x \<or> verdict env x \<noteq> ConnectOk" and Db: "D \<subseteq> blocks_of st"
  shows "act_inv env f st' w' \<and> follows env st st'"
proof -
  note i = act_invD [OF inv] and e = marksD [OF m]
  have tr: "same_tree st st'" using Db e(18) by (auto simp: same_tree_def e(1,10))
  note s = same_treeD [OF tr]
  obtain t where t: "Tip (chainActive st) = Some t" using i(16) by blast
  note tip = act_inv_tip [OF inv t]
  have taint: "\<not> connects env (store st) x" if tt: "tainted (store st') x" "\<not> tainted (store st) x" for x
  proof -
    obtain y where y: "is_ancestor (store st) y x" "failed (store st' y)" using tt(1) unfolding tainted_def s(12) by blast
    moreover have "\<not> tainted (store st) y" by (rule not_tainted_ancestor [OF tt(2) y(1)])
    ultimately have "y \<in> D" using e(14) [of y] is_ancestor_refl by (auto simp: tainted_def)
    then show ?thesis using D [of y] \<open>\<not> tainted (store st) y\<close> y(1) by (auto simp: connects_def)
  qed
  have fol: "follows env st st'" unfolding follows_def e(15,17) using tr e(13) taint by blast
  have "chain_above (Some f) st'"
  proof (rule marks_chain_inv [OF i(1) m new])
    fix t' x assume "Tip (chainActive st) = Some t'" "x \<in> D" "\<not> tainted (store st) t'"
    then show "\<not> is_ancestor (store st) x t'" using D [of x] tip(4) t not_tainted_ancestor [of "store st" t' x] by (auto simp: connects_def)
  qed
  moreover have "\<not> tainted (store st') f" using taint [of f] i(10,11) by blast
  moreover have "work_grows (store st')" using i(14) unfolding work_grows_def s(2,8) .
  moreover have "one_root st'" using i(15) unfolding one_root_def s(2,10) .
  ultimately show ?thesis using fol t tip(4) i(10,12) w by (simp add: act_inv_def followsD(6) [OF fol] e(2,19))
qed

lemma connect_tip_invalid:
  assumes inv: "act_inv env f st w" and m: "unbeaten st m" "is_ancestor (store st) p m"
    and p: "pprev (store st p) = Tip (chainActive st)" "verdict env p = ConnectInvalid False"
  shows "\<exists>st1 w1 st2 w'. ConnectTip env p st w = Some (Inr (ConnectInvalid False, st1, w1)) \<and>
    InvalidChainFound (node env) l st1 w1 = Inr (st2, w') \<and> act_inv env f st2 w' \<and> follows env st st2 \<and>
    p \<in> blocks_of st \<and> \<not> failed (store st p) \<and> failed (store st2 p)"
proof -
  note i = act_invD [OF inv] and a = top_ancestor [OF inv m]
  have "\<exists>st1 w1. InvalidBlockFound (node env) False p st w = Inr (st1, w1) \<and> forks_ok w1"
    unfolding InvalidBlockFound_def using InvalidChainFound_ok [of _ w "node env" p] i(12,13,16) by (simp add: mark_dirty_def)
  then obtain st1 w1 where st1: "InvalidBlockFound (node env) False p st w = Inr (st1, w1)" "forks_ok w1" by blast
  from InvalidBlockFound_marks [OF i(2) a(5) st1(1)]
  have mk: "tree_above (Some f) st1" "marks BLOCK_FAILED_VALID {p} st st1" "failed (store st1 p)" by simp_all
  have inv1: "act_inv env f st1 w1 \<and> follows env st st1" by (rule act_inv_marks [OF inv mk(2,1) st1(2)]) (use p(2) a(5) in auto)
  note i1 = act_invD [OF conjunct1 [OF inv1]]
  obtain st2 w' where st2: "InvalidChainFound (node env) l st1 w1 = Inr (st2, w')" "forks_ok w'" using InvalidChainFound_ok [OF i1(12,16,13)] by blast
  have "act_inv env f st1 w'" using inv1 st2(2) by (simp add: act_inv_def)
  moreover have "st2 = st1 \<or> st2 = st1\<lparr>pindexBestInvalid := Some l\<rparr>" by (rule InvalidChainFound_eq [OF st2(1)])
  ultimately have "act_inv env f st2 w'" "follows env st st2" "failed (store st2 p)"
    using act_inv_best_invalid [OF _ st2(2)] follows_trans [OF conjunct2 [OF inv1] quiet_follows [OF best_invalid_quiet]] inv1 mk(3) by auto
  moreover have "\<not> failed (store st p)" using a(2) is_ancestor_refl unfolding tainted_def by blast
  ultimately show ?thesis using st1(1) st2(1) p a(5) by (simp add: ConnectTip_def)
qed

section \<open>One batch of blocks\<close>

text \<open>The list \<open>ps\<close> goes up from \<open>a\<close> to \<open>b\<close>.\<close>

fun climbs :: "block_store \<Rightarrow> block_ptr \<Rightarrow> block_ptr list \<Rightarrow> block_ptr \<Rightarrow> bool" where
  "climbs S a [] b \<longleftrightarrow> a = b"
| "climbs S a (p # ps) b \<longleftrightarrow> pprev (S p) = Some a \<and> climbs S p ps b"

lemma climbs_snoc: "climbs S a (ps @ [p]) b \<longleftrightarrow> (\<exists>q. climbs S a ps q \<and> pprev (S p) = Some q \<and> p = b)"
  by (induction ps arbitrary: a) auto

lemma climbs_ancestor: "climbs S a ps b \<Longrightarrow> is_ancestor S a b"
  by (induction ps arbitrary: a) (auto dest: is_ancestor_parent)

lemma climbs_cong: "(\<And>x. pprev (S x) = pprev (T x)) \<Longrightarrow> climbs S a ps b = climbs T a ps b"
  by (induction ps arbitrary: a) auto

lemma collect_climbs:
  assumes "block_tree S"
  shows "back_by S n p = Some q \<Longrightarrow> \<exists>us. collect S (int (nHeight (S q))) (Some p) vp = Some (vp @ us) \<and> climbs S q (rev us) p"
proof (induction n arbitrary: p vp)
  case 0
  then show ?case by (intro exI [of _ "[]"]) (subst collect.simps, simp)
next
  case (Suc n)
  then obtain r where r: "pprev (S p) = Some r" "back_by S n r = Some q" by (auto split: option.splits)
  obtain us where us: "collect S (int (nHeight (S q))) (Some r) (vp @ [p]) = Some ((vp @ [p]) @ us)" "climbs S q (rev us) r" using Suc.IH [OF r(2)] by blast
  have "nHeight (S p) \<noteq> nHeight (S q)" using back_by_Some_height [OF assms r(2)] block_tree_parent [OF assms r(1)] by simp
  then have "collect S (int (nHeight (S q))) (Some p) vp = Some (vp @ (p # us))" using us(1) r(1) by (subst collect.simps) simp
  moreover have "climbs S q (rev (p # us)) p" using us(2) r(1) by (simp add: climbs_snoc)
  ultimately show ?case by blast
qed

text \<open>How a list of blocks from \<open>a\<close> on the way to \<open>m\<close> ends.\<close>

definition ends :: "block_ptr \<Rightarrow> block_ptr \<Rightarrow> block_ptr \<Rightarrow> step_result \<Rightarrow> chainstate \<Rightarrow> chainstate \<Rightarrow> bool" where
  "ends a b m r st st' \<longleftrightarrow>
     r = AllConnected \<and> quiet st st' \<and> Tip (chainActive st') = Some b \<or>
     r = BetterTip \<and> quiet st st' \<and> (\<exists>t. Tip (chainActive st') = Some t \<and> is_ancestor (store st) a t \<and> t \<noteq> a \<and> is_ancestor (store st) t m) \<or>
     r = FoundInvalid \<and> (\<exists>p \<in> blocks_of st. \<not> failed (store st p) \<and> failed (store st' p))"

definition verdicts_ok :: "act_env \<Rightarrow> bool" where
  "verdicts_ok env \<longleftrightarrow> (\<forall>p. verdict env p = ConnectOk \<or> verdict env p = ConnectInvalid False)"

lemma ends_later:
  assumes q: "quiet st st'" and a: "is_ancestor (store st) a a'" "a = a' \<or> nHeight (store st a) < nHeight (store st a')" and tree: "block_tree (store st)"
    and e: "ends a' b m r st' st''"
  shows "ends a b m r st st''"
proof -
  note qs = quietD [OF q]
  have b: "is_ancestor (store st) a t \<and> t \<noteq> a" if "is_ancestor (store st) a' t" "t \<noteq> a'" for t
    using that is_ancestor_trans [OF a(1) that(1)] a(2) is_ancestor_height [OF tree that(1)] by auto
  show ?thesis using e b quiet_trans [OF q] unfolding ends_def qs(10,16,18) by blast
qed

lemma connect_blocks_ends:
  assumes "verdicts_ok env"
  shows "act_inv env f st w \<Longrightarrow> unbeaten st m \<Longrightarrow> Tip (chainActive st) = Some a \<Longrightarrow> climbs (store st) a ps b \<Longrightarrow> is_ancestor (store st) b m \<Longrightarrow>
    \<exists>r st' w' f'. connect_blocks env l old ps st w = Some (Inr (r, st', w')) \<and> act_inv env f' st' w' \<and> follows env st st' \<and> ends a b m r st st'"
proof (induction ps arbitrary: f st w a)
  case Nil
  then show ?case using quiet_follows [OF quiet_refl] by (auto simp: ends_def)
next
  case (Cons p ps)
  note i = act_invD [OF Cons.prems(1)]
  have p: "pprev (store st p) = Tip (chainActive st)" "climbs (store st) p ps b" using Cons.prems(3,4) by simp_all
  have am: "is_ancestor (store st) p m" using is_ancestor_trans [OF climbs_ancestor [OF p(2)] Cons.prems(5)] .
  show ?case
  proof (cases "verdict env p = ConnectOk")
    case True
    from connect_tip_ok [OF Cons.prems(1,2) am p(1) True] obtain st1 st2 w' f' where
      s: "ConnectTip env p st w = Some (Inr (ConnectOk, st1, w'))" "PruneBlockIndexCandidates st1 = Inr st2"
        "act_inv env f' st2 w'" "quiet st st2" "Tip (chainActive st2) = Some p" by blast
    note q = quietD [OF s(4)]
    have h: "nHeight (store st a) < nHeight (store st p)" "is_ancestor (store st) a p"
      using block_tree_parent [OF i(6), of p a] is_ancestor_parent [of "store st" p p a] p(1) Cons.prems(3) by simp_all
    define better where "better = (case old of None \<Rightarrow> True
                 | Some old \<Rightarrow> CompareTo (nChainWork (store st2 p)) (nChainWork (store st2 old)) > 0)"
    have eq: "connect_blocks env l old (p # ps) st w = (if better then Some (Inr (BetterTip, st2, w')) else connect_blocks env l old ps st2 w')"
      using s(1,2,5) by (simp add: better_def cong: option.case_cong)
    show ?thesis
    proof (cases better)
      case True
      have "ends a b m BetterTip st st2" using h am s(4,5) by (auto simp: ends_def)
      then show ?thesis using eq True s(3,4) quiet_follows by auto
    next
      case False
      have "unbeaten st2 m" "climbs (store st2) p ps b" "is_ancestor (store st2) b m"
        using Cons.prems(2,5) quiet_top [OF s(4)] p(2) climbs_cong [of "store st2" "store st"] q(4,16) by auto
      from Cons.IH [OF s(3) this(1) s(5) this(2,3)] obtain r st' w'' f'' where
        r: "connect_blocks env l old ps st2 w' = Some (Inr (r, st', w''))" "act_inv env f'' st' w''" "follows env st2 st'" "ends p b m r st2 st'" by blast
      have "ends a b m r st st'" using ends_later [OF s(4) h(2) disjI2 [OF h(1)] i(6) r(4)] .
      then show ?thesis using eq False r(1,2) follows_trans [OF quiet_follows [OF s(4)] r(3)] by auto
    qed
  next
    case False
    then have bad: "verdict env p = ConnectInvalid False" using assms unfolding verdicts_ok_def by blast
    from connect_tip_invalid [OF Cons.prems(1,2) am p(1) bad, of l] show ?thesis unfolding ends_def by fastforce
  qed
qed

section \<open>One step\<close>

lemma proper_ancestor_height: "block_tree S \<Longrightarrow> is_ancestor S x p \<Longrightarrow> x \<noteq> p \<Longrightarrow> nHeight (S x) < nHeight (S p)"
proof -
  assume a: "block_tree S" "is_ancestor S x p" "x \<noteq> p"
  then obtain n where n: "back_by S n p = Some x" by (auto simp: is_ancestor_def)
  then have "n \<noteq> 0" using a(3) by (intro notI) simp
  then show ?thesis using back_by_Some_height [OF a(1) n] by auto
qed

lemma step_loop_ends:
  assumes env: "verdicts_ok env"
  shows "act_inv env f st w \<Longrightarrow> unbeaten st m \<Longrightarrow> Tip (chainActive st) = Some a \<Longrightarrow> is_ancestor (store st) a m \<Longrightarrow>
    \<exists>r vp' st' w' f'. step_loop env m old (int (nHeight (store st a))) vp st w = Some (Inr ((r, vp'), st', w')) \<and>
      act_inv env f' st' w' \<and> follows env st st' \<and> ends a m m r st st'"
proof (induction "nHeight (store st m) - nHeight (store st a)" arbitrary: f st w a vp rule: less_induct)
  case less
  note i = act_invD [OF less.prems(1)]
  let ?S = "store st" let ?h = "int (nHeight (?S a))" let ?T = "min (?h + 32) (int (nHeight (?S m)))"
  obtain n where n: "back_by ?S n m = Some a" using less.prems(4) by (auto simp: is_ancestor_def)
  have hn: "n \<le> nHeight (?S m)" "nHeight (?S a) = nHeight (?S m) - n" using back_by_Some_height [OF i(6) n] by simp_all
  show ?case
  proof (cases "n = 0")
    case True
    then have "m = a" using n by simp
    moreover have "step_loop env m old (int (nHeight (?S m))) vp st w = Some (Inr ((AllConnected, vp), st, w))" by (subst step_loop.simps) simp
    ultimately show ?thesis using less.prems quiet_follows [OF quiet_refl] by (fastforce simp: ends_def)
  next
    case False
    define k where "k = nHeight (?S m) - nat ?T"
    have k: "k < n" "nat ?T = nHeight (?S m) - k" using hn False by (auto simp: k_def)
    obtain b where b: "back_by ?S k m = Some b" using back_by_height [OF i(6), of k m] k(1) hn(1) by auto
    have hb: "int (nHeight (?S b)) = ?T" using back_by_Some_height [OF i(6) b] k hn(1) by auto
    have "back_by ?S (k + (n - k)) m = Some a" using n k(1) by simp
    then have ab: "back_by ?S (n - k) b = Some a" using b unfolding back_by_add by simp
    from collect_climbs [OF i(6) ab, of "[]"] obtain vp1 where vp1: "collect ?S ?h (Some b) [] = Some vp1" "climbs ?S a (rev vp1) b" by auto
    have bm: "is_ancestor ?S b m" using b unfolding is_ancestor_def by blast
    from connect_blocks_ends [OF env less.prems(1-3) vp1(2) bm, of "last vp1" old] obtain r st1 w1 f1 where
      r: "connect_blocks env (last vp1) old (rev vp1) st w = Some (Inr (r, st1, w1))" "act_inv env f1 st1 w1" "follows env st st1" "ends a b m r st st1" by blast
    have anc: "from_chain (GetAncestor ?S m ?T) = Inr (Some b)" using b by (simp add: GetAncestor_back_by [OF i(6,7)] from_chain_def k_def)
    have eq: "step_loop env m old ?h vp st w = (if r = AllConnected then step_loop env m old ?T vp1 st1 w1 else Some (Inr ((r, vp1), st1, w1)))"
      using vp1(1) r(1) anc hn False by (subst step_loop.simps) (simp add: Let_def)
    show ?thesis
    proof (cases "r = AllConnected")
      case True
      then have q: "quiet st st1" "Tip (chainActive st1) = Some b" using r(4) by (simp_all add: ends_def)
      note qs = quietD [OF q(1)]
      have ha: "nHeight (?S a) < nHeight (?S b)" using back_by_Some_height [OF i(6) ab] k(1) by arith
      have "nHeight (store st1 m) - nHeight (store st1 b) < nHeight (?S m) - nHeight (?S a)" using ha hb k(1) hn(1) unfolding qs(5) by linarith
      moreover have "unbeaten st1 m" "is_ancestor (store st1) b m" using less.prems(2) quiet_top [OF q(1)] bm qs(16) by auto
      ultimately obtain r' vp' st' w' f' where
        r': "step_loop env m old (int (nHeight (store st1 b))) vp1 st1 w1 = Some (Inr ((r', vp'), st', w'))"
          "act_inv env f' st' w'" "follows env st1 st'" "ends b m m r' st1 st'" using less.hyps [OF _ r(2) _ q(2), of vp1] by blast
      have "is_ancestor ?S a b" using ab unfolding is_ancestor_def by blast
      then have "ends a m m r' st st'" using ends_later [OF q(1) _ disjI2 [OF ha] i(6) r'(4)] by blast
      moreover have "step_loop env m old ?h vp st w = Some (Inr ((r', vp'), st', w'))" using eq True r'(1) hb qs(5) by simp
      ultimately show ?thesis using r'(2) follows_trans [OF r(3) r'(3)] by blast
    next
      case other: False
      then have "ends a m m r st st1" using r(4) by (auto simp: ends_def)
      then show ?thesis using eq other r(2,3) by auto
    qed
  qed
qed

lemma common_root:
  assumes inv: "act_inv env f st w" and l: "is_linked (store st) p" "is_linked (store st) t"
  shows "\<exists>q. is_ancestor (store st) q p \<and> is_ancestor (store st) q t"
proof -
  note i = act_invD [OF inv]
  have root: "\<exists>q. is_ancestor (store st) q x \<and> q \<in> blocks_of st \<and> pprev (store st q) = None" if "is_linked (store st) x" for x
  proof -
    obtain q where q: "back_by (store st) (nHeight (store st x)) x = Some q" using back_by_height [OF i(6), of "nHeight (store st x)" x] by auto
    have "nHeight (store st q) = 0" using back_by_Some_height [OF i(6) q] by simp
    then have "pprev (store st q) = None" using block_tree_parent [OF i(6), of q] by (cases "pprev (store st q)") auto
    moreover have "q \<in> blocks_of st" using linked_in_index [OF i(2) linked_ancestor [OF i(4) \<open>is_linked (store st) x\<close> q]] .
    ultimately show ?thesis using q unfolding is_ancestor_def by blast
  qed
  from root [OF l(1)] root [OF l(2)] show ?thesis using i(15) unfolding one_root_def by blast
qed

text \<open>How far a tip \<open>t\<close> is from \<open>m\<close>.\<close>

definition gap :: "block_store \<Rightarrow> block_ptr \<Rightarrow> block_ptr \<Rightarrow> nat" where
  "gap S m t = (if is_ancestor S t m then nHeight (S m) - nHeight (S t) else nHeight (S m) + 1)"

lemma gap_closer:
  assumes tree: "block_tree S" and k: "is_ancestor S k m" "is_ancestor S k t" "is_ancestor S t m \<Longrightarrow> is_ancestor S t k"
    and t': "is_ancestor S k t'" "t' \<noteq> k" "is_ancestor S t' m"
  shows "gap S m t' < gap S m t"
proof -
  have h: "nHeight (S k) < nHeight (S t')" "nHeight (S t') \<le> nHeight (S m)"
    using proper_ancestor_height [OF tree t'(1)] t'(2) is_ancestor_height [OF tree t'(3)] by auto
  have "nHeight (S t) = nHeight (S k)" if "is_ancestor S t m"
    using is_ancestor_height [OF tree k(2)] is_ancestor_height [OF tree k(3) [OF that]] by simp
  then show ?thesis using h t'(3) by (auto simp: gap_def)
qed

lemma step_ok:
  assumes env: "verdicts_ok env" "\<And>p. undo_ok env p" and inv: "act_inv env f st w" and m: "unbeaten st m" and t: "Tip (chainActive st) = Some t" "t \<noteq> m"
  shows "\<exists>bad st' w' f'. ActivateBestChainStep env m st w = Some (Inr ((True, bad), st', w')) \<and> act_inv env f' st' w' \<and> follows env st st' \<and>
    (if bad then unfailed st' < unfailed st else quiet st st' \<and> (\<exists>t'. Tip (chainActive st') = Some t' \<and> gap (store st) m t' < gap (store st) m t))"
proof -
  note i = act_invD [OF inv] and tip = act_inv_tip [OF inv t(1)]
  let ?S = "store st"
  have lm: "is_linked ?S m" using m by (simp add: unbeaten_def)
  obtain r where r: "FindFork ?S (chain_of ?S t) (Some m) = Some (Inr r)" "(case r of None \<Rightarrow> \<not> (\<exists>q. is_ancestor ?S q m \<and> is_ancestor ?S q t)
     | Some k \<Rightarrow> is_ancestor ?S k m \<and> is_ancestor ?S k t \<and> (\<forall>q. is_ancestor ?S q m \<and> is_ancestor ?S q t \<longrightarrow> is_ancestor ?S q k))"
    using FindFork_common [OF i(6,7)] by blast
  obtain k where k: "r = Some k" "is_ancestor ?S k m" "is_ancestor ?S k t" "\<And>q. is_ancestor ?S q m \<Longrightarrow> is_ancestor ?S q t \<Longrightarrow> is_ancestor ?S q k"
    using r(2) common_root [OF inv lm tip(2)] by (cases r) auto
  have closer: "gap ?S m t' < gap ?S m t" if "is_ancestor ?S k t'" "t' \<noteq> k" "is_ancestor ?S t' m" for t'
    using gap_closer [OF i(6) k(2,3) _ that] k(4) [of t] by simp
  have "\<not> is_ancestor ?S m t" using work_grows_ancestor [OF i(14), of m t] m tip(2,3) t(2) by (auto simp: unbeaten_def work_less_iff [OF i(8)])
  then have km: "m \<noteq> k" using k(3) by auto
  obtain n where n: "back_by ?S n t = Some k" using k(3) by (auto simp: is_ancestor_def)
  let ?st = "st\<lparr>chainActive := chain_of ?S k\<rparr>"
  obtain b w1 where w1: "disconnect_loop env (Some k) False st w = Some (Inr ((True, b), ?st, w1))" "forks_ok w1"
    using disconnect_loop_ok [OF i(6) env(2) n i(12,13) tip(1)] by blast
  have inv1: "act_inv env f ?st w1"
    by (rule tip_change [OF inv top_ancestor(1,2) [OF inv m k(2)] connects_ancestor [OF tip(4) k(3)] w1(2)])
  have q1: "quiet st ?st" by (simp add: quiet_def)
  have "unbeaten ?st m" using m quiet_top [OF q1] by simp
  from step_loop_ends [OF env(1) inv1 this, of k "Some t" "[]"] k(2) obtain r' vp st2 w2 f2 where
    s: "step_loop env m (Some t) (int (nHeight (?S k))) [] ?st w1 = Some (Inr ((r', vp), st2, w2))" "act_inv env f2 st2 w2" "follows env ?st st2" "ends k m m r' ?st st2"
    by auto
  note i2 = act_invD [OF s(2)]
  obtain w3 where w3: "(if r' = FoundInvalid then CheckForkWarningConditionsOnNewFork (node env) (last vp) st2 w2 else Some (CheckForkWarningConditions (node env) st2 w2)) = Some (Inr w3)"
      "forks_ok w3"
    using CheckForkWarningConditionsOnNewFork_ok [OF i2(6,12,16,13), of "node env" "last vp"] CheckForkWarningConditions_ok [OF i2(12,16,13), of "node env"]
    by (cases "r' = FoundInvalid") auto
  have "r' \<noteq> SystemError" using s(4) by (auto simp: ends_def)
  then have eq: "ActivateBestChainStep env m st w = Some (Inr ((True, r' = FoundInvalid), st2, w3))"
    using r(1) tip(1) t(1) k(1) w1(1) s(1) w3(1) i2(16) by (simp add: ActivateBestChainStep_def Let_def from_chain_def)
  have inv3: "act_inv env f2 st2 w3" using s(2) w3(2) by (simp add: act_inv_def)
  have fol: "follows env st st2" by (rule follows_trans [OF quiet_follows [OF q1] s(3)])
  have "if r' = FoundInvalid then unfailed st2 < unfailed st else quiet st st2 \<and> (\<exists>t'. Tip (chainActive st2) = Some t' \<and> gap ?S m t' < gap ?S m t)"
  proof (cases "r' = FoundInvalid")
    case True
    then show ?thesis using s(4) unfailed_less [OF fol] by (auto simp: ends_def blocks_of_def)
  next
    case False
    then have "quiet ?st st2 \<and> (\<exists>t'. Tip (chainActive st2) = Some t' \<and> is_ancestor ?S k t' \<and> t' \<noteq> k \<and> is_ancestor ?S t' m)"
      using s(4) k(2) km by (auto simp: ends_def)
    then show ?thesis using False quiet_trans [OF q1] closer by auto
  qed
  then show ?thesis using eq inv3 fol by blast
qed

section \<open>The activation\<close>

lemma tainted_in_index: "index_ok st \<Longrightarrow> tainted (store st) x \<Longrightarrow> x \<in> blocks_of st"
proof (rule ccontr)
  assume a: "index_ok st" "tainted (store st) x" "x \<notin> blocks_of st"
  then show False using index_okD(4) [OF a(1,3)] by (subst (asm) tainted_iff) (simp add: CBlockIndex_SetNull_def failed_def)
qed

lemma search_top:
  assumes inv: "act_inv env f st w"
  shows "\<exists>m st'. FindMostWorkChain st = Some (Inr (Some m, st')) \<and> act_inv env f st' w \<and> follows env st st' \<and> unbeaten st' m"
proof -
  note i = act_invD [OF inv]
  let ?lt = "CBlockIndexWorkComparator (store st)"
  from FindMostWorkChain_search [OF i(2) chain_inv_active [OF i(1)]] obtain r st' D where
    s: "FindMostWorkChain st = Some (Inr (r, st'))" "tree_above (Some f) st'" "marks BLOCK_FAILED_CHILD D st st'"
      "\<And>x. x \<in> D \<Longrightarrow> tainted (store st) x" "best_of st (set (setBlockIndexCandidates st)) r" by blast
  have inv': "act_inv env f st' w \<and> follows env st st'"
    by (rule act_inv_marks [OF inv s(3,2) i(13)]) (use s(4) tainted_in_index [OF i(3)] in blast)+
  have "f \<in> set (setBlockIndexCandidates st)" using cands_okD(4) [OF i(5,9,11)] work_irrefl [OF i(8)] by blast
  then obtain m where m: "r = Some m" "m \<in> set (setBlockIndexCandidates st)" "\<not> tainted (store st) m" "\<not> ?lt m f"
      "\<And>c. c \<in> set (setBlockIndexCandidates st) \<Longrightarrow> \<not> tainted (store st) c \<Longrightarrow> \<not> ?lt m c"
    using s(5) i(11) by (cases r) (auto simp: best_of_def)
  have "\<not> ?lt m x" if "is_linked (store st) x" "\<not> tainted (store st) x" for x
  proof (cases "?lt x f")
    case True
    then show ?thesis using work_trans [OF i(8), of m x f] m(4) by blast
  next
    case False
    then show ?thesis using cands_okD(4) [OF i(5) that] m(5) [OF _ that(2)] by blast
  qed
  moreover have "tainted (store st') x = tainted (store st) x" for x by (rule marks_tainted [OF s(3)]) (rule s(4))
  moreover have "is_linked (store st) m" using cands_okD(2) [OF i(5) m(2)] .
  ultimately have "unbeaten st' m" using m(3) by (simp add: unbeaten_def marksD(15,17) [OF s(3)])
  then show ?thesis using s(1) m(1) inv' by blast
qed

lemma follows_top:
  assumes "follows env st st'" "unbeaten st' t" "connects env (store st') t"
  shows "is_linked (store st) t \<and> \<not> tainted (store st) t \<and> connects env (store st) t \<and>
    (\<forall>x. is_linked (store st) x \<longrightarrow> \<not> tainted (store st) x \<longrightarrow> connects env (store st) x \<longrightarrow> \<not> CBlockIndexWorkComparator (store st) t x)"
proof -
  note f = followsD [OF assms(1)]
  have "tainted (store st') t" if "tainted (store st) t" using that f(4) unfolding tainted_def f(7) by blast
  then show ?thesis using assms(2,3) f(5) unfolding unbeaten_def f(2,3,6) by blast
qed

lemma activate_loop_ends:
  assumes env: "verdicts_ok env" "\<And>p. undo_ok env p" "\<not> ShutdownRequested env"
  shows "act_inv env f st w \<Longrightarrow> unbeaten st m \<Longrightarrow> Tip (chainActive st) = Some t \<Longrightarrow>
    \<exists>r st' w' f' t'. activate_loop env (Some m) st w = Some (Inr (r, st', w')) \<and> act_inv env f' st' w' \<and> follows env st st' \<and>
      Tip (chainActive st') = Some t' \<and> unbeaten st' t'"
proof (induction "(unfailed st, gap (store st) m t)" arbitrary: f st w m t rule: wf_induct_rule [OF wf_lex_prod [OF wf_less_than wf_less_than]])
  case 1
  show ?case
  proof (cases "t = m")
    case True
    then have "activate_loop env (Some m) st w = Some (Inr (True, st, w))" using 1(4) env(3) by (subst activate_loop.simps) simp
    then show ?thesis using 1(2-4) True quiet_follows [OF quiet_refl] by blast
  next
    case False
    from step_ok [OF env(1,2) 1(2-4) False] obtain bad st1 w1 f1 where
      s: "ActivateBestChainStep env m st w = Some (Inr ((True, bad), st1, w1))" "act_inv env f1 st1 w1" "follows env st st1"
        "if bad then unfailed st1 < unfailed st else quiet st st1 \<and> (\<exists>t'. Tip (chainActive st1) = Some t' \<and> gap (store st) m t' < gap (store st) m t)" by blast
    note i1 = act_invD [OF s(2)]
    obtain ibd w2 where w2: "IsInitialBlockDownload (node env) st1 w1 = Inr (ibd, w2)" "forks_ok w2" using IsInitialBlockDownload_ok [OF i1(12,13)] by blast
    have inv1: "act_inv env f1 st1 w2" using s(2) w2(2) by (simp add: act_inv_def)
    obtain t1 where t1: "Tip (chainActive st1) = Some t1" using i1(16) by blast
    let ?m = "if bad then None else Some m"
    have eq: "activate_loop env (Some m) st w = (if Some t1 \<noteq> ?m then activate_loop env ?m st1 w2 else Some (Inr (flush_ok env, st1, w2)))"
      using 1(4) False env(3) s(1) w2(1) t1 by (subst activate_loop.simps) (simp add: Let_def)
    show ?thesis
    proof (cases bad)
      case True
      from search_top [OF inv1] obtain m2 st2 where
        s2: "FindMostWorkChain st1 = Some (Inr (Some m2, st2))" "act_inv env f1 st2 w2" "follows env st1 st2" "unbeaten st2 m2" by blast
      obtain t2 where t2: "Tip (chainActive st2) = Some t2" using act_invD(16) [OF s2(2)] by blast
      have "activate_loop env None st1 w2 = activate_loop env (Some m2) st2 w2"
        using s2(1) env(3) by (subst (1 2) activate_loop.simps) simp
      moreover have "unfailed st2 < unfailed st" using s(4) True unfailed_le [OF s2(3)] by simp
      then obtain r st' w' f' t' where "activate_loop env (Some m2) st2 w2 = Some (Inr (r, st', w'))" "act_inv env f' st' w'" "follows env st2 st'"
          "Tip (chainActive st') = Some t'" "unbeaten st' t'" using 1(1) [OF _ s2(2,4) t2] by auto
      ultimately show ?thesis using eq True follows_trans [OF s(3) follows_trans [OF s2(3)]] by auto
    next
      case good: False
      then have q: "quiet st st1" "gap (store st) m t1 < gap (store st) m t" using s(4) t1 by auto
      have top1: "unbeaten st1 m" using 1(3) quiet_top [OF q(1)] by simp
      show ?thesis
      proof (cases "t1 = m")
        case True
        then show ?thesis using eq good inv1 s(3) t1 top1 by auto
      next
        case ne: False
        have "unfailed st1 = unfailed st" "gap (store st1) m t1 = gap (store st) m t1" by (simp_all add: unfailed_def gap_def quietD(5,10,16,18) [OF q(1)])
        then obtain r st' w' f' t' where "activate_loop env (Some m) st1 w2 = Some (Inr (r, st', w'))" "act_inv env f' st' w'" "follows env st1 st'"
            "Tip (chainActive st') = Some t'" "unbeaten st' t'" using 1(1) [OF _ inv1 top1 t1] q(2) by auto
        then show ?thesis using eq good ne follows_trans [OF s(3)] by auto
      qed
    qed
  qed
qed

lemma threshold_up:
  assumes inv: "chain_above (Some f) st" and f: "\<not> tainted (store st) f" and t: "unbeaten st t"
  shows "chain_above (Some t) st"
proof -
  let ?lt = "CBlockIndexWorkComparator (store st)"
  have i: "index_ok st" "levels_ok st" "linking [] st" and ok: "cands_above (Some f) st" using inv by (simp_all add: chain_above_def tree_above_def)
  have works: "wf_works (store st)" using index_okD(10) [OF i(1)] by (simp add: wf_works_def)
  have lt: "\<not> ?lt t f" using t f cands_okD(3) [OF ok] by (simp add: unbeaten_def)
  have "\<not> ?lt p f" if "\<not> ?lt p t" for p using that lt work_trans [OF works, of p f t] work_total [OF works, of f t] by blast
  then have "p \<in> set (setBlockIndexCandidates st)" if "is_linked (store st) p" "\<not> tainted (store st) p" "\<not> ?lt p t" for p
    using cands_okD(4) [OF ok that(1,2)] that(3) by blast
  then have "cands_above (Some t) st" using cands_okD(1,2) [OF ok] t by (simp add: cands_above_def unbeaten_def)
  then show ?thesis using inv i by (simp add: chain_above_def tree_above_def)
qed

text \<open>The whole activation, from a state with a tip.\<close>

lemma ActivateBestChain_tip:
  assumes "chain_inv st" "Tip (chainActive st) = Some t0" "connects env (store st) t0" "pindexBestHeader st \<noteq> None" "forks_ok w"
    "work_grows (store st)" "one_root st" and env: "verdicts_ok env" "\<And>p. undo_ok env p" "\<not> ShutdownRequested env"
  shows "\<exists>r st' w' t. ActivateBestChain env st w = Some (Inr (r, st', w')) \<and> chain_inv st' \<and> Tip (chainActive st') = Some t \<and>
    is_linked (store st) t \<and> \<not> tainted (store st) t \<and> connects env (store st) t \<and>
    (\<forall>x. is_linked (store st) x \<longrightarrow> \<not> tainted (store st) x \<longrightarrow> connects env (store st) x \<longrightarrow> \<not> CBlockIndexWorkComparator (store st) t x)"
proof -
  have "Tip [] = None" by (simp add: Tip_def)
  then have "\<not> tainted (store st) t0" using assms(1,2) by (auto simp: chain_above_def)
  then have inv: "act_inv env t0 st w" using assms by (simp add: act_inv_def)
  from search_top [OF inv] obtain m st1 where
    s: "FindMostWorkChain st = Some (Inr (Some m, st1))" "act_inv env t0 st1 w" "follows env st st1" "unbeaten st1 m" by blast
  obtain t1 where t1: "Tip (chainActive st1) = Some t1" using act_invD(16) [OF s(2)] by blast
  from activate_loop_ends [OF env s(2,4) t1] obtain r st' w' f' t where
    e: "activate_loop env (Some m) st1 w = Some (Inr (r, st', w'))" "act_inv env f' st' w'" "follows env st1 st'" "Tip (chainActive st') = Some t" "unbeaten st' t" by blast
  have "ActivateBestChain env st w = Some (Inr (r, st', w'))"
    using s(1) e(1) env(3) unfolding ActivateBestChain_def by (subst activate_loop.simps, subst (asm) activate_loop.simps) simp
  moreover have "chain_inv st'" using threshold_up [OF act_invD(1,11) [OF e(2)] e(5)] e(4) by simp
  ultimately show ?thesis using e(4) follows_top [OF follows_trans [OF s(3) e(3)] e(5) act_inv_tip(4) [OF e(2,4)]] by blast
qed

end
