(* ===== verification/Activate_Genesis.thy ===== *)
theory Activate_Genesis
  imports Activate_Correct
begin

unbundle bit_operations_syntax

text \<open>
  The activation of the best chain from every state between operations: with a tip, and from the empty chain,
  where the genesis block is connected first (\<open>ActivateBestChain\<close> of \<open>src/src/validation.cpp\<close>).
\<close>

section \<open>From a tip\<close>

lemma activation_from_tip:
  assumes inv: "act_inv env f st w" and env: "verdicts_ok env" "\<And>p. undo_ok env p" "\<not> ShutdownRequested env"
  shows "\<exists>r st' w' t. ActivateBestChain env st w = Some (Inr (r, st', w')) \<and> act_inv env t st' w' \<and> follows env st st' \<and>
    Tip (chainActive st') = Some t \<and> unbeaten st' t"
proof -
  from search_top [OF inv] obtain m st1 where
    s: "FindMostWorkChain st = Some (Inr (Some m, st1))" "act_inv env f st1 w" "follows env st st1" "unbeaten st1 m" by blast
  obtain t1 where t1: "Tip (chainActive st1) = Some t1" using act_invD(16) [OF s(2)] by blast
  from activate_loop_ends [OF env s(2,4) t1] obtain r st' w' f' t where
    e: "activate_loop env (Some m) st1 w = Some (Inr (r, st', w'))" "act_inv env f' st' w'" "follows env st1 st'" "Tip (chainActive st') = Some t" "unbeaten st' t" by blast
  have "ActivateBestChain env st w = Some (Inr (r, st', w'))"
    using s(1) e(1) env(3) unfolding ActivateBestChain_def by (subst activate_loop.simps, subst (asm) activate_loop.simps) simp
  moreover have "act_inv env t st' w'"
    using e(2) threshold_up [OF act_invD(1,11) [OF e(2)] e(5)] act_inv_tip(3,4) [OF e(2,4)] by (simp add: act_inv_def)
  ultimately show ?thesis using e(4,5) follows_trans [OF s(3) e(3)] by blast
qed

section \<open>From the empty chain\<close>

definition start_inv :: "chainstate \<Rightarrow> fork_state \<Rightarrow> bool" where
  "start_inv st w \<longleftrightarrow> chainActive st = [] \<and> tree_above None st \<and> (pindexBestHeader st \<noteq> None \<or> blocks_of st = {}) \<and> forks_ok w \<and> work_grows (store st) \<and> one_root st"

text \<open>The genesis block always connects: \<open>ConnectBlock\<close> returns early for it.\<close>

definition genesis_connects :: "act_env \<Rightarrow> chainstate \<Rightarrow> bool" where
  "genesis_connects env st \<longleftrightarrow> (\<forall>p \<in> blocks_of st. pprev (store st p) = None \<longrightarrow> verdict env p = ConnectOk)"

lemma cands_above_linked: "cands_above None st \<Longrightarrow> is_linked (store st) f \<Longrightarrow> cands_above (Some f) st"
  by (simp add: cands_above_def)

lemma collect_all:
  assumes "block_tree S"
  shows "\<exists>g us. collect S (- 1) (Some p) vp = Some (vp @ us @ [g]) \<and> pprev (S g) = None \<and> is_ancestor S g p"
proof (induction "nHeight (S p)" arbitrary: p vp rule: less_induct)
  case less
  show ?case
  proof (cases "pprev (S p)")
    case None
    then have "collect S (- 1) (Some p) vp = Some (vp @ [] @ [p])" by (subst collect.simps, simp, subst collect.simps, simp)
    then show ?thesis using None is_ancestor_refl by blast
  next
    case (Some q)
    then obtain g us where g: "collect S (- 1) (Some q) (vp @ [p]) = Some ((vp @ [p]) @ us @ [g])" "pprev (S g) = None" "is_ancestor S g q"
      using less.hyps [of q "vp @ [p]"] block_tree_parent [OF assms Some] by auto
    have "is_ancestor S q p" by (rule is_ancestor_parent [OF is_ancestor_refl [of S p] Some])
    moreover have "collect S (- 1) (Some p) vp = Some (vp @ (p # us) @ [g])" using g(1) Some by (subst collect.simps) simp
    ultimately show ?thesis using g(2) is_ancestor_trans [OF g(3)] by blast
  qed
qed

lemma FindFork_empty: "FindFork S [] (Some m) = Some (Inr None)"
proof -
  have "Height [] = - 1" by (simp add: Height_def)
  then show ?thesis by (simp add: FindFork_def GetAncestor_def) (subst FindFork_loop.simps, simp)
qed

text \<open>The first step connects the genesis block and returns.\<close>

lemma genesis_step:
  assumes inv: "start_inv st w" and m: "unbeaten st m" and g: "genesis_connects env st"
  shows "\<exists>st' w' t. ActivateBestChainStep env m st w = Some (Inr ((True, False), st', w')) \<and> act_inv env t st' w' \<and> follows env st st' \<and>
    Tip (chainActive st') = Some t \<and> unbeaten st' m"
proof -
  let ?S = "store st" and ?h = "min (- 1 + 32) (int (nHeight (store st m)))"
  have empty: "chainActive st = []" and tr: "tree_above None st" and rest: "pindexBestHeader st \<noteq> None" "forks_ok w" "work_grows ?S" "one_root st"
    using inv linked_in_index [of None st m] m by (auto simp: start_inv_def unbeaten_def)
  have idx: "index_ok st" "linking [] st" "cands_above None st" and tree: "block_tree ?S" "skips_ok ?S" and works: "wf_works ?S"
    using tr index_okD(7,8,10) [of st] by (simp_all add: tree_above_def wf_works_def)
  have lm: "is_linked ?S m" "\<not> tainted ?S m" using m by (simp_all add: unbeaten_def)
  obtain x where x: "GetAncestor ?S m ?h = Inr (Some x)" "is_ancestor ?S x m"
    using GetAncestor_back_by [OF tree, of m ?h] back_by_height [OF tree(1), of "nHeight (?S m) - nat ?h" m] by (auto simp: is_ancestor_def)
  obtain r us where r: "collect ?S (- 1) (Some x) [] = Some (us @ [r])" "pprev (?S r) = None" "is_ancestor ?S r x" using collect_all [OF tree(1), of x "[]"] by auto
  have rm: "is_ancestor ?S r m" using is_ancestor_trans [OF r(3) x(2)] .
  have lr: "is_linked ?S r" "\<not> tainted ?S r" using linked_ancestor [OF idx(2) lm(1)] rm not_tainted_ancestor [OF lm(2) rm] by (auto simp: is_ancestor_def)
  have vr: "verdict env r = ConnectOk" using g r(2) linked_in_index [OF tr lr(1)] by (simp add: genesis_connects_def)
  let ?st1 = "st\<lparr>chainActive := chain_of ?S r\<rparr>"
  have "is_chain ?S (chainActive st)" by (simp add: empty is_chain_def)
  from UpdateTip_ok [OF tree(1) this rest(1,2), of env r] obtain w1 where w1: "UpdateTip env (Some r) st w = Some (Inr ((), ?st1, w1))" "forks_ok w1" by blast
  have ct: "ConnectTip env r st w = Some (Inr (ConnectOk, ?st1, w1))" using r(2) vr w1(1) by (simp add: ConnectTip_def empty connect_index_def Tip_def)
  have "tree_above (Some r) st" using tr cands_above_linked [OF idx(3) lr(1)] by (simp add: tree_above_def)
  then have "tree_above (Some r) ?st1" by simp
  moreover have "m \<in> set (setBlockIndexCandidates st)" using cands_okD(4) [OF idx(3) lm] by simp
  moreover have "\<not> CBlockIndexWorkComparator ?S m r" using m lr by (simp add: unbeaten_def)
  ultimately obtain cs where cs: "PruneBlockIndexCandidates ?st1 = Inr (?st1\<lparr>setBlockIndexCandidates := cs\<rparr>)" "tree_above (Some r) (?st1\<lparr>setBlockIndexCandidates := cs\<rparr>)"
    using prune_ok [of r ?st1 r m] lr(1) work_irrefl [OF works, of r] by auto
  let ?st2 = "?st1\<lparr>setBlockIndexCandidates := cs\<rparr>"
  have q: "quiet st ?st2" by (simp add: quiet_def)
  have c: "connects env ?S r" using r(2) vr by (auto simp: connects_def is_ancestor_def elim!: back_by.elims)
  have "act_inv env r ?st2 w1" using cs(2) lr c w1(2) rest by (auto simp: act_inv_def chain_above_def one_root_def blocks_of_def)
  then have inv2: "act_inv env r ?st2 w'" if "forks_ok w'" for w' using that by (simp add: act_inv_def)
  have cb: "connect_blocks env (last (us @ [r])) None (rev (us @ [r])) st w = Some (Inr (BetterTip, ?st2, w1))" using ct cs(1) by simp
  have sl: "step_loop env m None (- 1) [] st w = Some (Inr ((BetterTip, us @ [r]), ?st2, w1))"
    using x(1) r(1) cb by (subst step_loop.simps) (simp add: from_chain_def Let_def)
  obtain w2 where w2: "CheckForkWarningConditions (node env) ?st2 w1 = Inr w2" "forks_ok w2"
    using CheckForkWarningConditions_ok [of ?st2 w1 "node env"] rest(1) w1(2) by auto
  have "disconnect_loop env None False st w = Some (Inr ((True, False), st, w))" by (subst disconnect_loop.simps) (simp add: empty Tip_def)
  then have "ActivateBestChainStep env m st w = Some (Inr ((True, False), ?st2, w2))"
    using FindFork_empty [of ?S m] sl w2(1) by (simp add: ActivateBestChainStep_def Let_def from_chain_def empty Tip_def)
  then show ?thesis using inv2 [OF w2(2)] quiet_follows [OF q] m quiet_top [OF q] by fastforce
qed

text \<open>The search from the empty chain.\<close>

lemma marks_follows:
  assumes m: "marks k D st st'" and D: "\<And>x. x \<in> D \<Longrightarrow> tainted (store st) x" "D \<subseteq> blocks_of st"
  shows "follows env st st'"
proof -
  note e = marksD [OF m]
  have "same_tree st st'" using D(2) e(18) by (auto simp: same_tree_def e(1,10))
  moreover have "tainted (store st') x = tainted (store st) x" for x by (rule marks_tainted [OF m]) (rule D(1))
  ultimately show ?thesis unfolding follows_def e(15,17) using e(13) by blast
qed

lemma start_search:
  assumes inv: "start_inv st w"
  shows "\<exists>r st'. FindMostWorkChain st = Some (Inr (r, st')) \<and> start_inv st' w \<and> follows env st st' \<and>
    (case r of None \<Rightarrow> \<forall>x. is_linked (store st) x \<longrightarrow> tainted (store st) x | Some m \<Rightarrow> unbeaten st' m)"
proof -
  have tr: "tree_above None st" and empty: "chainActive st = []" using inv by (simp_all add: start_inv_def)
  have idx: "index_ok st" and ok: "cands_above None st" using tr by (simp_all add: tree_above_def)
  have "active_ok st" by (simp add: active_ok_def Contains_def chain_at_def empty)
  from FindMostWorkChain_search [OF tr this] obtain r st' D where
    s: "FindMostWorkChain st = Some (Inr (r, st'))" "tree_above None st'" "marks BLOCK_FAILED_CHILD D st st'"
      "\<And>x. x \<in> D \<Longrightarrow> tainted (store st) x" "best_of st (set (setBlockIndexCandidates st)) r" by blast
  have fol: "follows env st st'" by (rule marks_follows [OF s(3,4)]) (use s(4) tainted_in_index [OF idx] in auto)
  note t = same_treeD [OF followsD(1) [OF fol]] and e = marksD [OF s(3)]
  have taint: "tainted (store st') x = tainted (store st) x" for x by (rule marks_tainted [OF s(3)]) (rule s(4))
  have "start_inv st' w" using inv s(2) unfolding start_inv_def work_grows_def one_root_def t(2,8,10) e(2,19) by blast
  moreover have "x \<in> set (setBlockIndexCandidates st)" if "is_linked (store st) x" "\<not> tainted (store st) x" for x using cands_okD(4) [OF ok that] by simp
  then have "case r of None \<Rightarrow> \<forall>x. is_linked (store st) x \<longrightarrow> tainted (store st) x | Some m \<Rightarrow> unbeaten st' m"
    using s(5) cands_okD(2) [OF ok] by (cases r) (auto simp: best_of_def unbeaten_def taint e(15,17))
  ultimately show ?thesis using s(1) fol by blast
qed

section \<open>From every state between operations\<close>

definition node_inv :: "act_env \<Rightarrow> chainstate \<Rightarrow> fork_state \<Rightarrow> bool" where
  "node_inv env st w \<longleftrightarrow> chain_inv st \<and> (\<forall>t. Tip (chainActive st) = Some t \<longrightarrow> connects env (store st) t) \<and>
     (pindexBestHeader st \<noteq> None \<or> blocks_of st = {}) \<and> forks_ok w \<and> work_grows (store st) \<and> one_root st"

lemma Tip_empty [simp]: "Tip [] = None"
  by (simp add: Tip_def)

lemma chain_inv_empty: "chain_above F st \<Longrightarrow> Tip (chainActive st) = None \<longleftrightarrow> chainActive st = []"
  by (auto simp: chain_above_def)

lemma node_inv_cases:
  assumes "node_inv env st w"
  obtains (tip) t where "Tip (chainActive st) = Some t" "act_inv env t st w" | (start) "Tip (chainActive st) = None" "start_inv st w"
proof (cases "Tip (chainActive st)")
  case None
  then show ?thesis using assms start chain_inv_empty [of "Tip (chainActive st)" st] by (auto simp: node_inv_def start_inv_def chain_above_def)
next
  case (Some t)
  have c: "chain_above (Some t) st" using assms Some by (simp add: node_inv_def)
  from c obtain "is_linked (store st) t" "\<not> tainted (store st) t" by (cases rule: chain_invE) (use Some in auto)
  then show ?thesis using assms Some tip [of t] linked_in_index [of "Some t" st t] c by (auto simp: node_inv_def act_inv_def chain_above_def)
qed

lemma node_inv_tip: "act_inv env t st w \<Longrightarrow> Tip (chainActive st) = Some t \<Longrightarrow> node_inv env st w"
  by (auto simp: node_inv_def act_inv_def)

lemma node_inv_start: "start_inv st w \<Longrightarrow> node_inv env st w"
  by (simp add: node_inv_def start_inv_def chain_above_def Tip_def)

text \<open>The best of the blocks that may be followed and connect, or none.\<close>

definition best_tip :: "act_env \<Rightarrow> block_store \<Rightarrow> block_ptr option \<Rightarrow> bool" where
  "best_tip env S r \<longleftrightarrow>
     (case r of None \<Rightarrow> \<forall>x. is_linked S x \<longrightarrow> tainted S x
      | Some t \<Rightarrow> is_linked S t \<and> \<not> tainted S t \<and> connects env S t \<and>
          (\<forall>x. is_linked S x \<longrightarrow> \<not> tainted S x \<longrightarrow> connects env S x \<longrightarrow> \<not> CBlockIndexWorkComparator S t x))"

lemma activation_total:
  assumes inv: "node_inv env st w" and g: "genesis_connects env st" and env: "verdicts_ok env" "\<And>p. undo_ok env p" "\<not> ShutdownRequested env"
  shows "\<exists>r st' w'. ActivateBestChain env st w = Some (Inr (r, st', w')) \<and> node_inv env st' w' \<and> follows env st st' \<and>
    best_tip env (store st) (Tip (chainActive st'))"
  using inv
proof (cases rule: node_inv_cases)
  case (tip t)
  from activation_from_tip [OF tip(2) env] obtain r st' w' t' where
    e: "ActivateBestChain env st w = Some (Inr (r, st', w'))" "act_inv env t' st' w'" "follows env st st'" "Tip (chainActive st') = Some t'" "unbeaten st' t'" by blast
  then show ?thesis using node_inv_tip [OF e(2,4)] follows_top [OF e(3,5) act_inv_tip(4) [OF e(2,4)]] by (simp add: best_tip_def)
next
  case start
  from start_search [OF start(2), of env] obtain r st1 where
    s: "FindMostWorkChain st = Some (Inr (r, st1))" "start_inv st1 w" "follows env st st1"
      "case r of None \<Rightarrow> \<forall>x. is_linked (store st) x \<longrightarrow> tainted (store st) x | Some m \<Rightarrow> unbeaten st1 m" by blast
  have empty: "Tip (chainActive st1) = None" using s(2) by (simp add: start_inv_def Tip_def)
  show ?thesis
  proof (cases r)
    case None
    then have "ActivateBestChain env st w = Some (Inr (True, st1, w))" using s(1) env(3) unfolding ActivateBestChain_def by (subst activate_loop.simps) simp
    then show ?thesis using node_inv_start [OF s(2)] s(3,4) None empty by (auto simp: best_tip_def)
  next
    case (Some m)
    have g1: "genesis_connects env st1" using g same_treeD(2,10) [OF followsD(1) [OF s(3)]] by (simp add: genesis_connects_def)
    have m: "unbeaten st1 m" using s(4) Some by simp
    from genesis_step [OF s(2) m g1] obtain st2 w2 t2 where
      e: "ActivateBestChainStep env m st1 w = Some (Inr ((True, False), st2, w2))" "act_inv env t2 st2 w2" "follows env st1 st2"
        "Tip (chainActive st2) = Some t2" "unbeaten st2 m" by blast
    obtain ibd w3 where w3: "IsInitialBlockDownload (node env) st2 w2 = Inr (ibd, w3)" "forks_ok w3" using IsInitialBlockDownload_ok [OF act_invD(12,13) [OF e(2)]] by blast
    have inv3: "act_inv env t2 st2 w3" using e(2) w3(2) by (simp add: act_inv_def)
    have eq: "ActivateBestChain env st w = (if Some t2 \<noteq> Some m then activate_loop env (Some m) st2 w3 else Some (Inr (flush_ok env, st2, w3)))"
      using s(1) Some empty e(1,4) w3(1) env(3) unfolding ActivateBestChain_def by (subst activate_loop.simps) (simp add: Let_def)
    show ?thesis
    proof (cases "t2 = m")
      case True
      then show ?thesis using eq node_inv_tip [OF inv3 e(4)] follows_trans [OF s(3) e(3)] follows_top [OF follows_trans [OF s(3) e(3)] e(5)]
          act_inv_tip(4) [OF inv3 e(4)] e(4) by (simp add: best_tip_def)
    next
      case False
      from activate_loop_ends [OF env inv3 e(5,4)] obtain r' st' w' f' t' where
        l: "activate_loop env (Some m) st2 w3 = Some (Inr (r', st', w'))" "act_inv env f' st' w'" "follows env st2 st'" "Tip (chainActive st') = Some t'" "unbeaten st' t'" by blast
      have fol: "follows env st st'" by (rule follows_trans [OF s(3) follows_trans [OF e(3) l(3)]])
      have "act_inv env t' st' w'"
        using l(2) threshold_up [OF act_invD(1,11) [OF l(2)] l(5)] act_inv_tip(3,4) [OF l(2,4)] by (simp add: act_inv_def)
      then show ?thesis using eq False l(1,4) node_inv_tip fol follows_top [OF fol l(5) act_inv_tip(4) [OF l(2,4)]] by (simp add: best_tip_def)
    qed
  qed
qed

end
