(* ===== verification/Tree_Steps.thy ===== *)
theory Tree_Steps
  imports Activate_Correct
begin

unbundle bit_operations_syntax

text \<open>
  The single operations on the block tree, from a state with all invariants to another: a new header, the data
  of a block, a block found invalid, a search for the best chain (\<open>src/src/validation.cpp\<close>).
\<close>

section \<open>The start\<close>

definition init_state :: chainstate where
  "init_state = \<lparr>store = (\<lambda>_. CBlockIndex_SetNull), mapBlockIndex = [], chainActive = [], setBlockIndexCandidates = [], mapBlocksUnlinked = [],
     nBlockSequenceId = 1, nBlockReverseSequenceId = - 1, nLastPreciousChainwork = base_uint_u64 0, pindexBestHeader = None,
     pindexBestInvalid = None, setDirtyBlockIndex = {}\<rparr>"

lemma init_chain_inv: "chain_inv init_state"
proof -
  have "index_ok init_state"
    by (rule index_okI) (simp_all add: init_state_def blocks_of_def CBlockIndex_SetNull_def block_tree_def skips_ok_def time_max_ok_def
        base_uint_zero_def WIDTH_def)
  moreover have "linking [] init_state" by (rule linkingI) (simp_all add: init_state_def CBlockIndex_SetNull_def is_linked_def)
  moreover have "levels_ok init_state" by (simp add: levels_ok_def init_state_def blocks_of_def)
  moreover have "cands_ok init_state" by (simp add: cands_above_def init_state_def is_linked_def CBlockIndex_SetNull_def Tip_def)
  ultimately show ?thesis by (simp add: chain_above_def tree_above_def init_state_def)
qed

text \<open>Keeping the invariants between operations, where the threshold of the candidates is the tip.\<close>

lemma chain_inv_keep_tip:
  assumes "chain_inv st" "tree_inv st'" "chainActive st' = chainActive st"
    and "\<And>t. is_linked (store st) t \<Longrightarrow> \<not> tainted (store st) t \<Longrightarrow> Tip (chainActive st) = Some t \<Longrightarrow> is_linked (store st') t \<and> \<not> tainted (store st') t \<and>
      nHeight (store st' t) = nHeight (store st t) \<and> (\<forall>n. back_by (store st') n t = back_by (store st) n t)"
  shows "chain_inv st'"
proof -
  have "chain_above (Tip (chainActive st)) st'"
    by (rule chain_inv_keep [OF assms(1) _ assms(3,4)]) (use assms(2,3) in simp)
  then show ?thesis by (simp add: assms(3))
qed

lemma marks_chain_inv_tip:
  assumes "chain_inv st" "marks m D st st'" "tree_above (Tip (chainActive st)) st'"
    and "\<And>t x. Tip (chainActive st) = Some t \<Longrightarrow> x \<in> D \<Longrightarrow> \<not> tainted (store st) t \<Longrightarrow> \<not> is_ancestor (store st) x t"
  shows "chain_inv st'"
  using marks_chain_inv [OF assms] by (simp add: marksD(2) [OF assms(2)])

section \<open>Headers\<close>

lemma back_by_avoids: "(\<And>x. pprev (S x) \<noteq> Some p) \<Longrightarrow> x \<noteq> p \<Longrightarrow> back_by S n x = Some a \<Longrightarrow> a \<noteq> p"
proof (induction n arbitrary: x)
  case (Suc n)
  then obtain y where "pprev (S x) = Some y" "back_by S n y = Some a" by (auto split: option.splits)
  then show ?case using Suc.IH [OF Suc.prems(1)] Suc.prems(1) [of x] by auto
qed simp

lemma header_entry:
  assumes "\<And>x. pprev (S x) \<noteq> Some p" "x \<noteq> p"
  shows "back_by (S(p := b)) n x = back_by S n x" "tainted (S(p := b)) x = tainted S x"
proof -
  show walk: "back_by (S(p := b)) n x = back_by S n x" for n by (rule back_by_upd) (rule assms)+
  show "tainted (S(p := b)) x = tainted S x" using back_by_avoids [of S p x, OF assms] unfolding tainted_def is_ancestor_def walk by (metis fun_upd_other)
qed

lemma new_header_linking:
  assumes ok: "linking [] st" and np: "\<And>x. pprev (store st x) \<noteq> Some p" "\<not> is_linked (store st) p"
    and st': "store st' = (store st)(p := b)" "mapBlocksUnlinked st' = mapBlocksUnlinked st" and b: "nTx b = 0" "nChainTx b = 0" "nSequenceId b = 0"
      "nTx (store st p) = 0"
  shows "linking [] st'"
proof (rule linkingI)
  note old = linkingD [OF ok]
  have other: "store st' x = store st x" if "x \<noteq> p" for x using that st'(1) by simp
  have lnk: "is_linked (store st') x = is_linked (store st) x" for x using np(2) b(2) st'(1) by (simp add: is_linked_def)
  have lp: "x \<noteq> p" if "is_linked (store st) x" for x using that np(2) by auto
  have txs: "chain_txs (store st') x = chain_txs (store st) x" if "x \<noteq> p" for x
  proof -
    have "nTx (store st' y) = nTx (store st y)" for y using b(1,4) st'(1) by simp
    then show ?thesis using header_entry(1) [of "store st" p x b, OF np(1) that] other [OF that] by (simp add: chain_txs_def st'(1))
  qed
  show "nTx (store st' x) \<noteq> 0 \<and> unat (nChainTx (store st' x)) = chain_txs (store st') x" if "is_linked (store st') x" for x
    using that old(1,2) [of x] lp [of x] other [of x] txs [of x] by (simp add: lnk)
  show "is_linked (store st') q" if "is_linked (store st') x" "pprev (store st' x) = Some q" for x q
    using that old(3) [of x q] lp [of x] other [of x] by (simp add: lnk)
  show "has_data (store st' x)" if "nTx (store st' x) \<noteq> 0" for x
    using that old(4) [of x] b(1) st'(1) by (cases "x = p") simp_all
  show "x \<in> set [] \<or> (\<exists>q. pprev (store st' x) = Some q \<and> (failed (store st' q) \<or> (q, x) \<in> set (mapBlocksUnlinked st')))"
    if "nTx (store st' x) \<noteq> 0" "\<not> is_linked (store st') x" for x
  proof -
    have x: "x \<noteq> p" "nTx (store st x) \<noteq> 0" "\<not> is_linked (store st) x" using that(1) b(1) that(2) [unfolded lnk] unfolding st'(1) by (auto split: if_splits)
    then obtain q where q: "pprev (store st x) = Some q" "failed (store st q) \<or> (q, x) \<in> set (mapBlocksUnlinked st)" using old(5) [of x] by auto
    then have "q \<noteq> p" using np(1) [of x] by auto
    then show ?thesis using q x(1) by (simp add: st')
  qed
  show "pprev (store st' x) = Some q \<and> nTx (store st' x) \<noteq> 0 \<and> \<not> is_linked (store st') x \<and> \<not> is_linked (store st') q \<and> x \<notin> set []"
    if "(q, x) \<in> set (mapBlocksUnlinked st')" for q x
  proof -
    have x: "pprev (store st x) = Some q \<and> nTx (store st x) \<noteq> 0 \<and> \<not> is_linked (store st) x \<and> \<not> is_linked (store st) q"
      using that old(6) [of q x] st'(2) by simp
    then have "x \<noteq> p" using b(4) by auto
    then show ?thesis using x other [of x] by (simp add: lnk)
  qed
  show "nSequenceId (store st' x) \<le> 0" if "\<not> is_linked (store st') x" for x 
    using old(11) [OF that [unfolded lnk]] b(3) unfolding st'(1) by simp
qed (use linkingD(7) [OF ok] st'(2) in simp_all)

lemma new_header_cands:
  assumes ok: "cands_ok st" and np: "\<And>x. pprev (store st x) \<noteq> Some p" "\<not> is_linked (store st) p"
    and st': "store st' = (store st)(p := b)" "setBlockIndexCandidates st' = setBlockIndexCandidates st" "chainActive st' = chainActive st" and b: "nChainTx b = 0"
  shows "cands_ok st'"
proof -
  have lnk: "is_linked (store st') x = is_linked (store st) x" for x using np(2) b st'(1) by (simp add: is_linked_def)
  have lp: "x \<noteq> p" if "is_linked (store st) x" for x using that np(2) by auto
  have cmp: "CBlockIndexWorkComparator (store st') x y = CBlockIndexWorkComparator (store st) x y" if "is_linked (store st) x" "is_linked (store st) y" for x y
    by (rule comparator_cong) (use lp [OF that(1)] lp [OF that(2)] st'(1) in simp_all)
  have taint: "tainted (store st') x = tainted (store st) x" if "is_linked (store st) x" for x
    unfolding st'(1) by (rule header_entry(2)) (rule np(1), rule lp [OF that])
  have "sorted_wrt (CBlockIndexWorkComparator (store st')) (setBlockIndexCandidates st)"
    using cands_okD(1) [OF ok] by (rule sorted_wrt_mono_rel [rotated]) (simp add: cmp cands_okD(2) [OF ok])
  moreover have "x \<in> set (setBlockIndexCandidates st)" if "is_linked (store st) x" "\<not> tainted (store st') x"
      "\<And>t. Tip (chainActive st) = Some t \<Longrightarrow> \<not> CBlockIndexWorkComparator (store st') x t" for x
    using that cands_okD(4) [OF ok that(1)] cands_okD(3) [OF ok] cmp [OF that(1)] taint [OF that(1)] by blast
  ultimately show ?thesis using cands_okD(2,3) [OF ok] by (simp add: cands_above_def st'(2,3) lnk)
qed

lemma header_step:
  assumes inv: "chain_inv st" and new: "p \<notin> blocks_of st" "hashPrevBlock block \<noteq> hash" and st': "AddToBlockIndex hash p block st = Inr (q, st')"
  shows "chain_inv st'"
proof (cases "map_of (mapBlockIndex st) hash")
  case (Some q')
  then show ?thesis using inv st' by (simp add: AddToBlockIndex_def)
next
  case None
  have tr: "tree_inv st" using inv by (simp add: chain_above_def)
  then have idx: "index_ok st" and l: "linking [] st" and c: "cands_ok st" and lv: "levels_ok st" by (simp_all add: tree_above_def)
  obtain b where b: "store st' = (store st)(p := b)" "mapBlockIndex st' = (hash, p) # mapBlockIndex st" "same_but_index st st'"
      "entry_for hash block st b" "index_ok st'"
    using AddToBlockIndex_new [OF idx new(1) None new(2)] st' by auto
  note np = not_parent [OF idx new(1)]
  have nl: "\<not> is_linked (store st) p" "nTx (store st p) = 0" using index_okD(4) [OF idx new(1)] by (simp_all add: is_linked_def CBlockIndex_SetNull_def)
  have e: "nTx b = 0" "nChainTx b = 0" "nSequenceId b = 0" "nStatus b = BLOCK_VALID_TREE" using b(4) by (simp_all add: entry_for_def)
  have s: "chainActive st' = chainActive st" "setBlockIndexCandidates st' = setBlockIndexCandidates st" "mapBlocksUnlinked st' = mapBlocksUnlinked st"
    using b(3) by (simp_all add: same_but_index_def)
  have "levels_ok st'" using lv b(1,2) e(4) by (auto simp: levels_ok_def blocks_of_def block_status_defs)
  then have "tree_inv st'" using b(5) new_header_linking [OF l np nl(1) b(1) s(3) e(1-3) nl(2)] new_header_cands [OF c np nl(1) b(1) s(2,1) e(2)]
    by (simp add: tree_above_def)
  then show ?thesis
  proof (rule chain_inv_keep_tip [OF inv _ s(1)])
    fix t assume t: "is_linked (store st) t" "\<not> tainted (store st) t"
    then have tp: "t \<noteq> p" using nl(1) by auto
    show "is_linked (store st') t \<and> \<not> tainted (store st') t \<and> nHeight (store st' t) = nHeight (store st t) \<and>
        (\<forall>n. back_by (store st') n t = back_by (store st) n t)"
      using t tp header_entry [of "store st" p t b, OF np tp] by (simp add: b(1) is_linked_def)
  qed
qed

section \<open>The other steps\<close>

lemma data_step:
  assumes inv: "chain_inv st" and p: "p \<in> blocks_of st" "nTx (store st p) = 0" and size: "0 < n" "n < 2 ^ 32"
    and bound: "\<And>x. chain_txs ((store st)(p := (store st p)\<lparr>nTx := of_nat n\<rparr>)) x < 2 ^ 32"
    and st': "ReceivedBlockTransactions n pos p st = Inr st'"
  shows "chain_inv st'"
proof -
  have tr: "tree_inv st" using inv by (simp add: chain_above_def)
  have new: "tree_inv st'" "same_tree st st'" "chainActive st' = chainActive st" "\<And>x. failed (store st' x) = failed (store st x)"
    using ReceivedBlockTransactions_inv [OF tr p size bound, of pos] st' by auto
  show ?thesis
  proof (rule chain_inv_keep_tip [OF inv new(1,3)])
    fix t assume t: "is_linked (store st) t" "\<not> tainted (store st) t" "Tip (chainActive st) = Some t"
    have "is_linked (store st') t" using t(3) new(1,3) cands_okD(3) [of "Tip (chainActive st')" st' t] by (simp add: tree_above_def)
    moreover have "tainted (store st') t = tainted (store st) t" by (rule tainted_cong) (rule same_treeD(2) [OF new(2)], rule new(4))
    ultimately show "is_linked (store st') t \<and> \<not> tainted (store st') t \<and> nHeight (store st' t) = nHeight (store st t) \<and>
        (\<forall>n. back_by (store st') n t = back_by (store st) n t)"
      using t(2) same_treeD(4,11) [OF new(2)] by simp
  qed
qed

lemma invalid_step:
  assumes inv: "chain_inv st" and p: "p \<in> blocks_of st" "\<And>t. Tip (chainActive st) = Some t \<Longrightarrow> \<not> is_ancestor (store st) p t"
    and st': "InvalidBlockFound env cp p st w = Inr (st', w')"
  shows "chain_inv st'"
proof -
  have "tree_inv st" using inv by (simp add: chain_above_def)
  from InvalidBlockFound_marks [OF this p(1) st'] show ?thesis using inv p(2) by (cases cp) (auto intro: marks_chain_inv_tip)
qed

lemma search_step:
  assumes inv: "chain_inv st" and st': "FindMostWorkChain st = Some (Inr (r, st'))"
  shows "chain_inv st'"
proof -
  have "tree_inv st" using inv by (simp add: chain_above_def)
  from FindMostWorkChain_search [OF this chain_inv_active [OF inv]] obtain D where
    D: "tree_above (Tip (chainActive st)) st'" "marks BLOCK_FAILED_CHILD D st st'" "\<And>x. x \<in> D \<Longrightarrow> tainted (store st) x" using st' by auto
  have "\<not> is_ancestor (store st) x t" if "x \<in> D" "\<not> tainted (store st) t" for t x
    using D(3) [OF that(1)] that(2) is_ancestor_trans unfolding tainted_def by blast
  then show ?thesis by (intro marks_chain_inv_tip [OF inv D(2,1)]) blast
qed

section \<open>Linked blocks and their data\<close>

text \<open>A block without a failed ancestor is linked exactly when it and all its ancestors have their data.\<close>

lemma linked_iff_data:
  assumes inv: "tree_above F st" and clean: "\<not> tainted (store st) p"
  shows "is_linked (store st) p \<longleftrightarrow> (\<forall>a. is_ancestor (store st) a p \<longrightarrow> nTx (store st a) \<noteq> 0)"
proof
  have l: "linking [] st" using inv by (simp add: tree_above_def)
  show "\<forall>a. is_ancestor (store st) a p \<longrightarrow> nTx (store st a) \<noteq> 0" if "is_linked (store st) p"
    using linked_ancestor [OF l that] linkingD(1) [OF l] unfolding is_ancestor_def by blast
  show "is_linked (store st) p" if "\<forall>a. is_ancestor (store st) a p \<longrightarrow> nTx (store st a) \<noteq> 0"
    using that clean
  proof (induction "nHeight (store st p)" arbitrary: p rule: less_induct)
    case less
    show ?case
    proof (rule ccontr)
      assume nl: "\<not> is_linked (store st) p"
      have "nTx (store st p) \<noteq> 0" using less.prems(1) is_ancestor_refl by blast
      from linkingD(5) [OF l this nl] obtain q where q: "pprev (store st p) = Some q" "failed (store st q) \<or> (q, p) \<in> set (mapBlocksUnlinked st)" by auto
      have up: "is_ancestor (store st) a p" if "is_ancestor (store st) a q" for a
        by (rule is_ancestor_trans [OF that]) (rule is_ancestor_parent [OF is_ancestor_refl [of "store st" p] q(1)])
      have nq: "\<not> tainted (store st) q" using less.prems(2) up unfolding tainted_def by blast
      then have "(q, p) \<in> set (mapBlocksUnlinked st)" using q(2) by (subst (asm) tainted_iff) blast
      moreover have "is_linked (store st) q"
        using less.hyps [of q] up nq less.prems(1) block_tree_parent [OF tree_inv_tree [OF inv] q(1)] by simp
      ultimately show False using linkingD(6) [OF l] by blast
    qed
  qed
qed

lemma chain_txs_le: "(\<And>y. unat (nTx (S y)) \<le> M) \<Longrightarrow> chain_txs S x \<le> (nHeight (S x) + 1) * M"
  unfolding chain_txs_def using sum_bounded_above [of "{..<nHeight (S x) + 1}" "\<lambda>i. unat (nTx (S (the (back_by S i x))))" M] by simp

end
