(* ===== verification/Accept.thy ===== *)
theory Accept
  imports Block_Checks Activate_Genesis Tree_Steps
begin

unbundle bit_operations_syntax

text \<open>
  Taking in headers and blocks: \<open>AcceptBlockHeader\<close>, \<open>ProcessNewBlockHeaders\<close>, \<open>AcceptBlock\<close> and
  \<open>ProcessNewBlock\<close> of \<open>src/src/validation.cpp\<close>, on the whole state of the node: the block tree, the
  warnings about forks, the block files, the coins at the tip and the cache of the version bits.

  Writing a block to the disk is left out (when it fails, the node asks for a shutdown and the function goes on), and so
  is the flush that may follow when space was allocated.
  The notifications of other components and the checks of \<open>CheckBlockIndex\<close> change nothing and are left out.
\<close>

section \<open>State\<close>

record 'v node_state =
  chain :: chainstate
  forks :: fork_state
  block_data :: block_files
  pcoinsTip :: "'v CCoinsViewCache"
  versionbitscache :: VersionBitsCache
  pindexHeaderOld :: "block_ptr option"

record accept_io =
  io_node :: node_env
  io_files :: files_env

datatype accept_error = AcceptTree tree_error | AcceptAmount amount_error

definition from_tree :: "tree_error + 'b \<Rightarrow> accept_error + 'b" where
  "from_tree r = (case r of Inl e \<Rightarrow> Inl (AcceptTree e) | Inr x \<Rightarrow> Inr x)"

definition MIN_BLOCKS_TO_KEEP :: int where "MIN_BLOCKS_TO_KEEP = 576"

section \<open>Headers\<close>

text \<open>\<open>p\<close> is the address of the entry that a new header gets.  Entries of the index are never null, so the branch that
  erases such an entry does not occur.\<close>

definition AcceptBlockHeader ::
    "'a block_env \<Rightarrow> block_ptr \<Rightarrow> 'b CBlockHeader_scheme \<Rightarrow> CValidationState \<Rightarrow> chainstate \<Rightarrow> tree_error + block_ptr checked \<times> chainstate" where
  "AcceptBlockHeader env p block state st =
     (let hash = block_hash env block;
          add = ebind (AddToBlockIndex hash p block st) (\<lambda>(pindex, st). Inr (Inr pindex, st))
      in if hash = hashGenesisBlock env then add
         else case map_of (mapBlockIndex st) hash of
           Some pindex \<Rightarrow>
             if nStatus (store st pindex) AND BLOCK_FAILED_MASK \<noteq> 0 then Inr (Inl (state_Invalid 0 ''duplicate'' state), st)
             else Inr (Inr pindex, st)
         | None \<Rightarrow>
             (case CheckBlockHeader env block state True of
                Inl state \<Rightarrow> Inr (Inl state, st)
              | Inr _ \<Rightarrow>
                (case map_of (mapBlockIndex st) (hashPrevBlock block) of
                   None \<Rightarrow> Inr (Inl (state_DoS 10 0 ''bad-prevblk'' False state), st)
                 | Some pindexPrev \<Rightarrow>
                     if nStatus (store st pindexPrev) AND BLOCK_FAILED_MASK \<noteq> 0 then Inr (reject 100 ''bad-prevblk'' state, st)
                     else case (if fCheckpointsEnabled env then CheckIndexAgainstCheckpoint env st pindexPrev state else Inr ()) of
                       Inl state \<Rightarrow> Inr (Inl state, st)
                     | Inr _ \<Rightarrow>
                         ebind (ContextualCheckBlockHeader env (store st) block state pindexPrev) (\<lambda>r.
                           case r of Inl state \<Rightarrow> Inr (Inl state, st) | Inr _ \<Rightarrow> add))))"

text \<open>The notification about a new best header asks whether the first download is over, which may set a flag for good.\<close>

definition NotifyHeaderTip :: "node_env \<Rightarrow> 'v node_state \<Rightarrow> tree_error + 'v node_state" where
  "NotifyHeaderTip env ns =
     (if pindexBestHeader (chain ns) \<noteq> pindexHeaderOld ns then
        ebind (IsInitialBlockDownload env (chain ns) (forks ns)) (\<lambda>(_, w).
          Inr (ns\<lparr>forks := w, pindexHeaderOld := pindexBestHeader (chain ns)\<rparr>))
      else Inr ns)"

text \<open>Each header comes with the address of its entry.\<close>

fun accept_headers :: "'a block_env \<Rightarrow> (block_ptr \<times> CBlockHeader) list \<Rightarrow> CValidationState \<Rightarrow> chainstate \<Rightarrow> tree_error + unit checked \<times> chainstate" where
  "accept_headers env [] state st = Inr (Inr (), st)"
| "accept_headers env ((p, header) # hs) state st =
     ebind (AcceptBlockHeader env p header state st) (\<lambda>(r, st).
       case r of Inl state \<Rightarrow> Inr (Inl state, st) | Inr _ \<Rightarrow> accept_headers env hs state st)"

definition ProcessNewBlockHeaders ::
    "'a block_env \<Rightarrow> node_env \<Rightarrow> (block_ptr \<times> CBlockHeader) list \<Rightarrow> CValidationState \<Rightarrow> 'v node_state \<Rightarrow> tree_error + unit checked \<times> 'v node_state" where
  "ProcessNewBlockHeaders env nenv hs state ns =
     ebind (accept_headers env hs state (chain ns)) (\<lambda>(r, st).
       let ns = ns\<lparr>chain := st\<rparr> in
       case r of Inl state \<Rightarrow> Inr (Inl state, ns) | Inr _ \<Rightarrow> ebind (NotifyHeaderTip nenv ns) (\<lambda>ns. Inr (Inr (), ns)))"

section \<open>Blocks\<close>

text \<open>\<open>CheckBlock\<close> and \<open>ContextualCheckBlock\<close>, one after the other.\<close>

definition check_both ::
    "('a :: linorder) block_env \<Rightarrow> 'v CCoinsView \<Rightarrow> CBlock \<Rightarrow> CValidationState \<Rightarrow> block_ptr option \<Rightarrow> 'v node_state \<Rightarrow> (accept_error + unit checked \<times> 'v node_state) option" where
  "check_both env V block state pindexPrev ns =
     (case CheckBlock env V (mapBlockIndex (chain ns)) block state True True (pcoinsTip ns) of
        (Inl e, c) \<Rightarrow> Some (Inl (AcceptAmount e))
      | (Inr (Inl state), c) \<Rightarrow> Some (Inr (Inl state, ns\<lparr>pcoinsTip := c\<rparr>))
      | (Inr (Inr block), c) \<Rightarrow>
          map_option (\<lambda>r. ebind (from_tree r) (\<lambda>(v, cache). Inr (v, ns\<lparr>pcoinsTip := c, versionbitscache := cache\<rparr>)))
            (ContextualCheckBlock env (chain ns) block state pindexPrev (versionbitscache ns)))"

definition mark_failed :: "block_ptr \<Rightarrow> chainstate \<Rightarrow> chainstate" where
  "mark_failed p st = mark_dirty p (update_block p (\<lambda>b. b\<lparr>nStatus := nStatus b OR BLOCK_FAILED_VALID\<rparr>) st)"

text \<open>Storing the data of a block that has passed the checks.\<close>

definition store_data ::
    "accept_io \<Rightarrow> CBlock \<Rightarrow> CValidationState \<Rightarrow> block_ptr \<Rightarrow> CDiskBlockPos option \<Rightarrow> 'v node_state \<Rightarrow> (accept_error + unit checked \<times> 'v node_state) option" where
  "store_data io block state pindex dbp ns =
     (case FindBlockPos (io_files io) state (case dbp of Some pos \<Rightarrow> pos | None \<Rightarrow> CDiskBlockPos_SetNull) (of_nat (length (Serialize_CBlock block)) + 8)
           (of_nat (nHeight (store (chain ns) pindex))) (ucast (hdr_nTime block)) (dbp \<noteq> None) (block_data ns) of
        None \<Rightarrow> None
      | Some (Inl state, fs) \<Rightarrow> Some (Inr (Inl state, ns\<lparr>block_data := fs\<rparr>))
      | Some (Inr pos, fs) \<Rightarrow>
          Some (from_tree (ebind (ReceivedBlockTransactions (length (vtx block)) pos pindex (chain ns)) (\<lambda>st.
            Inr (Inr (), ns\<lparr>block_data := fs, chain := st\<rparr>)))))"

text \<open>A block that is not processed: its data is here already, or nobody asked for it and it was here before, has not more work
  than the tip, or is too far ahead.\<close>

definition unwanted :: "chainstate \<Rightarrow> bool \<Rightarrow> block_ptr \<Rightarrow> bool" where
  "unwanted st fRequested pindex =
     (let b = store st pindex;
          fAlreadyHave = (nStatus b AND BLOCK_HAVE_DATA \<noteq> 0);
          fHasMoreWork = (case Tip (chainActive st) of None \<Rightarrow> True | Some t \<Rightarrow> CompareTo (nChainWork b) (nChainWork (store st t)) > 0);
          fTooFarAhead = (int (nHeight b) > Height (chainActive st) + MIN_BLOCKS_TO_KEEP)
      in fAlreadyHave \<or> \<not> fRequested \<and> (nTx b \<noteq> 0 \<or> \<not> fHasMoreWork \<or> fTooFarAhead))"

text \<open>The checks of a block that is processed, and what follows from them.\<close>

definition check_and_store ::
    "('a :: linorder) block_env \<Rightarrow> accept_io \<Rightarrow> 'v CCoinsView \<Rightarrow> CBlock \<Rightarrow> CValidationState \<Rightarrow> block_ptr \<Rightarrow> CDiskBlockPos option \<Rightarrow> 'v node_state \<Rightarrow>
     (accept_error + unit checked \<times> 'v node_state) option" where
  "check_and_store env io V block state pindex dbp ns =
     obind (check_both env V block state (pprev (store (chain ns) pindex)) ns) (\<lambda>(v, ns).
       case v of
         Inl state \<Rightarrow>
           Some (Inr (Inl state, if state_IsInvalid state \<and> \<not> vs_corruptionPossible state then ns\<lparr>chain := mark_failed pindex (chain ns)\<rparr> else ns))
       | Inr _ \<Rightarrow>
           obind (Some (from_tree (IsInitialBlockDownload (io_node io) (chain ns) (forks ns)))) (\<lambda>(_, w).
             store_data io block state pindex dbp (ns\<lparr>forks := w\<rparr>)))"

text \<open>The result is \<open>fNewBlock\<close> and the verdict.\<close>

definition AcceptBlock ::
    "('a :: linorder) block_env \<Rightarrow> accept_io \<Rightarrow> 'v CCoinsView \<Rightarrow> block_ptr \<Rightarrow> CBlock \<Rightarrow> CValidationState \<Rightarrow> bool \<Rightarrow> CDiskBlockPos option \<Rightarrow> 'v node_state \<Rightarrow>
     (accept_error + (bool \<times> unit checked) \<times> 'v node_state) option" where
  "AcceptBlock env io V p block state fRequested dbp ns =
     obind (Some (from_tree (AcceptBlockHeader env p block state (chain ns)))) (\<lambda>(r, st).
       let ns = ns\<lparr>chain := st\<rparr> in
       case r of
         Inl state \<Rightarrow> Some (Inr ((False, Inl state), ns))
       | Inr pindex \<Rightarrow>
           if unwanted st fRequested pindex then Some (Inr ((False, Inr ()), ns))
           else obind (check_and_store env io V block state pindex dbp ns) (\<lambda>(v, ns). Some (Inr ((True, v), ns))))"

definition ProcessNewBlock ::
    "('a :: linorder) block_env \<Rightarrow> accept_io \<Rightarrow> act_env \<Rightarrow> 'v CCoinsView \<Rightarrow> block_ptr \<Rightarrow> CBlock \<Rightarrow> bool \<Rightarrow> 'v node_state \<Rightarrow>
     (accept_error + (bool \<times> bool) \<times> 'v node_state) option" where
  "ProcessNewBlock env io aenv V p block fForceProcessing ns =
     (case CheckBlock env V (mapBlockIndex (chain ns)) block CValidationState_init True True (pcoinsTip ns) of
        (Inl e, c) \<Rightarrow> Some (Inl (AcceptAmount e))
      | (Inr (Inl _), c) \<Rightarrow> Some (Inr ((False, False), ns\<lparr>pcoinsTip := c\<rparr>))
      | (Inr (Inr block), c) \<Rightarrow>
          obind (AcceptBlock env io V p block CValidationState_init fForceProcessing None (ns\<lparr>pcoinsTip := c\<rparr>)) (\<lambda>((fNewBlock, r), ns).
            case r of
              Inl _ \<Rightarrow> Some (Inr ((fNewBlock, False), ns))
            | Inr _ \<Rightarrow>
                obind (Some (from_tree (NotifyHeaderTip (io_node io) ns))) (\<lambda>ns.
                obind (map_option from_tree (ActivateBestChain aenv (chain ns) (forks ns))) (\<lambda>(ok, st, w).
                  Some (Inr ((fNewBlock, ok), ns\<lparr>chain := st, forks := w\<rparr>))))))"

end
