(* ===== verification/Accept_Steps.thy ===== *)
theory Accept_Steps
  imports Accept
begin

unbundle bit_operations_syntax

text \<open>
  What taking in headers and blocks keeps (\<open>src/src/validation.cpp\<close>): the invariants of the block tree, the rule
  of the block times that the version bits rely on, the correctness of their cache, the accumulated work that grows
  along every chain, and the single root.
\<close>

section \<open>The version bits on a growing tree\<close>

abbreviation csv :: "'a block_env \<Rightarrow> checker" where
  "csv env \<equiv> VersionBitsConditionChecker (deployments env) DEPLOYMENT_CSV"

text \<open>Two stores that agree on the ancestors of a block.\<close>

definition agree :: "block_store \<Rightarrow> block_store \<Rightarrow> block_ptr \<Rightarrow> bool" where
  "agree S T p \<longleftrightarrow> (\<forall>x. is_ancestor S x p \<longrightarrow> pprev (S x) = pprev (T x) \<and> nHeight (S x) = nHeight (T x) \<and> nTime (S x) = nTime (T x))"

lemma agree_ancestor: "agree S T p \<Longrightarrow> is_ancestor S x p \<Longrightarrow> agree S T x"
  unfolding agree_def using is_ancestor_trans by blast

lemma agree_parent: "agree S T p \<Longrightarrow> pprev (S p) = Some q \<Longrightarrow> agree S T q"
  using agree_ancestor [of S T p q] is_ancestor_parent [OF is_ancestor_refl [of S p]] by blast

lemma agree_self: "agree S T p \<Longrightarrow> pprev (S p) = pprev (T p) \<and> nHeight (S p) = nHeight (T p) \<and> nTime (S p) = nTime (T p)"
  by (simp add: agree_def)

lemma agree_back_by: "agree S T p \<Longrightarrow> back_by S n p = back_by T n p"
proof (induction n arbitrary: p)
  case (Suc n)
  then show ?case using agree_self [OF Suc.prems] agree_parent [OF Suc.prems] by (cases "pprev (T p)") auto
qed simp

lemma agree_median_times: "agree S T p \<Longrightarrow> median_times S n (Some p) = median_times T n (Some p)"
proof (induction n arbitrary: p)
  case (Suc n)
  then show ?case using agree_self [OF Suc.prems] agree_parent [OF Suc.prems] by (cases "pprev (T p)") (auto simp: GetBlockTime_def)
qed simp

lemma agree_median: "agree S T p \<Longrightarrow> GetMedianTimePast S p = GetMedianTimePast T p"
  by (simp add: GetMedianTimePast_def agree_median_times)

lemma agree_bip9:
  assumes "\<And>b. \<not> Condition c b"
  shows "agree S T p \<Longrightarrow> bip9 S c k (Some p) = bip9 T c k (Some p)"
proof (induction k arbitrary: p)
  case (Suc k)
  have "bip9 S c k (back_by S (Period c) p) = bip9 T c k (back_by T (Period c) p)"
  proof (cases "back_by T (Period c) p")
    case None
    then show ?thesis using agree_back_by [OF Suc.prems] by (cases k) simp_all
  next
    case (Some q)
    then have "back_by S (Period c) p = Some q" using agree_back_by [OF Suc.prems] by simp
    then have "is_ancestor S q p" by (auto simp: is_ancestor_def)
    then show ?thesis using Suc.IH [OF agree_ancestor [OF Suc.prems]] Some \<open>back_by S (Period c) p = Some q\<close> by simp
  qed
  moreover have "signals S c n p = 0" "signals T c n p = 0" for n using assms by (simp_all add: signals_def split: option.split)
  then have "bip9_step S c p s = bip9_step T c p s" for s using agree_median [OF Suc.prems] by (cases s) simp_all
  ultimately show ?case by simp
qed simp

lemma agree_bip9_at: "(\<And>b. \<not> Condition c b) \<Longrightarrow> agree S T p \<Longrightarrow> bip9_at S c (Some p) = bip9_at T c (Some p)"
  using agree_bip9 [of c S T p] agree_self [of S T p] by (simp add: bip9_at_def)

lemma csv_condition: "\<not> Condition (csv env) b"
  by (simp add: VersionBitsConditionChecker_def Let_def VersionBitsCondition_False)

lemma agree_cache:
  assumes "cache_ok S (csv env) cache" "\<And>x. cache (Some x) \<noteq> None \<Longrightarrow> agree S T x"
  shows "cache_ok T (csv env) cache"
  unfolding cache_ok_def
proof (intro allI impI)
  fix p s assume s: "cache p = Some s"
  then have "s = bip9_at S (csv env) p" using assms(1) by (simp add: cache_ok_def)
  moreover have "bip9_at S (csv env) p = bip9_at T (csv env) p"
  proof (cases p)
    case None
    then show ?thesis by (simp add: bip9_at_def)
  next
    case (Some x)
    then show ?thesis using agree_bip9_at [OF csv_condition assms(2) [of x], of env] s by simp
  qed
  ultimately show "s = bip9_at T (csv env) p" by simp
qed

lemma agree_times:
  assumes "times_ok S" "\<And>x. agree S T x"
  shows "times_ok T"
  using assms agree_self [OF assms(2)] agree_median [OF assms(2)] by (simp add: times_ok_def GetBlockTime_def)

lemma same_tree_agree: "same_tree st st' \<Longrightarrow> agree (store st) (store st') x"
  by (simp add: agree_def same_treeD)

lemma fresh_agree:
  assumes "\<And>x. pprev (S x) \<noteq> Some p" "x \<noteq> p"
  shows "agree S (S(p := b)) x"
  using back_by_avoids [of S p x] assms unfolding agree_def is_ancestor_def by auto

section \<open>The invariant of the node\<close>

text \<open>What is asked of the parameters: no header hashes to zero, only a header without a parent hashes to the genesis
  hash, and the deployment has a period and ends after it begins.\<close>

definition env_ok :: "'a block_env \<Rightarrow> bool" where
  "env_ok env \<longleftrightarrow> (\<forall>h :: CBlockHeader. block_hash env h \<noteq> 0 \<and> (block_hash env h = hashGenesisBlock env \<longrightarrow> hashPrevBlock h = 0)) \<and>
     0 < Period (csv env) \<and> BeginTime (csv env) \<le> EndTime (csv env)"

text \<open>Hashes of the index are not zero, and the only root is the genesis block.\<close>

definition hashes_known :: "'a block_env \<Rightarrow> chainstate \<Rightarrow> bool" where
  "hashes_known env st \<longleftrightarrow> (\<forall>(h, p) \<in> set (mapBlockIndex st). h \<noteq> 0 \<and> (pprev (store st p) = None \<longrightarrow> h = hashGenesisBlock env))"

definition tree_ok :: "'a block_env \<Rightarrow> act_env \<Rightarrow> VersionBitsCache \<Rightarrow> chainstate \<Rightarrow> fork_state \<Rightarrow> bool" where
  "tree_ok env aenv vb st w \<longleftrightarrow> node_inv aenv st w \<and> genesis_connects aenv st \<and> hashes_known env st \<and> times_ok (store st) \<and>
     cache_ok (store st) (csv env) (vb DEPLOYMENT_CSV)"

lemma tree_okD:
  assumes "tree_ok env aenv vb st w"
  shows "node_inv aenv st w" "genesis_connects aenv st" "hashes_known env st" "times_ok (store st)" "cache_ok (store st) (csv env) (vb DEPLOYMENT_CSV)"
    "chain_inv st" "index_ok st" "linking [] st" "block_tree (store st)" "skips_ok (store st)" "forks_ok w" "work_grows (store st)"
  using assms index_okD(7,8) [of st] by (simp_all add: tree_ok_def node_inv_def chain_above_def tree_above_def)

lemma block_hash_truncate: "block_hash env block = block_hash env (CBlockHeader.truncate block)"
  by (simp add: block_hash_def CBlockHeader_GetHash_def Serialize_CBlockHeader_def CBlockHeader.truncate_def)

lemma env_okD:
  assumes "env_ok env"
  shows "block_hash env (h :: CBlockHeader) \<noteq> 0" "block_hash env h = hashGenesisBlock env \<Longrightarrow> hashPrevBlock h = 0"
    "block_hash env (b :: CBlock) \<noteq> 0" "block_hash env b = hashGenesisBlock env \<Longrightarrow> hashPrevBlock b = 0"
proof -
  show "block_hash env h \<noteq> 0" "block_hash env h = hashGenesisBlock env \<Longrightarrow> hashPrevBlock h = 0" using assms by (simp_all add: env_ok_def)
  show "block_hash env b \<noteq> 0" "block_hash env b = hashGenesisBlock env \<Longrightarrow> hashPrevBlock b = 0"
    using assms block_hash_truncate [of env b] by (auto simp: env_ok_def CBlockHeader.truncate_def)
qed

text \<open>The work of a new block does not overflow, its address is fresh, and a genesis block connects.\<close>

definition header_fits :: "'a block_env \<Rightarrow> act_env \<Rightarrow> VersionBitsCache \<Rightarrow> chainstate \<Rightarrow> block_ptr \<Rightarrow> 'b CBlockHeader_scheme \<Rightarrow> bool" where
  "header_fits env aenv vb st p block \<longleftrightarrow> p \<notin> blocks_of st \<and> vb DEPLOYMENT_CSV (Some p) = None \<and>
     (block_hash env block = hashGenesisBlock env \<longrightarrow> verdict aenv p = ConnectOk) \<and>
     (case map_of (mapBlockIndex st) (hashPrevBlock block) of None \<Rightarrow> True
      | Some q \<Rightarrow> nval (nChainWork (store st q)) + 2 ^ 256 div (nval (fst (SetCompact (hdr_nBits block))) + 1) < 2 ^ 256)"

text \<open>What a header has passed when it is added.\<close>

definition header_passed :: "'a block_env \<Rightarrow> chainstate \<Rightarrow> 'b CBlockHeader_scheme \<Rightarrow> bool" where
  "header_passed env st block \<longleftrightarrow> block_hash env block = hashGenesisBlock env \<or>
     (\<exists>q. map_of (mapBlockIndex st) (hashPrevBlock block) = Some q \<and> \<not> failed (store st q) \<and>
        CheckProofOfWork (block_hash env block) (hdr_nBits block) (pow env) \<and> GetMedianTimePast (store st) q < hdr_GetBlockTime block)"

lemma AddToBlockIndex_best:
  "AddToBlockIndex hash p block st = Inr (q, st') \<Longrightarrow> map_of (mapBlockIndex st) hash = None \<Longrightarrow> pindexBestHeader st' \<noteq> None"
  by (auto simp: AddToBlockIndex_def finish_entry_def Let_def ebind_eq_Inr mark_dirty_def split: option.splits if_splits)

lemma proof_positive:
  assumes "CheckProofOfWork hash (nBits b) params"
  shows "\<exists>w. GetBlockProof b = Inr w \<and> length w = 8 \<and> nval w = 2 ^ 256 div (nval (fst (SetCompact (nBits b))) + 1) \<and> 0 < nval w"
proof -
  obtain t neg ovf where t: "SetCompact (nBits b) = (t, neg, ovf)" by (rule prod_cases3)
  have len: "length t = 8" using length_SetCompact [of "nBits b"] by (simp add: t)
  have ok: "\<not> neg" "\<not> ovf" "nval t \<noteq> 0" using assms len by (auto simp: CheckProofOfWork_def t EqualTo_zero split: if_splits)
  have "nval t + 1 \<le> 2 ^ 256" using nval_less [of t] len by simp
  then have "0 < 2 ^ 256 div (nval t + 1)" by (simp add: div_greater_zero_iff)
  then show ?thesis using GetBlockProof_val [of b] ok by (auto simp: t)
qed

text \<open>The work of an entry on top of another.\<close>

lemma new_work:
  assumes idx: "index_ok st'" and p: "p \<in> blocks_of st'" "pprev (store st' p) = Some q" and pow: "CheckProofOfWork hash (nBits (store st' p)) params"
    and fits: "nval (nChainWork (store st' q)) + 2 ^ 256 div (nval (fst (SetCompact (nBits (store st' p)))) + 1) < 2 ^ 256"
  shows "nval (nChainWork (store st' q)) < nval (nChainWork (store st' p))"
proof -
  obtain w where w: "GetBlockProof (store st' p) = Inr w" "length w = 8" "nval w = 2 ^ 256 div (nval (fst (SetCompact (nBits (store st' p)))) + 1)" "0 < nval w"
    using proof_positive [OF pow] by blast
  have "nChainWork (store st' p) = uint_add (nChainWork (store st' q)) w"
    using index_okD(11) [OF idx p(1)] p(2) w(1) by (simp add: chain_work_def from_pow_def)
  then have "nval (nChainWork (store st' p)) = nval (nChainWork (store st' q)) + nval w"
    using w(2,3) index_okD(10) [OF idx, of q] fits by (simp add: nval_uint_add)
  then show ?thesis using w(4) by simp
qed

text \<open>A new entry \<open>b\<close> at \<open>p\<close> for a header that has passed the checks.\<close>

definition adds :: "'a block_env \<Rightarrow> act_env \<Rightarrow> VersionBitsCache \<Rightarrow> fork_state \<Rightarrow> 'b CBlockHeader_scheme \<Rightarrow> block_ptr \<Rightarrow> CBlockIndex \<Rightarrow> chainstate \<Rightarrow> chainstate \<Rightarrow> bool" where
  "adds env aenv vb w block p b st st' \<longleftrightarrow> tree_ok env aenv vb st w \<and> header_fits env aenv vb st p block \<and> header_passed env st block \<and>
     block_hash env block \<noteq> 0 \<and> (block_hash env block = hashGenesisBlock env \<longrightarrow> hashPrevBlock block = 0) \<and>
     map_of (mapBlockIndex st) (block_hash env block) = None \<and> store st' = (store st)(p := b) \<and>
     mapBlockIndex st' = (block_hash env block, p) # mapBlockIndex st \<and> same_but_index st st' \<and> entry_for (block_hash env block) block st b \<and> index_ok st'"

lemma addsD:
  assumes "adds env aenv vb w block p b st st'"
  shows "tree_ok env aenv vb st w" "store st' x = (if x = p then b else store st x)" "blocks_of st' = insert p (blocks_of st)" "index_ok st'" "same_but_index st st'"
    "p \<notin> blocks_of st" "vb DEPLOYMENT_CSV (Some p) = None" "pprev (store st x) \<noteq> Some p" "pprev b = map_of (mapBlockIndex st) (hashPrevBlock block)"
    "nBits b = hdr_nBits block" "nTime b = hdr_nTime block" "nTx b = 0" "nStatus b = BLOCK_VALID_TREE" "pprev b \<noteq> Some p"
    "pprev b = None \<longleftrightarrow> block_hash env block = hashGenesisBlock env" "mapBlockIndex st' = (block_hash env block, p) # mapBlockIndex st"
    "x \<noteq> p \<Longrightarrow> agree (store st) (store st') x" "map_of (mapBlockIndex st) (block_hash env block) = None" "store st' = (store st)(p := b)"
    "pprev b = Some q \<Longrightarrow> CheckProofOfWork (block_hash env block) (hdr_nBits block) (pow env) \<and> GetMedianTimePast (store st) q < hdr_GetBlockTime block"
    "block_hash env block \<noteq> 0" "header_fits env aenv vb st p block" "block_hash env block = hashGenesisBlock env \<Longrightarrow> hashPrevBlock block = 0"
proof -
  show t: "tree_ok env aenv vb st w" and ix: "mapBlockIndex st' = (block_hash env block, p) # mapBlockIndex st" "index_ok st'" "same_but_index st st'"
    "map_of (mapBlockIndex st) (block_hash env block) = None" and s: "store st' = (store st)(p := b)" and nz: "block_hash env block \<noteq> 0"
    and fit: "header_fits env aenv vb st p block" and g: "block_hash env block = hashGenesisBlock env \<Longrightarrow> hashPrevBlock block = 0"
    using assms by (simp_all add: adds_def)
  show "store st' x = (if x = p then b else store st x)" "blocks_of st' = insert p (blocks_of st)" by (simp_all add: s ix(1) blocks_of_def)
  show fresh: "p \<notin> blocks_of st" "vb DEPLOYMENT_CSV (Some p) = None" using fit by (simp_all add: header_fits_def)
  note np = not_parent [OF tree_okD(7) [OF t] fresh(1)]
  show "pprev (store st x) \<noteq> Some p" by (rule np)
  show b: "pprev b = map_of (mapBlockIndex st) (hashPrevBlock block)" "nBits b = hdr_nBits block" "nTime b = hdr_nTime block" "nTx b = 0" "nStatus b = BLOCK_VALID_TREE"
    using assms by (simp_all add: adds_def entry_for_def)
  show "pprev b \<noteq> Some p" unfolding b(1) using fresh(1) by (auto simp: blocks_of_def dest!: map_of_SomeD intro: rev_image_eqI)
  show "x \<noteq> p \<Longrightarrow> agree (store st) (store st') x" unfolding s by (rule fresh_agree [OF np])
  have "map_of (mapBlockIndex st) 0 = None" using tree_okD(3) [OF t] by (auto simp: hashes_known_def map_of_eq_None_iff)
  then show "pprev b = None \<longleftrightarrow> block_hash env block = hashGenesisBlock env" unfolding b(1) using assms by (auto simp: adds_def header_passed_def)
  then show "pprev b = Some q \<Longrightarrow> CheckProofOfWork (block_hash env block) (hdr_nBits block) (pow env) \<and> GetMedianTimePast (store st) q < hdr_GetBlockTime block"
    using assms by (auto simp: adds_def header_passed_def b(1))
qed

lemma adds_work:
  assumes "adds env aenv vb w block p b st st'"
  shows "work_grows (store st')"
  unfolding work_grows_def
proof (intro allI impI)
  note a = addsD [OF assms]
  fix x q assume x: "pprev (store st' x) = Some q"
  show "nval (nChainWork (store st' q)) < nval (nChainWork (store st' x))"
  proof (cases "x = p")
    case True
    have q: "pprev b = Some q" "q \<noteq> p" using x True a(14) by (auto simp: a(2))
    show ?thesis unfolding True
      by (rule new_work [OF a(4), of p q "block_hash env block" "pow env"])
        (use q a(9,10,22) a(20) [OF q(1)] in \<open>simp_all add: a(2,3) header_fits_def\<close>)
  next
    case False
    then show ?thesis using x tree_okD(12) [OF a(1)] a(8) [of x] by (auto simp: work_grows_def a(2))
  qed
qed

lemma adds_times:
  assumes "adds env aenv vb w block p b st st'"
  shows "times_ok (store st')"
  unfolding times_ok_def
proof (intro allI impI)
  note a = addsD [OF assms]
  fix x q assume x: "pprev (store st' x) = Some q"
  have qn: "q \<noteq> p" using x a(8) [of x] a(14) by (cases "x = p") (auto simp: a(2))
  have "GetMedianTimePast (store st) q < GetBlockTime (store st' x)"
    using x a(11) a(20) [of q] tree_okD(4) [OF a(1)] by (cases "x = p") (auto simp: a(2) GetBlockTime_def hdr_GetBlockTime_def times_ok_def)
  then show "GetMedianTimePast (store st') q < GetBlockTime (store st' x)" using agree_median [OF a(17) [OF qn]] by simp
qed

lemma adds_root:
  assumes "adds env aenv vb w block p b st st'"
  shows "one_root st' \<and> hashes_known env st'"
proof
  note a = addsD [OF assms] and t = tree_okD [OF addsD(1) [OF assms]]
  have genesis: "map_of (mapBlockIndex st) (hashGenesisBlock env) = Some x" if "x \<in> blocks_of st" "pprev (store st x) = None" for x
    using that t(3) index_okD(1) [OF t(7)] by (auto simp: blocks_of_def hashes_known_def distinct_map)
  have none: "pprev (store st x) \<noteq> None" if "x \<in> blocks_of st" "pprev b = None" for x using genesis [OF that(1)] that(2) a(15,18) by auto
  have one: "x = y" if "x \<in> blocks_of st" "y \<in> blocks_of st" "pprev (store st x) = None" "pprev (store st y) = None" for x y
    using t(1) that unfolding node_inv_def one_root_def by blast
  show "one_root st'" unfolding one_root_def a(3)
  proof (intro ballI impI)
    fix x y assume xy: "x \<in> insert p (blocks_of st)" "y \<in> insert p (blocks_of st)" "pprev (store st' x) = None" "pprev (store st' y) = None"
    have e: "pprev (store st' z) = (if z = p then pprev b else pprev (store st z))" for z by (simp add: a(2))
    show "x = y" using xy none [of x] none [of y] one [of x y] unfolding e by (cases "x = p"; cases "y = p") simp_all
  qed
  show "hashes_known env st'" using t(3) a(15,21,6) unfolding hashes_known_def a(16) by (auto simp: a(2) blocks_of_def intro: rev_image_eqI)
qed

lemma adds_tip:
  assumes "adds env aenv vb w block p b st st'" "Tip (chainActive st') = Some x"
  shows "connects aenv (store st') x"
proof -
  note a = addsD [OF assms(1)] and t = tree_okD [OF addsD(1) [OF assms(1)]]
  have x: "Tip (chainActive st) = Some x" "connects aenv (store st) x" using assms(2) t(1) a(5) by (simp_all add: same_but_index_def node_inv_def)
  have "is_linked (store st) x" using t(6) x(1) cands_okD(3) [of "Tip (chainActive st)" st x] by (simp add: chain_above_def tree_above_def)
  then have "x \<noteq> p" using a(6) linked_in_index [of _ st x] t(6) by (auto simp: chain_above_def)
  then have "is_ancestor (store st') y x = is_ancestor (store st) y x" for y
    using header_entry(1) [of "store st" p x b, OF a(8)] by (simp add: is_ancestor_def a(19))
  then show ?thesis using x(2) by (simp add: connects_def)
qed

lemma header_added:
  assumes ok: "tree_ok env aenv vb st w" and h: "block_hash env block \<noteq> 0" "block_hash env block = hashGenesisBlock env \<Longrightarrow> hashPrevBlock block = 0"
    and fits: "header_fits env aenv vb st p block" and passed: "header_passed env st block" and new: "map_of (mapBlockIndex st) (block_hash env block) = None"
  shows "\<exists>st'. AddToBlockIndex (block_hash env block) p block st = Inr (p, st') \<and> tree_ok env aenv vb st' w \<and> p \<in> blocks_of st' \<and> nTx (store st' p) = 0 \<and>
    \<not> failed (store st' p) \<and> pindexBestHeader st' \<noteq> None \<and> chainActive st' = chainActive st"
proof -
  note t = tree_okD [OF ok]
  have fresh: "p \<notin> blocks_of st" using fits by (simp add: header_fits_def)
  have prev: "hashPrevBlock block \<noteq> block_hash env block" using passed h new by (auto simp: header_passed_def)
  obtain b st' where st': "AddToBlockIndex (block_hash env block) p block st = Inr (p, st')" "store st' = (store st)(p := b)"
      "mapBlockIndex st' = (block_hash env block, p) # mapBlockIndex st" "same_but_index st st'" "entry_for (block_hash env block) block st b" "index_ok st'"
    using AddToBlockIndex_new [OF t(7) fresh new prev] by blast
  have adds: "adds env aenv vb w block p b st st'" using assms st'(2-6) by (simp add: adds_def)
  note a = addsD [OF adds] and best = AddToBlockIndex_best [OF st'(1) new]
  have "cache_ok (store st') (csv env) (vb DEPLOYMENT_CSV)" by (rule agree_cache [OF t(5)]) (rule a(17), use a(7) in metis)
  moreover have "genesis_connects aenv st'"
    using t(2) a(15,22) unfolding genesis_connects_def a(3) by (auto simp: header_fits_def a(2))
  moreover have "chain_inv st'" by (rule header_step [OF t(6) fresh prev st'(1)])
  ultimately have "tree_ok env aenv vb st' w" using best t(11) adds_work [OF adds] adds_times [OF adds] adds_root [OF adds] adds_tip [OF adds]
    by (auto simp: tree_ok_def node_inv_def)
  moreover have "\<not> failed (store st' p)" using a(13) by (simp add: a(2) failed_def block_status_defs)
  ultimately show ?thesis using st'(1) a(5,12) best by (simp add: a(2,3) same_but_index_def)
qed

section \<open>Headers\<close>

lemma AcceptBlockHeader_keeps:
  assumes ok: "tree_ok env aenv vb st w" and h: "block_hash env block \<noteq> 0" "block_hash env block = hashGenesisBlock env \<Longrightarrow> hashPrevBlock block = 0"
    and fits: "header_fits env aenv vb st p block"
  shows "case AcceptBlockHeader env p block state st of
      Inl e \<Rightarrow> \<exists>e'. e = TreeWork e'
    | Inr (r, st') \<Rightarrow> tree_ok env aenv vb st' w \<and> chainActive st' = chainActive st \<and> (\<forall>q. r = Inr q \<longrightarrow> q \<in> blocks_of st' \<and> pindexBestHeader st' \<noteq> None)"
proof -
  let ?hash = "block_hash env block"
  have known: "q \<in> blocks_of st \<and> pindexBestHeader st \<noteq> None" if "map_of (mapBlockIndex st) ?hash = Some q" for q
  proof -
    have "q \<in> blocks_of st" using that by (auto simp: blocks_of_def dest!: map_of_SomeD intro: rev_image_eqI)
    then show ?thesis using tree_okD(1) [OF ok] by (auto simp: node_inv_def)
  qed
  have add: "case ebind (AddToBlockIndex ?hash p block st) (\<lambda>(q, st). Inr (Inr q :: block_ptr checked, st)) of
      Inl e \<Rightarrow> \<exists>e'. e = TreeWork e'
    | Inr (r, st') \<Rightarrow> tree_ok env aenv vb st' w \<and> chainActive st' = chainActive st \<and> (\<forall>q. r = Inr q \<longrightarrow> q \<in> blocks_of st' \<and> pindexBestHeader st' \<noteq> None)"
    if passed: "header_passed env st block"
  proof (cases "map_of (mapBlockIndex st) ?hash")
    case None
    then show ?thesis using header_added [OF ok h fits passed None] by auto
  next
    case (Some q)
    then have "AddToBlockIndex ?hash p block st = Inr (q, st)" by (simp add: AddToBlockIndex_def)
    then show ?thesis using known [OF Some] ok by simp
  qed
  show ?thesis
  proof (cases "?hash = hashGenesisBlock env")
    case True
    then show ?thesis using add by (simp add: AcceptBlockHeader_def header_passed_def Let_def)
  next
    case False
    have passed: "header_passed env st block" if "CheckBlockHeader env block state True = Inr ()" "map_of (mapBlockIndex st) (hashPrevBlock block) = Some q"
        "nStatus (store st q) AND BLOCK_FAILED_MASK = 0" "ContextualCheckBlockHeader env (store st) block state q = Inr (Inr ())" for q
      using that False by (auto simp: header_passed_def CheckBlockHeader_def ContextualCheckBlockHeader_def reject_def failed_def ebind_eq_Inr split: if_splits)
    have bad: "\<exists>e'. e = TreeWork e'" if "ContextualCheckBlockHeader env (store st) block state q = Inl e" for q e
      using that by (auto simp: ContextualCheckBlockHeader_def from_pow_def ebind_def split: if_splits sum.splits)
    show ?thesis
    proof (cases "map_of (mapBlockIndex st) ?hash")
      case (Some q)
      then show ?thesis using False ok known [OF Some] by (simp add: AcceptBlockHeader_def Let_def)
    next
      case None
      show ?thesis using False None ok add passed bad
        by (auto simp: AcceptBlockHeader_def Let_def reject_def ebind_def split: sum.splits option.splits if_splits)
    qed
  qed
qed

section \<open>Block data\<close>

lemma node_inv_same:
  assumes "node_inv aenv st w" "same_tree st st'" "chain_inv st'" "chainActive st' = chainActive st" "pindexBestHeader st' = pindexBestHeader st" "forks_ok w'"
  shows "node_inv aenv st' w'"
  using assms unfolding node_inv_def work_grows_def one_root_def connects_def same_treeD(2,8,10,12) [OF assms(2)] by auto

lemma tree_ok_same:
  assumes "tree_ok env aenv vb st w" "same_tree st st'" "node_inv aenv st' w'"
  shows "tree_ok env aenv vb st' w'"
proof -
  note t = tree_okD [OF assms(1)] and s = same_treeD [OF assms(2)]
  have "times_ok (store st')" by (rule agree_times [OF t(4)]) (rule same_tree_agree [OF assms(2)])
  moreover have "cache_ok (store st') (csv env) (vb DEPLOYMENT_CSV)" by (rule agree_cache [OF t(5)]) (rule same_tree_agree [OF assms(2)])
  moreover have "genesis_connects aenv st'" "hashes_known env st'" using t(2,3) by (simp_all add: genesis_connects_def hashes_known_def s(2,9,10))
  ultimately show ?thesis using assms(3) by (simp add: tree_ok_def)
qed

lemma link_loop_best: "pindexBestHeader (link_loop queue st) = pindexBestHeader st"
proof (induction queue st rule: link_loop.induct)
  case (2 p queue st)
  have "pindexBestHeader (erase_waiting p (link_block p st)) = pindexBestHeader st"
    by (simp add: erase_waiting_def link_block_def Let_def update_block_def insert_candidate_def split: option.split)
  then show ?case using 2 by (simp add: link_loop.simps(2) Let_def)
qed simp

lemma ReceivedBlockTransactions_best:
  assumes "ReceivedBlockTransactions n pos p st = Inr st'"
  shows "pindexBestHeader st' = pindexBestHeader st"
proof -
  obtain s where "ReceivedBlockTransactions n pos p st =
       (let st1 = mark_dirty p (update_block p (received n pos s) st) in
        case pprev (store st p) of
          None \<Rightarrow> Inr (link_loop [p] st1)
        | Some q \<Rightarrow> if is_linked (store st1) q then Inr (link_loop [p] st1)
            else Inr (if \<not> failed (store st1 q) \<and> BLOCK_VALID_TREE \<le> nStatus (store st1 q) AND BLOCK_VALID_MASK
                      then st1\<lparr>mapBlocksUnlinked := mapBlocksUnlinked st @ [(q, p)]\<rparr> else st1))"
    by (rule ReceivedBlockTransactions_eq [of st p n pos]) blast
  then show ?thesis using assms link_loop_best [of "[p]"] by (auto simp: Let_def mark_dirty_def update_block_def split: option.splits if_splits)
qed

lemma data_added:
  assumes ok: "tree_ok env aenv vb st w" and p: "p \<in> blocks_of st" "nTx (store st p) = 0" and size: "0 < n" "n < 2 ^ 32"
    and bound: "\<And>x. chain_txs ((store st)(p := (store st p)\<lparr>nTx := of_nat n\<rparr>)) x < 2 ^ 32"
  shows "\<exists>st'. ReceivedBlockTransactions n pos p st = Inr st' \<and> tree_ok env aenv vb st' w \<and> chainActive st' = chainActive st \<and> pindexBestHeader st' = pindexBestHeader st"
proof -
  note t = tree_okD [OF ok]
  have "tree_inv st" using t(6) by (simp add: chain_above_def)
  from ReceivedBlockTransactions_inv [OF this p size bound, of pos] obtain st' where
    st': "ReceivedBlockTransactions n pos p st = Inr st'" "same_tree st st'" "chainActive st' = chainActive st" by blast
  have "chain_inv st'" by (rule data_step [OF t(6) p size bound st'(1)])
  then have "node_inv aenv st' w" using node_inv_same [OF t(1) st'(2) _ st'(3)] ReceivedBlockTransactions_best [OF st'(1)] t(11) by blast
  then show ?thesis using st' tree_ok_same [OF ok st'(2)] ReceivedBlockTransactions_best [OF st'(1)] by blast
qed

text \<open>A block without its data that is found invalid.\<close>

lemma mark_failed_keeps:
  assumes ok: "tree_ok env aenv vb st w" and p: "p \<in> blocks_of st" "nTx (store st p) = 0"
  shows "tree_ok env aenv vb (mark_failed p st) w"
proof -
  note t = tree_okD [OF ok]
  let ?st = "mark_failed p st"
  have m: "marks BLOCK_FAILED_VALID {p} st ?st" and c: "setBlockIndexCandidates ?st = setBlockIndexCandidates st"
    by (simp_all add: marks_def marked_def mark_failed_def mark_dirty_def)
  have nl: "\<not> is_linked (store st) p" using linkingD(1) [OF t(8)] p(2) by blast
  have tr: "tree_above (Tip (chainActive st)) st" using t(6) by (simp add: chain_above_def)
  then have "tree_above (Tip (chainActive st)) ?st"
    using p(1) c by (intro marks_tree_inv [OF tr m]) (auto simp: tree_above_def cands_above_def)
  then have "chain_inv ?st"
  proof (rule marks_chain_inv_tip [OF t(6) m])
    fix tip x assume a: "Tip (chainActive st) = Some tip" "x \<in> {p}"
    have "is_linked (store st) tip" using tr a(1) by (simp add: tree_above_def cands_above_def)
    then show "\<not> is_ancestor (store st) x tip" using a(2) nl linked_ancestor [OF t(8)] by (auto simp: is_ancestor_def)
  qed
  moreover have "store ?st x = store st x" if "x \<notin> blocks_of st" for x using that p(1) by (intro marksD(18) [OF m]) auto
  then have "same_tree st ?st" by (simp add: same_tree_def marksD(1,10) [OF m])
  ultimately show ?thesis using tree_ok_same [OF ok] node_inv_same [OF t(1)] marksD(2,19) [OF m] t(11) by blast
qed

section \<open>Blocks\<close>

definition node_ok :: "'a block_env \<Rightarrow> act_env \<Rightarrow> 'v node_state \<Rightarrow> bool" where
  "node_ok env aenv ns \<longleftrightarrow> tree_ok env aenv (versionbitscache ns) (chain ns) (forks ns) \<and> files_ok (block_data ns)"

text \<open>A block has transactions and a bounded size.\<close>

definition sized :: "CBlock \<Rightarrow> bool" where
  "sized block \<longleftrightarrow> vtx block \<noteq> [] \<and> length (vtx block) \<le> MAX_BLOCK_SIZE \<and> length (Serialize_CBlock block) \<le> MAX_BLOCK_SIZE"

lemma Serialize_checked [simp]: "Serialize_CBlock (block\<lparr>fChecked := b\<rparr>) = Serialize_CBlock block"
  by (simp add: Serialize_CBlock_def Serialize_CBlockHeader_def)

lemma CheckBlock_sized:
  assumes "CheckBlock env V index block state True True c = (Inr (Inr block'), c')" "\<not> fChecked block"
  shows "block' = block\<lparr>fChecked := True\<rparr> \<and> sized block \<and> BlockMerkleRoot (hash_pair env) (GetHash (hash_tx env)) (vtx block) = (hashMerkleRoot block, False)"
  using assms by (auto simp: CheckBlock_def sized_def reject_def split: sum.splits prod.splits if_splits)

lemma ContextualCheckBlock_returns:
  assumes env: "env_ok env" and ok: "tree_ok env aenv vb st w"
  shows "\<exists>v vb'. ContextualCheckBlock env st block state pindexPrev vb = Some (Inr (v, vb')) \<and> tree_ok env aenv vb' st w"
proof -
  note t = tree_okD [OF ok]
  have dep: "deployment (store st) (csv env)" using env t(4,9,10) by (simp add: deployment_def env_ok_def)
  from deployment.GetStateFor_eq [OF dep t(5), of pindexPrev] obtain s cache where
    s: "GetStateFor (store st) (csv env) pindexPrev (vb DEPLOYMENT_CSV) = Some (Inr (s, cache))" "s = bip9_at (store st) (csv env) (boundary (store st) (csv env) pindexPrev)"
      "cache_ok (store st) (csv env) cache" by auto
  have "VersionBitsState (store st) (deployments env) DEPLOYMENT_CSV pindexPrev vb = Some (Inr (s, vb(DEPLOYMENT_CSV := cache)))"
    using s(1) by (simp add: VersionBitsState_def)
  moreover have "s \<noteq> THRESHOLD_ACTIVE" if "pindexPrev = None" using s(2) that by (simp add: boundary_def bip9_at_def)
  moreover have "tree_ok env aenv (vb(DEPLOYMENT_CSV := cache)) st w" using ok s(3) by (simp add: tree_ok_def)
  ultimately show ?thesis by (cases pindexPrev) (auto simp: ContextualCheckBlock_def Let_def from_chain_def)
qed

lemma check_both_result:
  assumes env: "env_ok env" and ok: "node_ok env aenv ns" and s: "fChecked block \<longrightarrow> sized block"
  shows "case check_both env V block state pindexPrev ns of
      None \<Rightarrow> False
    | Some (Inl e) \<Rightarrow> \<exists>e'. e = AcceptAmount e'
    | Some (Inr (v, ns')) \<Rightarrow> node_ok env aenv ns' \<and> chain ns' = chain ns \<and> forks ns' = forks ns \<and> (v = Inr () \<longrightarrow> sized block)"
proof -
  have tr: "tree_ok env aenv (versionbitscache ns) (chain ns) (forks ns)" "files_ok (block_data ns)" using ok by (simp_all add: node_ok_def)
  obtain r c where r: "CheckBlock env V (mapBlockIndex (chain ns)) block state True True (pcoinsTip ns) = (r, c)" by (rule prod.exhaust)
  consider e where "r = Inl e" | st where "r = Inr (Inl st)" | b where "r = Inr (Inr b)" by (metis old.sum.exhaust)
  then show ?thesis
  proof cases
    case (3 b)
    have "sized block" using s CheckBlock_sized [OF r [unfolded 3]] by blast
    moreover obtain v vb' where "ContextualCheckBlock env (chain ns) b state pindexPrev (versionbitscache ns) = Some (Inr (v, vb'))" "tree_ok env aenv vb' (chain ns) (forks ns)"
      using ContextualCheckBlock_returns [OF env tr(1)] by blast
    ultimately show ?thesis using r 3 tr by (simp add: check_both_def from_tree_def node_ok_def)
  qed (use r tr in \<open>simp_all add: check_both_def node_ok_def\<close>)
qed

text \<open>The transactions of a new block and of its ancestors fit into 32 bits.\<close>

definition block_fits :: "'a block_env \<Rightarrow> act_env \<Rightarrow> VersionBitsCache \<Rightarrow> chainstate \<Rightarrow> block_ptr \<Rightarrow> CBlock \<Rightarrow> bool" where
  "block_fits env aenv vb st p block \<longleftrightarrow> header_fits env aenv vb st p block \<and>
     (\<forall>state q st' x. AcceptBlockHeader env p block state st = Inr (Inr q, st') \<longrightarrow>
        chain_txs ((store st')(q := (store st' q)\<lparr>nTx := of_nat (length (vtx block))\<rparr>)) x < 2 ^ 32)"

lemma store_data_result:
  assumes ok: "node_ok env aenv ns" and q: "q \<in> blocks_of (chain ns)" "nTx (store (chain ns) q) = 0" and s: "sized block"
    and bound: "\<And>x. chain_txs ((store (chain ns))(q := (store (chain ns) q)\<lparr>nTx := of_nat (length (vtx block))\<rparr>)) x < 2 ^ 32"
  shows "\<exists>v ns'. store_data io block state q None ns = Some (Inr (v, ns')) \<and> node_ok env aenv ns' \<and> pindexBestHeader (chain ns') = pindexBestHeader (chain ns)"
proof -
  have tr: "tree_ok env aenv (versionbitscache ns) (chain ns) (forks ns)" "files_ok (block_data ns)" using ok by (simp_all add: node_ok_def)
  let ?n = "of_nat (length (Serialize_CBlock block)) + 8 :: u32"
  have len: "0 < length (vtx block)" "length (vtx block) < 2 ^ 32" "length (Serialize_CBlock block) \<le> 1572864" using s by (simp_all add: sized_def MAX_BLOCK_SIZE_def)
  have "unat (of_nat m :: u32) = m" if "m < 2 ^ 32" for m using that by (simp add: unat_of_nat)
  from this [of "length (Serialize_CBlock block) + 8"] have "unat ?n = length (Serialize_CBlock block) + 8" using len(3) by simp
  then have n: "?n < MAX_BLOCKFILE_SIZE" using len(3) by (simp add: word_less_nat_alt MAX_BLOCKFILE_SIZE_def)
  obtain r fs where r: "FindBlockPos (io_files io) state CDiskBlockPos_SetNull ?n (of_nat (nHeight (store (chain ns) q))) (ucast (hdr_nTime block)) False (block_data ns) = Some (r, fs)"
      "files_ok fs"
    using FindBlockPos_place [OF tr(2) n, of "io_files io" state CDiskBlockPos_SetNull "of_nat (nHeight (store (chain ns) q))" "ucast (hdr_nTime block)"] by blast
  show ?thesis
  proof (cases r)
    case (Inl e)
    then show ?thesis using r tr by (simp add: store_data_def node_ok_def)
  next
    case (Inr pos)
    from data_added [OF tr(1) q len(1,2) bound, of pos] obtain st' where
      "ReceivedBlockTransactions (length (vtx block)) pos q (chain ns) = Inr st'" "tree_ok env aenv (versionbitscache ns) st' (forks ns)" "pindexBestHeader st' = pindexBestHeader (chain ns)" by blast
    then show ?thesis using r Inr by (simp add: store_data_def node_ok_def from_tree_def)
  qed
qed

text \<open>How a call may fail other than by rejecting: the difficulty rule, or a sum of amounts, leaves its range.\<close>

definition stops :: "accept_error \<Rightarrow> bool" where
  "stops e \<longleftrightarrow> (\<exists>e'. e = AcceptTree (TreeWork e')) \<or> (\<exists>e'. e = AcceptAmount e')"

lemma check_and_store_result:
  assumes env: "env_ok env" and ok: "node_ok env aenv ns" and s: "fChecked block \<longrightarrow> sized block"
    and q: "q \<in> blocks_of (chain ns)" "nTx (store (chain ns) q) = 0" "pindexBestHeader (chain ns) \<noteq> None"
    and bound: "\<And>x. chain_txs ((store (chain ns))(q := (store (chain ns) q)\<lparr>nTx := of_nat (length (vtx block))\<rparr>)) x < 2 ^ 32"
  shows "case check_and_store env io V block state q None ns of
      None \<Rightarrow> False
    | Some (Inl e) \<Rightarrow> stops e
    | Some (Inr (v, ns')) \<Rightarrow> node_ok env aenv ns' \<and> (v = Inr () \<longrightarrow> pindexBestHeader (chain ns') \<noteq> None)"
proof -
  note c = check_both_result [OF env ok s, of V state "pprev (store (chain ns) q)"]
  show ?thesis
  proof (cases "\<exists>v ns1. check_both env V block state (pprev (store (chain ns) q)) ns = Some (Inr (v, ns1))")
    case False
    then show ?thesis using c by (auto simp: check_and_store_def stops_def split: option.splits sum.splits)
  next
    case True
    then obtain v ns1 where v: "check_both env V block state (pprev (store (chain ns) q)) ns = Some (Inr (v, ns1))" by blast
    have n1: "node_ok env aenv ns1" "chain ns1 = chain ns" "forks ns1 = forks ns" "v = Inr () \<longrightarrow> sized block" using c v by simp_all
    show ?thesis
    proof (cases v)
      case (Inl e)
      have "node_ok env aenv (ns1\<lparr>chain := mark_failed q (chain ns1)\<rparr>)"
        using n1(1) mark_failed_keeps [of env aenv "versionbitscache ns1" "chain ns1" "forks ns1" q] q(1,2) n1(2) by (simp add: node_ok_def)
      then show ?thesis using v Inl n1(1) by (simp add: check_and_store_def)
    next
      case (Inr u)
      have "forks_ok (forks ns1)" using n1(1) tree_okD(11) by (auto simp: node_ok_def)
      then obtain b w where w: "IsInitialBlockDownload (io_node io) (chain ns1) (forks ns1) = Inr (b, w)" "forks_ok w"
        using IsInitialBlockDownload_ok [of "chain ns1" "forks ns1" "io_node io"] q(3) n1(2) by auto
      have "node_ok env aenv (ns1\<lparr>forks := w\<rparr>)" using n1(1) w(2) by (simp add: node_ok_def tree_ok_def node_inv_def)
      from store_data_result [OF this, of q block io state] show ?thesis using v Inr n1(2,4) w(1) q bound by (auto simp: check_and_store_def from_tree_def)
    qed
  qed
qed

lemma AcceptBlock_result:
  assumes env: "env_ok env" and ok: "node_ok env aenv ns" and s: "fChecked block \<longrightarrow> sized block"
    and fits: "block_fits env aenv (versionbitscache ns) (chain ns) p block"
  shows "case AcceptBlock env io V p block state fRequested None ns of
      None \<Rightarrow> False
    | Some (Inl e) \<Rightarrow> stops e
    | Some (Inr ((fNew, v), ns')) \<Rightarrow> node_ok env aenv ns' \<and> (v = Inr () \<longrightarrow> pindexBestHeader (chain ns') \<noteq> None)"
proof -
  have tr: "tree_ok env aenv (versionbitscache ns) (chain ns) (forks ns)" "files_ok (block_data ns)" using ok by (simp_all add: node_ok_def)
  have hf: "header_fits env aenv (versionbitscache ns) (chain ns) p block" using fits by (simp add: block_fits_def)
  note h = AcceptBlockHeader_keeps [OF tr(1) env_okD(3,4) [OF env] hf, of state]
  show ?thesis
  proof (cases "\<exists>q st. AcceptBlockHeader env p block state (chain ns) = Inr (Inr q, st)")
    case False
    then consider e where "AcceptBlockHeader env p block state (chain ns) = Inl e"
      | e st where "AcceptBlockHeader env p block state (chain ns) = Inr (Inl e, st)"
      by (metis surj_pair sum.exhaust)
    then show ?thesis using h tr(2) by cases (auto simp: AcceptBlock_def from_tree_def stops_def node_ok_def)
  next
    case True
    then obtain q st where a: "AcceptBlockHeader env p block state (chain ns) = Inr (Inr q, st)" by blast
    let ?ns = "ns\<lparr>chain := st\<rparr>"
    have q: "q \<in> blocks_of st" "pindexBestHeader st \<noteq> None" and st: "tree_ok env aenv (versionbitscache ns) st (forks ns)" using h a by simp_all
    have ok1: "node_ok env aenv ?ns" using tr(2) st by (simp add: node_ok_def)
    show ?thesis
    proof (cases "unwanted st fRequested q")
      case True
      then show ?thesis using a ok1 q(2) by (simp add: AcceptBlock_def from_tree_def)
    next
      case False
      then have "\<not> has_data (store st q)" by (simp add: unwanted_def has_data_def Let_def)
      then have "nTx (store st q) = 0" using linkingD(4) [OF tree_okD(8) [OF st]] by blast
      moreover have "chain_txs ((store st)(q := (store st q)\<lparr>nTx := of_nat (length (vtx block))\<rparr>)) x < 2 ^ 32" for x using fits a unfolding block_fits_def by blast
      ultimately show ?thesis using check_and_store_result [OF env ok1 s, of q io V state] a False q
        by (auto simp: AcceptBlock_def from_tree_def split: option.splits sum.splits prod.splits)
    qed
  qed
qed

text \<open>The checks may set a mark in the block, which nothing of the header depends on.\<close>

lemma header_checked:
  "hashPrevBlock (block\<lparr>fChecked := b\<rparr>) = hashPrevBlock block"
  "block_hash env (block\<lparr>fChecked := b\<rparr>) = block_hash env block"
  "CheckBlockHeader env (block\<lparr>fChecked := b\<rparr>) state pw = CheckBlockHeader env block state pw"
  "ContextualCheckBlockHeader env S (block\<lparr>fChecked := b\<rparr>) state q = ContextualCheckBlockHeader env S block state q"
  "AddToBlockIndex hash p (block\<lparr>fChecked := b\<rparr>) st = AddToBlockIndex hash p block st"
  by (simp_all add: block_hash_def CBlockHeader_GetHash_def Serialize_CBlockHeader_def CheckBlockHeader_def ContextualCheckBlockHeader_def
      AddToBlockIndex_def CBlockIndex_of_header_def hdr_GetBlockTime_def split: option.split)

lemma AcceptBlockHeader_checked: "AcceptBlockHeader env p (block\<lparr>fChecked := b\<rparr>) state st = AcceptBlockHeader env p block state st"
  unfolding AcceptBlockHeader_def header_checked by (rule refl)

lemma block_fits_checked [simp]: "block_fits env aenv vb st p (block\<lparr>fChecked := b\<rparr>) = block_fits env aenv vb st p block"
  unfolding block_fits_def header_fits_def AcceptBlockHeader_checked header_checked by (simp split: option.split)

lemma sized_checked [simp]: "sized (block\<lparr>fChecked := b\<rparr>) = sized block"
  by (simp add: sized_def)

lemma NotifyHeaderTip_keeps:
  assumes ok: "node_ok env aenv ns" and "pindexBestHeader (chain ns) \<noteq> None"
  shows "\<exists>ns'. NotifyHeaderTip nenv ns = Inr ns' \<and> node_ok env aenv ns'"
proof -
  have "forks_ok (forks ns)" using ok tree_okD(11) by (auto simp: node_ok_def)
  then obtain b w where w: "IsInitialBlockDownload nenv (chain ns) (forks ns) = Inr (b, w)" "forks_ok w"
    using IsInitialBlockDownload_ok [of "chain ns" "forks ns" nenv] assms(2) by auto
  then have "node_ok env aenv (ns\<lparr>forks := w, pindexHeaderOld := i\<rparr>)" for i using ok by (simp add: node_ok_def tree_ok_def node_inv_def)
  then show ?thesis using w(1) ok by (simp add: NotifyHeaderTip_def)
qed

lemma best_tip_follows:
  assumes "follows env st st'" "best_tip env (store st) r"
  shows "best_tip env (store st') r"
proof -
  note f = followsD [OF assms(1)]
  have up: "tainted (store st') x" if "tainted (store st) x" for x using that f(4) unfolding tainted_def f(7) by blast
  show ?thesis
  proof (cases r)
    case None
    then show ?thesis using assms(2) up by (simp add: best_tip_def f(3))
  next
    case (Some t)
    then show ?thesis using assms(2) up f(5) unfolding best_tip_def f(2,3,6) by auto
  qed
qed

text \<open>What the connection of blocks is assumed to do: a block connects or is found invalid for good, blocks can be
  disconnected, and nobody asks for a shutdown.\<close>

definition activation_ok :: "act_env \<Rightarrow> bool" where
  "activation_ok aenv \<longleftrightarrow> verdicts_ok aenv \<and> (\<forall>p. Activate.undo_ok aenv p) \<and> \<not> ShutdownRequested aenv"

lemma activation_step:
  assumes ok: "node_ok env aenv ns" and act: "activation_ok aenv"
  shows "\<exists>r st w. ActivateBestChain aenv (chain ns) (forks ns) = Some (Inr (r, st, w)) \<and> node_ok env aenv (ns\<lparr>chain := st, forks := w\<rparr>) \<and>
    best_tip aenv (store (chain ns)) (Tip (chainActive st)) \<and> best_tip aenv (store st) (Tip (chainActive st))"
proof -
  have tr: "tree_ok env aenv (versionbitscache ns) (chain ns) (forks ns)" "files_ok (block_data ns)" using ok by (simp_all add: node_ok_def)
  from activation_total [OF tree_okD(1,2) [OF tr(1)]] act obtain r st w where
    a: "ActivateBestChain aenv (chain ns) (forks ns) = Some (Inr (r, st, w))" "node_inv aenv st w" "follows aenv (chain ns) st"
      "best_tip aenv (store (chain ns)) (Tip (chainActive st))" unfolding activation_ok_def by blast
  have "tree_ok env aenv (versionbitscache ns) st w" by (rule tree_ok_same [OF tr(1) followsD(1) [OF a(3)] a(2)])
  then show ?thesis using a tr(2) best_tip_follows [OF a(3,4)] by (simp add: node_ok_def)
qed

lemma ProcessNewBlock_result:
  assumes env: "env_ok env" "activation_ok aenv" and ok: "node_ok env aenv ns" and s: "fChecked block \<longrightarrow> sized block"
    and fits: "block_fits env aenv (versionbitscache ns) (chain ns) p block"
  shows "case ProcessNewBlock env io aenv V p block force ns of
      None \<Rightarrow> False
    | Some (Inl e) \<Rightarrow> stops e
    | Some (Inr ((fNew, r), ns')) \<Rightarrow> node_ok env aenv ns' \<and> (r \<longrightarrow> best_tip aenv (store (chain ns')) (Tip (chainActive (chain ns'))))"
proof -
  obtain r c where r: "CheckBlock env V (mapBlockIndex (chain ns)) block CValidationState_init True True (pcoinsTip ns) = (r, c)" by (rule prod.exhaust)
  have ok1: "node_ok env aenv (ns\<lparr>pcoinsTip := c\<rparr>)" using ok by (simp add: node_ok_def)
  consider e where "r = Inl e" | e where "r = Inr (Inl e)" | b where "r = Inr (Inr b)" by (metis old.sum.exhaust)
  then show ?thesis
  proof cases
    case (3 b)
    let ?a = "AcceptBlock env io V p b CValidationState_init force None (ns\<lparr>pcoinsTip := c\<rparr>)"
    have b: "b = block \<or> b = block\<lparr>fChecked := True\<rparr>" "sized b"
      using r 3 s CheckBlock_sized [of env V "mapBlockIndex (chain ns)" block CValidationState_init "pcoinsTip ns" b c] by (auto simp: CheckBlock_def split: if_splits)
    have "block_fits env aenv (versionbitscache (ns\<lparr>pcoinsTip := c\<rparr>)) (chain (ns\<lparr>pcoinsTip := c\<rparr>)) p b" using fits b(1) by auto
    note acc = AcceptBlock_result [OF env(1) ok1 impI [OF b(2)] this, of io V CValidationState_init force]
    show ?thesis
    proof (cases "\<exists>fNew ns1. ?a = Some (Inr ((fNew, Inr ()), ns1))")
      case True
      then obtain fNew ns1 where a: "?a = Some (Inr ((fNew, Inr ()), ns1))" by blast
      then have "node_ok env aenv ns1" "pindexBestHeader (chain ns1) \<noteq> None" using acc by simp_all
      then obtain ns2 where n: "NotifyHeaderTip (io_node io) ns1 = Inr ns2" "node_ok env aenv ns2" using NotifyHeaderTip_keeps by blast
      from activation_step [OF n(2) env(2)] show ?thesis using r 3 a n(1) by (auto simp: ProcessNewBlock_def from_tree_def)
    next
      case False
      then consider e where "?a = Some (Inl e)" "stops e" | fNew e ns1 where "?a = Some (Inr ((fNew, Inl e), ns1))" "node_ok env aenv ns1"
        using acc by (auto split: option.splits sum.splits prod.splits) (metis old.sum.exhaust old.unit.exhaust)+
      then show ?thesis using r 3 by cases (simp_all add: ProcessNewBlock_def)
    qed
  qed (use r ok1 in \<open>simp_all add: ProcessNewBlock_def stops_def\<close>)
qed

end
