(* ===== verification/Tree_Sample.thy ===== *)
theory Tree_Sample
  imports Tree_Steps
begin

unbundle bit_operations_syntax

text \<open>
  A small block tree that has the invariants of \<open>src/src/validation.cpp\<close>: a genesis block that is the
  tip, and two blocks on it with more work.  The last one does not connect.
\<close>

definition sample_bits :: u32 where
  "sample_bits = 0x207FFFFF"

definition sample_entry :: "nat \<Rightarrow> CBlockIndex" where
  "sample_entry p = CBlockIndex_SetNull\<lparr>phashBlock := of_nat (p + 1), pprev := (if p = 0 then None else Some (p - 1)),
     pskip := (if p = 0 then None else Some 0), nHeight := p, nChainWork := base_uint_u64 (of_nat (2 * (p + 1))), nTx := 1,
     nChainTx := of_nat (p + 1), nStatus := BLOCK_VALID_TRANSACTIONS OR BLOCK_HAVE_DATA, nBits := sample_bits,
     nSequenceId := int p + 1\<rparr>"

definition sample_state :: chainstate where
  "sample_state = \<lparr>store = (\<lambda>p. if p < 3 then sample_entry p else CBlockIndex_SetNull), mapBlockIndex = [(3, 2), (2, 1), (1, 0)],
     chainActive = [Some 0], setBlockIndexCandidates = [0, 1, 2], mapBlocksUnlinked = [], nBlockSequenceId = 4,
     nBlockReverseSequenceId = - 1, nLastPreciousChainwork = base_uint_u64 0, pindexBestHeader = Some 2, pindexBestInvalid = None,
     setDirtyBlockIndex = {}\<rparr>"

lemma sample_compact: "SetCompact sample_bits = ([0, 0, 0, 0, 0, 0, 0, 0x7FFFFF00], False, False)"
  by code_simp

lemma sample_proof: "nBits b = sample_bits \<Longrightarrow> GetBlockProof b = Inr (base_uint_u64 2)"
proof -
  assume b: "nBits b = sample_bits"
  have "2 ^ 256 div (nval [0, 0, 0, 0, 0, 0, 0, 0x7FFFFF00 :: u32] + 1) = 2" "nval [0, 0, 0, 0, 0, 0, 0, 0x7FFFFF00 :: u32] \<noteq> 0" by simp_all
  with GetBlockProof_val [of b] obtain w where w: "GetBlockProof b = Inr w" "length w = 8" "nval w = 2" by (auto simp: b sample_compact)
  then have "w = base_uint_u64 2" by (intro nval_inj) (simp_all add: nval_u64 WIDTH_def)
  then show ?thesis using w(1) by simp
qed

lemma sample_fields [simp]:
  "mapBlockIndex sample_state = [(3, 2), (2, 1), (1, 0)]" "chainActive sample_state = [Some 0]" "setBlockIndexCandidates sample_state = [0, 1, 2]"
  "mapBlocksUnlinked sample_state = []" "pindexBestHeader sample_state = Some 2" "blocks_of sample_state = {0, 1, 2}"
  "pprev (store sample_state p) = (if p = 1 then Some 0 else if p = 2 then Some 1 else None)"
  "nHeight (store sample_state p) = (if p < 3 then p else 0)" "nTime (store sample_state p) = 0" "nTimeMax (store sample_state p) = 0"
  "nTx (store sample_state p) = (if p < 3 then 1 else 0)" "nChainTx (store sample_state p) = (if p < 3 then of_nat (p + 1) else 0)"
  "nStatus (store sample_state p) = (if p < 3 then BLOCK_VALID_TRANSACTIONS OR BLOCK_HAVE_DATA else 0)"
  "nSequenceId (store sample_state p) = (if p < 3 then int p + 1 else 0)"
  "nChainWork (store sample_state p) = base_uint_u64 (if p < 3 then of_nat (2 * (p + 1)) else 0)"
  "pskip (store sample_state p) = (if p = 1 \<or> p = 2 then Some 0 else None)"
  "phashBlock (store sample_state p) = (if p < 3 then of_nat (p + 1) else 0)"
  by (auto simp: sample_state_def blocks_of_def sample_entry_def CBlockIndex_SetNull_def base_uint_zero_def base_uint_u64_def WIDTH_def numeral_eq_Suc)

lemma below_three: "(p :: nat) < 3 \<Longrightarrow> p = 0 \<or> p = 1 \<or> p = 2"
  by arith

lemma sample_linked [simp]: "is_linked (store sample_state) p \<longleftrightarrow> p < 3"
  using below_three [of p] by (auto simp: is_linked_def)

lemma sample_tree_ok: "block_tree (store sample_state)"
  by (auto simp: block_tree_def)

lemma sample_back: "back_by (store sample_state) n p = (if n = 0 then Some p else if p < 3 \<and> n \<le> p then Some (p - n) else None)"
proof (induction n arbitrary: p)
  case (Suc n)
  then show ?case by auto
qed simp

lemma sample_untainted [simp]: "\<not> tainted (store sample_state) p"
  by (auto simp: tainted_def failed_def block_status_defs)

lemma sample_index_ok: "index_ok sample_state"
proof (rule index_okI)
  have "GetSkipHeight 1 = 0" "GetSkipHeight 2 = 0" by code_simp+
  then show "skips_ok (store sample_state)" by (auto simp: skips_ok_def sample_back)
  show "time_max_ok (store sample_state)" by (auto simp: time_max_ok_def)
  show "chain_work (store sample_state) p = Inr (nChainWork (store sample_state p))" if "p \<in> blocks_of sample_state" for p
  proof -
    have "p < 3" using that by auto
    then have "nBits (store sample_state p) = sample_bits" by (simp add: sample_state_def sample_entry_def)
    then have "chain_work (store sample_state) p = Inr (uint_add (case pprev (store sample_state p) of None \<Rightarrow> base_uint_u64 0 | Some q \<Rightarrow> nChainWork (store sample_state q)) (base_uint_u64 2))"
      by (simp add: chain_work_def sample_proof from_pow_def)
    then show ?thesis using that by (auto intro!: nval_inj simp: nval_uint_add nval_u64 WIDTH_def)
  qed
  show "store sample_state p = CBlockIndex_SetNull" if "p \<notin> blocks_of sample_state" for p
  proof -
    have "\<not> p < 3" using that below_three [of p] by auto
    then show ?thesis by (simp add: sample_state_def)
  qed
qed (auto simp: sample_tree_ok WIDTH_def split: if_splits)

lemma sample_chain_inv: "chain_inv sample_state"
proof -
  have "linking [] sample_state"
  proof (rule linkingI)
    show "nTx (store sample_state p) \<noteq> 0 \<and> unat (nChainTx (store sample_state p)) = chain_txs (store sample_state) p" if "is_linked (store sample_state) p" for p
      using that below_three [of p] by (auto simp: chain_txs_def sample_back lessThan_nat_numeral lessThan_Suc)
  qed (auto simp: has_data_def block_status_defs split: if_splits)
  moreover have "levels_ok sample_state" by (simp add: levels_ok_def block_status_defs)
  moreover have "cands_above (Some 0) sample_state"
    using below_three by (auto simp: cands_above_def work_less_iff wf_works_def nval_u64 WIDTH_def)
  moreover have "chain_of (store sample_state) 0 = [Some 0]" by (simp add: chain_of_def)
  ultimately show ?thesis using sample_index_ok by (auto simp: chain_above_def tree_above_def Tip_def intro!: exI [of _ 0])
qed

end
