(* ===== verification/Tree_Properties.thy ===== *)
theory Tree_Properties
  imports Tree_Sample
begin

unbundle bit_operations_syntax

text \<open>
  What the operations on the block tree promise to their callers in \<open>src/src/validation.cpp\<close>: a new header
  keeps the index well formed, the data of a block links every block that waited for it, the search finds the
  candidate with the most work, and the activation ends at the best chain that connects.
\<close>

section \<open>Headers\<close>

text \<open>C25. A header whose hash is known gives back its entry and changes nothing.  A new header gets an entry with its
  fields, linked to its parent when the index has one; the index stays well formed: one entry per hash, parents,
  heights, skip pointers, latest times and accumulated work agree.  No assertion fails.\<close>

theorem AddToBlockIndex_keeps_index:
  assumes "index_ok st" "p \<notin> blocks_of st" "hashPrevBlock block \<noteq> hash"
  shows "\<exists>q st'. AddToBlockIndex hash p block st = Inr (q, st') \<and> index_ok st' \<and> map_of (mapBlockIndex st') hash = Some q \<and>
    (case map_of (mapBlockIndex st) hash of
       Some q' \<Rightarrow> q = q' \<and> st' = st
     | None \<Rightarrow> q = p \<and> entry_for hash block st (store st' p) \<and> (\<forall>x. x \<noteq> p \<longrightarrow> store st' x = store st x) \<and> same_but_index st st')"
proof (cases "map_of (mapBlockIndex st) hash")
  case None
  from AddToBlockIndex_new [OF assms(1,2) None assms(3)] show ?thesis using None by fastforce
next
  case (Some q)
  then show ?thesis using assms(1) by (simp add: AddToBlockIndex_def)
qed

definition sample_header :: CBlockHeader where
  "sample_header = CBlockHeader_SetNull\<lparr>hashPrevBlock := 3, hdr_nBits := sample_bits\<rparr>"

text \<open>A fourth block on the sample tree.\<close>

theorem AddToBlockIndex_keeps_index_witness:
  "\<exists>st'. AddToBlockIndex 4 3 sample_header sample_state = Inr (3, st') \<and> index_ok st' \<and> pprev (store st' 3) = Some 2"
  using AddToBlockIndex_keeps_index [OF sample_index_ok, of 3 sample_header 4] by (auto simp: sample_header_def entry_for_def)

section \<open>Block data\<close>

text \<open>C13. When the data of a block arrives, it is stored and every block that waited for it is linked: after it, a block
  without a failed ancestor is linked exactly when all the data of its chain has arrived, linked blocks know the
  number of transactions up to them, and the linked blocks without a failed ancestor that are not worse than the tip
  are candidates, in order (this is \<open>tree_inv\<close>).  No assertion fails, as long as no chain has 2^32 transactions.\<close>

theorem ReceivedBlockTransactions_links:
  assumes "tree_inv st" "p \<in> blocks_of st" "nTx (store st p) = 0" "0 < n" "n < 2 ^ 32"
    and "\<And>x. chain_txs ((store st)(p := (store st p)\<lparr>nTx := of_nat n\<rparr>)) x < 2 ^ 32"
  shows "\<exists>st'. ReceivedBlockTransactions n pos p st = Inr st' \<and> tree_inv st' \<and> same_tree st st' \<and> chainActive st' = chainActive st \<and>
    (\<forall>x. nTx (store st' x) = (if x = p then of_nat n else nTx (store st x)) \<and> failed (store st' x) = failed (store st x)) \<and>
    (\<forall>x. \<not> tainted (store st') x \<longrightarrow> is_linked (store st') x = (\<forall>a. is_ancestor (store st') a x \<longrightarrow> nTx (store st' a) \<noteq> 0))"
  using ReceivedBlockTransactions_inv [OF assms, of pos] linked_iff_data by blast

definition sample_new :: chainstate where
  "sample_new = (case AddToBlockIndex 4 3 sample_header sample_state of Inr (_, st) \<Rightarrow> st)"

lemma sample_new_props:
  "chain_inv sample_new" "blocks_of sample_new = {0, 1, 2, 3}" "nTx (store sample_new p) = (if p < 3 then 1 else 0)"
  "nHeight (store sample_new p) \<le> 3" "chainActive sample_new = [Some 0]" "pprev (store sample_new 3) = Some 2"
proof -
  have new: "3 \<notin> blocks_of sample_state" "hashPrevBlock sample_header \<noteq> 4" "map_of (mapBlockIndex sample_state) 4 = None"
    by (simp_all add: sample_header_def)
  obtain b st' where st': "AddToBlockIndex 4 3 sample_header sample_state = Inr (3, st')" "store st' = (store sample_state)(3 := b)"
      "mapBlockIndex st' = (4, 3) # mapBlockIndex sample_state" "same_but_index sample_state st'" "entry_for 4 sample_header sample_state b" "index_ok st'"
    using AddToBlockIndex_new [OF sample_index_ok new(1,3,2)] by blast
  have s: "sample_new = st'" by (simp add: sample_new_def st'(1))
  show "chain_inv sample_new" unfolding s by (rule header_step [OF sample_chain_inv new(1,2) st'(1)])
  show "blocks_of sample_new = {0, 1, 2, 3}" "nTx (store sample_new p) = (if p < 3 then 1 else 0)" "chainActive sample_new = [Some 0]"
    using st'(2-5) by (auto simp: s blocks_of_def same_but_index_def entry_for_def)
  show pp: "pprev (store sample_new 3) = Some 2" using st'(2,5) by (simp add: s entry_for_def sample_header_def)
  have "nHeight b = 3" using block_tree_parent [OF index_okD(7) [OF st'(6)], of 3 2] pp st'(2) by (simp add: s)
  then show "nHeight (store sample_new p) \<le> 3" using st'(2) by (simp add: s)
qed

theorem ReceivedBlockTransactions_links_witness:
  "\<exists>st'. ReceivedBlockTransactions 5 CDiskBlockPos_SetNull 3 sample_new = Inr st' \<and> tree_inv st' \<and> nTx (store st' 3) = 5"
proof -
  let ?S = "(store sample_new)(3 := (store sample_new 3)\<lparr>nTx := of_nat 5\<rparr>)"
  have "nHeight (?S x) \<le> 3" for x using sample_new_props(4) [of x] sample_new_props(4) [of 3] by simp
  moreover have "unat (nTx (?S y)) \<le> 5" for y by (simp add: sample_new_props(3))
  then have "chain_txs ?S x \<le> (nHeight (?S x) + 1) * 5" for x by (rule chain_txs_le)
  ultimately have "chain_txs ?S x < 2 ^ 32" for x
    using le_less_trans [of "chain_txs ?S x" "(nHeight (?S x) + 1) * 5" "2 ^ 32"] le_less_trans [of "(nHeight (?S x) + 1) * 5" "(3 + 1) * 5" "2 ^ 32"] by fastforce
  then show ?thesis using ReceivedBlockTransactions_links [of sample_new 3 5 CDiskBlockPos_SetNull] sample_new_props(1-3)
    by (auto simp: chain_above_def)
qed

section \<open>The search\<close>

text \<open>C21. The search for the best chain returns, fails no assertion and keeps the invariants.  It returns the candidate with
  the most work among those without a failed ancestor, or none when there is no such candidate; what it marks as
  failed are blocks with a failed ancestor only.\<close>

theorem FindMostWorkChain_best:
  assumes "chain_inv st"
  shows "\<exists>r st' D. FindMostWorkChain st = Some (Inr (r, st')) \<and> chain_inv st' \<and> marks BLOCK_FAILED_CHILD D st st' \<and>
    (\<forall>x \<in> D. tainted (store st) x) \<and> best_of st (set (setBlockIndexCandidates st)) r"
  using FindMostWorkChain_search [of "Tip (chainActive st)" st] chain_inv_active [OF assms] search_step [OF assms] assms
  unfolding chain_above_def by blast

theorem FindMostWorkChain_best_witness:
  "\<exists>st'. FindMostWorkChain sample_state = Some (Inr (Some 2, st')) \<and> chain_inv st'"
proof -
  obtain r st' where r: "FindMostWorkChain sample_state = Some (Inr (r, st'))" "chain_inv st'" "best_of sample_state {0, 1, 2} r"
    using FindMostWorkChain_best [OF sample_chain_inv] by auto
  have "r = Some 2" using r(3) by (auto simp: best_of_def work_less_iff wf_works_def nval_u64 WIDTH_def split: option.splits)
  then show ?thesis using r(1,2) by blast
qed

section \<open>Activation\<close>

text \<open>C7. When every block either connects or is found invalid for good, the activation of the best chain returns, with the
  invariants kept, and its tip is the best of all linked blocks that have no failed ancestor and whose whole chain
  connects, however many invalid blocks are met on the way.\<close>

theorem ActivateBestChain_best:
  assumes "chain_inv st" "Tip (chainActive st) = Some t0" "connects env (store st) t0" "pindexBestHeader st \<noteq> None" "forks_ok w"
    "work_grows (store st)" "one_root st" "verdicts_ok env" "\<And>p. undo_ok env p" "\<not> ShutdownRequested env"
  shows "\<exists>r st' w' t. ActivateBestChain env st w = Some (Inr (r, st', w')) \<and> chain_inv st' \<and> Tip (chainActive st') = Some t \<and>
    is_linked (store st) t \<and> \<not> tainted (store st) t \<and> connects env (store st) t \<and>
    (\<forall>x. is_linked (store st) x \<longrightarrow> \<not> tainted (store st) x \<longrightarrow> connects env (store st) x \<longrightarrow> \<not> CBlockIndexWorkComparator (store st) t x)"
  by (rule ActivateBestChain_tip [OF assms])

definition sample_env :: act_env where
  "sample_env = \<lparr>node = \<lparr>fImporting = False, fReindex = False, nMinimumChainWork = 0, nMaxTipAge = 0, GetTime = 0\<rparr>,
     verdict = (\<lambda>p. if p = 2 then ConnectInvalid False else ConnectOk), undo_ok = (\<lambda>_. True), undo_pos = (\<lambda>_. 8), flush_ok = True,
     ShutdownRequested = False\<rparr>"

definition sample_forks :: fork_state where
  "sample_forks = \<lparr>latchToFalse = False, pindexBestForkTip = None, pindexBestForkBase = None, fLargeWorkForkFound = False, fLargeWorkInvalidChainFound = False\<rparr>"

lemma sample_ancestor [simp]: "is_ancestor (store sample_state) a p \<longleftrightarrow> a = p \<or> a < p \<and> p < 3"
proof
  show "a = p \<or> a < p \<and> p < 3" if "is_ancestor (store sample_state) a p" using that by (auto simp: is_ancestor_def sample_back split: if_splits)
  show "is_ancestor (store sample_state) a p" if "a = p \<or> a < p \<and> p < 3"
    unfolding is_ancestor_def using that by (intro exI [of _ "p - a"]) (auto simp: sample_back)
qed

text \<open>The best block of the sample is invalid: the tip becomes its parent.\<close>

theorem ActivateBestChain_best_witness:
  "\<exists>r st' w'. ActivateBestChain sample_env sample_state sample_forks = Some (Inr (r, st', w')) \<and> chain_inv st' \<and> Tip (chainActive st') = Some 1"
proof -
  have conn: "connects sample_env (store sample_state) p \<longleftrightarrow> p \<noteq> 2" for p
    using below_three [of p] by (auto simp: connects_def sample_env_def)
  have "work_grows (store sample_state)" "one_root sample_state" "forks_ok sample_forks" "verdicts_ok sample_env"
    by (auto simp: work_grows_def one_root_def forks_ok_def sample_forks_def verdicts_ok_def sample_env_def nval_u64 WIDTH_def)
  then obtain r st' w' t where t: "ActivateBestChain sample_env sample_state sample_forks = Some (Inr (r, st', w'))" "chain_inv st'"
      "Tip (chainActive st') = Some t" "t < 3" "t \<noteq> 2" "\<not> CBlockIndexWorkComparator (store sample_state) t 1"
    using ActivateBestChain_best [OF sample_chain_inv, of 0 sample_env sample_forks] conn by (auto simp: Tip_def sample_env_def)
  have "t = 1" using t(4-6) below_three [of t] by (auto simp: work_less_iff wf_works_def nval_u64 WIDTH_def)
  then show ?thesis using t(1-3) by blast
qed

end
