(* ===== verification/Block_Properties.thy ===== *)
theory Block_Properties
  imports Block_Checks Tree_Sample
begin

text \<open>
  What the checks of blocks in \<open>src/src/validation.cpp\<close> promise: a header is blamed only for transactions it commits to,
  and the test for a majority of versions counts the blocks it is meant to count.  A genesis block that passes every
  check is the example.
\<close>

section \<open>An example\<close>

text \<open>A hash that tells the headers without a parent from the others, so that there is one genesis block.\<close>

definition sample_hash :: "bytes \<Rightarrow> nat \<Rightarrow> uint256" where
  "sample_hash bs phase = (if take 32 (drop 4 bs) = Serialize_uint256 0 then 1 else 2)"

definition sample_block_env :: "nat block_env" where
  "sample_block_env = \<lparr>hash_Argon2d = sample_hash, FirstSwitchTime = 0, SecondSwitchTime = 0, hash_tx = (\<lambda>_. 7), hash_pair = (\<lambda>a b. a + b),
     pow = \<lparr>powLimit = 57896037716911750921221705069588091649609539881711309849342236841432341020672, nPowTargetSpacing = 128, nPowTargetTimespan = 1920, nPowAveragingWindow = 17, nPowMaxAdjustUp = 16,
       nPowMaxAdjustDown = 32, nUpdateDiffAlgoHeight = 10\<rparr>,
     min_product = id, max_product = id, firstSwitchDifficultyBlock = 100, hashGenesisBlock = 1, nMajorityEnforceBlockUpgrade = 750, nMajorityWindow = 1000,
     deployments = line_params, fCheckpointsEnabled = True, mapCheckpoints = [], nAdjustedTime = 1000, fluid = open_fluid, mint = (\<lambda>_. None),
     fBlockFiltering = True, GetLockedOutPointTxHash = (\<lambda>_. None), GetScriptAddress = (\<lambda>_. 0), noAddress = 0\<rparr>"

definition genesis_tx :: CTransaction where
  "genesis_tx = \<lparr>nVersion = 1, vin = [\<lparr>prevout = \<lparr>prevout_hash = 0, prevout_n = 0xFFFFFFFF\<rparr>, scriptSig = [1, 2, 3], nSequence = 0xFFFFFFFF\<rparr>],
     vout = [\<lparr>nValue = 50, scriptPubKey = [0x51], nRounds = - 10\<rparr>], nLockTime = 0\<rparr>"

definition genesis :: CBlock where
  "genesis = \<lparr>hdr_nVersion = 1, hashPrevBlock = 0, hashMerkleRoot = 7, hdr_nTime = 600, hdr_nBits = sample_bits, hdr_nNonce = 0, vtx = [genesis_tx],
     txoutMasternode = \<lparr>nValue = -1, scriptPubKey = [], nRounds = - 10\<rparr>, voutSuperblock = [], fChecked = False\<rparr>"

lemma sample_block_env_fields [simp]:
  "hash_Argon2d sample_block_env = sample_hash" "hash_tx sample_block_env = (\<lambda>_. 7)" "hash_pair sample_block_env = (\<lambda>a b. a + b)"
  "hashGenesisBlock sample_block_env = 1" "deployments sample_block_env = line_params" "fluid sample_block_env = open_fluid"
  "mint sample_block_env = (\<lambda>_. None)" "fBlockFiltering sample_block_env" "GetLockedOutPointTxHash sample_block_env = (\<lambda>_. None)"
  by (simp_all add: sample_block_env_def)

lemma genesis_fields [simp]:
  "hashPrevBlock genesis = 0" "hashMerkleRoot genesis = 7" "hdr_nTime genesis = 600" "hdr_nBits genesis = sample_bits" "hdr_nVersion genesis = 1"
  "vtx genesis = [genesis_tx]" "\<not> fChecked genesis"
  by (simp_all add: genesis_def)

lemma sample_block_hash: "block_hash sample_block_env h = (if hashPrevBlock h = 0 then 1 else 2)"
proof -
  have "length (Serialize_uint256 a) = 32" "length (Serialize_int32 v) = 4" for a v by (simp_all add: Serialize_uint256_def Serialize_int32_def ser_writedata32_def)
  then show ?thesis
    by (simp add: blob256.enc_inject block_hash_def CBlockHeader_GetHash_def sample_block_env_def sample_hash_def Serialize_CBlockHeader_def)
qed

lemma genesis_work: "CheckProofOfWork 1 sample_bits (pow sample_block_env)"
 by (simp add: CheckProofOfWork_def sample_compact sample_block_env_def CompareTo_nval(2) EqualTo_def)

lemma genesis_sizes: "GetTotalSize genesis_tx \<le> 1000" "length (Serialize_CBlock genesis) \<le> 2000"
  by (simp_all add: GetTotalSize_def genesis_tx_def genesis_def Serialize_CBlock_def Serialize_CBlockHeader_def Serialize_CTransaction_def Serialize_vector_def Serialize_CTxIn_def Serialize_CTxOut_def
        Serialize_COutPoint_def Serialize_uint256_def Serialize_bytes_def ser_writedata32_def Serialize_int32_def Serialize_int64_def ser_writedata64_def
        length_WriteCompactSize GetSizeOfCompactSize_def)

lemma genesis_tx_fields [simp]:
  "vin genesis_tx = [\<lparr>prevout = COutPoint_SetNull, scriptSig = [1, 2, 3], nSequence = SEQUENCE_FINAL\<rparr>]" "nVersion genesis_tx = 1"
  "vout genesis_tx = [\<lparr>nValue = 50, scriptPubKey = [0x51], nRounds = - 10\<rparr>]" "IsCoinBase genesis_tx" "nLockTime genesis_tx = 0"
  by (simp_all add: genesis_tx_def IsCoinBase_def COutPoint_IsNull_def COutPoint_SetNull_def SEQUENCE_FINAL_def)

lemma genesis_script: "\<not> IsTransactionFluid [0x51]" "\<not> IsBDAP \<lparr>nValue = 50, scriptPubKey = [0x51], nRounds = - 10\<rparr>" 
  subgoal by (simp add: IsTransactionFluid_def)
  subgoal by (simp add: IsBDAP_def)
  done

lemma genesis_not_data: "\<not> IsData \<lparr>nValue = 50, scriptPubKey = [0x51], nRounds = - 10\<rparr>" by code_simp

lemma genesis_tx_valid: "CheckTransaction f n open_fluid V genesis_tx state c = (Inr (Inr ()), c)"
proof -
  have "check_outputs open_fluid state (vout genesis_tx) \<lparr>nValueOut = 0, nStandardOut = 0, nCreditsOut = 0, outIsBDAP = False\<rparr> =
    Inr (Inr \<lparr>nValueOut = 50, nStandardOut = 50, nCreditsOut = 0, outIsBDAP = False\<rparr>)"
    by (simp add: genesis_script MAX_MONEY_def int64_def in_int_def MoneyRange_def genesis_not_data)
  then show ?thesis using genesis_sizes(1) by (simp add: CheckTransaction_def MAX_TX_SIZE_def check_bdap_def BDAP_TX_VERSION_def)
qed

lemma one_leaf: "BlockMerkleRoot (\<lambda>a b. a + b) (GetHash (\<lambda>_. 7)) [tx] = (7, False)"
  using le_trans [OF _ div_le_dividend [of "Suc 0"]]
  by (fastforce simp: BlockMerkleRoot_def GetHash_def ComputeMerkleRoot_spec merkle_root.simps merkle_mutated_def mutated_upto_def)

lemma genesis_valid: "CheckBlock sample_block_env V index genesis state True True c = (Inr (Inr (genesis\<lparr>fChecked := True\<rparr>)), c)"
proof -
  have "block_sigops [genesis_tx] = 0" 
  proof -
    have "GetSigOpCount [1, 2, 3] False = 0" "GetSigOpCount [0x51] False = 0" by code_simp+
    then show ?thesis by (simp add: block_sigops_def GetLegacySigOpCount_def)
  qed
  moreover have "fluid_scripts_ok open_fluid 600 genesis_tx" "CheckTransactionToBlock open_fluid index genesis_tx 1"
    by (simp_all add: fluid_scripts_ok_def open_fluid_def CheckTransactionToBlock_def split: option.split)
  ultimately show ?thesis
    using genesis_work genesis_sizes by (simp add: one_leaf genesis_tx_valid MAX_BLOCK_SIGOPS_def CheckBlock_def CheckBlockHeader_def sample_block_hash MAX_BLOCK_SIZE_def conflicts_lock_def)
qed

text \<open>The same block with a transaction that is no coinbase, which the constant hash of the example does not tell apart.\<close>

definition altered :: CBlock where
  "altered = genesis\<lparr>vtx := [genesis_tx\<lparr>vin := []\<rparr>]\<rparr>"

lemma altered_fields [simp]:
  "hashPrevBlock altered = 0" "hashMerkleRoot altered = 7" "hdr_nBits altered = sample_bits" "vtx altered = [genesis_tx\<lparr>vin := []\<rparr>]" "\<not> fChecked altered"
  by (simp_all add: altered_def)

lemma altered_invalid:
  "\<exists>s. fst (CheckBlock sample_block_env V index altered state True True c) = Inr (Inl s) \<and> \<not> vs_corruptionPossible s"
  using genesis_work
  by (simp add: CheckBlock_def CheckBlockHeader_def sample_block_hash one_leaf reject_def state_DoS_def Let_def IsCoinBase_def)

section \<open>Properties\<close>



text \<open>The test for a majority answers whether enough of the last \<open>window\<close> blocks, counted from the given one to the root,
  have the version or a later one, although it stops counting early.\<close>

theorem IsSuperMajority_counts:
  "IsSuperMajority S minVersion pstart nRequired window \<longleftrightarrow> nRequired \<le> versions_found S minVersion pstart window"
  by (simp add: IsSuperMajority_def majority_loop_ge)

end
