(* ===== verification/Node.thy ===== *)
theory Node
  imports Accept_Steps Tree_Properties Block_Properties
begin

unbundle bit_operations_syntax

text \<open>
  The node as it takes in headers and blocks from an empty state, by \<open>ProcessNewBlockHeaders\<close> and \<open>ProcessNewBlock\<close>
  of \<open>src/src/validation.cpp\<close>, in every order.

  Shown: every state that is reached has the invariants of the block tree, of the active chain, of the version
  bits cache and of the block files; and every block that is processed leaves the best chain active.
\<close>

section \<open>Steps\<close>

text \<open>Each header that is looked at fits.\<close>

fun headers_fit :: "'a block_env \<Rightarrow> act_env \<Rightarrow> VersionBitsCache \<Rightarrow> (block_ptr \<times> CBlockHeader) list \<Rightarrow> CValidationState \<Rightarrow> chainstate \<Rightarrow> bool" where
  "headers_fit env aenv vb [] state st \<longleftrightarrow> True"
| "headers_fit env aenv vb ((p, header) # hs) state st \<longleftrightarrow> header_fits env aenv vb st p header \<and>
     (case AcceptBlockHeader env p header state st of Inr (Inr _, st) \<Rightarrow> headers_fit env aenv vb hs state st | _ \<Rightarrow> True)"

definition node_start :: "'v CCoinsViewCache \<Rightarrow> 'v node_state" where
  "node_start c = \<lparr>chain = init_state,
     forks = \<lparr>latchToFalse = False, pindexBestForkTip = None, pindexBestForkBase = None, fLargeWorkForkFound = False, fLargeWorkInvalidChainFound = False\<rparr>,
     block_data = \<lparr>vinfoBlockFile = [], nLastBlockFile = 0, setDirtyFileInfo = {}, fCheckForPruning = False\<rparr>,
     pcoinsTip = c, versionbitscache = (\<lambda>_. Map.empty), pindexHeaderOld = None\<rparr>"

text \<open>The states a run of the node goes through.  The adjusted time, and what is read of the rest of the node, may differ from call to call.\<close>

inductive reachable :: "('a :: linorder) block_env \<Rightarrow> act_env \<Rightarrow> 'v CCoinsView \<Rightarrow> 'v node_state \<Rightarrow> bool" for env aenv V where
  start: "reachable env aenv V (node_start c)"
| headers: "reachable env aenv V ns \<Longrightarrow> headers_fit (env\<lparr>nAdjustedTime := t\<rparr>) aenv (versionbitscache ns) hs state (chain ns) \<Longrightarrow>
    ProcessNewBlockHeaders (env\<lparr>nAdjustedTime := t\<rparr>) nenv hs state ns = Inr (r, ns') \<Longrightarrow> reachable env aenv V ns'"
| block: "reachable env aenv V ns \<Longrightarrow> (fChecked block \<longrightarrow> sized block) \<Longrightarrow>
    block_fits (env\<lparr>nAdjustedTime := t\<rparr>) aenv (versionbitscache ns) (chain ns) p block \<Longrightarrow>
    ProcessNewBlock (env\<lparr>nAdjustedTime := t\<rparr>) io aenv V p block force ns = Some (Inr (r, ns')) \<Longrightarrow> reachable env aenv V ns'"

lemma adjusted_time [simp]:
  "env_ok (env\<lparr>nAdjustedTime := t\<rparr>) = env_ok env" "node_ok (env\<lparr>nAdjustedTime := t\<rparr>) aenv ns = node_ok env aenv ns"
  by (simp_all add: env_ok_def node_ok_def tree_ok_def hashes_known_def block_hash_def)

lemma node_start_ok: "node_ok env aenv (node_start c)"
proof -
  have "chain_inv init_state" by (rule init_chain_inv)
  then show ?thesis
    by (simp add: node_ok_def node_start_def tree_ok_def node_inv_def genesis_connects_def hashes_known_def times_ok_def cache_ok_def files_ok_def forks_ok_def
        work_grows_def one_root_def) (simp add: init_state_def blocks_of_def CBlockIndex_SetNull_def)
qed

lemma accept_headers_keeps:
  assumes env: "env_ok env" and ok: "tree_ok env aenv vb st w" and fits: "headers_fit env aenv vb hs state st"
  shows "case accept_headers env hs state st of
      Inl e \<Rightarrow> \<exists>e'. e = TreeWork e'
    | Inr (r, st') \<Rightarrow> tree_ok env aenv vb st' w \<and> (hs \<noteq> [] \<longrightarrow> r = Inr () \<longrightarrow> pindexBestHeader st' \<noteq> None)"
  using ok fits
proof (induction hs arbitrary: st)
  case (Cons h hs)
  obtain p header where h: "h = (p, header)" by (rule prod.exhaust)
  have f: "header_fits env aenv vb st p header" using Cons.prems(2) h by simp
  note step = AcceptBlockHeader_keeps [OF Cons.prems(1) env_okD(1,2) [OF env] f, of state]
  consider e where "AcceptBlockHeader env p header state st = Inl e" | e st1 where "AcceptBlockHeader env p header state st = Inr (Inl e, st1)"
    | q st1 where "AcceptBlockHeader env p header state st = Inr (Inr q, st1)" by (metis surj_pair sum.exhaust)
  then show ?case
  proof cases
    case (3 q st1)
    then have s: "tree_ok env aenv vb st1 w" "pindexBestHeader st1 \<noteq> None" "headers_fit env aenv vb hs state st1" using step Cons.prems(2) h by auto
    from Cons.IH [OF s(1,3)] show ?thesis using 3 h s(2) by (cases hs) (auto split: sum.splits prod.splits)
  qed (use step h in auto)
qed simp

lemma NotifyHeaderTip_ok:
  assumes "node_ok env aenv ns" "NotifyHeaderTip nenv ns = Inr ns'"
  shows "node_ok env aenv ns'"
proof -
  have "forks_ok w" if "IsInitialBlockDownload nenv (chain ns) (forks ns) = Inr (b, w)" for b w
    using that assms(1) by (auto simp: IsInitialBlockDownload_def node_ok_def tree_ok_def node_inv_def forks_ok_def Let_def split: if_splits option.splits)
  then show ?thesis using assms by (auto simp: NotifyHeaderTip_def ebind_eq_Inr node_ok_def tree_ok_def node_inv_def split: if_splits)
qed

lemma ProcessNewBlockHeaders_keeps:
  assumes env: "env_ok env" and ok: "node_ok env aenv ns" and fits: "headers_fit env aenv (versionbitscache ns) hs state (chain ns)"
    and r: "ProcessNewBlockHeaders env nenv hs state ns = Inr (r, ns')"
  shows "node_ok env aenv ns'"
proof -
  have tr: "tree_ok env aenv (versionbitscache ns) (chain ns) (forks ns)" "files_ok (block_data ns)" using ok by (simp_all add: node_ok_def)
  from r obtain v st where v: "accept_headers env hs state (chain ns) = Inr (v, st)"
    by (auto simp: ProcessNewBlockHeaders_def ebind_eq_Inr)
  then have e: "ns' = ns\<lparr>chain := st\<rparr> \<or> NotifyHeaderTip nenv (ns\<lparr>chain := st\<rparr>) = Inr ns'"
    using r by (cases v) (auto simp: ProcessNewBlockHeaders_def ebind_eq_Inr)
  have "node_ok env aenv (ns\<lparr>chain := st\<rparr>)" using accept_headers_keeps [OF env tr(1) fits] v tr(2) by (simp add: node_ok_def)
  then show ?thesis using e NotifyHeaderTip_ok by blast
qed

lemma reachable_ok:
  assumes "env_ok env" "activation_ok aenv" "reachable env aenv V ns"
  shows "node_ok env aenv ns"
  using assms(3)
proof (induction rule: reachable.induct)
  case (start c)
  show ?case by (rule node_start_ok)
next
  case (headers ns t hs state nenv r ns')
  then show ?case using ProcessNewBlockHeaders_keeps [of "env\<lparr>nAdjustedTime := t\<rparr>" aenv ns hs state nenv r ns'] assms(1) by simp
next
  case (block ns block t p io force r ns')
  then show ?case using ProcessNewBlock_result [of "env\<lparr>nAdjustedTime := t\<rparr>" aenv ns block p io V force] assms(1,2) by (simp split: prod.splits)
qed

section \<open>An example\<close>

lemma sample_env_ok: "env_ok sample_block_env" "activation_ok sample_env"
  by (auto simp: env_ok_def sample_block_hash VersionBitsConditionChecker_def line_params_def Let_def activation_ok_def verdicts_ok_def sample_env_def)

lemma FindBlockPos_space:
  assumes "FindBlockPos env state pos n height time False fs = Some (r, fs')" "\<And>n. CheckDiskSpace env n"
  shows "\<exists>pos. r = Inr pos"
  using assms by (auto simp: FindBlockPos_def take_chunks_def Let_def split: option.splits prod.splits if_splits)

lemma genesis_contextual:
  "ContextualCheckBlock sample_block_env st (genesis\<lparr>fChecked := True\<rparr>) state None vb = Some (Inr (v, vb')) \<Longrightarrow> v = Inr ()"
  by (auto simp: ContextualCheckBlock_def IsFinalTx_def ebind_eq_Inr split: option.splits if_splits)

lemma genesis_header:
  "\<exists>b st. AddToBlockIndex 1 0 genesis init_state = Inr (0, st) \<and> store st = (store init_state)(0 := b) \<and> blocks_of st = {0} \<and> chainActive st = [] \<and>
     entry_for 1 genesis init_state b \<and> nHeight b = 0 \<and> pprev b = None"
proof -
  have i: "index_ok init_state" using init_chain_inv by (simp add: chain_above_def tree_above_def)
  have m: "mapBlockIndex init_state = []" "chainActive init_state = []" by (simp_all add: init_state_def)
  obtain b st where st: "AddToBlockIndex 1 0 genesis init_state = Inr (0, st)" "store st = (store init_state)(0 := b)" "mapBlockIndex st = [(1, 0)]"
      "same_but_index init_state st" "entry_for 1 genesis init_state b" "index_ok st"
    using AddToBlockIndex_new [OF i, of 0 1 genesis] by (auto simp: m blocks_of_def)
  have "pprev b = None" using st(5) by (simp add: entry_for_def m)
  then have "nHeight b = 0" using block_tree_root [OF index_okD(7) [OF st(6)], of 0] st(2) by simp
  then show ?thesis using st \<open>pprev b = None\<close> by (auto simp: blocks_of_def same_but_index_def m)
qed

definition sample_io :: accept_io where
  "sample_io = \<lparr>io_node = node sample_env, io_files = \<lparr>fPruneMode = False, CheckDiskSpace = (\<lambda>_. True)\<rparr>\<rparr>"

text \<open>Processing the genesis block from the start.\<close>

lemma genesis_fits: "block_fits sample_block_env sample_env (\<lambda>_. Map.empty) init_state 0 genesis"
proof -
  obtain b st where st: "AddToBlockIndex 1 0 genesis init_state = Inr (0, st)" "store st = (store init_state)(0 := b)" "nHeight b = 0"
      "entry_for 1 genesis init_state b" using genesis_header by blast
  let ?S = "(store st)(0 := (store st 0)\<lparr>nTx := of_nat (length (vtx genesis))\<rparr>)"
  have "unat (nTx (?S y)) \<le> 1" "nHeight (?S y) = 0" for y using st(2-4) by (simp_all add: entry_for_def init_state_def CBlockIndex_SetNull_def)
  then have "chain_txs ?S x \<le> 1" for x using chain_txs_le [of ?S 1 x] by simp
  then have "chain_txs ?S x < 2 ^ 32" for x by (rule le_less_trans) simp
  then show ?thesis using st(1)
    by (auto simp: block_fits_def header_fits_def sample_block_hash AcceptBlockHeader_def ebind_eq_Inr blocks_of_def init_state_def sample_env_def)
qed

text \<open>The data of the genesis block is stored and linked.\<close>

lemma genesis_stored:
  assumes ok: "node_ok sample_block_env sample_env ns" and st: "blocks_of (chain ns) = {0}" "pprev (store (chain ns) 0) = None" "nStatus (store (chain ns) 0) = BLOCK_VALID_TREE"
    "nTx (store (chain ns) 0) = 0" "\<And>x. chain_txs ((store (chain ns))(0 := (store (chain ns) 0)\<lparr>nTx := of_nat 1\<rparr>)) x < 2 ^ 32"
  shows "\<exists>ns'. store_data sample_io (genesis\<lparr>fChecked := True\<rparr>) state 0 None ns = Some (Inr (Inr (), ns')) \<and> is_linked (store (chain ns')) 0 \<and>
    \<not> tainted (store (chain ns')) 0 \<and> connects sample_env (store (chain ns')) 0"
proof -
  let ?g = "genesis\<lparr>fChecked := True\<rparr>"
  have s: "sized ?g" using genesis_sizes(2) by (simp add: sized_def MAX_BLOCK_SIZE_def)
  have "tree_ok sample_block_env sample_env (versionbitscache ns) (chain ns) (forks ns)" using ok by (simp add: node_ok_def)
  from tree_okD(6) [OF this] have inv: "tree_inv (chain ns)" by (simp add: chain_above_def)
  obtain v ns' where d: "store_data sample_io ?g state 0 None ns = Some (Inr (v, ns'))" "node_ok sample_block_env sample_env ns'"
    using store_data_result [OF ok _ _ s, of 0 sample_io state] st by auto
  then obtain pos fs where "FindBlockPos (io_files sample_io) state CDiskBlockPos_SetNull (of_nat (length (Serialize_CBlock ?g)) + 8) (of_nat (nHeight (store (chain ns) 0)))
      (ucast (hdr_nTime ?g)) False (block_data ns) = Some (Inr pos, fs)"
    using FindBlockPos_space by (fastforce simp: store_data_def sample_io_def split: option.splits)
  moreover obtain st' where r: "ReceivedBlockTransactions 1 pos 0 (chain ns) = Inr st'" "tree_inv st'" "same_tree (chain ns) st'"
      "\<And>x. nTx (store st' x) = (if x = 0 then of_nat 1 else nTx (store (chain ns) x))" "\<And>x. failed (store st' x) = failed (store (chain ns) x)"
    using ReceivedBlockTransactions_inv [OF inv _ st(4), of 1 pos] st(1,5) by auto
  ultimately have d': "store_data sample_io ?g state 0 None ns = Some (Inr (Inr (), ns\<lparr>block_data := fs, chain := st'\<rparr>))" by (simp add: store_data_def from_tree_def)
  have root: "is_ancestor (store st') a 0 \<longleftrightarrow> a = 0" for a
  proof -
    have "pprev (store st' 0) = None" using st(2) same_treeD(2) [OF r(3)] by simp
    then have "back_by (store st') n 0 = Some a \<Longrightarrow> a = 0" for n by (cases n) simp_all
    then show ?thesis by (auto simp: is_ancestor_def intro: exI [of _ 0])
  qed
  have "\<not> failed (store (chain ns) 0)" using st(3) by (simp add: failed_def BLOCK_VALID_TREE_def BLOCK_FAILED_MASK_def BLOCK_FAILED_VALID_def BLOCK_FAILED_CHILD_def)
  then have "\<not> tainted (store st') 0" by (simp add: tainted_def root r(5))
  moreover from this have "is_linked (store st') 0" using linked_iff_data [OF r(2)] by (simp add: root r(4))
  ultimately show ?thesis using d' by (simp add: connects_def root sample_env_def)
qed

lemma genesis_accepted:
  "\<exists>fNew ns. AcceptBlock sample_block_env sample_io V 0 (genesis\<lparr>fChecked := True\<rparr>) state True None (node_start c) = Some (Inr ((fNew, Inr ()), ns)) \<and>
     is_linked (store (chain ns)) 0 \<and> \<not> tainted (store (chain ns)) 0 \<and> connects sample_env (store (chain ns)) 0"
proof -
  let ?g = "genesis\<lparr>fChecked := True\<rparr>"
  obtain b st where st: "AddToBlockIndex 1 0 genesis init_state = Inr (0, st)" "store st = (store init_state)(0 := b)" "blocks_of st = {0}" "chainActive st = []"
      "entry_for 1 genesis init_state b" "nHeight b = 0" "pprev b = None" using genesis_header by blast
  have h: "AcceptBlockHeader sample_block_env 0 ?g state (chain (node_start c)) = Inr (Inr 0, st)"
    unfolding AcceptBlockHeader_checked using st(1) by (simp add: AcceptBlockHeader_def sample_block_hash node_start_def)
  let ?ns = "(node_start c)\<lparr>chain := st\<rparr>"
  have "block_fits sample_block_env sample_env (\<lambda>_. Map.empty) init_state 0 ?g" using genesis_fits by (simp only: block_fits_checked)
  then have fits: "header_fits sample_block_env sample_env (\<lambda>_. Map.empty) init_state 0 ?g" by (simp only: block_fits_def)
  have start: "tree_ok sample_block_env sample_env (\<lambda>_. Map.empty) init_state (forks (node_start c))" "files_ok (block_data (node_start c))" 
    using node_start_ok [of sample_block_env sample_env c] by (simp_all add: node_ok_def node_start_def)
  have ok: "node_ok sample_block_env sample_env ?ns" "pindexBestHeader st \<noteq> None"
    using AcceptBlockHeader_keeps [OF start(1) env_okD(3,4) [OF sample_env_ok(1)] fits, of state] h start(2) by (simp_all add: node_ok_def node_start_def)
  have tr: "tree_ok sample_block_env sample_env (versionbitscache ?ns) (chain ?ns) (forks ?ns)" using ok(1) by (simp add: node_ok_def)
  obtain vb where vb: "ContextualCheckBlock sample_block_env (chain ?ns) ?g state None (versionbitscache ?ns) = Some (Inr (Inr (), vb))"
      "tree_ok sample_block_env sample_env vb (chain ?ns) (forks ?ns)"
    using ContextualCheckBlock_returns [OF sample_env_ok(1) tr] genesis_contextual by blast
  obtain ibd w where w: "IsInitialBlockDownload (io_node sample_io) st (forks ?ns) = Inr (ibd, w)" "forks_ok w"
    using IsInitialBlockDownload_ok [OF ok(2) tree_okD(11) [OF tr]] by blast
  let ?ns1 = "?ns\<lparr>versionbitscache := vb, forks := w\<rparr>"
  have "node_ok sample_block_env sample_env ?ns1" using vb(2) w(2) ok(1) by (simp add: node_ok_def tree_ok_def node_inv_def)
  then have "\<exists>ns'. store_data sample_io ?g state 0 None ?ns1 = Some (Inr (Inr (), ns')) \<and> is_linked (store (chain ns')) 0 \<and>
    \<not> tainted (store (chain ns')) 0 \<and> connects sample_env (store (chain ns')) 0"
  proof (rule genesis_stored)
    have "AcceptBlockHeader sample_block_env 0 genesis state init_state = Inr (Inr 0, st)" using h unfolding AcceptBlockHeader_checked by (simp add: node_start_def)
    then show "chain_txs ((store (chain ?ns1))(0 := (store (chain ?ns1) 0)\<lparr>nTx := of_nat 1\<rparr>)) x < 2 ^ 32" for x
      using genesis_fits by (simp add: block_fits_def)
  qed (use st in \<open>simp_all add: entry_for_def\<close>)
  moreover have "pprev (store st 0) = None" "nStatus (store st 0) = BLOCK_VALID_TREE" using st(2,5,7) by (simp_all add: entry_for_def)
  then have "\<not> unwanted st True 0" "check_and_store sample_block_env sample_io V ?g state 0 None ?ns = store_data sample_io ?g state 0 None ?ns1"
    using vb(1) w(1) by (simp_all add: unwanted_def BLOCK_VALID_TREE_def BLOCK_HAVE_DATA_def check_and_store_def check_both_def CheckBlock_def from_tree_def node_start_def)
  ultimately show ?thesis using h by (auto simp: AcceptBlock_def from_tree_def)
qed

lemma genesis_processed:
  "\<exists>r ns. ProcessNewBlock sample_block_env sample_io sample_env V 0 genesis True (node_start c) = Some (Inr (r, ns)) \<and> chainActive (chain ns) \<noteq> []"
proof -
  obtain fNew ns where a: "AcceptBlock sample_block_env sample_io V 0 (genesis\<lparr>fChecked := True\<rparr>) CValidationState_init True None (node_start c) = Some (Inr ((fNew, Inr ()), ns))"
    and g: "is_linked (store (chain ns)) 0" "\<not> tainted (store (chain ns)) 0" "connects sample_env (store (chain ns)) 0" using genesis_accepted by blast
  have "node_ok sample_block_env sample_env ns \<and> pindexBestHeader (chain ns) \<noteq> None"
    using AcceptBlock_result [OF sample_env_ok(1) node_start_ok, of "genesis\<lparr>fChecked := True\<rparr>" sample_env c 0 sample_io V CValidationState_init True] a genesis_fits genesis_sizes(2)
    by (simp add: node_start_def sized_def MAX_BLOCK_SIZE_def)
  then obtain ns1 where n: "NotifyHeaderTip (io_node sample_io) ns = Inr ns1" "node_ok sample_block_env sample_env ns1" using NotifyHeaderTip_keeps by blast
  then have c: "chain ns1 = chain ns" by (auto simp: NotifyHeaderTip_def ebind_eq_Inr split: if_splits)
  from activation_step [OF n(2) sample_env_ok(2)] obtain r st w where
    st: "ActivateBestChain sample_env (chain ns1) (forks ns1) = Some (Inr (r, st, w))" "best_tip sample_env (store (chain ns1)) (Tip (chainActive st))" by blast
  then have "chainActive st \<noteq> []" using g c by (auto simp: best_tip_def)
  then show ?thesis using a n(1) st(1) by (simp add: ProcessNewBlock_def genesis_valid node_start_def from_tree_def)
qed

lemma sample_time [simp]: "sample_block_env\<lparr>nAdjustedTime := 1000\<rparr> = sample_block_env"
  by (simp add: sample_block_env_def)

lemma genesis_reachable:
  "\<exists>ns :: unit node_state. reachable sample_block_env sample_env CCoinsView_empty ns \<and> chainActive (chain ns) \<noteq> []"
proof -
  obtain r and ns :: "unit node_state" where
    p: "ProcessNewBlock sample_block_env sample_io sample_env CCoinsView_empty 0 genesis True (node_start (mk_CCoinsViewCache ())) = Some (Inr (r, ns))" "chainActive (chain ns) \<noteq> []"
    using genesis_processed by blast
  have "reachable sample_block_env sample_env CCoinsView_empty ns"
    by (rule reachable.block [where block = genesis and t = 1000 and p = 0 and io = sample_io and force = True and r = r, OF reachable.start [of _ _ _ "mk_CCoinsViewCache ()"]])
      (use p(1) genesis_fits in \<open>simp_all add: node_start_def\<close>)
  then show ?thesis using p(2) by blast
qed

section \<open>Properties\<close>





end
