(* ===== verification/Reconsider.thy ===== *)
theory Reconsider
  imports Tree_Sample
begin

unbundle bit_operations_syntax

text \<open>
  What reconsidering a block does (\<open>ResetBlockFailureFlags\<close> and \<open>ReconsiderBlock\<close> of
  \<open>src/src/validation.cpp\<close>): it clears the marks of the block, its ancestors and its descendants, and no other.
\<close>

definition unmark :: "CBlockIndex \<Rightarrow> CBlockIndex" where
  "unmark b = b\<lparr>nStatus := nStatus b AND NOT BLOCK_FAILED_MASK\<rparr>"

text \<open>The marks of the blocks of \<open>D\<close> are cleared; the candidates and the best invalid block may change.\<close>

definition clears :: "block_ptr set \<Rightarrow> chainstate \<Rightarrow> chainstate \<Rightarrow> bool" where
  "clears D st st' \<longleftrightarrow> mapBlockIndex st' = mapBlockIndex st \<and> chainActive st' = chainActive st \<and>
     (\<forall>x. store st' x = (if x \<in> D then unmark (store st x) else store st x))"

lemma unmark_clean: "\<not> failed b \<Longrightarrow> unmark b = b"
proof -
  assume "\<not> failed b"
  then have "n < 32 \<Longrightarrow> bit (nStatus b) n \<Longrightarrow> \<not> bit BLOCK_FAILED_MASK n" for n by (auto simp: failed_def bit_eq_iff bit_and_iff)
  then have "nStatus b AND NOT BLOCK_FAILED_MASK = nStatus b" by (intro bit_word_eqI) (auto simp: bit_simps)
  then show ?thesis by (simp add: unmark_def)
qed

lemma failed_unmark [simp]: "\<not> failed (unmark b)"
  by (simp add: failed_def unmark_def and.assoc)

lemma core_unmark [simp]: "core (unmark b) = core b"
  by (simp add: core_def unmark_def)

lemma unmark_unmark [simp]: "unmark (unmark b) = unmark b"
  by (rule unmark_clean) simp

lemma clears_refl [simp]: "clears {} st st"
  by (simp add: clears_def)

lemma clears_trans: "clears D st st1 \<Longrightarrow> clears E st1 st2 \<Longrightarrow> clears (D \<union> E) st st2"
  by (simp add: clears_def)

lemma clears_core: "clears D st st' \<Longrightarrow> core (store st' x) = core (store st x)"
  by (simp add: clears_def)

lemma clears_tree:
  assumes "clears D st st'" "index_ok st"
  shows "same_tree st st'"
proof -
  have "\<not> failed CBlockIndex_SetNull" by (simp add: failed_def CBlockIndex_SetNull_def)
  then show ?thesis using assms index_okD(4) [OF assms(2)] by (auto simp: same_tree_def clears_def unmark_clean)
qed

lemma clears_failed: "clears D st st' \<Longrightarrow> failed (store st' x) \<longleftrightarrow> failed (store st x) \<and> x \<notin> D"
  by (auto simp: clears_def)

section \<open>The loops\<close>

lemma ancestors_of: "{x. is_ancestor S x p} = insert p (case pprev (S p) of None \<Rightarrow> {} | Some q \<Rightarrow> {x. is_ancestor S x q})"
proof -
  have "x = p \<or> (\<exists>q. pprev (S p) = Some q \<and> is_ancestor S x q)" if anc: "is_ancestor S x p" for x
  proof -
    obtain n where "back_by S n p = Some x" using anc by (auto simp: is_ancestor_def)
    then show ?thesis by (cases n) (auto simp: is_ancestor_def split: option.splits)
  qed
  moreover have "is_ancestor S x p" if "pprev (S p) = Some q" "is_ancestor S x q" for x q
    using that(2) is_ancestor_parent [OF is_ancestor_refl [of S p] that(1)] by (rule is_ancestor_trans)
  ultimately have "is_ancestor S x p \<longleftrightarrow> x = p \<or> (\<exists>q. pprev (S p) = Some q \<and> is_ancestor S x q)" for x using is_ancestor_refl [of S p] by blast
  then show ?thesis by (auto split: option.split)
qed

lemma GetAncestor_is:
  assumes "block_tree S" "skips_ok S"
  shows "\<exists>a. GetAncestor S x (int (nHeight (S p))) = Inr a \<and> (a = Some p \<longleftrightarrow> is_ancestor S p x)"
proof (cases "nHeight (S p) \<le> nHeight (S x)")
  case True
  have "back_by S (nHeight (S x) - nHeight (S p)) x = Some p" if "back_by S n x = Some p" for n
    using back_by_Some_height [OF assms(1) that] that by simp
  then show ?thesis using True by (auto simp: GetAncestor_back_by [OF assms] is_ancestor_def)
next
  case False
  then show ?thesis using is_ancestor_height [OF assms(1), of p x] by (auto simp: GetAncestor_back_by [OF assms])
qed

lemma reset_entry_clears:
  assumes ok: "index_ok st" and tip: "Tip (chainActive st) = Some t"
  shows "\<exists>st'. reset_entry p (nHeight (store st p)) x st = Inr st' \<and> clears (if is_ancestor (store st) p x then {x} else {}) st st'"
proof -
  obtain a where a: "GetAncestor (store st) x (int (nHeight (store st p))) = Inr a" "a = Some p \<longleftrightarrow> is_ancestor (store st) p x"
    using GetAncestor_is [OF index_okD(7,8) [OF ok]] by blast
  show ?thesis
  proof (cases "\<not> failed (store st x) \<and> BLOCK_VALID_TRANSACTIONS \<le> nStatus (store st x) AND BLOCK_VALID_MASK")
    case True
    then show ?thesis by (auto simp: reset_entry_def is_valid_transactions clears_def unmark_clean)
  next
    case False
    then have v0: "is_valid (store st x) BLOCK_VALID_TRANSACTIONS = Inr False" by (simp add: is_valid_transactions)
    let ?st = "mark_dirty x (update_block x (\<lambda>b. b\<lparr>nStatus := nStatus b AND NOT BLOCK_FAILED_MASK\<rparr>) st)"
    have c: "clears {x} st ?st" by (auto simp: clears_def mark_dirty_def update_block_def unmark_def)
    have up: "clears {x} st s1" if "clears {x} st s" "clears {} s s1" for s s1 using clears_trans [OF that] by simp
    show ?thesis
    proof (cases "a = Some p")
      case True
      have "clears {x} st (insert_candidate x ?st)" by (rule up [OF c]) (simp add: clears_def insert_candidate_def)
      moreover have "clears {x} st (s\<lparr>pindexBestInvalid := None\<rparr>)" if "clears {x} st s" for s by (rule up [OF that]) (simp add: clears_def)
      moreover have "Tip (chainActive ?st) = Some t" using tip by (simp add: mark_dirty_def update_block_def)
      moreover obtain v where "is_valid (store ?st x) BLOCK_VALID_TRANSACTIONS = Inr v" using is_valid_transactions by blast
      ultimately show ?thesis using v0 a True c by (simp add: reset_entry_def from_chain_def Let_def)
    next
      case False
      then show ?thesis using v0 a by (simp add: reset_entry_def from_chain_def)
    qed
  qed
qed

lemma reset_entries_clears:
  assumes "index_ok st" "Tip (chainActive st) = Some t"
  shows "\<exists>st'. reset_entries p (nHeight (store st p)) es st = Inr st' \<and> clears {x \<in> snd ` set es. is_ancestor (store st) p x} st st'"
  using assms
proof (induction es arbitrary: st)
  case (Cons e es)
  obtain h x where e: "e = (h, x)" by (rule prod.exhaust)
  obtain st1 where st1: "reset_entry p (nHeight (store st p)) x st = Inr st1" "clears (if is_ancestor (store st) p x then {x} else {}) st st1"
    using reset_entry_clears [OF Cons.prems] by blast
  note tree = clears_tree [OF st1(2) Cons.prems(1)]
  have "Tip (chainActive st1) = Some t" using st1(2) Cons.prems(2) by (simp add: clears_def)
  from Cons.IH [OF same_tree_index_ok [OF Cons.prems(1) tree] this] obtain st2 where
    st2: "reset_entries p (nHeight (store st p)) es st1 = Inr st2" "clears {x \<in> snd ` set es. is_ancestor (store st) p x} st1 st2"
    by (auto simp: same_treeD(4,12) [OF tree])
  have "{y \<in> snd ` set (e # es). is_ancestor (store st) p y} =
      (if is_ancestor (store st) p x then {x} else {}) \<union> {x \<in> snd ` set es. is_ancestor (store st) p x}" by (auto simp: e)
  then show ?case using st1(1) st2(1) clears_trans [OF st1(2) st2(2)] by (simp add: e)
qed simp

lemma reset_ancestors_clears:
  assumes "index_ok st"
  shows "\<exists>st'. reset_ancestors (Some p) st = Some st' \<and> clears {x. is_ancestor (store st) x p} st st'"
  using assms
proof (induction "nHeight (store st p)" arbitrary: st p rule: less_induct)
  case less
  obtain st1 where c: "clears {p} st st1" and eq: "reset_ancestors (Some p) st = reset_ancestors (pprev (store st1 p)) st1"
  proof
    let ?st = "if failed (store st p) then mark_dirty p (update_block p (\<lambda>b. b\<lparr>nStatus := nStatus b AND NOT BLOCK_FAILED_MASK\<rparr>) st) else st"
    show "clears {p} st ?st" by (auto simp: clears_def mark_dirty_def update_block_def unmark_def [symmetric] unmark_clean)
    show "reset_ancestors (Some p) st = reset_ancestors (pprev (store ?st p)) ?st" by (subst reset_ancestors.simps) (simp add: failed_def Let_def)
  qed
  note tree = clears_tree [OF c less.prems]
  show ?case
  proof (cases "pprev (store st p)")
    case None
    then show ?thesis using eq c same_treeD(2) [OF tree] ancestors_of [of "store st" p] by (simp add: reset_ancestors.simps [of None])
  next
    case (Some q)
    then have "nHeight (store st1 q) < nHeight (store st p)" using block_tree_parent [OF index_okD(7) [OF less.prems]] same_treeD(4) [OF tree] by simp
    from less.hyps [OF this same_tree_index_ok [OF less.prems tree]] obtain st' where
      st': "reset_ancestors (Some q) st1 = Some st'" "clears {x. is_ancestor (store st) x q} st1 st'" by (auto simp: same_treeD(12) [OF tree])
    then show ?thesis using eq clears_trans [OF c st'(2)] Some same_treeD(2) [OF tree] ancestors_of [of "store st" p] by simp
  qed
qed

section \<open>Property\<close>

text \<open>C20. Reconsidering a block returns and fails no assertion.  It clears the marks of invalidity of the block, of its ancestors
  and of its descendants, keeps every other mark, and changes neither the tree nor the active chain.  The function that
  resets the marks for a reprocessed block does the same.\<close>

theorem ReconsiderBlock_clears:
  assumes "index_ok st" "Tip (chainActive st) = Some t"
  shows "\<exists>st'. ReconsiderBlock p st = Some (Inr st') \<and> ResetBlockFailureFlags p st = Some (Inr st') \<and> same_tree st st' \<and> chainActive st' = chainActive st \<and>
    (\<forall>x. failed (store st' x) \<longleftrightarrow> failed (store st x) \<and> \<not> is_ancestor (store st) p x \<and> \<not> is_ancestor (store st) x p)"
proof -
  let ?D = "{x \<in> snd ` set (mapBlockIndex st). is_ancestor (store st) p x}" and ?A = "{x. is_ancestor (store st) x p}"
  obtain st1 where st1: "reset_entries p (nHeight (store st p)) (mapBlockIndex st) st = Inr st1" "clears ?D st st1"
    using reset_entries_clears [OF assms] by blast
  note tree = clears_tree [OF st1(2) assms(1)]
  obtain st2 where st2: "reset_ancestors (Some p) st1 = Some st2" "clears ?A st1 st2"
    using reset_ancestors_clears [OF same_tree_index_ok [OF assms(1) tree]] by (auto simp: same_treeD(12) [OF tree])
  have c: "clears (?D \<union> ?A) st st2" by (rule clears_trans [OF st1(2) st2(2)])
  have "x \<in> snd ` set (mapBlockIndex st)" if "failed (store st x)" for x
    using that index_okD(4) [OF assms(1), of x] by (fastforce simp: blocks_of_def failed_def CBlockIndex_SetNull_def)
  then have "failed (store st2 x) \<longleftrightarrow> failed (store st x) \<and> \<not> is_ancestor (store st) p x \<and> \<not> is_ancestor (store st) x p" for x
    using clears_failed [OF c, of x] by blast
  then show ?thesis using st1(1) st2(1) clears_tree [OF c assms(1)] c by (simp add: ReconsiderBlock_def ResetBlockFailureFlags_def clears_def)
qed

text \<open>The sample with its second block invalid and the third one marked as its descendant.\<close>

definition sample_failed :: chainstate where
  "sample_failed = update_block 2 (\<lambda>b. b\<lparr>nStatus := nStatus b OR BLOCK_FAILED_CHILD\<rparr>) (update_block 1 (\<lambda>b. b\<lparr>nStatus := nStatus b OR BLOCK_FAILED_VALID\<rparr>) sample_state)"

lemma sample_failed_tree: "same_tree sample_state sample_failed"
  by (simp add: same_tree_def sample_failed_def update_block_def core_def)

theorem ReconsiderBlock_clears_witness:
  "\<exists>st'. failed (store sample_failed 1) \<and> failed (store sample_failed 2) \<and> ReconsiderBlock 1 sample_failed = Some (Inr st') \<and> \<not> failed (store st' 1) \<and> \<not> failed (store st' 2)"
proof -
  have "Tip (chainActive sample_failed) = Some 0" by (simp add: sample_failed_def update_block_def Tip_def)
  then obtain st' where "ReconsiderBlock 1 sample_failed = Some (Inr st')"
      "\<And>x. failed (store st' x) \<Longrightarrow> \<not> is_ancestor (store sample_failed) 1 x"
    using ReconsiderBlock_clears [OF same_tree_index_ok [OF sample_index_ok sample_failed_tree], of 0 1] by auto
  moreover have "is_ancestor (store sample_failed) 1 2"
    using is_ancestor_parent [OF is_ancestor_refl, of "store sample_failed" 2 1] same_treeD(2) [OF sample_failed_tree, of 2] by simp
  moreover have "failed (store sample_failed 1)" "failed (store sample_failed 2)"
    by (simp_all add: sample_failed_def update_block_def failed_def block_status_defs)
  ultimately show ?thesis using is_ancestor_refl by blast
qed

end
