(* ===== verification/Invalidate.thy ===== *)
theory Invalidate
  imports Activate_Genesis Tree_Properties
begin

unbundle bit_operations_syntax

text \<open>
  What an operator may ask of the block tree: \<open>InvalidateBlock\<close> and \<open>PreciousBlock\<close> of
  \<open>src/src/validation.cpp\<close>.  The memory pool is left out.

  Shown: invalidating a block other than the genesis block returns, cuts the active chain below the block when it was
  on it, marks the block as failed, marks only descendants of it otherwise, and keeps the invariants of the tree.
\<close>

section \<open>Operations\<close>

definition fail_block :: "u32 \<Rightarrow> block_ptr \<Rightarrow> chainstate \<Rightarrow> chainstate" where
  "fail_block flag p st = erase_candidate p (mark_dirty p (update_block p (\<lambda>b. b\<lparr>nStatus := nStatus b OR flag\<rparr>) st))"

definition lower_best_header :: "block_ptr \<Rightarrow> chainstate \<Rightarrow> chainstate" where
  "lower_best_header p st =
     (if pindexBestHeader st = Some p then st\<lparr>pindexBestInvalid := Some p, pindexBestHeader := pprev (store st p)\<rparr> else st)"

partial_function (option) invalidate_loop :: "act_env \<Rightarrow> block_ptr \<Rightarrow> chainstate \<Rightarrow> fork_state \<Rightarrow> bool act_result" where
  [code]: "invalidate_loop env pindex st w =
     (if Contains (store st) (chainActive st) pindex then
        (case Tip (chainActive st) of
           None \<Rightarrow> Some (Inl TreeNull)
         | Some pindexWalk \<Rightarrow>
             obind (DisconnectTip env (fail_block BLOCK_FAILED_CHILD pindexWalk st) w) (\<lambda>(ok, st, w).
               if \<not> ok then Some (Inr (False, st, w)) else invalidate_loop env pindex (lower_best_header pindexWalk st) w))
      else Some (Inr (True, st, w)))"

text \<open>Every entry that may be followed and is not worse than the tip becomes a candidate again.\<close>

fun readd_candidates :: "(uint256 \<times> block_ptr) list \<Rightarrow> chainstate \<Rightarrow> tree_error + chainstate" where
  "readd_candidates [] st = Inr st"
| "readd_candidates ((_, x) # es) st =
     ebind (is_valid (store st x) BLOCK_VALID_TRANSACTIONS) (\<lambda>v.
     ebind (if v \<and> nChainTx (store st x) \<noteq> 0
            then (case Tip (chainActive st) of
                    None \<Rightarrow> Inl TreeNull
                  | Some tip \<Rightarrow> Inr (if \<not> CBlockIndexWorkComparator (store st) x tip then insert_candidate x st else st))
            else Inr st) (readd_candidates es))"

definition InvalidateBlock :: "act_env \<Rightarrow> block_ptr \<Rightarrow> chainstate \<Rightarrow> fork_state \<Rightarrow> bool act_result" where
  "InvalidateBlock env pindex st w =
     obind (invalidate_loop env pindex (lower_best_header pindex (fail_block BLOCK_FAILED_VALID pindex st)) w) (\<lambda>(ok, st, w).
       if \<not> ok then (if Tip (chainActive st) = None then Some (Inl TreeNull) else Some (Inr (False, st, w)))
       else
         obind (Some (readd_candidates (mapBlockIndex st) st)) (\<lambda>st.
         obind (Some (InvalidChainFound (node env) pindex st w)) (\<lambda>(st, w).
         obind (Some (IsInitialBlockDownload (node env) st w)) (\<lambda>(_, w). Some (Inr (True, st, w))))))"

definition PreciousBlock :: "act_env \<Rightarrow> block_ptr \<Rightarrow> chainstate \<Rightarrow> fork_state \<Rightarrow> bool act_result" where
  "PreciousBlock env pindex st w =
     (case Tip (chainActive st) of
        None \<Rightarrow> Some (Inl TreeNull)
      | Some tip \<Rightarrow>
          if CompareTo (nChainWork (store st pindex)) (nChainWork (store st tip)) < 0 then Some (Inr (True, st, w))
          else
            let st = (if CompareTo (nChainWork (store st tip)) (nLastPreciousChainwork st) > 0 then st\<lparr>nBlockReverseSequenceId := - 1\<rparr> else st);
                st = erase_candidate pindex (st\<lparr>nLastPreciousChainwork := nChainWork (store st tip)\<rparr>);
                st = update_block pindex (\<lambda>b. b\<lparr>nSequenceId := nBlockReverseSequenceId st\<rparr>) st;
                st = (if nBlockReverseSequenceId st > - (2 ^ 31) then st\<lparr>nBlockReverseSequenceId := nBlockReverseSequenceId st - 1\<rparr> else st)
            in obind (Some (ebind (is_valid (store st pindex) BLOCK_VALID_TRANSACTIONS) (\<lambda>v.
                 if v \<and> nChainTx (store st pindex) \<noteq> 0 then PruneBlockIndexCandidates (insert_candidate pindex st) else Inr st))) (\<lambda>st.
               ActivateBestChain env st w))"

section \<open>Failing blocks\<close>

text \<open>Only descendants of \<open>p\<close> are marked on the way from one state to another.\<close>

definition fails :: "block_ptr \<Rightarrow> chainstate \<Rightarrow> chainstate \<Rightarrow> bool" where
  "fails p st st' \<longleftrightarrow> same_tree st st' \<and> CBlockIndexWorkComparator (store st') = CBlockIndexWorkComparator (store st) \<and>
     (\<forall>x. is_linked (store st') x = is_linked (store st) x \<and> (failed (store st x) \<longrightarrow> failed (store st' x)) \<and>
        (failed (store st' x) \<longrightarrow> failed (store st x) \<or> is_ancestor (store st) p x) \<and>
        nStatus (store st' x) AND BLOCK_VALID_MASK = nStatus (store st x) AND BLOCK_VALID_MASK)"

lemma fails_trans: "fails p st st1 \<Longrightarrow> fails p st1 st2 \<Longrightarrow> fails p st st2"
  using same_tree_trans [of st st1 st2] same_treeD(12) [of st st1] unfolding fails_def by auto

lemma fail_block_ok:
  assumes inv: "tree_above F st" and x: "x \<in> blocks_of st" "is_ancestor (store st) p x" and m: "m = BLOCK_FAILED_VALID \<or> m = BLOCK_FAILED_CHILD"
  shows "tree_above F (fail_block m x st)" "fails p st (fail_block m x st)" "failed (store (fail_block m x st) x)"
    "chainActive (fail_block m x st) = chainActive st" "pindexBestHeader (fail_block m x st) = pindexBestHeader st"
proof -
  let ?st = "fail_block m x st" and ?lt = "CBlockIndexWorkComparator (store st)"
  have mk: "marks m {x} st ?st" using m by (simp add: marks_def marked_def mark_dirty_def fail_block_def)
  have works: "wf_works (store st)" and ok: "cands_above F st" using inv index_okD(10) [of st] by (simp_all add: tree_above_def wf_works_def)
  note ord = work_set_order [OF works]
  have "setBlockIndexCandidates ?st = set_erase ?lt x (setBlockIndexCandidates st)"
    using marksD(17) [OF mk] by (simp add: fail_block_def mark_dirty_def)
  then have cs: "sorted_wrt ?lt (setBlockIndexCandidates ?st)" "set (setBlockIndexCandidates ?st) = set (setBlockIndexCandidates st) - {x}"
    using set_order.sorted_set_erase [OF ord cands_okD(1) [OF ok]] set_order.set_set_erase [OF ord cands_okD(1) [OF ok]] by simp_all
  show f: "failed (store ?st x)" using failed_marks(1,2) [of "store st x"] m by (auto simp: marked_def mark_dirty_def fail_block_def)
  then have "tainted (store ?st) x" by (subst tainted_iff) simp
  then show "tree_above F ?st" using x(1) cs by (intro marks_tree_inv [OF inv mk]) auto
  show "chainActive ?st = chainActive st" "pindexBestHeader ?st = pindexBestHeader st" by (rule marksD(2,19) [OF mk])+
  have "store ?st y = store st y" if "y \<notin> blocks_of st" for y using that x(1) by (intro marksD(18) [OF mk]) auto
  then have "same_tree st ?st" by (simp add: same_tree_def marksD(1,10) [OF mk])
  then show "fails p st ?st" unfolding fails_def using marksD(12-15,17) [OF mk] x(2) by blast
qed

lemma lower_best_header_simps [simp]:
  "store (lower_best_header x st) = store st" "chainActive (lower_best_header x st) = chainActive st" "mapBlockIndex (lower_best_header x st) = mapBlockIndex st"
  "setBlockIndexCandidates (lower_best_header x st) = setBlockIndexCandidates st" "mapBlocksUnlinked (lower_best_header x st) = mapBlocksUnlinked st"
  by (simp_all add: lower_best_header_def)

lemma chain_kept [simp]:
  "fails p st (st\<lparr>chainActive := v\<rparr>)" "fails p st (lower_best_header x st)" "tree_above F (lower_best_header x st) = tree_above F st"
  by (simp_all add: fails_def same_tree_def tree_above_def index_ok_def levels_ok_def linking_def cands_above_def blocks_of_def)

text \<open>One round of the loop: the tip \<open>k\<close>, a descendant of \<open>p\<close>, fails and its parent becomes the tip.\<close>

lemma invalidate_round:
  assumes inv: "tree_above F st" and k: "chainActive st = chain_of (store st) k" "is_ancestor (store st) p k" "pprev (store st k) = Some q"
    and best: "pindexBestHeader st \<noteq> None" "forks_ok w" and undo: "undo_ok env k"
  shows "\<exists>st' w'. invalidate_loop env p st w = invalidate_loop env p st' w' \<and> tree_above F st' \<and> fails p st st' \<and> chainActive st' = chain_of (store st') q \<and>
    pindexBestHeader st' \<noteq> None \<and> forks_ok w'"
proof -
  let ?f = "fail_block BLOCK_FAILED_CHILD k st"
  have ix: "index_ok st" and tree: "block_tree (store st)" using inv index_okD(7) by (auto simp: tree_above_def)
  have "k \<in> blocks_of st" using parent_in_index [OF ix] k(3) by simp
  note f = fail_block_ok [OF inv this k(2), of BLOCK_FAILED_CHILD, simplified]
  have same: "same_tree st ?f" using f(2) by (simp add: fails_def)
  have chain: "chain_of (store ?f) x = chain_of (store st) x" for x by (rule chain_of_cong) (simp_all add: same_treeD(4,11) [OF same])
  have "is_chain (store ?f) (chainActive ?f)" using f(4) k(1) chain by (auto simp: is_chain_def)
  from UpdateTip_ok [OF _ this _ best(2), of env q] obtain w1 where w1: "UpdateTip env (Some q) ?f w = Some (Inr ((), ?f\<lparr>chainActive := chain_of (store ?f) q\<rparr>, w1))" "forks_ok w1"
    using tree f(5) best same_treeD(13) [OF same] by auto
  let ?st = "lower_best_header k (?f\<lparr>chainActive := chain_of (store ?f) q\<rparr>)"
  have "DisconnectTip env ?f w = Some (Inr (True, ?f\<lparr>chainActive := chain_of (store ?f) q\<rparr>, w1))"
    using w1(1) f(4) k(1,3) undo same_treeD(2) [OF same] by (simp add: DisconnectTip_def)
  moreover have "Contains (store st) (chainActive st) p" using k(1,2) Contains_chain_of [OF tree] by (simp add: is_ancestor_def)
  ultimately have "invalidate_loop env p st w = invalidate_loop env p ?st w1" using k(1) by (subst invalidate_loop.simps) simp
  moreover have "fails p st ?st" using fails_trans [OF f(2) fails_trans [OF chain_kept(1) chain_kept(2)]] by simp
  moreover have "pindexBestHeader ?st \<noteq> None" using best(1) f(5) k(3) same_treeD(2) [OF same] by (simp add: lower_best_header_def)
  ultimately show ?thesis using f(1) w1(2) by (intro exI [of _ ?st] exI [of _ w1]) simp
qed

lemma invalidate_loop_ok:
  assumes "tree_above F st" "chainActive st = chain_of (store st) k" "back_by (store st) n k = Some p" "pprev (store st p) = Some q"
    "pindexBestHeader st \<noteq> None" "forks_ok w" "\<And>x. undo_ok env x"
  shows "\<exists>st' w'. invalidate_loop env p st w = Some (Inr (True, st', w')) \<and> tree_above F st' \<and> fails p st st' \<and> chainActive st' = chain_of (store st') q \<and>
    pindexBestHeader st' \<noteq> None \<and> forks_ok w'"
  using assms
proof (induction n arbitrary: k st w)
  case 0
  then have k: "k = p" by simp
  from invalidate_round [OF 0(1) 0(2) _ _ 0(5,6) 0(7), of p q] 0(4) obtain st1 w1 where
    r: "invalidate_loop env p st w = invalidate_loop env p st1 w1" "tree_above F st1" "fails p st st1" "chainActive st1 = chain_of (store st1) q"
      "pindexBestHeader st1 \<noteq> None" "forks_ok w1" unfolding k by auto
  have tree: "block_tree (store st1)" using r(2) index_okD(7) by (auto simp: tree_above_def)
  have "pprev (store st1 p) = Some q" using r(3) 0(4) same_treeD(2) [of st st1] by (simp add: fails_def)
  then have "nHeight (store st1 q) < nHeight (store st1 p)" using block_tree_parent [OF tree] by simp
  then have "\<not> Contains (store st1) (chainActive st1) p" unfolding r(4) Contains_chain_of [OF tree] using is_ancestor_height [OF tree, of p q] by (auto simp: is_ancestor_def)
  then have "invalidate_loop env p st1 w1 = Some (Inr (True, st1, w1))" by (subst invalidate_loop.simps) simp
  then show ?case using r by auto
next
  case (Suc n)
  obtain k' where k': "pprev (store st k) = Some k'" "back_by (store st) n k' = Some p" using Suc.prems(3) by (auto split: option.splits)
  have "is_ancestor (store st) p k" using Suc.prems(3) unfolding is_ancestor_def by blast
  from invalidate_round [OF Suc.prems(1,2) this k'(1) Suc.prems(5,6,7)] obtain st1 w1 where
    r: "invalidate_loop env p st w = invalidate_loop env p st1 w1" "tree_above F st1" "fails p st st1" "chainActive st1 = chain_of (store st1) k'"
      "pindexBestHeader st1 \<noteq> None" "forks_ok w1" by auto
  have same: "same_tree st st1" using r(3) by (simp add: fails_def)
  have "back_by (store st1) n k' = Some p" "pprev (store st1 p) = Some q" using k'(2) Suc.prems(4) same_treeD(2,11) [OF same] by simp_all
  from Suc.IH [OF r(2,4) this r(5,6) Suc.prems(7)] show ?case using r(1) fails_trans [OF r(3)] by auto
qed

section \<open>The candidates\<close>

lemma readd_candidates_ok:
  assumes "wf_works (store st)" "Tip (chainActive st) = Some k" "sorted_wrt (CBlockIndexWorkComparator (store st)) (setBlockIndexCandidates st)"
  shows "\<exists>cs. readd_candidates es st = Inr (st\<lparr>setBlockIndexCandidates := cs\<rparr>) \<and> sorted_wrt (CBlockIndexWorkComparator (store st)) cs \<and>
    set cs = set (setBlockIndexCandidates st) \<union> {x \<in> snd ` set es. \<not> failed (store st x) \<and> BLOCK_VALID_TRANSACTIONS \<le> nStatus (store st x) AND BLOCK_VALID_MASK \<and>
      is_linked (store st) x \<and> \<not> CBlockIndexWorkComparator (store st) x k}"
  using assms
proof (induction es arbitrary: st)
  case Nil
  then show ?case by (intro exI [of _ "setBlockIndexCandidates st"]) simp
next
  case (Cons e es)
  obtain h x where e: "e = (h, x)" by (rule prod.exhaust)
  let ?lt = "CBlockIndexWorkComparator (store st)"
  let ?c = "\<not> failed (store st x) \<and> BLOCK_VALID_TRANSACTIONS \<le> nStatus (store st x) AND BLOCK_VALID_MASK \<and> is_linked (store st) x \<and> \<not> ?lt x k"
  let ?st = "if ?c then insert_candidate x st else st"
  have eq: "readd_candidates (e # es) st = readd_candidates es ?st" using Cons.prems(2) by (simp add: e is_valid_transactions is_linked_def)
  note ord = work_set_order [OF Cons.prems(1)]
  obtain cs0 where st1: "?st = st\<lparr>setBlockIndexCandidates := cs0\<rparr>" "sorted_wrt ?lt cs0" "set cs0 = set (setBlockIndexCandidates st) \<union> (if ?c then {x} else {})"
  proof
    let ?cs = "if ?c then set_insert ?lt x (setBlockIndexCandidates st) else setBlockIndexCandidates st"
    show "?st = st\<lparr>setBlockIndexCandidates := ?cs\<rparr>" by (simp add: insert_candidate_def)
    show "sorted_wrt ?lt ?cs" using set_order.sorted_set_insert [OF ord Cons.prems(3)] Cons.prems(3) by simp
    show "set ?cs = set (setBlockIndexCandidates st) \<union> (if ?c then {x} else {})" using set_order.set_set_insert [OF ord] by simp
  qed
  from Cons.IH [of "st\<lparr>setBlockIndexCandidates := cs0\<rparr>"] Cons.prems st1(2) obtain cs where
    cs: "readd_candidates es (st\<lparr>setBlockIndexCandidates := cs0\<rparr>) = Inr (st\<lparr>setBlockIndexCandidates := cs\<rparr>)" "sorted_wrt ?lt cs"
      "set cs = set cs0 \<union> {x \<in> snd ` set es. \<not> failed (store st x) \<and> BLOCK_VALID_TRANSACTIONS \<le> nStatus (store st x) AND BLOCK_VALID_MASK \<and> is_linked (store st) x \<and> \<not> ?lt x k}"
    by auto
  show ?case using eq cs st1 by (intro exI [of _ cs]) (auto simp: e)
qed

section \<open>Property\<close>

lemma invalidate_chain:
  assumes inv: "chain_inv st" and t: "Tip (chainActive st) = Some t" and p: "pprev (store st p) = Some q"
    and best: "pindexBestHeader st \<noteq> None" "forks_ok w" and undo: "\<And>x. undo_ok env x"
  shows "\<exists>st' w'. invalidate_loop env p (lower_best_header p (fail_block BLOCK_FAILED_VALID p st)) w = Some (Inr (True, st', w')) \<and> tree_above (Some t) st' \<and> fails p st st' \<and>
    chainActive st' = chain_of (store st') (if is_ancestor (store st) p t then q else t) \<and> failed (store st' p) \<and> pindexBestHeader st' \<noteq> None \<and> forks_ok w'"
proof -
  have tr: "tree_above (Some t) st" "index_ok st" "block_tree (store st)" using inv t index_okD(7) by (auto simp: chain_above_def tree_above_def)
  have chain: "chainActive st = chain_of (store st) t" using inv t by (auto elim: chain_invE)
  let ?f = "fail_block BLOCK_FAILED_VALID p st" and ?st = "lower_best_header p (fail_block BLOCK_FAILED_VALID p st)"
  have "p \<in> blocks_of st" using parent_in_index [OF tr(2)] p by simp
  note f = fail_block_ok [OF tr(1) this is_ancestor_refl, of BLOCK_FAILED_VALID, simplified]
  have same: "same_tree st ?f" using f(2) by (simp add: fails_def)
  have ch: "chain_of (store ?f) t = chain_of (store st) t" by (rule chain_of_cong) (simp_all add: same_treeD(4,11) [OF same])
  have s: "tree_above (Some t) ?st" "chainActive ?st = chain_of (store ?st) t" "pprev (store ?st p) = Some q" "fails p st ?st" "failed (store ?st p)"
    using f(1,3,4) p same_treeD(2) [OF same] chain ch fails_trans [OF f(2) chain_kept(2)] by simp_all
  have bh: "pindexBestHeader ?st \<noteq> None" using best(1) f(5) p same_treeD(2) [OF same] by (simp add: lower_best_header_def)
  show ?thesis
  proof (cases "is_ancestor (store st) p t")
    case True
    then obtain n where "back_by (store ?st) n t = Some p" using same_treeD(11) [OF same] by (auto simp: is_ancestor_def)
    from invalidate_loop_ok [OF s(1,2) this s(3) bh best(2) undo] obtain st' w' where
      l: "invalidate_loop env p ?st w = Some (Inr (True, st', w'))" "tree_above (Some t) st'" "fails p ?st st'" "chainActive st' = chain_of (store st') q"
        "pindexBestHeader st' \<noteq> None" "forks_ok w'" by blast
    then show ?thesis using True s(5) fails_trans [OF s(4) l(3)] by (auto simp: fails_def)
  next
    case False
    have "\<not> Contains (store ?st) (chainActive ?st) p"
      using False same_treeD(11,13) [OF same] tr(3) unfolding s(2) by (subst Contains_chain_of) (auto simp: is_ancestor_def)
    then have "invalidate_loop env p ?st w = Some (Inr (True, ?st, w))" by (subst invalidate_loop.simps) simp
    then show ?thesis using s bh False best(2) by simp
  qed
qed

lemma invalidated_tip:
  assumes inv: "chain_inv st" and t: "Tip (chainActive st) = Some t" and p: "pprev (store st p) = Some q" and f: "fails p st st'"
  shows "is_linked (store st') (if is_ancestor (store st) p t then q else t)" (is "is_linked _ ?k") "\<not> tainted (store st') (if is_ancestor (store st) p t then q else t)"
proof -
  let ?S = "store st"
  have tr: "block_tree ?S" "linking [] st" using inv index_okD(7) by (auto simp: chain_above_def tree_above_def)
  have tip: "is_linked ?S t" "\<not> tainted ?S t" using inv t by (auto elim: chain_invE)
  have kt: "is_ancestor ?S ?k t" using is_ancestor_parent [of ?S p t q] p by simp
  have pk: "\<not> is_ancestor ?S p ?k"
    using is_ancestor_height [OF tr(1), of p q] block_tree_parent [OF tr(1) p] by auto
  have same: "same_tree st st'" using f by (simp add: fails_def)
  have "is_linked ?S ?k" using linked_ancestor [OF tr(2) tip(1)] kt unfolding is_ancestor_def by blast
  then show "is_linked (store st') ?k" using f by (simp add: fails_def)
  show "\<not> tainted (store st') ?k"
  proof
    assume "tainted (store st') ?k"
    then obtain a where a: "is_ancestor ?S a ?k" "failed (store st' a)" unfolding tainted_def same_treeD(12) [OF same] by blast
    then have "failed (?S a) \<or> is_ancestor ?S p a" using f unfolding fails_def by blast
    then show False using a(1) is_ancestor_trans kt pk tip(2) unfolding tainted_def by blast
  qed
qed

lemma readded:
  assumes inv: "tree_above (Some t) st" and k: "chainActive st = chain_of (store st) k" "is_linked (store st) k"
    and valid: "\<And>x. is_linked (store st) x \<Longrightarrow> BLOCK_VALID_TRANSACTIONS \<le> nStatus (store st x) AND BLOCK_VALID_MASK"
  shows "\<exists>cs. readd_candidates (mapBlockIndex st) st = Inr (st\<lparr>setBlockIndexCandidates := cs\<rparr>) \<and> cands_above (Some k) (st\<lparr>setBlockIndexCandidates := cs\<rparr>)"
proof -
  let ?lt = "CBlockIndexWorkComparator (store st)"
  have ix: "index_ok st" and ok: "cands_above (Some t) st" using inv by (simp_all add: tree_above_def)
  have works: "wf_works (store st)" using index_okD(10) [OF ix] by (simp add: wf_works_def)
  obtain cs where cs: "readd_candidates (mapBlockIndex st) st = Inr (st\<lparr>setBlockIndexCandidates := cs\<rparr>)" "sorted_wrt ?lt cs"
      "set cs = set (setBlockIndexCandidates st) \<union> {x \<in> snd ` set (mapBlockIndex st). \<not> failed (store st x) \<and>
         BLOCK_VALID_TRANSACTIONS \<le> nStatus (store st x) AND BLOCK_VALID_MASK \<and> is_linked (store st) x \<and> \<not> ?lt x k}"
    using readd_candidates_ok [OF works _ cands_okD(1) [OF ok], of k "mapBlockIndex st"] k(1) by auto
  have "x \<in> snd ` set (mapBlockIndex st)" if "is_linked (store st) x" for x
    using that index_okD(4) [OF ix, of x] by (fastforce simp: blocks_of_def is_linked_def CBlockIndex_SetNull_def)
  moreover have "\<not> failed (store st x)" if "\<not> tainted (store st) x" for x using that by (subst (asm) tainted_iff) simp
  ultimately have "cands_above (Some k) (st\<lparr>setBlockIndexCandidates := cs\<rparr>)"
    using cs(2,3) cands_okD(2) [OF ok] k(2) valid by (auto simp: cands_above_def)
  then show ?thesis using cs(1) by blast
qed

text \<open>C19. Invalidating a block other than the genesis block returns.  When the block was on the active chain, its parent becomes the
  tip, otherwise the tip stays; the block is marked as failed, only its descendants may be marked besides, and the
  invariants of the tree and of the active chain hold again: in particular every block that may be followed and is not worse
  than the new tip is a candidate.\<close>

theorem InvalidateBlock_cuts:
  assumes inv: "chain_inv st" and t: "Tip (chainActive st) = Some t" and p: "pprev (store st p) = Some q"
    and best: "pindexBestHeader st \<noteq> None" "forks_ok w" and undo: "\<And>x. undo_ok env x"
    and valid: "\<And>x. is_linked (store st) x \<Longrightarrow> BLOCK_VALID_TRANSACTIONS \<le> nStatus (store st x) AND BLOCK_VALID_MASK"
  shows "\<exists>st' w'. InvalidateBlock env p st w = Some (Inr (True, st', w')) \<and> chain_inv st' \<and> same_tree st st' \<and> failed (store st' p) \<and>
    Tip (chainActive st') = Some (if is_ancestor (store st) p t then q else t) \<and>
    (\<forall>x. failed (store st' x) \<longrightarrow> failed (store st x) \<or> is_ancestor (store st) p x)"
proof -
  let ?k = "if is_ancestor (store st) p t then q else t" and ?init = "lower_best_header p (fail_block BLOCK_FAILED_VALID p st)"
  obtain st1 w1 where l: "invalidate_loop env p ?init w = Some (Inr (True, st1, w1))" "tree_above (Some t) st1" "fails p st st1"
      "chainActive st1 = chain_of (store st1) ?k" "failed (store st1 p)" "pindexBestHeader st1 \<noteq> None" "forks_ok w1"
    using invalidate_chain [OF inv t p best undo] by blast
  have k: "is_linked (store st1) ?k" "\<not> tainted (store st1) ?k" using invalidated_tip [OF inv t p l(3)] by simp_all
  have "BLOCK_VALID_TRANSACTIONS \<le> nStatus (store st1 x) AND BLOCK_VALID_MASK" if "is_linked (store st1) x" for x using that valid l(3) by (simp add: fails_def)
  then obtain cs where cs: "readd_candidates (mapBlockIndex st1) st1 = Inr (st1\<lparr>setBlockIndexCandidates := cs\<rparr>)" "cands_above (Some ?k) (st1\<lparr>setBlockIndexCandidates := cs\<rparr>)"
    using readded [OF l(2,4) k(1)] by blast
  let ?st = "st1\<lparr>setBlockIndexCandidates := cs\<rparr>"
  obtain st2 w2 where st2: "InvalidChainFound (node env) p ?st w1 = Inr (st2, w2)" "forks_ok w2"
    using InvalidChainFound_ok [of ?st w1 "node env" p] l(4,6,7) by auto
  then have e: "st2 = ?st \<or> st2 = ?st\<lparr>pindexBestInvalid := Some p\<rparr>" by (auto dest: InvalidChainFound_eq)
  then have q: "quiet st1 st2" "chainActive st2 = chainActive st1" by (auto simp: quiet_def)
  have "cands_above (Some ?k) st2" using e cs(2) by (auto simp: cands_above_def)
  then have tree: "tree_above (Some ?k) st2" using quiet_tree_above [OF l(2) q(1)] by blast
  have tip: "chainActive st2 = chain_of (store st2) ?k" using q(2) l(4) quietD(19) [OF q(1)] by simp
  then have "chain_inv st2" using tree k quietD(13,14) [OF q(1)] by (auto simp: chain_above_def)
  moreover obtain b w3 where "IsInitialBlockDownload (node env) st2 w2 = Inr (b, w3)"
    using IsInitialBlockDownload_ok [of st2 w2 "node env"] st2(2) l(6) quietD(3) [OF q(1)] by auto
  then have "InvalidateBlock env p st w = Some (Inr (True, st2, w3))" using l(1) cs(1) st2(1) by (simp add: InvalidateBlock_def)
  ultimately show ?thesis using tip l(3,5) quietD(10) [OF q(1)] same_tree_trans [OF _ quietD(20) [OF q(1)], of st] unfolding fails_def by auto
qed

text \<open>The sample with its last block as the tip.\<close>

definition sample_long :: chainstate where
  "sample_long = sample_state\<lparr>chainActive := chain_of (store sample_state) 2\<rparr>"

lemma sample_long_inv: "chain_inv sample_long"
proof -
  have "tree_above (Some 0) sample_state" using sample_chain_inv by (simp add: chain_above_def Tip_def)
  then have "tree_above (Some 2) sample_state" by (auto simp: tree_above_def cands_above_def)
  moreover have "\<not> tainted (store sample_state) 2" by (auto simp: tainted_def failed_def block_status_defs)
  ultimately show ?thesis by (auto simp: chain_above_def sample_long_def)
qed

theorem InvalidateBlock_cuts_witness:
  "\<exists>st' w'. InvalidateBlock sample_env 1 sample_long sample_forks = Some (Inr (True, st', w')) \<and> chain_inv st' \<and> failed (store st' 1) \<and> Tip (chainActive st') = Some 0"
proof -
  have "Tip (chainActive sample_long) = Some 2" "pprev (store sample_long 1) = Some 0" "pindexBestHeader sample_long \<noteq> None" "forks_ok sample_forks"
    "\<And>x. undo_ok sample_env x" "is_ancestor (store sample_long) 1 2"
    "\<And>x. is_linked (store sample_long) x \<Longrightarrow> BLOCK_VALID_TRANSACTIONS \<le> nStatus (store sample_long x) AND BLOCK_VALID_MASK"
    by (simp_all add: sample_long_def forks_ok_def sample_forks_def sample_env_def block_status_defs)
  from InvalidateBlock_cuts [OF sample_long_inv this(1-5,7)] this(6) show ?thesis by auto
qed

end
