(* ===== verification/Spec2Isabelle.thy ===== *)
theory Spec2Isabelle
  imports Merkle Utxo Versionbits Node Reconsider Invalidate
begin

text \<open>
  Verification of the consensus code of the Cash (0DYNC) node, the C++ program under \<open>src/src/\<close>.

  \<^bold>\<open>The program.\<close>  The node keeps a tree of block headers, the data of the blocks it has received, and the set of
  unspent coins at the tip of one chain of the tree.  A block that arrives is checked by itself and in its place, stored, linked
  to its ancestors, and the chain with the most work that connects is made active: blocks are disconnected down to the
  fork and connected up to the new tip, which spends and creates coins.  Scripts say who may spend a coin.  All
  functions below are translated from the source with their guards, early returns, assertions and machine widths.

  \<^bold>\<open>How code becomes definitions.\<close>  A struct is a record, an enum a datatype, a \<open>w\<close>-bit integer a \<open>w\<close>-bit word;
  \<open>int64_t\<close> amounts are integers whose overflow is an error value.  Exceptions, failed assertions and null
  dereferences are values of an error type on the left of a sum.  A function that returns \<open>false\<close> with a
  \<open>CValidationState\<close> has the type \<open>'a checked\<close>, with the state on the left.  State is passed explicitly.  Pointers
  into the block index are addresses (\<open>block_ptr\<close>) of a store.  Loops without an evident bound are
  \<open>partial_function (option)\<close>, where \<open>None\<close> means that the loop does not return, and the theorems show that it does; there is
  no fuel.  Hash functions, signature checks, the disk, the clock and protocols outside the chain are arguments.

  \<^bold>\<open>Theories.\<close>

  \<^item> \<open>Cash_Prelude\<close>: results, words and lists that the other theories share.

  \<^item> \<open>Merkle\<close> (\<open>consensus/merkle.cpp\<close>): the constant-space calculator equals the recursive Merkle root, branches
    lead to the root, and lists that collide by duplication are reported as mutated.

  \<^item> \<open>Serialize\<close> (\<open>serialize.h\<close>, \<open>streams.h\<close>, \<open>crypto/common.h\<close>): the locale \<open>codec\<close> states what a
    writer and a reader promise each other, \<open>canonical_codec\<close> that the reader accepts nothing else; both are
    interpreted for the formats, and vectors and pairs are built in the locale.  \<open>Script\<close>, \<open>Transaction\<close>, \<open>Amount\<close>,
    \<open>Block\<close>, \<open>Compressor\<close> (\<open>script/script.h\<close>, \<open>script/script.cpp\<close>, \<open>primitives/\<close>, \<open>amount.h\<close>, \<open>chain.h\<close>,
    \<open>compressor.cpp\<close>): the formats of scripts, numbers, transactions, blocks, disk records and compact coins read back
    exactly what was written.

  \<^item> \<open>Interpreter\<close>, \<open>Interpreter_Limits\<close>, \<open>Interpreter_Verify\<close>, \<open>Sighash\<close>
    (\<open>script/interpreter.cpp\<close>): the whole script machine.  Resource limits hold in every run; a script that succeeds was
    executed to its end; multi-signature checking is an order-preserving matching of signatures to keys; the two
    standard kinds of outputs are spent exactly by their keys or scripts; the streaming signature hash equals the
    reference computation and commits to the transaction.

  \<^item> \<open>Coins\<close>, \<open>CoinsDB\<close>, \<open>Utxo\<close> (\<open>coins.cpp\<close>, \<open>dbwrapper.h\<close>, \<open>txdb.cpp\<close>, \<open>undo.h\<close>, parts of
    \<open>validation.cpp\<close>): every sequence of operations on a stack of caches over the database behaves like one map from
    outpoints to coins; flushing reaches the database; disconnecting a block undoes connecting it.  The locale of a coin view is
    interpreted for the database and, in layers, for the cache.

  \<^item> \<open>Arith_Uint256\<close>, \<open>Pow\<close>, \<open>Chain\<close>, \<open>Versionbits\<close> (\<open>arith_uint256.cpp\<close>, \<open>pow.cpp\<close>, \<open>chain.cpp\<close>,
    \<open>chain.h\<close>, \<open>versionbits.cpp\<close>): limb arithmetic equals arithmetic modulo 2^256; the difficulty rule and the work
    of a block; the skip list finds the ancestor that the parents lead to; the active chain and locators; the cached state
    machine of deployments equals BIP 9.

  \<^item> \<open>Tx_Checks\<close>, \<open>Block_Checks\<close>, \<open>Block_Properties\<close> (\<open>validation.cpp\<close>, \<open>consensus/validation.h\<close>,
    \<open>fluid/fluid.cpp\<close>, \<open>checkpoints.cpp\<close>): the checks of transactions accept exactly what their rules say, relative lock
    times follow BIP 68, and a header is blamed only for transactions it commits to.

  \<^item> \<open>Block_Tree\<close>, \<open>Block_Data\<close>, \<open>Best_Chain\<close>, \<open>Invalid_Blocks\<close>, \<open>Tree_Steps\<close>, \<open>Tree_Sample\<close>,
    \<open>Tree_Properties\<close>, \<open>Reconsider\<close> (\<open>validation.cpp\<close>): the index, the candidates for the tip and the blocks that wait
    for an ancestor, with the invariant \<open>chain_inv\<close> that headers, block data, invalid blocks and the search keep; the
    locale \<open>set_order\<close> carries the ordered sets.

  \<^item> \<open>Activate\<close>, \<open>Activate_Correct\<close>, \<open>Activate_Genesis\<close>, \<open>Invalidate\<close> (\<open>validation.cpp\<close>): the
    activation of the best chain ends, and its tip is the best block whose chain connects, also from the empty chain;
    invalidating a block cuts the chain and restores the candidates.

  \<^item> \<open>Block_Files\<close> (\<open>validation.cpp\<close>): places in the block files never overlap.

  \<^item> \<open>Accept\<close>, \<open>Accept_Steps\<close>, \<open>Node\<close> (\<open>validation.cpp\<close>): the components together.  From the empty index, whatever
    headers and blocks arrive (\<open>reachable\<close>), the invariants of all of them hold (\<open>node_ok\<close>), and every processed
    block leaves the best chain active.

  \<^bold>\<open>What the theorems ask.\<close>  \<open>env_ok\<close>: no header hashes to zero, and only a header without a parent hashes to the genesis
  hash.  \<open>activation_ok\<close>: a block either connects or is invalid for good, and can be disconnected.  \<open>header_fits\<close> and
  \<open>block_fits\<close>: the address of a new entry is fresh, work stays below 2^256, and no chain has 2^32 transactions,
  which is what the widths of the fields allow.  Theorems about hashes name a collision instead of excluding it.

  \<^bold>\<open>Not modelled.\<close>  The verdict of \<open>ConnectBlock\<close> in the activation is an argument: the coins and scripts it depends on are
  modelled in \<open>Utxo\<close> and the interpreter, but the checks of payments to masternodes, BDAP and fluid records that it adds
  read databases that are not.  Also left out: reading, writing, flushing and pruning files; loading the index at
  the start; the memory pool and mining; the network, the wallet, RPC and the graphical interface; masternodes,
  governance, InstantSend, PrivateSend and the DHT; locks between threads; cryptography and third-party libraries.
\<close>

end
